(* ===== verification/Prelude.thy ===== *)
theory Prelude
  imports Main "HOL-Library.Word" "HOL-Library.Monad_Syntax"
begin

text \<open>
  What every component of the development shares.

  \<^item> The result of a piece of code is an option: \<open>None\<close> is ``does not return normally'', that is a
    loop that never ends, a failed \<open>assert\<close>, the dereference of a null pointer or of a freed block,
    an index past the end of an array, or a signed overflow.  The theorems about an operation show
    that it is \<open>Some\<close>.
  \<^item> A counted loop \<open>for (i = lo; i < hi; ++i) body\<close> is \<open>for_range lo hi body\<close>, with a rule that
    carries an invariant from index to index.
  \<^item> \<open>chain\<close> and \<open>lst\<close> relate a \<open>next\<close> field (a function from addresses to nullable addresses) to
    the list of addresses a traversal visits.
  \<^item> The locale \<open>invariant_system\<close> proves once that an inductive invariant holds in every
    reachable state; each step relation of the development interprets it.
\<close>

named_theorems heap_simps "loads from a memory after stores"
named_theorems word_mask "facts about power-of-two masks"

type_synonym u32 = "32 word"
type_synonym u64 = "64 word"

unbundle bit_operations_syntax

subsection \<open>Counted loops\<close>

primrec for_list :: "('i \<Rightarrow> 's \<Rightarrow> 's option) \<Rightarrow> 'i list \<Rightarrow> 's \<Rightarrow> 's option" where
  "for_list body [] s = Some s"
| "for_list body (i # is) s = do { s' \<leftarrow> body i s; for_list body is s' }"

definition for_range :: "nat \<Rightarrow> nat \<Rightarrow> (nat \<Rightarrow> 's \<Rightarrow> 's option) \<Rightarrow> 's \<Rightarrow> 's option" where
  "for_range lo hi body s = for_list body [lo..<hi] s"

lemma for_list_append:
  "for_list body (xs @ ys) s = do { s' \<leftarrow> for_list body xs s; for_list body ys s' }"
  by (induction xs arbitrary: s) (auto split: bind_splits)

lemma for_range_split:
  assumes "b < n"
  shows "for_range 0 n body s = do {
    s1 \<leftarrow> for_range 0 b body s; s2 \<leftarrow> body b s1; for_range (Suc b) n body s2 }"
proof -
  have "[0..<n] = [0..<b] @ b # [Suc b..<n]"
    using assms upt_add_eq_append [of 0 b "n - b"] by (simp add: upt_conv_Cons)
  then show ?thesis by (simp add: for_range_def for_list_append)
qed

lemma for_range_rule:
  assumes "lo \<le> hi" and "I lo s"
    and "\<And>i s. lo \<le> i \<Longrightarrow> i < hi \<Longrightarrow> I i s \<Longrightarrow> \<exists>s'. body i s = Some s' \<and> I (Suc i) s'"
  shows "\<exists>s'. for_range lo hi body s = Some s' \<and> I hi s'"
  using assms
proof (induction "hi - lo" arbitrary: lo s)
  case 0
  then show ?case by (simp add: for_range_def)
next
  case (Suc n)
  then have lt: "lo < hi" by simp
  with Suc.prems obtain s1 where s1: "body lo s = Some s1" "I (Suc lo) s1" by blast
  have "\<exists>s'. for_range (Suc lo) hi body s1 = Some s' \<and> I hi s'"
    using Suc.hyps(2) Suc.prems(3) lt s1(2) by (intro Suc.hyps(1)) auto
  then show ?case using lt s1(1) by (simp add: for_range_def upt_conv_Cons)
qed

text \<open>What every iteration keeps, a loop that returns has kept.\<close>

lemma for_range_keeps:
  assumes "for_range lo hi body s = Some s'" and "P s"
    and "\<And>i s s'. lo \<le> i \<Longrightarrow> i < hi \<Longrightarrow> body i s = Some s' \<Longrightarrow> P s \<Longrightarrow> P s'"
  shows "P s'"
proof -
  have "for_list body is t = Some s' \<Longrightarrow> set is \<subseteq> {lo ..< hi} \<Longrightarrow> P t \<Longrightarrow> P s'" for "is" t
    by (induction "is" arbitrary: t) (use assms(3) in \<open>fastforce split: bind_splits\<close>)+
  from this [of "[lo..<hi]" s] show ?thesis using assms(1,2) by (simp add: for_range_def)
qed

text \<open>A schedule of steps is a run of the step relation; \<open>None\<close> stands for the writer, \<open>Some i\<close> for the thread \<open>i\<close>.\<close>

lemma for_list_reach:
  assumes "for_list act as s = Some s'" and "\<And>a s s'. act a s = Some s' \<Longrightarrow> move s s'"
  shows "move\<^sup>*\<^sup>* s s'"
  using assms(1)
proof (induction as arbitrary: s)
  case (Cons a as)
  then obtain t where "act a s = Some t" "for_list act as t = Some s'" by (auto split: bind_splits)
  then show ?case using Cons.IH assms(2) converse_rtranclp_into_rtranclp [of move s t s'] by blast
qed simp

definition actor :: "('s \<Rightarrow> 's option) \<Rightarrow> (nat \<Rightarrow> 's \<Rightarrow> 's option) \<Rightarrow> nat option \<Rightarrow> 's \<Rightarrow> 's option" where
  "actor writerAct threadAct a = (case a of None \<Rightarrow> writerAct | Some i \<Rightarrow> threadAct i)"

lemma actor_simps [simp]: "actor w t None = w" "actor w t (Some i) = t i"
  by (simp_all add: actor_def)

lemma actors_reach:
  assumes "for_list (actor w t) as s = Some s'" and "\<And>s s'. w s = Some s' \<Longrightarrow> move s s'" and "\<And>i s s'. t i s = Some s' \<Longrightarrow> move s s'"
  shows "move\<^sup>*\<^sup>* s s'"
  by (rule for_list_reach [OF assms(1)]) (auto simp: actor_def intro: assms(2,3) split: option.splits)

text \<open>A loop whose bodies establish \<open>Post i\<close> from \<open>Pre i\<close> and do not disturb one another.\<close>

lemma for_range_each:
  assumes start: "\<And>i. i < n \<Longrightarrow> Pre i s" "Inv 0 s"
    and step: "\<And>i s. i < n \<Longrightarrow> Pre i s \<Longrightarrow> Inv i s \<Longrightarrow> \<exists>s'. body i s = Some s' \<and> Inv (Suc i) s' \<and> Post i s'
      \<and> (\<forall>i' < n. i' \<noteq> i \<longrightarrow> (Pre i' s \<longrightarrow> Pre i' s') \<and> (Post i' s \<longrightarrow> Post i' s'))"
  shows "\<exists>s'. for_range 0 n body s = Some s' \<and> Inv n s' \<and> (\<forall>i < n. Post i s')"
proof -
  have "\<exists>s'. for_range 0 n body s = Some s' \<and>
      (Inv n s' \<and> (\<forall>i < n. Post i s') \<and> (\<forall>i. n \<le> i \<longrightarrow> i < n \<longrightarrow> Pre i s'))"
  proof (rule for_range_rule [where I = "\<lambda>k s. Inv k s \<and> (\<forall>i < k. Post i s) \<and> (\<forall>i. k \<le> i \<longrightarrow> i < n \<longrightarrow> Pre i s)"])
    fix i s
    assume i: "i < n" and I: "Inv i s \<and> (\<forall>i' < i. Post i' s) \<and> (\<forall>i'. i \<le> i' \<longrightarrow> i' < n \<longrightarrow> Pre i' s)"
    then obtain s' where s': "body i s = Some s'" "Inv (Suc i) s'" "Post i s'"
      "\<forall>i' < n. i' \<noteq> i \<longrightarrow> (Pre i' s \<longrightarrow> Pre i' s') \<and> (Post i' s \<longrightarrow> Post i' s')"
      using step [of i s] by auto
    moreover have "Post i' s'" if "i' < Suc i" for i'
      using that s'(3,4) I i by (cases "i' = i") auto
    ultimately show "\<exists>s'. body i s = Some s' \<and> Inv (Suc i) s' \<and> (\<forall>i' < Suc i. Post i' s')
        \<and> (\<forall>i'. Suc i \<le> i' \<longrightarrow> i' < n \<longrightarrow> Pre i' s')"
      using I by auto
  qed (use start in auto)
  then show ?thesis by blast
qed

subsection \<open>Powers of two and bit masks\<close>

lemma unat_two_power [word_mask]:
  assumes "k < LENGTH('a)"
  shows "unat ((2 :: 'a::len word) ^ k) = 2 ^ k"
proof -
  have "unat ((2 :: 'a word) ^ k) = unat (of_nat (2 ^ k) :: 'a word)" by simp
  also have "\<dots> = 2 ^ k"
    using assms by (simp only: unsigned_of_nat take_bit_nat_eq_self_iff) simp
  finally show ?thesis .
qed

lemma and_mask_unat [word_mask]:
  assumes "k < LENGTH('a)"
  shows "unat (w AND (2 ^ k - 1 :: 'a::len word)) = unat w mod 2 ^ k"
proof -
  have "w AND (2 ^ k - 1) = take_bit k w"
    by (simp only: take_bit_eq_mask mask_eq_exp_minus_1)
  then show ?thesis by (simp only: unsigned_take_bit_eq) (simp only: take_bit_eq_mod)
qed

lemma and_mask_less [word_mask]:
  "k < LENGTH('a) \<Longrightarrow> unat (w AND (2 ^ k - 1 :: 'a::len word)) < 2 ^ k"
  by (simp add: and_mask_unat)

text \<open>Signed reading of a word whose top bit is clear.\<close>

lemma sint_small:
  assumes "unat (w :: 'a::len word) < 2 ^ (LENGTH('a) - 1)"
  shows "sint w = int (unat w)"
proof -
  have "int (unat w) < int (2 ^ (LENGTH('a) - 1))"
    using assms by (simp only: of_nat_less_iff)
  moreover have "- (2 ^ (LENGTH('a) - 1)) \<le> int (unat w)"
    by (rule order_trans [of _ 0]) simp_all
  ultimately have "signed_take_bit (LENGTH('a) - 1) (int (unat w)) = int (unat w)"
    by (intro signed_take_bit_int_eq_self) simp_all
  then show ?thesis by (simp add: sint_uint)
qed

lemma unat_add_small: "unat a + unat b < 2 ^ LENGTH('a) \<Longrightarrow> unat (a + b :: 'a::len word) = unat a + unat b"
  by (simp add: unat_word_ariths)

lemma and_le_right: "unat (a AND b :: 'a::len word) \<le> unat b"
  by (metis word_and_le1 word_le_nat_alt)

lemma unat_ucast_small:
  "unat (w :: 'a::len word) < 2 ^ LENGTH('b) \<Longrightarrow> unat (ucast w :: 'b::len word) = unat w"
  by (simp add: unsigned_ucast_eq take_bit_nat_eq_self)

lemma unat_scast_small:
  assumes "unat (w :: 'a::len word) < 2 ^ (LENGTH('a) - 1)" "LENGTH('a) \<le> LENGTH('b)"
  shows "unat (scast w :: 'b::len word) = unat w"
proof -
  have "uint (scast w :: 'b word) = take_bit LENGTH('b) (uint w)"
    using sint_small [OF assms(1)] by (simp add: scast_eq unsigned_ucast_eq)
  also have "\<dots> = uint w"
    using assms(2) uint_lt2p [of w]
    by (intro take_bit_int_eq_self) (auto intro: less_le_trans power_increasing)
  finally show ?thesis by (simp only: unat_eq_nat_uint)
qed

subsection \<open>Paths through a next field\<close>

primrec chain :: "('a \<Rightarrow> 'a option) \<Rightarrow> 'a option \<Rightarrow> 'a list \<Rightarrow> 'a option \<Rightarrow> bool" where
  "chain nx p [] q \<longleftrightarrow> p = q"
| "chain nx p (x # xs) q \<longleftrightarrow> p = Some x \<and> chain nx (nx x) xs q"

abbreviation lst :: "('a \<Rightarrow> 'a option) \<Rightarrow> 'a option \<Rightarrow> 'a list \<Rightarrow> bool" where
  "lst nx p xs \<equiv> chain nx p xs None"

lemma chain_append [simp]:
  "chain nx p (xs @ ys) q \<longleftrightarrow> (\<exists>r. chain nx p xs r \<and> chain nx r ys q)"
  by (induction xs arbitrary: p) auto

lemma chain_frame: "(\<And>x. x \<in> set xs \<Longrightarrow> nx x = nx' x) \<Longrightarrow> chain nx p xs q \<longleftrightarrow> chain nx' p xs q"
  by (induction xs arbitrary: p) auto

lemma chain_upd [simp]: "a \<notin> set xs \<Longrightarrow> chain (nx(a := v)) p xs q \<longleftrightarrow> chain nx p xs q"
  by (rule chain_frame) auto

lemma lst_None [simp]: "lst nx None xs \<longleftrightarrow> xs = []"
  by (cases xs) auto

lemma lst_Some: "lst nx (Some x) xs \<longleftrightarrow> (\<exists>ys. xs = x # ys \<and> lst nx (nx x) ys)"
  by (cases xs) auto

lemma lst_unique: "lst nx p xs \<Longrightarrow> lst nx p ys \<Longrightarrow> xs = ys"
proof (induction xs arbitrary: p ys)
  case Nil
  then show ?case by simp
next
  case (Cons x xs)
  then obtain zs where "ys = x # zs" "lst nx (nx x) zs" by (auto simp: lst_Some)
  with Cons show ?case by auto
qed

lemma lst_head_notin: "lst nx (nx x) xs \<Longrightarrow> x \<notin> set xs"
proof
  assume l: "lst nx (nx x) xs" and "x \<in> set xs"
  then obtain ys zs where xs: "xs = ys @ x # zs" by (meson split_list)
  with l have "lst nx (nx x) zs" by auto
  then have "zs = xs" using l by (rule lst_unique)
  with xs show False by simp
qed

lemma lst_distinct: "lst nx p xs \<Longrightarrow> distinct xs"
  by (induction xs arbitrary: p) (auto dest: lst_head_notin)

lemma chain_lastD: "chain nx p (xs @ [x]) q \<Longrightarrow> nx x = q"
  by simp

lemma lst_next: "lst nx p (xs @ x # y # ys) \<Longrightarrow> nx x = Some y"
  by simp

subsection \<open>Inductive invariants\<close>

locale invariant_system =
  fixes start :: "'s \<Rightarrow> bool"
    and move :: "'s \<Rightarrow> 's \<Rightarrow> bool"
    and inv :: "'s \<Rightarrow> bool"
  assumes inv_start: "start s \<Longrightarrow> inv s"
    and inv_move: "inv s \<Longrightarrow> move s t \<Longrightarrow> inv t"
begin

lemma inv_moves: "move\<^sup>*\<^sup>* s t \<Longrightarrow> inv s \<Longrightarrow> inv t"
  by (induction rule: rtranclp_induct) (auto intro: inv_move)

lemma inv_reachable: "start s \<Longrightarrow> move\<^sup>*\<^sup>* s t \<Longrightarrow> inv t"
  by (auto intro: inv_moves inv_start)

end

end
