(* ===== verification/Memory.thy ===== *)
theory Memory
  imports Prelude
begin

text \<open>
  The shared memory the lists and the table live in.

  A \<open>RcuSlistHead\<close> is either the head of the list of a bucket (block, index) or the head embedded
  in a \<open>RNode\<close>.  A node is identified by the address of its embedded head, so that
  \<open>YJ_CONTAINER_OF\<close> is the identity; its \<open>hash\<close> field is read by \<open>hashOf\<close>.  A pointer is an
  optional address, \<open>None\<close> being \<open>nullptr\<close>.  A block is what one \<open>malloc\<close> of
  \<open>allocateAndInitBuckets\<close> returns, a \<open>BucketsInfo\<close> with its array of buckets; \<open>blocks\<close> gives the
  \<open>nrBucketsPowerOf2\<close> of every live block.  \<open>malloc\<close> returns a block not used before.

  The single writer changes this memory by \<open>emit\<close> only, which also appends the write to \<open>trace\<close>: a
  ghost field, the writes in program order, from which the intermediate states that concurrent
  readers can see are rebuilt.
\<close>

datatype loc = BucketHead nat nat | NodeHead nat

type_synonym ptr = "loc option"

datatype event =
    EStore loc ptr        \<comment> \<open>an atomic store to a \<open>next\<close> field\<close>
  | EHash loc u64         \<comment> \<open>a store to the \<open>hash\<close> field of a node\<close>
  | EAlloc nat u64        \<comment> \<open>a block with that many buckets is allocated\<close>
  | EFree nat             \<comment> \<open>the block is freed\<close>
  | EPublish "nat option" \<comment> \<open>a store to \<open>pBucketsInfo\<close>\<close>
  | ESync                 \<comment> \<open>a complete call of \<open>rcuSynchronize\<close>\<close>

record mem =
  nxt :: "loc \<Rightarrow> ptr"
  hashOf :: "loc \<Rightarrow> u64"
  blocks :: "nat \<Rightarrow> u64 option"
  freshBlock :: nat
  trace :: "event list"

primrec effect :: "event \<Rightarrow> mem \<Rightarrow> mem" where
  "effect (EStore a p) m = m\<lparr>nxt := (nxt m)(a := p)\<rparr>"
| "effect (EHash a h) m = m\<lparr>hashOf := (hashOf m)(a := h)\<rparr>"
| "effect (EAlloc k n) m = m\<lparr>blocks := (blocks m)(k \<mapsto> n), freshBlock := Suc k\<rparr>"
| "effect (EFree k) m = m\<lparr>blocks := (blocks m)(k := None)\<rparr>"
| "effect (EPublish k) m = m"
| "effect ESync m = m"

definition emit :: "event \<Rightarrow> mem \<Rightarrow> mem" where
  "emit e m = (effect e m)\<lparr>trace := trace m @ [e]\<rparr>"

abbreviation storeNext :: "loc \<Rightarrow> ptr \<Rightarrow> mem \<Rightarrow> mem" where
  "storeNext a p \<equiv> emit (EStore a p)"

lemma emit_sel [simp, heap_simps]:
  "nxt (emit (EStore a p) m) = (nxt m)(a := p)" "hashOf (emit (EStore a p) m) = hashOf m"
  "blocks (emit (EStore a p) m) = blocks m" "freshBlock (emit (EStore a p) m) = freshBlock m"
  "nxt (emit (EHash a h) m) = nxt m" "hashOf (emit (EHash a h) m) = (hashOf m)(a := h)"
  "blocks (emit (EHash a h) m) = blocks m" "freshBlock (emit (EHash a h) m) = freshBlock m"
  "nxt (emit (EAlloc k n) m) = nxt m" "hashOf (emit (EAlloc k n) m) = hashOf m"
  "blocks (emit (EAlloc k n) m) = (blocks m)(k \<mapsto> n)" "freshBlock (emit (EAlloc k n) m) = Suc k"
  "nxt (emit (EFree k) m) = nxt m" "hashOf (emit (EFree k) m) = hashOf m"
  "blocks (emit (EFree k) m) = (blocks m)(k := None)" "freshBlock (emit (EFree k) m) = freshBlock m"
  "nxt (emit (EPublish q) m) = nxt m" "hashOf (emit (EPublish q) m) = hashOf m"
  "blocks (emit (EPublish q) m) = blocks m" "freshBlock (emit (EPublish q) m) = freshBlock m"
  "nxt (emit ESync m) = nxt m" "hashOf (emit ESync m) = hashOf m"
  "blocks (emit ESync m) = blocks m" "freshBlock (emit ESync m) = freshBlock m"
  "trace (emit e m) = trace m @ [e]"
  by (simp_all add: emit_def)

text \<open>\<open>wrote m es m'\<close>: the writer's writes \<open>es\<close>, in that order, lead from \<open>m\<close> to \<open>m'\<close>.\<close>

definition wrote :: "mem \<Rightarrow> event list \<Rightarrow> mem \<Rightarrow> bool" where
  "wrote m es m' \<longleftrightarrow> m' = fold emit es m"

lemma wrote_refl [simp, intro]: "wrote m [] m"
  by (simp add: wrote_def)

lemma wrote_emit [simp]: "wrote m [e] (emit e m)"
  by (simp add: wrote_def)

lemma wrote_trans: "wrote m es m' \<Longrightarrow> wrote m' es' m'' \<Longrightarrow> wrote m (es @ es') m''"
  by (simp add: wrote_def)

lemma wrote_step: "wrote m es m' \<Longrightarrow> wrote m (es @ [e]) (emit e m')"
  by (simp add: wrote_def)

lemma wrote_trace: "wrote m es m' \<Longrightarrow> trace m' = trace m @ es"
proof (induction es arbitrary: m)
  case Nil
  then show ?case by (simp add: wrote_def)
next
  case (Cons e es)
  then show ?case using Cons.IH [of "emit e m"] by (simp add: wrote_def)
qed

text \<open>\<open>touches A m m'\<close>: the update writes no \<open>next\<close> field outside \<open>A\<close> and nothing else.\<close>

definition touches :: "loc set \<Rightarrow> mem \<Rightarrow> mem \<Rightarrow> bool" where
  "touches A m m' \<longleftrightarrow> (\<forall>a. a \<notin> A \<longrightarrow> nxt m' a = nxt m a) \<and> hashOf m' = hashOf m
     \<and> blocks m' = blocks m \<and> freshBlock m' = freshBlock m"

lemma touches_refl [simp, intro]: "touches A m m"
  by (simp add: touches_def)

lemma touches_store: "touches A m m' \<Longrightarrow> a \<in> A \<Longrightarrow> touches A m (storeNext a p m')"
  by (auto simp: touches_def)

lemma touches_trans: "touches A m m' \<Longrightarrow> touches B m' m'' \<Longrightarrow> touches (A \<union> B) m m''"
  by (simp add: touches_def)

lemma touches_mono: "touches A m m' \<Longrightarrow> A \<subseteq> B \<Longrightarrow> touches B m m'"
  by (auto simp: touches_def)

lemma touchesD:
  "touches A m m' \<Longrightarrow> a \<notin> A \<Longrightarrow> nxt m' a = nxt m a" "touches A m m' \<Longrightarrow> hashOf m' = hashOf m"
  "touches A m m' \<Longrightarrow> blocks m' = blocks m" "touches A m m' \<Longrightarrow> freshBlock m' = freshBlock m"
  by (simp_all add: touches_def)

text \<open>\<open>stores A m m'\<close>: the update is a sequence of stores to \<open>next\<close> fields in \<open>A\<close>.\<close>

definition stores :: "loc set \<Rightarrow> mem \<Rightarrow> mem \<Rightarrow> bool" where
  "stores A m m' \<longleftrightarrow> (\<exists>es. wrote m es m' \<and> (\<forall>e \<in> set es. \<exists>a \<in> A. \<exists>p. e = EStore a p))"

lemma stores_refl [simp, intro]: "stores A m m"
  unfolding stores_def by (rule exI [of _ "[]"]) simp

lemma stores_store: "stores A m m' \<Longrightarrow> a \<in> A \<Longrightarrow> stores A m (storeNext a p m')"
proof -
  assume "stores A m m'" and a: "a \<in> A"
  then obtain es where es: "wrote m es m'" "\<forall>e \<in> set es. \<exists>a \<in> A. \<exists>p. e = EStore a p" by (auto simp: stores_def)
  show "stores A m (storeNext a p m')"
    unfolding stores_def using wrote_step [OF es(1)] es(2) a by (intro exI [of _ "es @ [EStore a p]"]) auto
qed

lemma stores_mono: "stores A m m' \<Longrightarrow> A \<subseteq> B \<Longrightarrow> stores B m m'"
  unfolding stores_def by blast

lemma stores_trans: "stores A m m' \<Longrightarrow> stores A m' m'' \<Longrightarrow> stores A m m''"
proof -
  assume "stores A m m'" "stores A m' m''"
  then obtain es es' where es: "wrote m es m'" "\<forall>e \<in> set es. \<exists>a \<in> A. \<exists>p. e = EStore a p"
    "wrote m' es' m''" "\<forall>e \<in> set es'. \<exists>a \<in> A. \<exists>p. e = EStore a p" by (auto simp: stores_def)
  show "stores A m m''"
    unfolding stores_def using wrote_trans [OF es(1,3)] es(2,4) by (intro exI [of _ "es @ es'"]) auto
qed

lemma stores_touches: "stores A m m' \<Longrightarrow> touches A m m'"
proof -
  have "touches A m (fold emit es m)" if "\<forall>e \<in> set es. \<exists>a \<in> A. \<exists>p. e = EStore a p" for es
    using that
  proof (induction es rule: rev_induct)
    case (snoc e es)
    then show ?case by (auto intro!: touches_store)
  qed simp
  then show "stores A m m' \<Longrightarrow> touches A m m'" by (auto simp: stores_def wrote_def)
qed

end
