(* ===== verification/Slist.thy ===== *)
theory Slist
  imports Memory
begin

text \<open>
  The RCU singly linked list of \<open>RcuSinglyLinkedListApi.h\<close>.  A list is the address of its head; an
  operation of the writer takes the memory and returns it with its stores appended to the trace.
  The loops follow \<open>next\<close> pointers and may not end on a cyclic memory: they are partial functions,
  and the theorems show that they end on a list.  The callbacks of the templates are arguments.
\<close>

subsection \<open>Operations\<close>

definition rcuSlistInit :: "loc \<Rightarrow> mem \<Rightarrow> mem" where
  "rcuSlistInit l m = storeNext l None m"

definition rcuSlistReset :: "loc \<Rightarrow> mem \<Rightarrow> mem" where
  "rcuSlistReset l m = storeNext l None m"

definition rcuSlistEmpty :: "loc \<Rightarrow> mem \<Rightarrow> bool" where
  "rcuSlistEmpty l m \<longleftrightarrow> nxt m l = None"

definition rcuSlistInsertAfter :: "loc \<Rightarrow> loc \<Rightarrow> mem \<Rightarrow> mem" where
  "rcuSlistInsertAfter pos newElem m =
     (let pNext = nxt m pos
      in storeNext pos (Some newElem) (storeNext newElem pNext m))"

partial_function (option) tailLoop :: "mem \<Rightarrow> loc \<Rightarrow> ptr \<Rightarrow> loc option" where
  "tailLoop m p pNext =
     (case pNext of None \<Rightarrow> Some p | Some q \<Rightarrow> tailLoop m q (nxt m q))"

definition rcuSlistAppendToTail :: "loc \<Rightarrow> loc \<Rightarrow> mem \<Rightarrow> mem option" where
  "rcuSlistAppendToTail pos newElem m =
     do {
       p \<leftarrow> tailLoop m pos (nxt m pos);
       Some (storeNext p (Some newElem) (storeNext newElem None m))
     }"

partial_function (option) matchLoop :: "ptr \<Rightarrow> mem \<Rightarrow> (loc \<Rightarrow> loc \<Rightarrow> bool) \<Rightarrow> loc \<Rightarrow> bool option" where
  "matchLoop p m P newElem =
     (case p of None \<Rightarrow> Some False
      | Some x \<Rightarrow> if P x newElem then Some True else matchLoop (nxt m x) m P newElem)"

definition rcuSlistPrependIfNoMatch ::
    "loc \<Rightarrow> loc \<Rightarrow> (loc \<Rightarrow> loc \<Rightarrow> bool) \<Rightarrow> mem \<Rightarrow> (bool \<times> mem) option" where
  "rcuSlistPrependIfNoMatch l newElem P m =
     do {
       let pFirst = nxt m l;
       found \<leftarrow> matchLoop pFirst m P newElem;
       if found then Some (False, m)
       else Some (True, storeNext l (Some newElem) (storeNext newElem pFirst m))
     }"

text \<open>
  The loop of \<open>rcuSlistAppendIfNoMatch\<close>; \<open>None\<close> is the early \<open>return false\<close>, \<open>Some p\<close> the tail.
  It tests \<open>p\<close>, which starts as the list's own head, and not \<open>pNext\<close>.
\<close>

partial_function (option) appendMatchLoop ::
    "ptr \<Rightarrow> mem \<Rightarrow> (loc \<Rightarrow> loc \<Rightarrow> bool) \<Rightarrow> loc \<Rightarrow> loc \<Rightarrow> loc option option" where
  "appendMatchLoop pNext m P newElem p =
     (case pNext of None \<Rightarrow> Some (Some p)
      | Some q \<Rightarrow> if P p newElem then Some None else appendMatchLoop (nxt m q) m P newElem q)"

definition rcuSlistAppendIfNoMatch ::
    "loc \<Rightarrow> loc \<Rightarrow> (loc \<Rightarrow> loc \<Rightarrow> bool) \<Rightarrow> mem \<Rightarrow> (bool \<times> mem) option" where
  "rcuSlistAppendIfNoMatch l newElem P m =
     do {
       r \<leftarrow> appendMatchLoop (nxt m l) m P newElem l;
       case r of None \<Rightarrow> Some (False, m)
       | Some p \<Rightarrow> Some (True, storeNext p (Some newElem) (storeNext newElem None m))
     }"

partial_function (option) findLoop :: "mem \<Rightarrow> (loc \<Rightarrow> bool) \<Rightarrow> ptr \<Rightarrow> ptr option" where
  "findLoop m P p =
     (case p of None \<Rightarrow> Some None
      | Some x \<Rightarrow> if P x then Some (Some x) else findLoop m P (nxt m x))"

definition rcuSlistFindIf :: "loc \<Rightarrow> (loc \<Rightarrow> bool) \<Rightarrow> mem \<Rightarrow> ptr option" where
  "rcuSlistFindIf l P m = findLoop m P (nxt m l)"

partial_function (option) removeLoop ::
    "ptr \<Rightarrow> mem \<Rightarrow> (loc \<Rightarrow> bool) \<Rightarrow> loc \<Rightarrow> (ptr \<times> mem) option" where
  "removeLoop p m P pLast =
     (case p of None \<Rightarrow> Some (None, m)
      | Some x \<Rightarrow> if P x then Some (Some x, storeNext pLast (nxt m x) m)
                 else removeLoop (nxt m x) m P x)"

definition rcuSlistRemoveIf :: "loc \<Rightarrow> (loc \<Rightarrow> bool) \<Rightarrow> mem \<Rightarrow> (ptr \<times> mem) option" where
  "rcuSlistRemoveIf l P m = removeLoop (nxt m l) m P l"

partial_function (option) removeElemLoop ::
    "ptr \<Rightarrow> mem \<Rightarrow> loc \<Rightarrow> loc \<Rightarrow> (ptr \<times> mem) option" where
  "removeElemLoop p m head pLast =
     (case p of None \<Rightarrow> Some (None, m)
      | Some x \<Rightarrow> if x = head then Some (Some x, storeNext pLast (nxt m x) m)
                 else removeElemLoop (nxt m x) m head x)"

definition rcuSlistRemove :: "loc \<Rightarrow> loc \<Rightarrow> mem \<Rightarrow> (ptr \<times> mem) option" where
  "rcuSlistRemove l head m = removeElemLoop (nxt m l) m head l"

subsection \<open>Lists in memory\<close>

definition slist :: "mem \<Rightarrow> loc \<Rightarrow> loc list \<Rightarrow> bool" where
  "slist m l xs \<longleftrightarrow> lst (nxt m) (nxt m l) xs"

lemma slist_distinct: "slist m l xs \<Longrightarrow> distinct xs"
  by (auto simp: slist_def dest: lst_distinct)

lemma slist_head_notin: "slist m l xs \<Longrightarrow> l \<notin> set xs"
  by (auto simp: slist_def dest: lst_head_notin)

lemma slist_unique: "slist m l xs \<Longrightarrow> slist m l ys \<Longrightarrow> xs = ys"
  by (auto simp: slist_def dest: lst_unique)

lemma slist_frame:
  assumes "nxt m' l = nxt m l" and "\<And>x. x \<in> set xs \<Longrightarrow> nxt m' x = nxt m x"
  shows "slist m' l xs = slist m l xs"
proof -
  have "chain (nxt m') p xs None = chain (nxt m) p xs None" for p
    by (rule chain_frame) (rule assms(2))
  then show ?thesis by (simp add: slist_def assms(1))
qed

lemma slist_emit [simp]:
  "slist (emit (EHash a h) m) l xs = slist m l xs" "slist (emit (EAlloc k n) m) l xs = slist m l xs"
  "slist (emit (EFree k) m) l xs = slist m l xs" "slist (emit (EPublish p) m) l xs = slist m l xs"
  "slist (emit ESync m) l xs = slist m l xs"
  by (simp_all add: slist_def)

lemma slist_store_other: "a \<noteq> l \<Longrightarrow> a \<notin> set xs \<Longrightarrow> slist (storeNext a p m) l xs = slist m l xs"
  by (simp add: slist_def)

text \<open>Unlinking the first element that satisfies a predicate.\<close>

fun dropFirst :: "('a \<Rightarrow> bool) \<Rightarrow> 'a list \<Rightarrow> 'a list" where
  "dropFirst P [] = []"
| "dropFirst P (x # xs) = (if P x then xs else x # dropFirst P xs)"

lemma dropFirst_none: "find P xs = None \<Longrightarrow> dropFirst P xs = xs"
  by (induction xs) (auto split: if_splits)

lemma dropFirst_split: "\<forall>y \<in> set ys. \<not> P y \<Longrightarrow> P x \<Longrightarrow> dropFirst P (ys @ x # zs) = ys @ zs"
  by (induction ys) auto

lemma find_append: "find P (xs @ ys) = (case find P xs of None \<Rightarrow> find P ys | Some x \<Rightarrow> Some x)"
  by (induction xs) auto

lemma find_split:
  "find P xs = Some x \<Longrightarrow> \<exists>ys zs. xs = ys @ x # zs \<and> (\<forall>y \<in> set ys. \<not> P y) \<and> P x"
proof (induction xs)
  case Nil
  then show ?case by simp
next
  case (Cons y xs)
  show ?case
  proof (cases "P y")
    case True
    then show ?thesis using Cons.prems by (intro exI [of _ "[]"] exI [of _ xs]) simp
  next
    case False
    then obtain ys zs where "xs = ys @ x # zs \<and> (\<forall>y \<in> set ys. \<not> P y) \<and> P x"
      using Cons by auto
    then show ?thesis using False by (intro exI [of _ "y # ys"] exI [of _ zs]) simp
  qed
qed

lemma set_dropFirst:
  assumes "distinct xs" "find P xs = Some x"
  shows "set (dropFirst P xs) = set xs - {x}"
proof -
  obtain ys zs where "xs = ys @ x # zs" "\<forall>y \<in> set ys. \<not> P y" "P x"
    using find_split [OF assms(2)] by blast
  then show ?thesis using assms(1) by (auto simp: dropFirst_split)
qed

subsection \<open>The loops on a list\<close>

lemma findLoop_lst: "lst (nxt m) p xs \<Longrightarrow> findLoop m P p = Some (find P xs)"
  by (induction xs arbitrary: p) (auto simp: findLoop.simps)

lemma matchLoop_lst: "lst (nxt m) p xs \<Longrightarrow> matchLoop p m P e = Some (\<exists>x \<in> set xs. P x e)"
  by (induction xs arbitrary: p) (auto simp: matchLoop.simps)

lemma tailLoop_lst: "lst (nxt m) (nxt m p) xs \<Longrightarrow> tailLoop m p (nxt m p) = Some (last (p # xs))"
  by (induction xs arbitrary: p) (auto simp: tailLoop.simps)

lemma appendMatchLoop_lst:
  "lst (nxt m) (nxt m p) xs \<Longrightarrow> appendMatchLoop (nxt m p) m P e p =
     Some (if \<exists>x \<in> set (butlast (p # xs)). P x e then None else Some (last (p # xs)))"
  by (induction xs arbitrary: p) (auto simp: appendMatchLoop.simps)

lemma removeLoop_lst:
  assumes "lst (nxt m) (nxt m p) xs"
  shows "removeLoop (nxt m p) m P p = Some (case find P xs of None \<Rightarrow> (None, m)
    | Some x \<Rightarrow> (Some x, storeNext (last (p # takeWhile (\<lambda>y. \<not> P y) xs)) (nxt m x) m))"
  using assms by (induction xs arbitrary: p) (auto simp: removeLoop.simps split: option.splits)

lemma removeElemLoop_eq: "lst (nxt m) p xs \<Longrightarrow> removeElemLoop p m h q = removeLoop p m (\<lambda>x. x = h) q"
  by (induction xs arbitrary: p q) (auto simp: removeLoop.simps removeElemLoop.simps)

subsection \<open>What the operations do to a list\<close>

lemma slist_init: "slist (rcuSlistInit l m) l []"
  by (simp add: slist_def rcuSlistInit_def)

lemma slist_empty: "slist m l xs \<Longrightarrow> rcuSlistEmpty l m \<longleftrightarrow> xs = []"
  by (cases xs) (auto simp: slist_def rcuSlistEmpty_def)

lemma rcuSlistFindIf_slist: "slist m l xs \<Longrightarrow> rcuSlistFindIf l P m = Some (find P xs)"
  by (simp add: slist_def rcuSlistFindIf_def findLoop_lst)

text \<open>Linking a new element behind a position splits the list there.\<close>

lemma slist_insert_after:
  assumes "slist m l (ys @ zs)" and "e \<notin> set (l # ys @ zs)"
  shows "slist (storeNext (last (l # ys)) (Some e) (storeNext e (nxt m (last (l # ys))) m)) l (ys @ e # zs)"
proof (cases ys rule: rev_cases)
  case Nil
  then show ?thesis using assms slist_head_notin [OF assms(1)] by (auto simp: slist_def)
next
  case (snoc xs x)
  have "l \<notin> set (ys @ zs)" "distinct (ys @ zs)"
    using slist_head_notin [OF assms(1)] slist_distinct [OF assms(1)] by auto
  then show ?thesis using assms snoc by (auto simp: slist_def)
qed

text \<open>Storing the successor's successor unlinks an element and leaves its own field alone.\<close>

lemma slist_unlink:
  assumes "slist m l (ys @ x # zs)"
  shows "slist (storeNext (last (l # ys)) (nxt m x) m) l (ys @ zs)"
proof (cases ys rule: rev_cases)
  case Nil
  then show ?thesis using assms slist_head_notin [OF assms(1)] by (auto simp: slist_def)
next
  case (snoc xs y)
  have "l \<notin> set (ys @ x # zs)" "distinct (ys @ x # zs)"
    using slist_head_notin [OF assms(1)] slist_distinct [OF assms(1)] by auto
  then show ?thesis using assms snoc by (auto simp: slist_def)
qed

lemma rcuSlistInsertAfter_slist:
  assumes "slist m l (ys @ zs)" and "e \<notin> set (l # ys @ zs)"
  shows "slist (rcuSlistInsertAfter (last (l # ys)) e m) l (ys @ e # zs)"
  using slist_insert_after [OF assms] by (simp add: rcuSlistInsertAfter_def Let_def)

lemma rcuSlistAppendToTail_slist:
  assumes "slist m l xs" and "e \<notin> set (l # xs)"
  shows "\<exists>m'. rcuSlistAppendToTail l e m = Some m' \<and> slist m' l (xs @ [e])"
proof -
  have tl: "tailLoop m l (nxt m l) = Some (last (l # xs))"
    using assms(1) by (intro tailLoop_lst) (simp add: slist_def)
  have "nxt m (last (l # xs)) = None"
    using assms(1) by (cases xs rule: rev_cases) (auto simp: slist_def)
  then show ?thesis
    using slist_insert_after [of m l xs "[]" e] assms by (simp add: rcuSlistAppendToTail_def tl)
qed

lemma rcuSlistPrependIfNoMatch_slist:
  assumes "slist m l xs" and "e \<notin> set (l # xs)"
  shows "rcuSlistPrependIfNoMatch l e P m =
    (if \<exists>x \<in> set xs. P x e then Some (False, m)
     else Some (True, storeNext l (Some e) (storeNext e (nxt m l) m)))"
  using assms by (auto simp: rcuSlistPrependIfNoMatch_def matchLoop_lst slist_def Let_def)

lemma rcuSlistRemoveIf_slist:
  assumes "slist m l xs"
  shows "(find P xs = None \<and> rcuSlistRemoveIf l P m = Some (None, m)) \<or>
    (\<exists>ys x zs. xs = ys @ x # zs \<and> (\<forall>y \<in> set ys. \<not> P y) \<and> P x \<and> find P xs = Some x
      \<and> rcuSlistRemoveIf l P m = Some (Some x, storeNext (last (l # ys)) (nxt m x) m))"
proof (cases "find P xs")
  case None
  then show ?thesis
    using removeLoop_lst [of m l xs P] assms by (simp add: rcuSlistRemoveIf_def slist_def)
next
  case (Some x)
  obtain ys zs where xs: "xs = ys @ x # zs" "\<forall>y \<in> set ys. \<not> P y" "P x"
    using find_split [OF Some] by blast
  then have tw: "takeWhile (\<lambda>y. \<not> P y) xs = ys"
    by (simp add: takeWhile_append2)
  have "rcuSlistRemoveIf l P m = Some (Some x, storeNext (last (l # ys)) (nxt m x) m)"
    using removeLoop_lst [of m l xs P] assms Some tw
    by (simp add: rcuSlistRemoveIf_def slist_def del: last.simps)
  then show ?thesis using xs Some by blast
qed

lemma last_in: "last (l # ys) \<in> set (l # ys)"
  by (rule last_in_set) simp

lemma rcuSlistRemove_eq:
  "slist m l xs \<Longrightarrow> rcuSlistRemove l h m = rcuSlistRemoveIf l (\<lambda>x. x = h) m"
  by (simp add: rcuSlistRemove_def rcuSlistRemoveIf_def slist_def removeElemLoop_eq)

text \<open>
  \<open>rcuSlistAppendIfNoMatch\<close> as it is written: what is compared with the new element is the list's
  own head and all elements but the last.
\<close>

lemma rcuSlistAppendIfNoMatch_slist:
  assumes "slist m l xs" and "e \<notin> set (l # xs)"
  shows "\<exists>m'. rcuSlistAppendIfNoMatch l e P m = Some (\<not> (\<exists>x \<in> set (butlast (l # xs)). P x e), m')
    \<and> slist m' l (if \<exists>x \<in> set (butlast (l # xs)). P x e then xs else xs @ [e])"
proof -
  have al: "appendMatchLoop (nxt m l) m P e l =
     Some (if \<exists>x \<in> set (butlast (l # xs)). P x e then None else Some (last (l # xs)))"
    using assms(1) by (intro appendMatchLoop_lst) (simp add: slist_def)
  have "nxt m (last (l # xs)) = None"
    using assms(1) by (cases xs rule: rev_cases) (auto simp: slist_def)
  then show ?thesis
    using slist_insert_after [of m l xs "[]" e] assms
    by (auto simp: rcuSlistAppendIfNoMatch_def al simp del: butlast.simps last.simps)
qed

subsection \<open>The writes of an update, one by one\<close>

text \<open>
  The list after every prefix of the writes \<open>es\<close> is one of \<open>xss\<close>: what a reader that starts a
  traversal between two stores finds.
\<close>

definition shows_only :: "mem \<Rightarrow> event list \<Rightarrow> loc \<Rightarrow> loc list list \<Rightarrow> bool" where
  "shows_only m es l xss \<longleftrightarrow>
     (\<forall>k \<le> length es. \<exists>xs \<in> set xss. slist (fold emit (take k es) m) l xs)"

lemma link_visible:
  assumes "slist m l (ys @ zs)" and "e \<notin> set (l # ys @ zs)"
  shows "shows_only m [EStore e (nxt m (last (l # ys))), EStore (last (l # ys)) (Some e)] l
    [ys @ zs, ys @ e # zs]"
proof -
  have "slist (storeNext e p m) l (ys @ zs)" for p
    using assms by (simp add: slist_store_other)
  then show ?thesis
    using assms slist_insert_after [OF assms]
    by (auto simp: shows_only_def le_Suc_eq simp del: last.simps)
qed

lemma unlink_visible:
  assumes "slist m l (ys @ x # zs)"
  shows "shows_only m [EStore (last (l # ys)) (nxt m x)] l [ys @ x # zs, ys @ zs]"
  using assms slist_unlink [OF assms] by (auto simp: shows_only_def le_Suc_eq simp del: last.simps)

subsection \<open>The interface the hash table relies on\<close>

text \<open>
  A list of a bucket as its client sees it: what lookup, removal and insertion do to the list
  \<open>xs\<close> at \<open>l\<close>, and that they touch nothing but \<open>l\<close>, the elements and the new element.
\<close>

locale bucket_list =
  fixes contents :: "mem \<Rightarrow> loc \<Rightarrow> loc list \<Rightarrow> bool"
    and lookup :: "loc \<Rightarrow> (loc \<Rightarrow> bool) \<Rightarrow> mem \<Rightarrow> ptr option"
    and remove :: "loc \<Rightarrow> (loc \<Rightarrow> bool) \<Rightarrow> mem \<Rightarrow> (ptr \<times> mem) option"
    and insertNew :: "loc \<Rightarrow> loc \<Rightarrow> (loc \<Rightarrow> loc \<Rightarrow> bool) \<Rightarrow> mem \<Rightarrow> (bool \<times> mem) option"
  assumes contents_distinct: "contents m l xs \<Longrightarrow> distinct xs"
    and contents_frame: "contents m l xs \<Longrightarrow> touches A m m' \<Longrightarrow> A \<inter> set (l # xs) = {} \<Longrightarrow> contents m' l xs"
    and lookup_law: "contents m l xs \<Longrightarrow> lookup l P m = Some (find P xs)"
    and remove_law: "contents m l xs \<Longrightarrow> \<exists>m'. remove l P m = Some (find P xs, m')
      \<and> contents m' l (dropFirst P xs) \<and> touches (set (l # xs)) m m'"
    and insert_law: "contents m l xs \<Longrightarrow> e \<notin> set (l # xs) \<Longrightarrow> \<exists>m'.
      insertNew l e R m = Some (\<not> (\<exists>x \<in> set xs. R x e), m')
      \<and> contents m' l (if \<exists>x \<in> set xs. R x e then xs else e # xs) \<and> touches {l, e} m m'"
begin

text \<open>A removed element is gone, and everything else is found as before.\<close>

lemma lookup_after_remove:
  assumes "contents m l xs" and "remove l P m = Some (Some x, m')"
  shows "lookup l (\<lambda>y. y = x) m' = Some None"
    and "\<not> Q x \<Longrightarrow> lookup l Q m' = lookup l Q m"
proof -
  have f: "find P xs = Some x" and c: "contents m' l (dropFirst P xs)"
    using remove_law [OF assms(1), of P] assms(2) by auto
  obtain ys zs where xs: "xs = ys @ x # zs" "\<forall>y \<in> set ys. \<not> P y" "P x"
    using find_split [OF f] by blast
  have d: "dropFirst P xs = ys @ zs" using xs by (simp add: dropFirst_split)
  show "lookup l (\<lambda>y. y = x) m' = Some None"
    using lookup_law [OF c, of "\<lambda>y. y = x"] contents_distinct [OF assms(1)] xs(1) d
    by (auto simp: find_None_iff)
  show "lookup l Q m' = lookup l Q m" if "\<not> Q x"
    using lookup_law [OF c, of Q] lookup_law [OF assms(1), of Q] xs(1) d that
    by (simp add: find_append split: option.split)
qed

text \<open>A new element is found by whatever it alone satisfies, and hides nothing else.\<close>

lemma lookup_after_insert:
  assumes "contents m l xs" "e \<notin> set (l # xs)" and "insertNew l e P m = Some (True, m')"
  shows "lookup l Q m' = (if Q e then Some (Some e) else lookup l Q m)"
proof -
  have "contents m' l (e # xs)"
    using insert_law [OF assms(1,2), of P] assms(3) by auto
  then show ?thesis
    using lookup_law [of m' l "e # xs" Q] lookup_law [OF assms(1), of Q] by simp
qed

end

lemma slist_touches: "slist m l xs \<Longrightarrow> touches A m m' \<Longrightarrow> A \<inter> set (l # xs) = {} \<Longrightarrow> slist m' l xs"
  by (subst slist_frame [of m' l m]) (auto simp: touches_def)

lemma slist_remove_law:
  assumes "slist m l xs"
  shows "\<exists>m'. rcuSlistRemoveIf l P m = Some (find P xs, m') \<and> slist m' l (dropFirst P xs)
    \<and> touches (set (l # xs)) m m'"
  using rcuSlistRemoveIf_slist [OF assms, of P]
proof (elim disjE exE conjE)
  assume "find P xs = None" "rcuSlistRemoveIf l P m = Some (None, m)"
  then show ?thesis using assms by (simp add: dropFirst_none)
next
  fix ys x zs
  assume *: "xs = ys @ x # zs" "\<forall>y \<in> set ys. \<not> P y" "P x" "find P xs = Some x"
    "rcuSlistRemoveIf l P m = Some (Some x, storeNext (last (l # ys)) (nxt m x) m)"
  moreover have "touches (set (l # xs)) m (storeNext (last (l # ys)) (nxt m x) m)"
    by (rule touches_store) (use last_in [of l ys] *(1) in auto)
  ultimately show ?thesis using slist_unlink [of m l ys x zs] assms by (simp add: dropFirst_split)
qed

interpretation bucketList: bucket_list slist rcuSlistFindIf rcuSlistRemoveIf rcuSlistPrependIfNoMatch
proof
  fix m l xs P
  assume "slist m l xs"
  then show "rcuSlistFindIf l P m = Some (find P xs)" by (rule rcuSlistFindIf_slist)
next
  fix m l xs P and e :: loc
  assume *: "slist m l xs" "e \<notin> set (l # xs)"
  have "slist (storeNext l (Some e) (storeNext e (nxt m l) m)) l (e # xs)"
    using slist_insert_after [of m l "[]" xs e] * by simp
  then show "\<exists>m'. rcuSlistPrependIfNoMatch l e P m = Some (\<not> (\<exists>x \<in> set xs. P x e), m')
      \<and> slist m' l (if \<exists>x \<in> set xs. P x e then xs else e # xs) \<and> touches {l, e} m m'"
    using rcuSlistPrependIfNoMatch_slist [OF *, of P] * by (auto intro!: touches_store)
qed (erule slist_distinct slist_touches slist_remove_law; assumption)+

subsection \<open>Properties\<close>

text \<open>A memory with the list of nodes 1, 2, 3 behind bucket 0 of block 0, for the concrete instances.\<close>

definition exMem :: mem where
  "exMem = \<lparr>nxt = (\<lambda>_. None)(BucketHead 0 0 := Some (NodeHead 1), NodeHead 1 := Some (NodeHead 2),
       NodeHead 2 := Some (NodeHead 3)),
     hashOf = (\<lambda>_. 0), blocks = [0 \<mapsto> 1], freshBlock = 1, trace = []\<rparr>"

lemma exMem_slist: "slist exMem (BucketHead 0 0) [NodeHead 1, NodeHead 2, NodeHead 3]"
  by (simp add: slist_def exMem_def)

text \<open>
  \<open>rcuSlistFindIf\<close> ends on every list and returns its first element that satisfies the
  predicate, or null if there is none.
\<close>

theorem slistFindIf_first:
  assumes "slist m l xs"
  shows "rcuSlistFindIf l P m = Some (find P xs)"
  by (rule bucketList.lookup_law [OF assms])

theorem slistFindIf_first_witness:
  "rcuSlistFindIf (BucketHead 0 0) (\<lambda>x. x \<noteq> NodeHead 1) exMem = Some (Some (NodeHead 2))"
  using slistFindIf_first [OF exMem_slist, of "\<lambda>x. x \<noteq> NodeHead 1"] by simp

text \<open>
  C33.  \<open>rcuSlistPrependIfNoMatch\<close> refuses an element that matches one in the list and writes
  nothing; otherwise the element becomes the first one, and a traversal that starts between the two
  stores finds the old list or the new one.
\<close>

theorem slistPrepend_atomic:
  assumes "slist m l xs" and "e \<notin> set (l # xs)"
  shows "\<exists>m' es. rcuSlistPrependIfNoMatch l e P m = Some (\<not> (\<exists>x \<in> set xs. P x e), m')
    \<and> wrote m es m' \<and> (if \<exists>x \<in> set xs. P x e then es = [] else slist m' l (e # xs))
    \<and> shows_only m es l [xs, e # xs]"
proof (cases "\<exists>x \<in> set xs. P x e")
  case True
  then show ?thesis
    using rcuSlistPrependIfNoMatch_slist [OF assms, of P] assms(1)
    by (intro exI [of _ m] exI [of _ "[]"]) (simp add: shows_only_def)
next
  case False
  let ?es = "[EStore e (nxt m l), EStore l (Some e)]"
  have "shows_only m ?es l [xs, e # xs]" using link_visible [of m l "[]" xs e] assms by simp
  moreover have "slist (fold emit ?es m) l (e # xs)" using slist_insert_after [of m l "[]" xs e] assms by simp
  ultimately show ?thesis
    using rcuSlistPrependIfNoMatch_slist [OF assms, of P] False
    by (intro exI [of _ "fold emit ?es m"] exI [of _ ?es]) (simp add: wrote_def)
qed

theorem slistPrepend_atomic_witness:
  "\<exists>m' es. rcuSlistPrependIfNoMatch (BucketHead 0 0) (NodeHead 7) (=) exMem = Some (True, m')
    \<and> slist m' (BucketHead 0 0) [NodeHead 7, NodeHead 1, NodeHead 2, NodeHead 3]"
  using slistPrepend_atomic [OF exMem_slist, of "NodeHead 7" "(=)"] by auto

text \<open>
  C34.  \<open>rcuSlistRemoveIf\<close> returns the first match and unlinks it with one store; the removed
  element keeps its own \<open>next\<close> field, so that a reader standing on it still reaches the rest of
  the list.
\<close>

theorem slistRemove_atomic:
  assumes "slist m l xs"
  shows "\<exists>m' es. rcuSlistRemoveIf l P m = Some (find P xs, m') \<and> wrote m es m' \<and> length es \<le> 1
    \<and> slist m' l (dropFirst P xs) \<and> shows_only m es l [xs, dropFirst P xs]
    \<and> (\<forall>x. find P xs = Some x \<longrightarrow> nxt m' x = nxt m x)"
  using rcuSlistRemoveIf_slist [OF assms, of P]
proof (elim disjE exE conjE)
  assume "find P xs = None" "rcuSlistRemoveIf l P m = Some (None, m)"
  then show ?thesis using assms
    by (intro exI [of _ m] exI [of _ "[]"]) (simp add: dropFirst_none shows_only_def)
next
  fix ys x zs
  assume *: "xs = ys @ x # zs" "\<forall>y \<in> set ys. \<not> P y" "P x" "find P xs = Some x"
    "rcuSlistRemoveIf l P m = Some (Some x, storeNext (last (l # ys)) (nxt m x) m)"
  have "last (l # ys) \<noteq> x"
    using last_in [of l ys] slist_head_notin [OF assms] slist_distinct [OF assms] *(1) by auto
  then show ?thesis
    using * slist_unlink [of m l ys x zs] unlink_visible [of m l ys x zs] assms
    by (intro exI [of _ "storeNext (last (l # ys)) (nxt m x) m"]
        exI [of _ "[EStore (last (l # ys)) (nxt m x)]"]) (simp add: dropFirst_split del: last.simps)
qed

theorem slistRemove_atomic_witness:
  "\<exists>m'. rcuSlistRemoveIf (BucketHead 0 0) (\<lambda>x. x = NodeHead 2) exMem = Some (Some (NodeHead 2), m')
    \<and> slist m' (BucketHead 0 0) [NodeHead 1, NodeHead 3] \<and> nxt m' (NodeHead 2) = Some (NodeHead 3)"
  using slistRemove_atomic [OF exMem_slist, of "\<lambda>x. x = NodeHead 2"] by (auto simp: exMem_def)

text \<open>
  \<open>rcuSlistAppendToTail\<close> from the list's head ends and appends, and both intermediate states
  show the old or the new list.  (\<open>rcuSlistRemove\<close> is \<open>rcuSlistRemoveIf\<close> with equality.)
\<close>

theorem slistAppend_atomic:
  assumes "slist m l xs" and "e \<notin> set (l # xs)"
  shows "(\<exists>m' es. rcuSlistAppendToTail l e m = Some m' \<and> wrote m es m' \<and> slist m' l (xs @ [e])
      \<and> shows_only m es l [xs, xs @ [e]])
    \<and> rcuSlistRemove l h m = rcuSlistRemoveIf l (\<lambda>x. x = h) m"
proof -
  have tl: "tailLoop m l (nxt m l) = Some (last (l # xs))"
    using assms(1) by (intro tailLoop_lst) (simp add: slist_def)
  have n: "nxt m (last (l # xs)) = None"
    using assms(1) by (cases xs rule: rev_cases) (auto simp: slist_def)
  let ?es = "[EStore e None, EStore (last (l # xs)) (Some e)]"
  have "rcuSlistAppendToTail l e m = Some (fold emit ?es m)" by (simp add: rcuSlistAppendToTail_def tl)
  moreover have "slist (fold emit ?es m) l (xs @ [e])" "shows_only m ?es l [xs, xs @ [e]]"
    using slist_insert_after [of m l xs "[]" e] link_visible [of m l xs "[]" e] assms n
    by (simp_all del: last.simps)
  ultimately show ?thesis using rcuSlistRemove_eq [OF assms(1)]
    by (intro conjI exI [of _ "fold emit ?es m"] exI [of _ ?es]) (simp_all add: wrote_def)
qed

theorem slistAppend_atomic_witness:
  "\<exists>m'. rcuSlistAppendToTail (BucketHead 0 0) (NodeHead 7) exMem = Some m'
    \<and> slist m' (BucketHead 0 0) [NodeHead 1, NodeHead 2, NodeHead 3, NodeHead 7]"
  using slistAppend_atomic [OF exMem_slist, of "NodeHead 7" "NodeHead 2"] by auto

text \<open>
  \<open>rcuSlistAppendIfNoMatch\<close> as written: it calls the predicate on the list's own head and never
  on the last element.  A duplicate of the last element is therefore appended, against the
  function's description.
\<close>

theorem slistAppendIfNoMatch_misses_last:
  assumes "slist m l (xs @ [y])" and "e \<notin> set (l # xs @ [y])" and "\<forall>x \<in> set (l # xs). \<not> P x e"
  shows "\<exists>m'. rcuSlistAppendIfNoMatch l e P m = Some (True, m') \<and> slist m' l (xs @ [y, e])"
  using rcuSlistAppendIfNoMatch_slist [OF assms(1,2), of P] assms(3) by (auto simp: butlast_append)

theorem slistAppendIfNoMatch_misses_last_witness:
  "\<exists>m'. rcuSlistAppendIfNoMatch (BucketHead 0 0) (NodeHead 7) (\<lambda>x _. x = NodeHead 3) exMem = Some (True, m')
    \<and> slist m' (BucketHead 0 0) [NodeHead 1, NodeHead 2, NodeHead 3, NodeHead 7]"
  using slistAppendIfNoMatch_misses_last [of exMem "BucketHead 0 0" "[NodeHead 1, NodeHead 2]" "NodeHead 3"
      "NodeHead 7" "\<lambda>x _. x = NodeHead 3"] exMem_slist by auto

end
