(* ===== verification/Float32.thy ===== *)
theory Float32
  imports Prelude
begin

text \<open>
  What the table uses of \<open>float\<close>: IEEE-754 binary32 values with round-to-nearest-even, the
  conversion from \<open>size_t\<close>, multiplication and comparison.  A finite value is a pair of a
  significand and an exponent, read as \<open>m * 2 ^ e\<close>; signed zeros compare equal and are not told
  apart.
\<close>

datatype f32 = Fin int int | PInf | NInf | NaN

fun bitLength :: "nat \<Rightarrow> nat" where
  "bitLength n = (if n = 0 then 0 else Suc (bitLength (n div 2)))"

declare bitLength.simps [simp del]

text \<open>\<open>m div 2 ^ k\<close>, rounded to nearest with ties to even.\<close>

definition roundNearestEven :: "int \<Rightarrow> nat \<Rightarrow> int" where
  "roundNearestEven m k =
     (if k = 0 then m
      else let q = m div 2 ^ k; r = m mod 2 ^ k; half = 2 ^ (k - 1)
           in if r < half then q else if r > half then q + 1 else if even q then q else q + 1)"

text \<open>
  Rounding \<open>m * 2 ^ e\<close> to 24 bits of significand, with at least the exponent -149 of a subnormal;
  what reaches \<open>2 ^ 128\<close> is infinite.
\<close>

definition f32_round :: "int \<Rightarrow> int \<Rightarrow> f32" where
  "f32_round m e =
     (let k = max 0 (max (int (bitLength (nat \<bar>m\<bar>)) - 24) (-149 - e));
          q = roundNearestEven m (nat k)
      in if q \<noteq> 0 \<and> int (bitLength (nat \<bar>q\<bar>)) + (e + k) > 128 then (if m > 0 then PInf else NInf)
         else Fin q (e + k))"

definition f32_of_u64 :: "u64 \<Rightarrow> f32" where
  "f32_of_u64 w = f32_round (uint w) 0"

fun f32_sign :: "f32 \<Rightarrow> int" where
  "f32_sign (Fin m e) = sgn m"
| "f32_sign PInf = 1"
| "f32_sign NInf = -1"
| "f32_sign NaN = 0"

fun f32_mul :: "f32 \<Rightarrow> f32 \<Rightarrow> f32" where
  "f32_mul (Fin m1 e1) (Fin m2 e2) = f32_round (m1 * m2) (e1 + e2)"
| "f32_mul NaN _ = NaN"
| "f32_mul _ NaN = NaN"
| "f32_mul x y = (let s = f32_sign x * f32_sign y in if s > 0 then PInf else if s < 0 then NInf else NaN)"

fun f32_less :: "f32 \<Rightarrow> f32 \<Rightarrow> bool" where
  "f32_less (Fin m1 e1) (Fin m2 e2) \<longleftrightarrow>
     m1 * 2 ^ nat (e1 - min e1 e2) < m2 * 2 ^ nat (e2 - min e1 e2)"
| "f32_less NaN _ \<longleftrightarrow> False"
| "f32_less _ NaN \<longleftrightarrow> False"
| "f32_less NInf y \<longleftrightarrow> y \<noteq> NInf"
| "f32_less x PInf \<longleftrightarrow> x \<noteq> PInf"
| "f32_less _ _ \<longleftrightarrow> False"

subsection \<open>Exactness\<close>

lemma bitLength_le: "bitLength n \<le> k \<longleftrightarrow> n < 2 ^ k"
proof (induction k arbitrary: n)
  case 0
  then show ?case by (simp add: bitLength.simps)
next
  case (Suc k)
  show ?case
  proof (cases "n = 0")
    case True
    then show ?thesis by (simp add: bitLength.simps)
  next
    case False
    then have "bitLength n \<le> Suc k \<longleftrightarrow> n div 2 < 2 ^ k" using Suc.IH [of "n div 2"] by (simp add: bitLength.simps [of n])
    also have "\<dots> \<longleftrightarrow> n < 2 ^ Suc k" by (auto simp: div_less_iff_less_mult)
    finally show ?thesis .
  qed
qed

lemma bitLength_shift: "0 < n \<Longrightarrow> bitLength (n * 2 ^ k) = bitLength n + k"
proof (induction k)
  case 0
  then show ?case by simp
next
  case (Suc k)
  have "n * 2 ^ Suc k div 2 = n * 2 ^ k" by simp
  then show ?case using Suc by (simp add: bitLength.simps [of "n * 2 ^ Suc k"] del: power_Suc)
qed

text \<open>Integers below \<open>2 ^ 24\<close> are floats.\<close>

lemma f32_of_u64_exact: "unat w < 2 ^ 24 \<Longrightarrow> f32_of_u64 w = Fin (uint w) 0"
proof -
  assume w: "unat w < 2 ^ 24"
  then have "bitLength (unat w) \<le> 24" by (simp only: bitLength_le)
  then show ?thesis
    by (simp add: f32_of_u64_def f32_round_def roundNearestEven_def Let_def)
qed

text \<open>A value whose significand has 24 bits is rounded to itself.\<close>

lemma bitLength_24:
  assumes "2 ^ 23 \<le> a" "a < 2 ^ 24"
  shows "bitLength a = 24"
proof -
  have "bitLength a \<le> 24" "\<not> bitLength a \<le> 23" using assms by (simp_all only: bitLength_le not_less)
  then show ?thesis by simp
qed

lemma f32_round_scaled:
  assumes "2 ^ 23 \<le> a" "a < 2 ^ 24" "-149 \<le> e + int k" "e + int k \<le> 104"
  shows "f32_round (a * 2 ^ k) e = Fin a (e + int k)"
proof -
  have a0: "0 < a" using assms(1) by simp
  have "nat \<bar>a * 2 ^ k\<bar> = nat a * 2 ^ k" using a0 by (simp add: nat_mult_distrib nat_power_eq abs_mult)
  moreover have "bitLength (nat a) = 24" using assms(1,2) by (intro bitLength_24) (simp_all add: le_nat_iff nat_less_iff)
  ultimately have b: "bitLength (nat \<bar>a * 2 ^ k\<bar>) = 24 + k" "bitLength (nat \<bar>a\<bar>) = 24"
    using bitLength_shift [of "nat a" k] a0 by simp_all
  have "max 0 (max (int (24 + k) - 24) (-149 - e)) = int k" using assms(3) by simp
  moreover have "roundNearestEven (a * 2 ^ k) k = a" by (simp add: roundNearestEven_def Let_def)
  ultimately show ?thesis using b assms(4) a0 by (simp add: f32_round_def Let_def)
qed

lemma uint_two_power: "j < 64 \<Longrightarrow> uint ((2 :: u64) ^ j) = 2 ^ j"
  using unat_two_power [of j, where 'a = 64] by (simp add: uint_nat)

lemma f32_two_power:
  assumes "j \<le> 30"
  shows "f32_of_u64 (2 ^ j) = (if j \<le> 23 then Fin (2 ^ j) 0 else Fin (2 ^ 23) (int j - 23))"
proof (cases "j \<le> 23")
  case True
  then have "(2::nat) ^ j < 2 ^ 24" by (intro power_strict_increasing) auto
  then show ?thesis using True f32_of_u64_exact [of "2 ^ j"] by (simp add: unat_two_power uint_two_power)
next
  case False
  then have "(2::int) ^ j = 2 ^ 23 * 2 ^ (j - 23)" by (simp add: power_add [symmetric] del: power_numeral)
  then show ?thesis
    using False assms f32_round_scaled [of "2 ^ 23" 0 "j - 23"] by (simp add: f32_of_u64_def uint_two_power)
qed

subsection \<open>The load factors of the default configuration\<close>

text \<open>The product with \<open>1.1f\<close> is exact for every power of two, so the test compares integers.\<close>

lemma int_less_scaled:
  "int c < int a * 2 ^ k \<longleftrightarrow> c < a * 2 ^ k" "int c * 2 ^ k < int a \<longleftrightarrow> c * 2 ^ k < a"
  by (simp_all only: of_nat_less_iff [symmetric, where 'a = int] of_nat_mult of_nat_power of_nat_numeral)

lemma scale_less: "0 < c \<Longrightarrow> c * a < c * b \<longleftrightarrow> a < (b :: nat)"
  by simp

lemma expand_test:
  assumes "j \<le> 30" "unat n < 2 ^ 24"
  shows "f32_less (f32_mul (Fin 9227469 (-23)) (f32_of_u64 (2 ^ j))) (f32_of_u64 n)
    \<longleftrightarrow> 9227469 * 2 ^ j < unat n * 2 ^ 23"
proof -
  have m: "f32_mul (Fin 9227469 (-23)) (f32_of_u64 (2 ^ j)) = Fin 9227469 (int j - 23)"
  proof (cases "j \<le> 23")
    case True
    then show ?thesis using f32_two_power [OF assms(1)] f32_round_scaled [of 9227469 "-23" j] by simp
  next
    case False
    then show ?thesis using f32_two_power [OF assms(1)] f32_round_scaled [of 9227469 "int j - 46" 23] assms(1) by simp
  qed
  have n: "uint n = int (unat n)" by simp
  show ?thesis
  proof (cases "j \<le> 23")
    case True
    then have p: "(2::nat) ^ 23 = 2 ^ j * 2 ^ (23 - j)" by (simp add: power_add [symmetric] del: power_numeral)
    have "f32_less (Fin 9227469 (int j - 23)) (Fin (uint n) 0) \<longleftrightarrow> (9227469 :: int) < uint n * 2 ^ (23 - j)"
      using True by (simp add: nat_diff_distrib)
    also have "\<dots> \<longleftrightarrow> 9227469 < unat n * 2 ^ (23 - j)"
      unfolding n using int_less_scaled(1) [of 9227469 "unat n" "23 - j"] by (simp only: of_nat_numeral)
    also have "\<dots> \<longleftrightarrow> 9227469 * 2 ^ j < unat n * 2 ^ 23"
      unfolding p using scale_less [of "2 ^ j" 9227469 "unat n * 2 ^ (23 - j)"] by (simp only: ac_simps) simp
    finally show ?thesis using m f32_of_u64_exact [OF assms(2)] by simp
  next
    case False
    then have p: "(2::nat) ^ j = 2 ^ 23 * 2 ^ (j - 23)" by (simp add: power_add [symmetric] del: power_numeral)
    have "f32_less (Fin 9227469 (int j - 23)) (Fin (uint n) 0) \<longleftrightarrow> (9227469 :: int) * 2 ^ (j - 23) < uint n"
      using False by (simp add: nat_diff_distrib)
    also have "\<dots> \<longleftrightarrow> 9227469 * 2 ^ (j - 23) < unat n"
      unfolding n using int_less_scaled(2) [of 9227469 "j - 23" "unat n"] by (simp only: of_nat_numeral)
    also have "\<dots> \<longleftrightarrow> 9227469 * 2 ^ j < unat n * 2 ^ 23"
      unfolding p using scale_less [of "2 ^ 23" "9227469 * 2 ^ (j - 23)" "unat n"] by (simp only: ac_simps) simp
    finally show ?thesis using m f32_of_u64_exact [OF assms(2)] by simp
  qed
qed

end
