(* ===== verification/PowerOf2.thy ===== *)
theory PowerOf2
  imports Prelude
begin

text \<open>
  \<open>upperBoundPowerOf2\<close>, the bit-smearing round-up to a power of two.  The program has two copies:
  one in \<open>RCU.cpp\<close>, one in \<open>RCUHashTable.cpp\<close>; they treat the argument 0 differently but agree.
  Both work on \<open>uint32_t\<close>, so the sum wraps to 0 for arguments above \<open>2 ^ 31\<close>.
\<close>



subsection \<open>The two routines\<close>

text \<open>The five lines \<open>v |= v >> 1; \<dots> v |= v >> 16;\<close> that both copies share.\<close>

definition smear :: "u32 \<Rightarrow> u32" where
  "smear v0 =
     (let v1 = v0 OR drop_bit 1 v0;
          v2 = v1 OR drop_bit 2 v1;
          v3 = v2 OR drop_bit 4 v2;
          v4 = v3 OR drop_bit 8 v3
      in v4 OR drop_bit 16 v4)"

text \<open>\<open>RCU.cpp\<close>\<close>

definition upperBoundPowerOf2_rcu :: "u32 \<Rightarrow> u32" where
  "upperBoundPowerOf2_rcu v0 =
     (let v1 = (if v0 = 0 then v0 + 1 else v0);
          v2 = v1 - 1
      in smear v2 + 1)"

text \<open>\<open>RCUHashTable.cpp\<close>\<close>

definition upperBoundPowerOf2_tbl :: "u32 \<Rightarrow> u32" where
  "upperBoundPowerOf2_tbl v0 = (if v0 = 0 then 1 else smear (v0 - 1) + 1)"

subsection \<open>Smearing fills every bit below the highest one\<close>

lemma window_double:
  fixes i n :: nat
  shows "(\<exists>j\<ge>i. j < i + n \<and> P j) \<or> (\<exists>j\<ge>n + i. j < n + i + n \<and> P j) \<longleftrightarrow>
    (\<exists>j\<ge>i. j < i + (n + n) \<and> P j)"
proof
  assume "(\<exists>j\<ge>i. j < i + n \<and> P j) \<or> (\<exists>j\<ge>n + i. j < n + i + n \<and> P j)"
  then have "\<exists>j. i \<le> j \<and> j < i + (n + n) \<and> P j"
  proof (elim disjE exE conjE)
    fix j
    assume "i \<le> j" "j < i + n" "P j"
    then show ?thesis by (intro exI [of _ j]) simp
  next
    fix j
    assume "n + i \<le> j" "j < n + i + n" "P j"
    then show ?thesis by (intro exI [of _ j]) simp
  qed
  then show "\<exists>j\<ge>i. j < i + (n + n) \<and> P j" by blast
next
  assume "\<exists>j\<ge>i. j < i + (n + n) \<and> P j"
  then obtain j where j: "i \<le> j" "j < i + (n + n)" "P j" by blast
  show "(\<exists>j\<ge>i. j < i + n \<and> P j) \<or> (\<exists>j\<ge>n + i. j < n + i + n \<and> P j)"
  proof (cases "j < i + n")
    case True
    with j show ?thesis by blast
  next
    case False
    then have "n + i \<le> j" "j < n + i + n" using j by auto
    with j show ?thesis by blast
  qed
qed

lemma smear_step:
  fixes x w :: u32
  assumes "\<And>i. bit x i \<longleftrightarrow> (\<exists>j\<ge>i. j < i + n \<and> bit w j)" and "m = n + n"
  shows "bit (x OR drop_bit n x) i \<longleftrightarrow> (\<exists>j\<ge>i. j < i + m \<and> bit w j)"
  unfolding assms(2) window_double [symmetric]
  by (simp add: bit_or_iff bit_drop_bit_eq assms(1))

lemma bit_smear: "bit (smear w) i \<longleftrightarrow> (\<exists>j \<ge> i. bit w j)"
proof -
  have b0: "bit w i \<longleftrightarrow> (\<exists>j\<ge>i. j < i + 1 \<and> bit w j)" for i
    by (metis less_add_one le_antisym less_Suc_eq_le Suc_eq_plus1 order_refl)
  note b1 = smear_step [where m = 2, OF b0]
  note b2 = smear_step [where m = 4, OF b1]
  note b3 = smear_step [where m = 8, OF b2]
  note b4 = smear_step [where m = 16, OF b3]
  note b5 = smear_step [where m = 32, OF b4]
  have "bit (smear w) i \<longleftrightarrow> (\<exists>j\<ge>i. j < i + 32 \<and> bit w j)"
    unfolding smear_def Let_def by (rule b5) simp_all
  also have "\<dots> \<longleftrightarrow> (\<exists>j \<ge> i. bit w j)"
    using bit_imp_le_length [of w] by (force simp: less_le_trans)
  finally show ?thesis .
qed

lemma bit_nat_le: "bit (n :: nat) k \<Longrightarrow> 2 ^ k \<le> n"
  by (metis bit_iff_odd div_less even_zero not_less)

text \<open>So a smeared word is a mask: the ones below the bit length of its argument.\<close>

lemma smear_mask:
  assumes "w \<noteq> 0"
  shows "\<exists>k < 32. smear w = mask (Suc k) \<and> 2 ^ k \<le> unat w \<and> unat w < 2 ^ Suc k"
proof -
  define k where "k = Max {j. bit w j}"
  have fin: "finite {j. bit w j}" by (rule finite_bit_word)
  have ne: "{j. bit w j} \<noteq> {}" using assms by (auto simp: bit_eq_iff)
  have kb: "bit w k" using Max_in [OF fin ne] by (simp add: k_def)
  have kmax: "j \<le> k" if "bit w j" for j using Max_ge [OF fin] that by (simp add: k_def)
  have k32: "k < 32" using bit_imp_le_length [OF kb] by simp
  have bsm: "bit (smear w) i \<longleftrightarrow> i \<le> k" for i
    unfolding bit_smear using kb kmax by (meson le_trans)
  have sm: "smear w = mask (Suc k)"
  proof (rule bit_word_eqI)
    fix i
    assume "i < LENGTH(32)"
    then show "bit (smear w) i \<longleftrightarrow> bit (mask (Suc k) :: u32) i"
      unfolding bsm bit_mask_iff by auto
  qed
  have "take_bit (Suc k) (unat w) = unat w"
    by (rule bit_eqI) (use kmax in \<open>auto simp: bit_take_bit_iff bit_unsigned_iff less_Suc_eq_le\<close>)
  then have hi: "unat w < 2 ^ Suc k" by (simp add: take_bit_nat_eq_self_iff)
  have "bit (unat w) k" using kb by (simp add: bit_unsigned_iff)
  then have "2 ^ k \<le> unat w" by (rule bit_nat_le)
  with sm hi k32 show ?thesis by blast
qed


subsection \<open>Rounding up\<close>

lemma smear_0 [simp]: "smear 0 = 0"
  by (simp add: smear_def)

lemma smear_Suc:
  assumes "w \<noteq> 0"
  obtains k where "k < 32" "smear w + 1 = 2 ^ Suc k" "2 ^ k \<le> unat w" "unat w < 2 ^ Suc k"
proof -
  obtain k where "k < 32" "smear w = mask (Suc k)" "2 ^ k \<le> unat w" "unat w < 2 ^ Suc k"
    using smear_mask [OF assms] by blast
  moreover from this(2) have "smear w + 1 = 2 ^ Suc k"
    by (simp only: mask_eq_exp_minus_1 diff_add_cancel)
  ultimately show ?thesis by (intro that)
qed

lemma two_pow_32 [simp]: "(2 :: u32) ^ 32 = 0"
  by simp

lemma upperBoundPowerOf2_copies: "upperBoundPowerOf2_rcu v = upperBoundPowerOf2_tbl v"
  by (simp add: upperBoundPowerOf2_rcu_def upperBoundPowerOf2_tbl_def Let_def)

text \<open>
  The routine's contract: for arguments up to \<open>2 ^ 31\<close> the result is a power of two, it is not
  below the argument, and it is the least such power.
\<close>

lemma upperBoundPowerOf2_spec:
  assumes "unat v \<le> 2 ^ 31"
  obtains k where "k \<le> 31" "upperBoundPowerOf2_tbl v = 2 ^ k" "unat v \<le> 2 ^ k"
    "\<And>j. unat v \<le> 2 ^ j \<Longrightarrow> k \<le> j"
proof (cases "unat v \<le> 1")
  case True
  then have "v = 0 \<or> v = 1" by (metis One_nat_def le_Suc_eq le_zero_eq unsigned_1 unsigned_eq_0_iff word_eq_iff_unsigned)
  then show ?thesis using that [of 0] by (auto simp: upperBoundPowerOf2_tbl_def)
next
  case False
  then have v1: "v - 1 \<noteq> 0" and v0: "v \<noteq> 0" by auto
  then have um: "unat (v - 1) = unat v - 1" by (simp add: unat_minus_one)
  obtain k where k: "k < 32" "smear (v - 1) + 1 = 2 ^ Suc k" "2 ^ k \<le> unat (v - 1)"
    "unat (v - 1) < 2 ^ Suc k"
    using smear_Suc [OF v1] by blast
  have lo: "2 ^ k < unat v" using k(3) um False by simp
  have "Suc k \<le> 31"
  proof -
    have "(2::nat) ^ k < 2 ^ 31" using lo assms by simp
    then have "k < 31" by (rule power_less_imp_less_exp [rotated]) simp
    then show ?thesis by simp
  qed
  moreover have "unat v \<le> 2 ^ Suc k" using k(4) um by linarith
  moreover have "Suc k \<le> j" if "unat v \<le> 2 ^ j" for j
  proof -
    have "(2::nat) ^ k < 2 ^ j" using lo that by linarith
    then show ?thesis by simp
  qed
  ultimately show ?thesis using that [of "Suc k"] k(2) v0 by (simp add: upperBoundPowerOf2_tbl_def)
qed

text \<open>Above \<open>2 ^ 31\<close> the smeared word is all ones and the increment wraps to 0.\<close>

lemma upperBoundPowerOf2_wraps:
  assumes "2 ^ 31 < unat v"
  shows "upperBoundPowerOf2_tbl v = 0"
proof -
  have v1: "v - 1 \<noteq> 0" and v0: "v \<noteq> 0" using assms by auto
  then have um: "unat (v - 1) = unat v - 1" by (simp add: unat_minus_one)
  obtain k where k: "k < 32" "smear (v - 1) + 1 = 2 ^ Suc k" "unat (v - 1) < 2 ^ Suc k"
    using smear_Suc [OF v1] by blast
  have "(2::nat) ^ 31 < 2 ^ Suc k" using k(3) um assms by linarith
  then have "31 < Suc k" by (rule power_less_imp_less_exp [rotated]) simp
  then have "k = 31" using k(1) by simp
  then show ?thesis using k(2) v0 by (simp add: upperBoundPowerOf2_tbl_def)
qed

subsection \<open>Properties\<close>

text \<open>
  Both copies of \<open>upperBoundPowerOf2\<close> compute, for every argument up to \<open>2 ^ 31\<close>, the least
  power of two that is not below the argument.
\<close>

theorem upperBoundPowerOf2_least:
  assumes "unat v \<le> 2 ^ 31"
  shows "\<exists>k \<le> 31. upperBoundPowerOf2_rcu v = 2 ^ k \<and> upperBoundPowerOf2_tbl v = 2 ^ k
    \<and> unat v \<le> 2 ^ k \<and> (\<forall>j. unat v \<le> 2 ^ j \<longrightarrow> k \<le> j)"
  using upperBoundPowerOf2_spec [OF assms] by (metis upperBoundPowerOf2_copies)

theorem upperBoundPowerOf2_least_witness:
  "\<exists>k \<le> 31. upperBoundPowerOf2_rcu 65 = 2 ^ k \<and> upperBoundPowerOf2_tbl 65 = 2 ^ k
    \<and> unat (65 :: u32) \<le> 2 ^ k \<and> (\<forall>j. unat (65 :: u32) \<le> 2 ^ j \<longrightarrow> k \<le> j)"
  by (rule upperBoundPowerOf2_least) simp

text \<open>
  Above \<open>2 ^ 31\<close> no power of two fits: both copies return 0.
\<close>

theorem upperBoundPowerOf2_overflow:
  assumes "2 ^ 31 < unat v"
  shows "upperBoundPowerOf2_rcu v = 0 \<and> upperBoundPowerOf2_tbl v = 0"
  using upperBoundPowerOf2_wraps [OF assms] by (simp add: upperBoundPowerOf2_copies)

theorem upperBoundPowerOf2_overflow_witness:
  "upperBoundPowerOf2_rcu (-1) = 0 \<and> upperBoundPowerOf2_tbl (-1) = 0"
  by (rule upperBoundPowerOf2_overflow) (simp add: unsigned_minus_1_eq_mask mask_eq_exp_minus_1)

end
