(* ===== verification/TableCore.thy ===== *)
theory TableCore
  imports Slist Float32 PowerOf2
begin

text \<open>
  The hash table of \<open>RCUHashTableTypes.h\<close>, \<open>RCUHashTableCoreApi.h\<close> and \<open>RCUHashTable.cpp\<close> at a fixed
  number of buckets: the allocation of the bucket array, lookup, insertion and removal.  The table
  record is passed and returned beside the memory; resizing is the subject of \<open>Resize\<close>.
\<close>

subsection \<open>Data\<close>

text \<open>
  \<open>tsize\<close> is the atomic \<open>size\<close>; \<open>pBucketsInfo\<close> names the block of the current \<open>BucketsInfo\<close>.
\<close>

record RTableCore =
  tsize :: u64
  expandFactor :: f32
  shrinkFactor :: f32
  pBucketsInfo :: "nat option"

definition freshTable :: RTableCore where
  "freshTable = \<lparr>tsize = 0, expandFactor = Fin 256 0, shrinkFactor = Fin 8 0, pBucketsInfo = None\<rparr>"

record RTableCoreConfig =
  cfgBuckets :: u32
  cfgExpandFactor :: f32
  cfgShrinkFactor :: f32

text \<open>The defaults: 64 buckets, \<open>1.1f\<close> (the nearest float) and \<open>0.25f\<close>.\<close>

definition defaultCoreConfig :: RTableCoreConfig where
  "defaultCoreConfig = \<lparr>cfgBuckets = 64, cfgExpandFactor = Fin 9227469 (-23), cfgShrinkFactor = Fin 1 (-2)\<rparr>"

subsection \<open>Bucket arrays\<close>

text \<open>
  \<open>allocateAndInitBuckets\<close>: the assertion, the allocation and the loop that empties every bucket.
  Its counter is an \<open>int\<close>, which overflows for \<open>2 ^ 31\<close> buckets and more.
\<close>

definition allocateAndInitBuckets :: "u64 \<Rightarrow> mem \<Rightarrow> (nat \<times> mem) option" where
  "allocateAndInitBuckets nrBuckets m =
     (if nrBuckets = 0 then None
      else if unat nrBuckets \<ge> 2 ^ 31 then None
      else do {
        let k = freshBlock m;
        let m = emit (EAlloc k nrBuckets) m;
        m \<leftarrow> for_range 0 (unat nrBuckets) (\<lambda>iBucket m. Some (storeNext (BucketHead k iBucket) None m)) m;
        Some (k, m)
      })"

text \<open>\<open>free\<close> of a block that is not live is undefined.\<close>

definition destroyAndFreeBuckets :: "nat \<Rightarrow> mem \<Rightarrow> mem option" where
  "destroyAndFreeBuckets k m = do { _ \<leftarrow> blocks m k; Some (emit (EFree k) m) }"

text \<open>\<open>pBuckets + i\<close>, when it lies in the array.\<close>

definition bucketAt :: "mem \<Rightarrow> nat \<Rightarrow> nat \<Rightarrow> loc option" where
  "bucketAt m k i = do { n \<leftarrow> blocks m k; if i < unat n then Some (BucketHead k i) else None }"

text \<open>
  The opening lines of every operation: load \<open>pBucketsInfo\<close>, read the number of buckets, mask the
  hash value and compute the address of the bucket.
\<close>

definition bucketFor :: "RTableCore \<Rightarrow> u64 \<Rightarrow> mem \<Rightarrow> loc option" where
  "bucketFor t hashVal m =
     do {
       k \<leftarrow> pBucketsInfo t;
       n \<leftarrow> blocks m k;
       let bucketMask = n - 1;
       let bucketId = hashVal AND bucketMask;
       bucketAt m k (unat bucketId)
     }"

subsection \<open>Operations\<close>

definition rTableCoreInitDetailed :: "RTableCore \<Rightarrow> RTableCoreConfig \<Rightarrow> mem \<Rightarrow> (RTableCore \<times> mem) option" where
  "rTableCoreInitDetailed t conf m =
     do {
       let nrBucketsPowerOf2 = upperBoundPowerOf2_tbl (cfgBuckets conf);
       (k, m) \<leftarrow> allocateAndInitBuckets (ucast nrBucketsPowerOf2) m;
       Some (t\<lparr>expandFactor := cfgExpandFactor conf, shrinkFactor := cfgShrinkFactor conf,
               pBucketsInfo := Some k\<rparr>,
             emit (EPublish (Some k)) m)
     }"

definition rTableCoreFind :: "RTableCore \<Rightarrow> u64 \<Rightarrow> (loc \<Rightarrow> bool) \<Rightarrow> mem \<Rightarrow> ptr option" where
  "rTableCoreFind t hashVal predict m =
     do { b \<leftarrow> bucketFor t hashVal m; rcuSlistFindIf b predict m }"

definition rTableCoreTryDetachNoShrink ::
    "RTableCore \<Rightarrow> u64 \<Rightarrow> (loc \<Rightarrow> bool) \<Rightarrow> mem \<Rightarrow> (ptr \<times> mem) option" where
  "rTableCoreTryDetachNoShrink t hashVal predict m =
     do { b \<leftarrow> bucketFor t hashVal m; rcuSlistRemoveIf b predict m }"

definition rTableCoreTryInsertNoExpand ::
    "RTableCore \<Rightarrow> loc \<Rightarrow> u64 \<Rightarrow> (loc \<Rightarrow> loc \<Rightarrow> bool) \<Rightarrow> mem \<Rightarrow> (bool \<times> RTableCore \<times> mem) option" where
  "rTableCoreTryInsertNoExpand t pEntry hashVal binaryPredict m =
     do {
       let m = emit (EHash pEntry hashVal) m;
       b \<leftarrow> bucketFor t (hashOf m pEntry) m;
       (inserted, m) \<leftarrow> rcuSlistPrependIfNoMatch b pEntry binaryPredict m;
       Some (inserted, if inserted then t\<lparr>tsize := tsize t + 1\<rparr> else t, m)
     }"

definition rTableCoreInsertNoExpand :: "RTableCore \<Rightarrow> loc \<Rightarrow> mem \<Rightarrow> (RTableCore \<times> mem) option" where
  "rTableCoreInsertNoExpand t pEntry m =
     do {
       b \<leftarrow> bucketFor t (hashOf m pEntry) m;
       let m = storeNext pEntry (nxt m b) m;
       let m = storeNext b (Some pEntry) m;
       Some (t\<lparr>tsize := tsize t + 1\<rparr>, m)
     }"

text \<open>The destructor \<open>~RTableCore\<close>.\<close>

definition destroyTableCore :: "RTableCore \<Rightarrow> mem \<Rightarrow> mem option" where
  "destroyTableCore t m =
     (case pBucketsInfo t of None \<Rightarrow> Some m | Some k \<Rightarrow> destroyAndFreeBuckets k m)"

subsection \<open>Well-formed tables\<close>

text \<open>
  \<open>table m t j B\<close>: the current block of \<open>t\<close> has \<open>2 ^ j\<close> buckets, and bucket \<open>i\<close> holds the list
  \<open>B ! i\<close> of nodes, all of which hash to \<open>i\<close>.
\<close>

definition home :: "mem \<Rightarrow> nat \<Rightarrow> loc \<Rightarrow> nat" where
  "home m j x = unat (hashOf m x) mod 2 ^ j"

definition isNode :: "loc \<Rightarrow> bool" where
  "isNode x \<longleftrightarrow> (case x of NodeHead _ \<Rightarrow> True | _ \<Rightarrow> False)"

definition bucket_ok :: "mem \<Rightarrow> nat \<Rightarrow> nat \<Rightarrow> nat \<Rightarrow> loc list \<Rightarrow> bool" where
  "bucket_ok m k j i xs \<longleftrightarrow> slist m (BucketHead k i) xs \<and> (\<forall>x \<in> set xs. isNode x \<and> home m j x = i)"

definition fresh_blocks :: "mem \<Rightarrow> bool" where
  "fresh_blocks m \<longleftrightarrow> (\<forall>k \<ge> freshBlock m. blocks m k = None)"

definition buckets_at :: "mem \<Rightarrow> nat \<Rightarrow> nat \<Rightarrow> loc list list \<Rightarrow> bool" where
  "buckets_at m k j B \<longleftrightarrow> blocks m k = Some (2 ^ j) \<and> j < 31 \<and> k < freshBlock m
     \<and> length B = 2 ^ j \<and> (\<forall>i < 2 ^ j. bucket_ok m k j i (B ! i))"

definition table :: "mem \<Rightarrow> RTableCore \<Rightarrow> nat \<Rightarrow> loc list list \<Rightarrow> bool" where
  "table m t j B \<longleftrightarrow> (\<exists>k. pBucketsInfo t = Some k \<and> buckets_at m k j B) \<and> fresh_blocks m"

text \<open>
  The abstract state of a table is the partial map from the nodes in it to their hash values.
\<close>

definition absTable :: "mem \<Rightarrow> loc list list \<Rightarrow> loc \<rightharpoonup> u64" where
  "absTable m B x = (if x \<in> set (concat B) then Some (hashOf m x) else None)"

lemma buckets_atD:
  assumes "buckets_at m k j B"
  shows "blocks m k = Some (2 ^ j)" "j < 31" "k < freshBlock m" "length B = 2 ^ j"
    "i < 2 ^ j \<Longrightarrow> bucket_ok m k j i (B ! i)"
  using assms by (simp_all add: buckets_at_def)

lemma tableE:
  assumes "table m t j B"
  obtains k where "pBucketsInfo t = Some k" "buckets_at m k j B"
  using assms by (auto simp: table_def)

lemma bucketFor_block:
  assumes "pBucketsInfo t = Some k" "buckets_at m k j B"
  shows "bucketFor t h m = Some (BucketHead k (unat h mod 2 ^ j))"
proof -
  have "unat (h AND (2 ^ j - 1)) = unat h mod 2 ^ j" "unat ((2 :: u64) ^ j) = 2 ^ j"
    using buckets_atD(2) [OF assms(2)] by (simp_all add: and_mask_unat unat_two_power)
  then show ?thesis using assms(1) buckets_atD(1) [OF assms(2)]
    by (simp add: bucketFor_def bucketAt_def Let_def)
qed

text \<open>The bucket of a hash value, and the list in it.\<close>

lemma bucketFor_table:
  assumes "table m t j B"
  obtains k where "bucketFor t h m = Some (BucketHead k (unat h mod 2 ^ j))"
    "bucket_ok m k j (unat h mod 2 ^ j) (B ! (unat h mod 2 ^ j))" "pBucketsInfo t = Some k"
proof -
  obtain k where k: "pBucketsInfo t = Some k" "buckets_at m k j B" using assms by (rule tableE)
  then show ?thesis using that [of k] bucketFor_block [OF k] buckets_atD(5) [OF k(2)] by simp
qed

lemma bucket_ok_frame:
  assumes "bucket_ok m k j i xs" "touches A m m'" "A \<inter> set (BucketHead k i # xs) = {}"
  shows "bucket_ok m' k j i xs"
  using assms bucketList.contents_frame [OF _ assms(2,3)] by (auto simp: bucket_ok_def home_def touchesD)

lemma bucket_ok_disjoint:
  assumes "bucket_ok m k j i xs" "bucket_ok m k' j i' ys" "i \<noteq> i'"
  shows "set (BucketHead k i # xs) \<inter> set (BucketHead k' i' # ys) = {}"
  using assms by (force simp: bucket_ok_def isNode_def)

text \<open>Replacing the contents of one bucket keeps a table well formed.\<close>

lemma table_update:
  assumes tb: "table m t j B" and k: "pBucketsInfo t = Some k" and i: "i < 2 ^ j"
    and ok: "bucket_ok m' k j i xs" and fr: "touches A m m'" "\<And>i'. i' < 2 ^ j \<Longrightarrow> i' \<noteq> i \<Longrightarrow>
      A \<inter> set (BucketHead k i' # B ! i') = {}"
  shows "table m' (t\<lparr>tsize := s\<rparr>) j (B[i := xs])"
proof -
  have at: "buckets_at m k j B" using tb k by (auto elim: tableE)
  have "bucket_ok m' k j i' (B[i := xs] ! i')" if "i' < 2 ^ j" for i'
    using ok bucket_ok_frame [OF buckets_atD(5) [OF at that] fr(1)] fr(2) [OF that] that buckets_atD(4) [OF at]
    by (cases "i' = i") simp_all
  moreover have "blocks m' = blocks m" "freshBlock m' = freshBlock m" using fr(1) by (simp_all add: touchesD)
  ultimately show ?thesis using k at tb by (simp add: table_def buckets_at_def fresh_blocks_def)
qed

subsection \<open>What the operations do to a table\<close>

lemma for_range_init:
  assumes "n \<le> N"
  shows "\<exists>m'. for_range 0 n (\<lambda>i m. Some (storeNext (BucketHead k i) None m)) m = Some m'
    \<and> (\<forall>i < n. nxt m' (BucketHead k i) = None) \<and> stores (BucketHead k ` {..<N}) m m'"
proof (rule for_range_rule [where I = "\<lambda>i m'. (\<forall>i' < i. nxt m' (BucketHead k i') = None)
    \<and> stores (BucketHead k ` {..<N}) m m'"])
  fix i s
  assume "i < n" "(\<forall>i' < i. nxt s (BucketHead k i') = None) \<and> stores (BucketHead k ` {..<N}) m s"
  then show "\<exists>s'. Some (storeNext (BucketHead k i) None s) = Some s' \<and>
      (\<forall>i' < Suc i. nxt s' (BucketHead k i') = None) \<and> stores (BucketHead k ` {..<N}) m s'"
    using assms by (auto simp: less_Suc_eq intro!: stores_store)
qed auto

text \<open>A fresh block of empty buckets.\<close>

lemma allocate_ok:
  assumes "n \<noteq> 0" "unat n < 2 ^ 31"
  obtains m' where "allocateAndInitBuckets n m = Some (freshBlock m, m')"
    "\<And>i. i < unat n \<Longrightarrow> nxt m' (BucketHead (freshBlock m) i) = None"
    "\<And>a. (\<And>i. a \<noteq> BucketHead (freshBlock m) i) \<Longrightarrow> nxt m' a = nxt m a"
    "hashOf m' = hashOf m" "blocks m' = (blocks m)(freshBlock m \<mapsto> n)"
    "freshBlock m' = Suc (freshBlock m)"
    "stores (range (BucketHead (freshBlock m))) (emit (EAlloc (freshBlock m) n) m) m'"
proof -
  let ?k = "freshBlock m" and ?m = "emit (EAlloc (freshBlock m) n) m"
  obtain m' where m': "for_range 0 (unat n) (\<lambda>i m. Some (storeNext (BucketHead ?k i) None m)) ?m = Some m'"
    "\<forall>i < unat n. nxt m' (BucketHead ?k i) = None" "stores (BucketHead ?k ` {..<unat n}) ?m m'"
    using for_range_init [of "unat n" "unat n" ?k ?m] by blast
  then have "allocateAndInitBuckets n m = Some (?k, m')"
    using assms by (simp add: allocateAndInitBuckets_def Let_def)
  moreover have "nxt m' a = nxt m a" if "\<And>i. a \<noteq> BucketHead ?k i" for a
    using touchesD(1) [OF stores_touches [OF m'(3)], of a] that by auto
  moreover have "stores (range (BucketHead ?k)) ?m m'" by (rule stores_mono [OF m'(3)]) auto
  ultimately show ?thesis using that m'(2) touchesD [OF stores_touches [OF m'(3)]] by simp
qed

lemma init_table:
  assumes "unat (cfgBuckets conf) \<le> 2 ^ 30" and "fresh_blocks m"
  obtains t' m' j where "rTableCoreInitDetailed t conf m = Some (t', m')"
    "table m' t' j (replicate (2 ^ j) [])" "unat (cfgBuckets conf) \<le> 2 ^ j" "tsize t' = tsize t"
    "expandFactor t' = cfgExpandFactor conf" "shrinkFactor t' = cfgShrinkFactor conf"
    "\<And>i. unat (cfgBuckets conf) \<le> 2 ^ i \<Longrightarrow> j \<le> i"
proof -
  let ?n = "upperBoundPowerOf2_tbl (cfgBuckets conf)" and ?k = "freshBlock m"
  have le31: "unat (cfgBuckets conf) \<le> 2 ^ 31" using assms(1) by simp
  obtain j where j: "?n = 2 ^ j" "unat (cfgBuckets conf) \<le> 2 ^ j" "\<And>i. unat (cfgBuckets conf) \<le> 2 ^ i \<Longrightarrow> j \<le> i"
    using upperBoundPowerOf2_spec [of "cfgBuckets conf"] le31 by blast
  have j30: "j \<le> 30" using j(3) assms(1) by simp
  define n where "n = (ucast ?n :: u64)"
  have u: "unat ?n = 2 ^ j" using j(1) j30 by (simp add: unat_two_power)
  have "(2::nat) ^ j < 2 ^ 64" using j30 by (intro power_strict_increasing) auto
  then have un: "unat n = 2 ^ j" unfolding n_def using unat_ucast_small [of ?n, where 'b = 64] u by simp
  have n: "n = 2 ^ j"
    by (rule word_unat_eq_iff [THEN iffD2]) (use un j30 in \<open>simp add: unat_two_power\<close>)
  have n0: "n \<noteq> 0" using un by auto
  have "(2::nat) ^ j < 2 ^ 31" using j30 by (intro power_strict_increasing) auto
  then obtain m' where m': "allocateAndInitBuckets n m = Some (?k, m')"
    "\<And>i. i < unat n \<Longrightarrow> nxt m' (BucketHead ?k i) = None" "blocks m' = (blocks m)(?k \<mapsto> n)"
    "freshBlock m' = Suc ?k"
    using allocate_ok [of n m] un n0 by metis
  let ?t = "t\<lparr>expandFactor := cfgExpandFactor conf, shrinkFactor := cfgShrinkFactor conf, pBucketsInfo := Some ?k\<rparr>"
  have "rTableCoreInitDetailed t conf m = Some (?t, emit (EPublish (Some ?k)) m')"
    using m'(1) by (simp add: rTableCoreInitDetailed_def Let_def n_def)
  moreover have "table (emit (EPublish (Some ?k)) m') ?t j (replicate (2 ^ j) [])"
    using m'(2-4) j30 n un assms(2) by (auto simp: table_def buckets_at_def fresh_blocks_def bucket_ok_def slist_def)
  ultimately show ?thesis using that j(2,3) by simp
qed

subsection \<open>What the operations do to the abstract table\<close>

lemma dom_absTable: "x \<in> dom (absTable m B) \<longleftrightarrow> x \<in> set (concat B)"
  by (simp add: absTable_def dom_def)

lemma concat_nth: "x \<in> set (concat B) \<longleftrightarrow> (\<exists>i < length B. x \<in> set (B ! i))"
  by (metis UN_iff in_set_conv_nth set_concat)

lemma set_concat_update:
  assumes "i < length B"
  shows "x \<in> set (concat (B[i := xs])) \<longleftrightarrow> x \<in> set xs \<or> (\<exists>i' < length B. i' \<noteq> i \<and> x \<in> set (B ! i'))"
  using assms by (auto simp: concat_nth nth_list_update simp del: set_concat)

text \<open>Every element of a table sits in the bucket its hash value selects.\<close>

lemma table_home:
  assumes "buckets_at m k j B" "i < 2 ^ j" "x \<in> set (B ! i)"
  shows "home m j x = i" "isNode x"
  using buckets_atD(5) [OF assms(1,2)] assms(3) by (auto simp: bucket_ok_def)

lemma table_member:
  assumes "buckets_at m k j B"
  shows "x \<in> set (concat B) \<longleftrightarrow> x \<in> set (B ! home m j x)"
proof -
  have "home m j x < 2 ^ j" by (simp add: home_def)
  then show ?thesis using table_home(1) [OF assms] buckets_atD(4) [OF assms]
    by (simp only: concat_nth) metis
qed

lemma bucket_ok_hash:
  "a \<notin> set xs \<Longrightarrow> bucket_ok m k j i xs \<Longrightarrow> bucket_ok (emit (EHash a h) m) k j i xs"
  by (auto simp: bucket_ok_def home_def)

lemma table_hash:
  assumes "table m t j B" "e \<notin> set (concat B)"
  shows "table (emit (EHash e h) m) t j B"
proof -
  have "e \<notin> set (B ! i)" if "i < length B" for i using assms(2) that nth_mem by fastforce
  then show ?thesis using assms(1) bucket_ok_hash
    by (auto simp: table_def buckets_at_def fresh_blocks_def)
qed

lemma rTableCoreFind_eq:
  assumes "table m t j B"
  shows "rTableCoreFind t h P m = Some (find P (B ! (unat h mod 2 ^ j)))"
proof -
  obtain k where "bucketFor t h m = Some (BucketHead k (unat h mod 2 ^ j))"
    "bucket_ok m k j (unat h mod 2 ^ j) (B ! (unat h mod 2 ^ j))"
    using bucketFor_table [OF assms] by metis
  then show ?thesis by (simp add: rTableCoreFind_def bucketList.lookup_law bucket_ok_def)
qed

text \<open>Inserting a node at the head of its bucket, whichever operation does it.\<close>

lemma table_prepend:
  assumes tb: "table m t j B" and k: "pBucketsInfo t = Some k" and e: "isNode e" "e \<notin> set (concat B)"
    and i: "i = home m j e"
    and ok: "slist m' (BucketHead k i) (e # B ! i)" "touches {BucketHead k i, e} m m'"
  shows "table m' (t\<lparr>tsize := s\<rparr>) j (B[i := e # B ! i])"
    and "absTable m' (B[i := e # B ! i]) = (absTable m B)(e \<mapsto> hashOf m e)"
proof -
  have at: "buckets_at m k j B" using tb k by (auto elim: tableE)
  have i2: "i < 2 ^ j" and len: "length B = 2 ^ j" using i buckets_atD(4) [OF at] by (simp_all add: home_def)
  have hm: "hashOf m' = hashOf m" using touchesD(2) [OF ok(2)] .
  have bo: "bucket_ok m' k j i (e # B ! i)"
    using ok(1) i e(1) hm buckets_atD(5) [OF at i2] by (auto simp: bucket_ok_def home_def)
  have fr: "{BucketHead k i, e} \<inter> set (BucketHead k i' # B ! i') = {}" if "i' < 2 ^ j" "i' \<noteq> i" for i'
    using e buckets_atD(5) [OF at that(1)] that len nth_mem [of i' B]
    by (auto simp: bucket_ok_def isNode_def split: loc.splits)
  show "table m' (t\<lparr>tsize := s\<rparr>) j (B[i := e # B ! i])"
    by (rule table_update [OF tb k i2 bo ok(2) fr])
  show "absTable m' (B[i := e # B ! i]) = (absTable m B)(e \<mapsto> hashOf m e)"
  proof -
    have "x \<in> set (concat (B[i := e # B ! i])) \<longleftrightarrow> x = e \<or> x \<in> set (concat B)" for x
      unfolding concat_nth [of x B] using set_concat_update [of i B x "e # B ! i"] i2 len by auto
    then show ?thesis using hm by (simp add: absTable_def fun_eq_iff)
  qed
qed

lemma rTableCoreTryInsertNoExpand_table:
  assumes tb: "table m t j B" and e: "isNode e" "e \<notin> set (concat B)"
  shows "\<exists>ins t' m' B'. rTableCoreTryInsertNoExpand t e h R m = Some (ins, t', m')
    \<and> ins = (\<not> (\<exists>x \<in> set (B ! (unat h mod 2 ^ j)). R x e)) \<and> table m' t' j B'
    \<and> absTable m' B' = (if ins then (absTable m B)(e \<mapsto> h) else absTable m B)
    \<and> t' = t\<lparr>tsize := tsize t + (if ins then 1 else 0)\<rparr>"
proof -
  let ?m = "emit (EHash e h) m" and ?i = "unat h mod 2 ^ j"
  have tb': "table ?m t j B" using table_hash [OF tb e(2)] .
  then obtain k where k: "bucketFor t h ?m = Some (BucketHead k ?i)" "bucket_ok ?m k j ?i (B ! ?i)"
    "pBucketsInfo t = Some k" using bucketFor_table by metis
  have at: "buckets_at ?m k j B" using tb' k(3) by (auto elim: tableE)
  have i: "?i = home ?m j e" "?i < 2 ^ j" by (simp_all add: home_def)
  have eb: "e \<notin> set (BucketHead k ?i # B ! ?i)"
    using e table_member [OF at, of e] i(1) by (auto simp: isNode_def simp del: set_concat split: loc.splits)
  let ?hit = "\<exists>x \<in> set (B ! ?i). R x e"
  obtain m' where m': "rcuSlistPrependIfNoMatch (BucketHead k ?i) e R ?m = Some (\<not> ?hit, m')"
    "slist m' (BucketHead k ?i) (if ?hit then B ! ?i else e # B ! ?i)" "touches {BucketHead k ?i, e} ?m m'"
    "?hit \<Longrightarrow> m' = ?m"
  proof (cases ?hit)
    case True
    then show ?thesis using that [of ?m] rcuSlistPrependIfNoMatch_slist [of ?m "BucketHead k ?i" "B ! ?i" e R] k(2) eb
      by (simp add: bucket_ok_def)
  next
    case False
    then show ?thesis using that bucketList.insert_law [of ?m "BucketHead k ?i" "B ! ?i" e R] k(2) eb
      by (auto simp: bucket_ok_def)
  qed
  have run: "rTableCoreTryInsertNoExpand t e h R m =
      Some (\<not> ?hit, if \<not> ?hit then t\<lparr>tsize := tsize t + 1\<rparr> else t, m')"
    using k(1) m'(1) by (simp add: rTableCoreTryInsertNoExpand_def Let_def)
  have ab: "absTable ?m B = absTable m B" using e(2) by (auto simp: absTable_def fun_eq_iff)
  show ?thesis
  proof (cases ?hit)
    case True
    have h: "(\<exists>x \<in> set (B ! ?i). R x e) = True" using True by blast
    show ?thesis unfolding run using tb' m'(4) [OF True] ab
      by (intro exI [of _ False] exI [of _ t] exI [of _ m'] exI [of _ B]) (simp add: h)
  next
    case False
    have h: "(\<exists>x \<in> set (B ! ?i). R x e) = False" using False by blast
    have sl: "slist m' (BucketHead k ?i) (e # B ! ?i)" using m'(2) by (simp add: h)
    show ?thesis unfolding run h using table_prepend [OF tb' k(3) e i(1) sl m'(3)] ab
      by (intro exI [of _ True] exI [of _ "t\<lparr>tsize := tsize t + 1\<rparr>"] exI [of _ m']
          exI [of _ "B[?i := e # B ! ?i]"]) simp
  qed
qed

text \<open>A node that is in the table already, under the same hash value, matches itself and is refused.\<close>

lemma rTableCoreTryInsertNoExpand_again:
  assumes tb: "table m t j B" and e: "absTable m B e = Some h" and R: "R e e"
  shows "rTableCoreTryInsertNoExpand t e h R m = Some (False, t, emit (EHash e h) m)"
    and "table (emit (EHash e h) m) t j B" and "absTable (emit (EHash e h) m) B = absTable m B"
proof -
  have eh: "e \<in> set (concat B)" "hashOf m e = h" using e by (simp_all only: absTable_def split: if_splits) auto
  then have hm: "(hashOf m)(e := h) = hashOf m" by auto
  let ?m = "emit (EHash e h) m" and ?i = "unat h mod 2 ^ j"
  show tb': "table ?m t j B"
    using tb by (simp add: table_def buckets_at_def fresh_blocks_def bucket_ok_def home_def hm)
  show "absTable ?m B = absTable m B" by (simp add: absTable_def hm fun_eq_iff)
  obtain k where k: "bucketFor t h ?m = Some (BucketHead k ?i)" "bucket_ok ?m k j ?i (B ! ?i)" "pBucketsInfo t = Some k"
    using bucketFor_table [OF tb'] by metis
  have at: "buckets_at m k j B" using tb k(3) by (auto elim: tableE)
  have "e \<in> set (B ! ?i)" using table_member [OF at, of e] eh by (simp add: home_def del: set_concat)
  then have "\<exists>x \<in> set (B ! ?i). R x e" using R by blast
  moreover have "lst (nxt ?m) (nxt ?m (BucketHead k ?i)) (B ! ?i)" using k(2) by (simp add: bucket_ok_def slist_def)
  ultimately have "matchLoop (nxt ?m (BucketHead k ?i)) ?m R e = Some True" using matchLoop_lst [of ?m _ "B ! ?i" R e] by simp
  then have "rcuSlistPrependIfNoMatch (BucketHead k ?i) e R ?m = Some (False, ?m)"
    by (simp add: rcuSlistPrependIfNoMatch_def)
  then show "rTableCoreTryInsertNoExpand t e h R m = Some (False, t, ?m)"
    using k(1) by (simp add: rTableCoreTryInsertNoExpand_def Let_def)
qed

text \<open>Detaching removes the first match of the bucket and leaves the size counter alone.\<close>

lemma rTableCoreTryDetachNoShrink_table:
  assumes tb: "table m t j B"
  shows "\<exists>m' B'. rTableCoreTryDetachNoShrink t h P m = Some (find P (B ! (unat h mod 2 ^ j)), m')
    \<and> table m' t j B'
    \<and> absTable m' B' = (case find P (B ! (unat h mod 2 ^ j)) of None \<Rightarrow> absTable m B
        | Some x \<Rightarrow> (absTable m B)(x := None))"
proof -
  let ?i = "unat h mod 2 ^ j"
  obtain k where k: "bucketFor t h m = Some (BucketHead k ?i)" "bucket_ok m k j ?i (B ! ?i)"
    "pBucketsInfo t = Some k" using bucketFor_table [OF tb] by metis
  have at: "buckets_at m k j B" using tb k(3) by (auto elim: tableE)
  have i: "?i < 2 ^ j" "length B = 2 ^ j" using buckets_atD(4) [OF at] by simp_all
  have sl: "slist m (BucketHead k ?i) (B ! ?i)" using k(2) by (simp add: bucket_ok_def)
  obtain m' where m': "rcuSlistRemoveIf (BucketHead k ?i) P m = Some (find P (B ! ?i), m')"
    "slist m' (BucketHead k ?i) (dropFirst P (B ! ?i))"
    "touches (set (BucketHead k ?i # B ! ?i)) m m'"
    using bucketList.remove_law [OF sl, of P] by blast
  have sub: "set (dropFirst P (B ! ?i)) = (case find P (B ! ?i) of None \<Rightarrow> set (B ! ?i)
      | Some x \<Rightarrow> set (B ! ?i) - {x})"
    using set_dropFirst [OF slist_distinct [OF sl]] by (simp add: dropFirst_none split: option.split)
  have hm: "hashOf m' = hashOf m" using touchesD(2) [OF m'(3)] .
  have "set (dropFirst P (B ! ?i)) \<subseteq> set (B ! ?i)" using sub by (auto split: option.splits)
  then have bo: "bucket_ok m' k j ?i (dropFirst P (B ! ?i))"
    using m'(2) k(2) hm by (auto simp: bucket_ok_def home_def)
  have fr: "set (BucketHead k ?i # B ! ?i) \<inter> set (BucketHead k i' # B ! i') = {}" if "i' < 2 ^ j" "i' \<noteq> ?i" for i'
    using bucket_ok_disjoint [OF k(2) buckets_atD(5) [OF at that(1)]] that(2) by blast
  have tb': "table m' (t\<lparr>tsize := tsize t\<rparr>) j (B[?i := dropFirst P (B ! ?i)])"
    by (rule table_update [OF tb k(3) i(1) bo m'(3) fr])
  have mem: "x \<in> set (concat (B[?i := dropFirst P (B ! ?i)])) \<longleftrightarrow>
      x \<in> set (concat B) \<and> find P (B ! ?i) \<noteq> Some x" for x
  proof -
    have "x \<in> set (B ! i') \<Longrightarrow> i' < 2 ^ j \<Longrightarrow> i' \<noteq> ?i \<Longrightarrow> find P (B ! ?i) \<noteq> Some x" for i'
      using table_home(1) [OF at] i(1) by (metis find_Some_iff nth_mem)
    moreover have "x \<in> set (dropFirst P (B ! ?i)) \<longleftrightarrow> x \<in> set (B ! ?i) \<and> find P (B ! ?i) \<noteq> Some x"
      using sub by (auto split: option.splits)
    moreover have "(\<exists>i' < 2 ^ j. x \<in> set (B ! i')) \<longleftrightarrow> x \<in> set (B ! ?i) \<or> (\<exists>i' < 2 ^ j. i' \<noteq> ?i \<and> x \<in> set (B ! i'))"
      using i(1) by blast
    ultimately show ?thesis
      using set_concat_update [of ?i B x "dropFirst P (B ! ?i)"] concat_nth [of x B] i by metis
  qed
  have ab: "absTable m' (B[?i := dropFirst P (B ! ?i)]) = (case find P (B ! ?i) of None \<Rightarrow> absTable m B
      | Some x \<Rightarrow> (absTable m B)(x := None))"
    using mem hm by (auto simp: absTable_def fun_eq_iff simp del: set_concat split: option.split)
  show ?thesis using k(1) m'(1) tb' ab
    by (intro exI [of _ m'] exI [of _ "B[?i := dropFirst P (B ! ?i)]"]) (simp add: rTableCoreTryDetachNoShrink_def)
qed

subsection \<open>Properties\<close>

definition exTable :: RTableCore where
  "exTable = freshTable\<lparr>pBucketsInfo := Some 0, tsize := 3\<rparr>"

definition exBuckets :: "loc list list" where
  "exBuckets = [[NodeHead 1, NodeHead 2, NodeHead 3]]"

lemma exMem_table: "table exMem exTable 0 exBuckets"
  using exMem_slist
  by (simp add: table_def buckets_at_def fresh_blocks_def exTable_def freshTable_def exBuckets_def
      bucket_ok_def home_def isNode_def) (simp add: exMem_def)

text \<open>
  \<open>rTableCoreInitDetailed\<close> builds an empty well-formed table with at least the requested number
  of buckets, rounded up to a power of two.
\<close>

theorem tableInit_ok:
  assumes "unat (cfgBuckets conf) \<le> 2 ^ 30" and "fresh_blocks m"
  shows "\<exists>t' m' j. rTableCoreInitDetailed t conf m = Some (t', m') \<and> table m' t' j (replicate (2 ^ j) [])
    \<and> unat (cfgBuckets conf) \<le> 2 ^ j \<and> absTable m' (replicate (2 ^ j) []) = Map.empty \<and> tsize t' = tsize t"
proof -
  have "absTable m' (replicate (2 ^ j) []) = Map.empty" for m' j by (auto simp: absTable_def)
  then show ?thesis using init_table [OF assms, of t] by metis
qed

theorem tableInit_ok_witness:
  "\<exists>t' m' j. rTableCoreInitDetailed freshTable defaultCoreConfig exMem = Some (t', m')
    \<and> table m' t' j (replicate (2 ^ j) []) \<and> tsize t' = 0"
  using tableInit_ok [of defaultCoreConfig exMem freshTable]
  by (auto simp: defaultCoreConfig_def freshTable_def fresh_blocks_def exMem_def)

text \<open>
  C31.  Initialisation fails exactly for more than \<open>2 ^ 30\<close> buckets: up to \<open>2 ^ 31\<close> the loop counter of
  \<open>allocateAndInitBuckets\<close> would overflow, and above the rounded number is 0 and the assertion fails.
  A request for 0 buckets is served with one bucket.
\<close>

theorem tableInit_fails_iff:
  assumes "fresh_blocks m"
  shows "(rTableCoreInitDetailed t conf m = None \<longleftrightarrow> 2 ^ 30 < unat (cfgBuckets conf))
    \<and> (cfgBuckets conf = 0 \<longrightarrow> (\<exists>t' m'. rTableCoreInitDetailed t conf m = Some (t', m') \<and> table m' t' 0 [[]]))"
proof -
  let ?n = "cfgBuckets conf"
  have "rTableCoreInitDetailed t conf m = None" if "2 ^ 30 < unat ?n"
  proof (cases "unat ?n \<le> 2 ^ 31")
    case True
    obtain j where j: "upperBoundPowerOf2_tbl ?n = 2 ^ j" "unat ?n \<le> 2 ^ j" "\<And>i. unat ?n \<le> 2 ^ i \<Longrightarrow> j \<le> i"
      using upperBoundPowerOf2_spec [of ?n] True by blast
    have "j \<le> 31" using j(3) True by simp
    moreover have "\<not> j \<le> 30"
    proof
      assume "j \<le> 30"
      then have "(2 :: nat) ^ j \<le> 2 ^ 30" by (rule power_increasing) simp
      then show False using that j(2) by simp
    qed
    ultimately have "j = 31" by simp
    then have "unat (ucast (upperBoundPowerOf2_tbl ?n) :: u64) = 2 ^ 31" using j(1) by (simp add: unat_ucast_small)
    then show ?thesis by (simp add: rTableCoreInitDetailed_def allocateAndInitBuckets_def Let_def)
  next
    case False
    then have "upperBoundPowerOf2_tbl ?n = 0" using upperBoundPowerOf2_wraps [of ?n] by simp
    then show ?thesis by (simp add: rTableCoreInitDetailed_def allocateAndInitBuckets_def)
  qed
  moreover have "rTableCoreInitDetailed t conf m \<noteq> None" if "\<not> 2 ^ 30 < unat ?n"
  proof -
    have "unat ?n \<le> 2 ^ 30" using that by simp
    then show ?thesis by (rule init_table [OF _ assms, of conf t]) simp
  qed
  moreover have "\<exists>t' m'. rTableCoreInitDetailed t conf m = Some (t', m') \<and> table m' t' 0 [[]]" if "?n = 0"
  proof -
    have n: "unat ?n \<le> 2 ^ 30" using that by simp
    obtain t' m' j where *: "rTableCoreInitDetailed t conf m = Some (t', m')" "table m' t' j (replicate (2 ^ j) [])"
      "\<And>i. unat ?n \<le> 2 ^ i \<Longrightarrow> j \<le> i" by (rule init_table [OF n assms, of t]) blast
    have "j = 0" using *(3) [of 0] that by simp
    then show ?thesis using *(1,2) by auto
  qed
  ultimately show ?thesis by blast
qed

theorem tableInit_fails_iff_witness:
  "rTableCoreInitDetailed freshTable (defaultCoreConfig\<lparr>cfgBuckets := 2 ^ 30 + 1\<rparr>) exMem = None
    \<and> rTableCoreInitDetailed freshTable (defaultCoreConfig\<lparr>cfgBuckets := 2 ^ 30\<rparr>) exMem \<noteq> None"
proof -
  have f: "fresh_blocks exMem" by (simp add: fresh_blocks_def exMem_def)
  show ?thesis
    using tableInit_fails_iff [OF f, of freshTable "defaultCoreConfig\<lparr>cfgBuckets := 2 ^ 30 + 1\<rparr>"]
      tableInit_fails_iff [OF f, of freshTable "defaultCoreConfig\<lparr>cfgBuckets := 2 ^ 30\<rparr>"] by simp
qed

text \<open>
  \<open>rTableCoreFind\<close> with a predicate that only accepts nodes of the given hash value returns a
  node of the table that satisfies it, and null only when the table holds none.
\<close>

theorem tableFind_correct:
  assumes "table m t j B" and "\<forall>x. P x \<longrightarrow> hashOf m x = h"
  shows "\<exists>r. rTableCoreFind t h P m = Some r \<and> (case r of
      None \<Rightarrow> \<forall>x \<in> dom (absTable m B). \<not> P x
    | Some x \<Rightarrow> P x \<and> absTable m B x = Some h)"
proof -
  obtain k where at: "buckets_at m k j B" using assms(1) by (rule tableE)
  define b where "b = B ! (unat h mod 2 ^ j)"
  have in_b: "x \<in> set b" if "x \<in> set (concat B)" "P x" for x
    using that table_member [OF at, of x] assms(2) by (simp add: home_def b_def del: set_concat)
  have of_b: "x \<in> set (concat B)" if "x \<in> set b" for x
    using that concat_nth [of x B] buckets_atD(4) [OF at]
    by (metis b_def mod_less_divisor zero_less_power zero_less_numeral)
  have run: "rTableCoreFind t h P m = Some (find P b)" using rTableCoreFind_eq [OF assms(1)] by (simp add: b_def)
  show ?thesis
  proof (cases "find P b")
    case None
    then have "\<forall>x \<in> dom (absTable m B). \<not> P x" using in_b dom_absTable by (metis find_None_iff)
    then show ?thesis using run None by simp
  next
    case (Some x)
    then have "P x" "x \<in> set b" using find_split [of P b x] by auto
    then show ?thesis using run Some of_b assms(2) by (simp add: absTable_def del: set_concat)
  qed
qed

theorem tableFind_correct_witness:
  "\<exists>r. rTableCoreFind exTable 0 (\<lambda>x. x = NodeHead 2) exMem = Some r \<and> r = Some (NodeHead 2)"
  using tableFind_correct [OF exMem_table, of "\<lambda>x. x = NodeHead 2" 0]
  by (force simp: exMem_def absTable_def exBuckets_def dom_def split: option.splits)

text \<open>
  \<open>rTableCoreTryInsertNoExpand\<close> refuses a node that matches one in its bucket and changes
  nothing in the table; otherwise the table gains exactly that node under the given hash value and
  the size counter grows by one.
\<close>

theorem tableInsert_refines:
  assumes "table m t j B" and "isNode e" and "e \<notin> dom (absTable m B)"
  shows "\<exists>ins t' m' B'. rTableCoreTryInsertNoExpand t e h R m = Some (ins, t', m')
    \<and> ins = (\<not> (\<exists>x \<in> set (B ! (unat h mod 2 ^ j)). R x e)) \<and> table m' t' j B'
    \<and> absTable m' B' = (if ins then (absTable m B)(e \<mapsto> h) else absTable m B)
    \<and> t' = t\<lparr>tsize := tsize t + (if ins then 1 else 0)\<rparr>"
  using assms(3) by (intro rTableCoreTryInsertNoExpand_table [OF assms(1,2)]) (simp only: dom_absTable not_False_eq_True)

theorem tableInsert_refines_witness:
  "\<exists>ins t' m' B'. rTableCoreTryInsertNoExpand exTable (NodeHead 9) 5 (\<lambda>_ _. False) exMem = Some (ins, t', m')
    \<and> table m' t' 0 B' \<and> absTable m' B' = (absTable exMem exBuckets)(NodeHead 9 \<mapsto> 5)"
  using tableInsert_refines [OF exMem_table, of "NodeHead 9" 5 "\<lambda>_ _. False"]
  by (force simp: isNode_def absTable_def exBuckets_def dom_def)

text \<open>
  \<open>rTableCoreTryDetachNoShrink\<close> takes the node it returns, and only that node, out of the
  table.  It leaves \<open>size\<close> as it was: the counter grows with every insertion and never falls.
\<close>

theorem tableDetach_refines:
  assumes "table m t j B"
  shows "\<exists>m' B'. rTableCoreTryDetachNoShrink t h P m = Some (find P (B ! (unat h mod 2 ^ j)), m')
    \<and> table m' t j B'
    \<and> absTable m' B' = (case find P (B ! (unat h mod 2 ^ j)) of None \<Rightarrow> absTable m B
        | Some x \<Rightarrow> (absTable m B)(x := None))"
  by (rule rTableCoreTryDetachNoShrink_table [OF assms])

theorem tableDetach_refines_witness:
  "\<exists>m' B'. rTableCoreTryDetachNoShrink exTable 0 (\<lambda>x. x = NodeHead 2) exMem = Some (Some (NodeHead 2), m')
    \<and> table m' exTable 0 B' \<and> absTable m' B' = (absTable exMem exBuckets)(NodeHead 2 := None)"
  using tableDetach_refines [OF exMem_table, of 0 "\<lambda>x. x = NodeHead 2"] by (simp add: exBuckets_def)

end
