(* ===== verification/Resize.thy ===== *)
theory Resize
  imports TableCore
begin

text \<open>
  Resizing the table, as \<open>RCUHashTable.cpp\<close> writes it.  Shrinking joins two buckets into one; expanding
  lets both halves of a bucket share the old list (``zipped'') and then separates them segment by
  segment, with a call of \<open>rcuSynchronize\<close> between two rounds.

  The grace period is the only thing these functions need of a zone.  They take it as the argument
  \<open>sync\<close>, which \<open>TableApi\<close> instantiates with \<open>rcuSynchronize\<close>; the type of the zone is a variable.
  The trace records a completed call as \<open>ESync\<close>.
\<close>

subsection \<open>Shrinking\<close>

text \<open>The search for the last element of a non-empty list.\<close>

partial_function (option) lastLoop :: "loc \<Rightarrow> mem \<Rightarrow> loc option" where
  "lastLoop p m = (case nxt m p of None \<Rightarrow> Some p | Some q \<Rightarrow> lastLoop q m)"

definition shrinkTwoBucketsToOne :: "loc \<Rightarrow> loc \<Rightarrow> loc \<Rightarrow> mem \<Rightarrow> mem option" where
  "shrinkTwoBucketsToOne pSrc0 pSrc1 pDst m =
     (let pSrc0First = nxt m pSrc0;
          pSrc1First = nxt m pSrc1
      in case pSrc1First of
           None \<Rightarrow> Some (storeNext pDst pSrc0First m)
         | Some _ \<Rightarrow>
             (case pSrc0First of
                None \<Rightarrow> Some (storeNext pDst pSrc1First m)
              | Some first \<Rightarrow> do {
                  pSrc0Last \<leftarrow> lastLoop first m;
                  let m = storeNext pSrc0Last pSrc1First m;
                  Some (storeNext pDst pSrc0First m)
                }))"

definition shrinkLoop :: "nat \<Rightarrow> nat \<Rightarrow> u64 \<Rightarrow> mem \<Rightarrow> mem option" where
  "shrinkLoop old new nrBucketsNew =
     for_range 0 (unat nrBucketsNew) (\<lambda>iHalf m. do {
       pDst \<leftarrow> bucketAt m new iHalf;
       pSrc0 \<leftarrow> bucketAt m old iHalf;
       let iSecondHalf = iHalf + unat nrBucketsNew;
       pSrc1 \<leftarrow> bucketAt m old iSecondHalf;
       shrinkTwoBucketsToOne pSrc0 pSrc1 pDst m
     })"

text \<open>The result \<open>None\<close> in the first place is the \<open>nullptr\<close> of a table that cannot shrink.\<close>

definition shrinkBucketsByFac2ReturnOld ::
    "('z \<Rightarrow> 'z option) \<Rightarrow> RTableCore \<Rightarrow> mem \<Rightarrow> 'z \<Rightarrow> (nat option \<times> RTableCore \<times> mem \<times> 'z) option" where
  "shrinkBucketsByFac2ReturnOld sync t m z =
     do {
       old \<leftarrow> pBucketsInfo t;
       nrBucketsOld \<leftarrow> blocks m old;
       let nrBucketsNew = nrBucketsOld div 2;
       if nrBucketsNew = 0 then Some (None, t, m, z)
       else do {
         (new, m) \<leftarrow> allocateAndInitBuckets nrBucketsNew m;
         m \<leftarrow> shrinkLoop old new nrBucketsNew m;
         let t = t\<lparr>pBucketsInfo := Some new\<rparr>;
         let m = emit (EPublish (Some new)) m;
         z \<leftarrow> sync z;
         Some (Some old, t, emit ESync m, z)
       }
     }"

subsection \<open>Expanding\<close>

definition computeHashBucketId :: "loc \<Rightarrow> u64 \<Rightarrow> mem \<Rightarrow> u64" where
  "computeHashBucketId p hashMask m = hashOf m p AND hashMask"

text \<open>
  The loop of \<open>unzipOneSegment\<close>: from \<open>pNextJumpStart\<close> on, the last element before one of the bucket
  \<open>jumpStartId\<close>, with that element; both are null at the end of the list.
\<close>

partial_function (option) unzipLoop :: "loc \<Rightarrow> mem \<Rightarrow> u64 \<Rightarrow> u64 \<Rightarrow> (ptr \<times> ptr) option" where
  "unzipLoop pNextJumpStart m hashMask jumpStartId =
     (case nxt m pNextJumpStart of
        None \<Rightarrow> Some (None, None)
      | Some pNext \<Rightarrow>
          if computeHashBucketId pNext hashMask m = jumpStartId then Some (Some pNextJumpStart, Some pNext)
          else unzipLoop pNext m hashMask jumpStartId)"

text \<open>The three assertions are branches to \<open>None\<close>.\<close>

definition unzipOneSegment :: "loc \<Rightarrow> u64 \<Rightarrow> mem \<Rightarrow> mem option" where
  "unzipOneSegment pZipStart hashMask m =
     do {
       pJumpStart \<leftarrow> nxt m pZipStart;
       pNextJumpStart \<leftarrow> nxt m pJumpStart;
       let jumpStartId = computeHashBucketId pJumpStart hashMask m;
       if computeHashBucketId pNextJumpStart hashMask m = jumpStartId then None
       else do {
         (pNextJumpStart, pNext) \<leftarrow> unzipLoop pNextJumpStart m hashMask jumpStartId;
         let m = storeNext pZipStart pNextJumpStart m;
         Some (storeNext pJumpStart pNext m)
       }
     }"

text \<open>The loop of \<open>initTwinDstBuckets\<close>, with its assertion: the first element of each of two buckets.\<close>

partial_function (option) twinLoop ::
    "ptr \<Rightarrow> mem \<Rightarrow> u64 \<Rightarrow> u64 \<Rightarrow> u64 \<Rightarrow> ptr \<Rightarrow> ptr \<Rightarrow> (ptr \<times> ptr) option" where
  "twinLoop p m hashMask id0 id1 pFirstDst0 pFirstDst1 =
     (case p of
        None \<Rightarrow> Some (pFirstDst0, pFirstDst1)
      | Some x \<Rightarrow>
          if computeHashBucketId x hashMask m \<noteq> id0 \<and> computeHashBucketId x hashMask m \<noteq> id1 then None
          else if pFirstDst0 = None \<and> computeHashBucketId x hashMask m = id0 then
            if pFirstDst1 \<noteq> None then Some (Some x, pFirstDst1)
            else twinLoop (nxt m x) m hashMask id0 id1 (Some x) pFirstDst1
          else if pFirstDst1 = None \<and> computeHashBucketId x hashMask m = id1 then
            if pFirstDst0 \<noteq> None then Some (pFirstDst0, Some x)
            else twinLoop (nxt m x) m hashMask id0 id1 pFirstDst0 (Some x)
          else if pFirstDst0 \<noteq> None \<and> pFirstDst1 \<noteq> None then Some (pFirstDst0, pFirstDst1)
          else twinLoop (nxt m x) m hashMask id0 id1 pFirstDst0 pFirstDst1)"

definition initTwinDstBuckets :: "loc \<Rightarrow> loc \<Rightarrow> loc \<Rightarrow> u64 \<Rightarrow> u64 \<Rightarrow> u64 \<Rightarrow> mem \<Rightarrow> mem option" where
  "initTwinDstBuckets pSrc pDst0 pDst1 bucketDstId0 bucketDstId1 bucketIdMask m =
     do {
       (pFirstDst0, pFirstDst1) \<leftarrow>
         twinLoop (nxt m pSrc) m bucketIdMask bucketDstId0 bucketDstId1 None None;
       let m = storeNext pDst0 pFirstDst0 m;
       Some (storeNext pDst1 pFirstDst1 m)
     }"

text \<open>The loop of \<open>findFirstUnzipPoint\<close>: the last element of the first segment, null if it is the only one.\<close>

partial_function (option) firstUnzipLoop :: "loc \<Rightarrow> mem \<Rightarrow> u64 \<Rightarrow> u64 \<Rightarrow> ptr option" where
  "firstUnzipLoop p m hashMask hashBucketInitial =
     (case nxt m p of
        None \<Rightarrow> Some None
      | Some pNext \<Rightarrow>
          if computeHashBucketId pNext hashMask m \<noteq> hashBucketInitial then Some (Some p)
          else firstUnzipLoop pNext m hashMask hashBucketInitial)"

definition findFirstUnzipPoint :: "loc \<Rightarrow> u64 \<Rightarrow> mem \<Rightarrow> (bool \<times> mem) option" where
  "findFirstUnzipPoint pSrc hashMask m =
     do {
       p \<leftarrow> nxt m pSrc;
       let hashBucketInitial = computeHashBucketId p hashMask m;
       p \<leftarrow> firstUnzipLoop p m hashMask hashBucketInitial;
       Some (p \<noteq> None, storeNext pSrc p m)
     }"

text \<open>
  \<open>findFirstUnzipStarts\<close> returns whether nothing is left to unzip; the \<open>return bucketsInfoOld\<close> of
  the source converts a pointer that is not null to \<open>true\<close>.
\<close>

definition findFirstUnzipStarts :: "nat \<Rightarrow> u64 \<Rightarrow> mem \<Rightarrow> (bool \<times> mem) option" where
  "findFirstUnzipStarts old bucketMaskNew m =
     do {
       nrBucketsOld \<leftarrow> blocks m old;
       for_range 0 (unat nrBucketsOld) (\<lambda>iHalf (allFinished, m). do {
         pSrc \<leftarrow> bucketAt m old iHalf;
         if nxt m pSrc \<noteq> None then do {
           (needUnzip, m) \<leftarrow> findFirstUnzipPoint pSrc bucketMaskNew m;
           Some (if needUnzip then False else allFinished, m)
         } else Some (allFinished, m)
       }) (True, m)
     }"

text \<open>One round of \<open>unzip\<close>: every bucket that has a jump start is unzipped by one segment.\<close>

definition unzipRound :: "nat \<Rightarrow> u64 \<Rightarrow> mem \<Rightarrow> (bool \<times> mem) option" where
  "unzipRound old bucketMaskNew m =
     do {
       nrBucketsOld \<leftarrow> blocks m old;
       for_range 0 (unat nrBucketsOld) (\<lambda>iHalf (allFinished, m). do {
         pSrc \<leftarrow> bucketAt m old iHalf;
         if nxt m pSrc \<noteq> None then do {
           m \<leftarrow> unzipOneSegment pSrc bucketMaskNew m;
           Some (False, m)
         } else Some (allFinished, m)
       }) (True, m)
     }"

partial_function (option) unzip ::
    "('z \<Rightarrow> 'z option) \<Rightarrow> nat \<Rightarrow> u64 \<Rightarrow> mem \<Rightarrow> 'z \<Rightarrow> (mem \<times> 'z) option" where
  "unzip sync old bucketMaskNew m z =
     do {
       (allFinished, m) \<leftarrow> unzipRound old bucketMaskNew m;
       if allFinished then Some (m, z)
       else do { z \<leftarrow> sync z; unzip sync old bucketMaskNew (emit ESync m) z }
     }"

definition twinsLoop :: "nat \<Rightarrow> nat \<Rightarrow> u64 \<Rightarrow> u64 \<Rightarrow> mem \<Rightarrow> mem option" where
  "twinsLoop old new nrBucketsOld bucketMaskNew =
     for_range 0 (unat nrBucketsOld) (\<lambda>iHalf m. do {
       pSrc \<leftarrow> bucketAt m old iHalf;
       dst0 \<leftarrow> bucketAt m new iHalf;
       let iSecondHalf = iHalf + unat nrBucketsOld;
       dst1 \<leftarrow> bucketAt m new iSecondHalf;
       initTwinDstBuckets pSrc dst0 dst1 (of_nat iHalf) (of_nat iSecondHalf) bucketMaskNew m
     })"

definition expandBucketsByFac2ReturnOld ::
    "('z \<Rightarrow> 'z option) \<Rightarrow> RTableCore \<Rightarrow> mem \<Rightarrow> 'z \<Rightarrow> (nat \<times> RTableCore \<times> mem \<times> 'z) option" where
  "expandBucketsByFac2ReturnOld sync t m z =
     do {
       old \<leftarrow> pBucketsInfo t;
       nrBucketsOld \<leftarrow> blocks m old;
       let nrBucketsNew = nrBucketsOld * 2;
       let bucketMaskNew = nrBucketsNew - 1;
       (new, m) \<leftarrow> allocateAndInitBuckets nrBucketsNew m;
       m \<leftarrow> twinsLoop old new nrBucketsOld bucketMaskNew m;
       let t = t\<lparr>pBucketsInfo := Some new\<rparr>;
       let m = emit (EPublish (Some new)) m;
       z \<leftarrow> sync z;
       let m = emit ESync m;
       (noNeedToUnzip, m) \<leftarrow> findFirstUnzipStarts old bucketMaskNew m;
       if noNeedToUnzip then Some (old, t, m, z)
       else do {
         (m, z) \<leftarrow> unzip sync old bucketMaskNew m z;
         Some (old, t, m, z)
       }
     }"

subsection \<open>The exported functions\<close>

definition rTableCoreExpandBuckets2x ::
    "('z \<Rightarrow> 'z option) \<Rightarrow> RTableCore \<Rightarrow> mem \<Rightarrow> 'z \<Rightarrow> (RTableCore \<times> mem \<times> 'z) option" where
  "rTableCoreExpandBuckets2x sync t m z =
     do {
       (pOldInfo, t, m, z) \<leftarrow> expandBucketsByFac2ReturnOld sync t m z;
       m \<leftarrow> destroyAndFreeBuckets pOldInfo m;
       Some (t, m, z)
     }"

definition rTableCoreShrinkBuckets2x ::
    "('z \<Rightarrow> 'z option) \<Rightarrow> RTableCore \<Rightarrow> mem \<Rightarrow> 'z \<Rightarrow> (bool \<times> RTableCore \<times> mem \<times> 'z) option" where
  "rTableCoreShrinkBuckets2x sync t m z =
     do {
       (pOldInfo, t, m, z) \<leftarrow> shrinkBucketsByFac2ReturnOld sync t m z;
       case pOldInfo of
         None \<Rightarrow> Some (False, t, m, z)
       | Some old \<Rightarrow> do { m \<leftarrow> destroyAndFreeBuckets old m; Some (True, t, m, z) }
     }"

definition expandBucketsByFac2IfNecessary ::
    "('z \<Rightarrow> 'z option) \<Rightarrow> u64 \<Rightarrow> u64 \<Rightarrow> RTableCore \<Rightarrow> mem \<Rightarrow> 'z \<Rightarrow> (RTableCore \<times> mem \<times> 'z) option" where
  "expandBucketsByFac2IfNecessary sync nrElements nrBuckets t m z =
     (if f32_less (f32_mul (expandFactor t) (f32_of_u64 nrBuckets)) (f32_of_u64 nrElements)
      then rTableCoreExpandBuckets2x sync t m z
      else Some (t, m, z))"

definition shrinkBucketsByFac2IfNecessary ::
    "('z \<Rightarrow> 'z option) \<Rightarrow> u64 \<Rightarrow> u64 \<Rightarrow> RTableCore \<Rightarrow> mem \<Rightarrow> 'z \<Rightarrow> (bool \<times> RTableCore \<times> mem \<times> 'z) option" where
  "shrinkBucketsByFac2IfNecessary sync nrElements nrBuckets t m z =
     (if f32_less (f32_of_u64 nrElements) (f32_mul (shrinkFactor t) (f32_of_u64 nrBuckets)) \<and> 128 < nrElements
      then rTableCoreShrinkBuckets2x sync t m z
      else Some (False, t, m, z))"

end
