(* ===== verification/Expand.thy ===== *)
theory Expand
  imports Resize
begin

text \<open>
  What expanding does to a well-formed table: the new block shares every node with the old one and
  splits each old bucket, in order, into its two new ones.  The state of an old bucket \<open>i\<close> between two
  stores of \<open>unzip\<close> is \<open>zipped m old new j i L R\<close>, where \<open>L\<close> is the list before and \<open>R\<close> the part of it
  that both new buckets still share.
\<close>

subsection \<open>Bucket ids\<close>

abbreviation colour :: "mem \<Rightarrow> nat \<Rightarrow> loc \<Rightarrow> nat" where
  "colour m j \<equiv> home m (Suc j)"

lemma bucketId_unat:
  "j < 31 \<Longrightarrow> unat (computeHashBucketId x (2 ^ Suc j - 1) m) = colour m j x"
  unfolding computeHashBucketId_def home_def by (rule and_mask_unat) simp

lemma bucketId_eq:
  assumes "j < 31"
  shows "computeHashBucketId x (2 ^ Suc j - 1) m = computeHashBucketId y (2 ^ Suc j - 1) m
    \<longleftrightarrow> colour m j x = colour m j y"
  using bucketId_unat [OF assms] by (metis word_unat_eq_iff)

lemma bucketId_of_nat:
  assumes "j < 31" "i < 2 ^ Suc j"
  shows "computeHashBucketId x (2 ^ Suc j - 1) m = of_nat i \<longleftrightarrow> colour m j x = i"
proof -
  have "(2::nat) ^ Suc j \<le> 2 ^ 31" using assms(1) by (intro power_increasing) auto
  then have "unat (of_nat i :: u64) = i" using assms(2) by (simp add: unsigned_of_nat take_bit_nat_eq_self)
  then show ?thesis using bucketId_unat [OF assms(1)] by (metis word_unat_eq_iff)
qed

text \<open>An element of bucket \<open>i\<close> goes to bucket \<open>i\<close> or to bucket \<open>i + 2 ^ j\<close>.\<close>

lemma home_Suc: "colour m j x = home m j x \<or> colour m j x = home m j x + 2 ^ j"
proof -
  have "unat (hashOf m x) mod (2 ^ j * 2) = 2 ^ j * (unat (hashOf m x) div 2 ^ j mod 2) + home m j x"
    unfolding home_def by (rule mod_mult2_eq)
  moreover have "unat (hashOf m x) div 2 ^ j mod 2 = 0 \<or> unat (hashOf m x) div 2 ^ j mod 2 = 1" by auto
  ultimately show ?thesis by (auto simp: home_def mult.commute)
qed

lemma home_of_Suc: "home m j x = colour m j x mod 2 ^ j"
  by (simp add: home_def mod_mod_cancel)

subsection \<open>The loops on a list\<close>

lemma dropWhile_hd: "dropWhile P xs = y # ys \<Longrightarrow> \<not> P y"
  by (metis hd_dropWhile list.distinct(1) list.sel(1))

lemma dropWhile_ex: "dropWhile P xs = y # ys \<Longrightarrow> \<exists>x \<in> set xs. \<not> P x"
  by (metis dropWhile_eq_Nil_conv list.distinct(1))

lemma lst_dropWhile: "lst nx p xs \<Longrightarrow> lst nx (find (\<lambda>x. \<not> P x) xs) (dropWhile P xs)"
  by (induction xs arbitrary: p) auto

lemma find_hd: "find (\<lambda>x. \<not> P x) xs = (case dropWhile P xs of [] \<Rightarrow> None | y # _ \<Rightarrow> Some y)"
  by (induction xs) auto

lemma unzipLoop_lst:
  assumes "lst (nxt m) (nxt m p) xs"
  shows "unzipLoop p m k c = Some (case dropWhile (\<lambda>x. computeHashBucketId x k m \<noteq> c) xs of
      [] \<Rightarrow> (None, None)
    | t # _ \<Rightarrow> (Some (last (p # takeWhile (\<lambda>x. computeHashBucketId x k m \<noteq> c) xs)), Some t))"
  using assms
proof (induction xs arbitrary: p)
  case Nil
  then show ?case by (simp add: unzipLoop.simps)
next
  case (Cons x xs)
  then show ?case using Cons.IH [of x]
    by (cases "computeHashBucketId x k m = c") (auto simp: unzipLoop.simps [of p] split: list.split dest: dropWhile_ex)
qed

lemma firstUnzipLoop_lst:
  assumes "lst (nxt m) (nxt m p) xs"
  shows "firstUnzipLoop p m k c = Some (case dropWhile (\<lambda>x. computeHashBucketId x k m = c) xs of
      [] \<Rightarrow> None
    | _ \<Rightarrow> Some (last (p # takeWhile (\<lambda>x. computeHashBucketId x k m = c) xs)))"
  using assms
proof (induction xs arbitrary: p)
  case Nil
  then show ?case by (simp add: firstUnzipLoop.simps)
next
  case (Cons x xs)
  then show ?case using Cons.IH [of x]
    by (cases "computeHashBucketId x k m = c") (auto simp: firstUnzipLoop.simps [of p] split: list.split dest: dropWhile_ex)
qed

lemma twinLoop_lst:
  assumes "lst (nxt m) p xs" and "id0 \<noteq> id1" and "f0 = None \<or> f1 = None"
    and "\<forall>x \<in> set xs. computeHashBucketId x k m = id0 \<or> computeHashBucketId x k m = id1"
  shows "twinLoop p m k id0 id1 f0 f1 = Some
    (if f0 = None then find (\<lambda>x. computeHashBucketId x k m = id0) xs else f0,
     if f1 = None then find (\<lambda>x. computeHashBucketId x k m = id1) xs else f1)"
  using assms
proof (induction xs arbitrary: p f0 f1)
  case Nil
  then show ?case by (auto simp: twinLoop.simps)
next
  case (Cons x xs)
  have l: "p = Some x" "lst (nxt m) (nxt m x) xs" using Cons.prems(1) by auto
  show ?case
  proof (cases "computeHashBucketId x k m = id0")
    case True
    then show ?thesis using Cons.prems l Cons.IH [OF l(2), of "Some x" None] Cons.IH [OF l(2), of f0 f1]
      by (auto simp: twinLoop.simps)
  next
    case False
    then show ?thesis using Cons.prems l Cons.IH [OF l(2), of None "Some x"] Cons.IH [OF l(2), of f0 f1]
      by (auto simp: twinLoop.simps)
  qed
qed

subsection \<open>A bucket while it is being unzipped\<close>

definition first :: "loc list \<Rightarrow> ptr" where
  "first xs = (case xs of [] \<Rightarrow> None | x # _ \<Rightarrow> Some x)"

lemma first_simps [simp]: "first [] = None" "first (x # xs) = Some x"
  by (simp_all add: first_def)

lemma lst_first: "lst nx p xs \<Longrightarrow> p = first xs"
  by (cases xs) auto

definition bucket_nodes :: "mem \<Rightarrow> nat \<Rightarrow> nat \<Rightarrow> loc list \<Rightarrow> bool" where
  "bucket_nodes m j i L \<longleftrightarrow> (\<forall>x \<in> set L. isNode x \<and> home m j x = i)"

text \<open>
  \<open>zip_at\<close>: the jump start is the last element of \<open>P\<close>, of colour \<open>c\<close>.  The bucket of colour \<open>c\<close> holds
  \<open>P @ R\<close> and the other one \<open>Q @ R\<close>; the shared part \<open>R\<close> starts with an element of the other colour.
\<close>

definition zip_at :: "mem \<Rightarrow> nat \<Rightarrow> nat \<Rightarrow> nat \<Rightarrow> nat \<Rightarrow> loc list \<Rightarrow> nat \<Rightarrow> nat \<Rightarrow>
    loc list \<Rightarrow> loc list \<Rightarrow> loc list \<Rightarrow> bool" where
  "zip_at m old new j i L c c' P Q R \<longleftrightarrow>
     {c, c'} = {i, i + 2 ^ j} \<and> P \<noteq> [] \<and> R \<noteq> [] \<and> colour m j (hd R) = c'
     \<and> nxt m (BucketHead old i) = Some (last P)
     \<and> slist m (BucketHead new c) (P @ R) \<and> slist m (BucketHead new c') (Q @ R)
     \<and> (\<forall>x \<in> set P. colour m j x = c) \<and> (\<forall>x \<in> set Q. colour m j x = c')
     \<and> filter (\<lambda>x. colour m j x = c) L = P @ filter (\<lambda>x. colour m j x = c) R
     \<and> filter (\<lambda>x. colour m j x = c') L = Q @ filter (\<lambda>x. colour m j x = c') R
     \<and> set R \<subseteq> set L"

text \<open>\<open>separated\<close>: nothing is shared any more, and the old bucket has no jump start.\<close>

definition separated :: "mem \<Rightarrow> nat \<Rightarrow> nat \<Rightarrow> nat \<Rightarrow> nat \<Rightarrow> loc list \<Rightarrow> bool" where
  "separated m old new j i L \<longleftrightarrow> nxt m (BucketHead old i) = None
     \<and> (\<forall>c \<in> {i, i + 2 ^ j}. slist m (BucketHead new c) (filter (\<lambda>x. colour m j x = c) L))"

definition zipped :: "mem \<Rightarrow> nat \<Rightarrow> nat \<Rightarrow> nat \<Rightarrow> nat \<Rightarrow> loc list \<Rightarrow> loc list \<Rightarrow> bool" where
  "zipped m old new j i L R \<longleftrightarrow>
     (if R = [] then separated m old new j i L else \<exists>c c' P Q. zip_at m old new j i L c c' P Q R)"

lemma slist_skip:
  assumes "slist m l (P @ S @ T)" "P \<noteq> []"
  shows "slist (storeNext (last P) (first T) m) l (P @ T)"
proof -
  obtain P0 x where P: "P = P0 @ [x]" using assms(2) by (cases P rule: rev_cases) auto
  have d: "x \<notin> set P0" "x \<notin> set T" "l \<noteq> x"
    using slist_distinct [OF assms(1)] slist_head_notin [OF assms(1)] by (auto simp: P)
  obtain r where "chain (nxt m) (nxt m l) P0 (Some x)" "lst (nxt m) r T"
    using assms(1) by (auto simp: P slist_def)
  then show ?thesis using d lst_first by (auto simp: slist_def P)
qed

lemma takeWhile_binary:
  "\<forall>x \<in> set xs. f x = c \<or> f x = c' \<Longrightarrow> x \<in> set (takeWhile (\<lambda>x. f x \<noteq> c) xs) \<Longrightarrow> f x = c'"
  by (metis set_takeWhileD)

lemma zip_coloured:
  assumes "bucket_nodes m j i L" "set R \<subseteq> set L" "{c, c'} = {i, i + 2 ^ j}"
  shows "\<forall>x \<in> set R. colour m j x = c \<or> colour m j x = c'"
proof
  fix x
  assume "x \<in> set R"
  then have "home m j x = i" using assms(1,2) by (auto simp: bucket_nodes_def)
  then have "colour m j x \<in> {i, i + 2 ^ j}" using home_Suc [of m j x] by auto
  then show "colour m j x = c \<or> colour m j x = c'" using assms(3) by auto
qed

text \<open>What one call of \<open>unzipOneSegment\<close> stores.\<close>

definition unzipStores :: "nat \<Rightarrow> nat \<Rightarrow> loc list \<Rightarrow> loc list \<Rightarrow> loc list \<Rightarrow> event list" where
  "unzipStores old i P S T =
     [EStore (BucketHead old i) (if T = [] then None else Some (last S)), EStore (last P) (first T)]"

lemma unzip_run:
  assumes z: "zip_at m old new j i L c c' P Q R" and j: "j < 31"
    and S: "S = takeWhile (\<lambda>x. colour m j x \<noteq> c) R" and T: "T = dropWhile (\<lambda>x. colour m j x \<noteq> c) R"
  shows "unzipOneSegment (BucketHead old i) (2 ^ Suc j - 1) m = Some (fold emit (unzipStores old i P S T) m)"
proof -
  obtain r rs where R: "R = r # rs" using z by (cases R) (auto simp: zip_at_def)
  have cc: "c \<noteq> c'" using z by (auto simp: zip_at_def doubleton_eq_iff)
  have l: "nxt m (BucketHead old i) = Some (last P)" using z by (simp add: zip_at_def)
  have "slist m (BucketHead new c) (P @ r # rs)" "P \<noteq> []" using z by (auto simp: zip_at_def R)
  then have n: "nxt m (last P) = Some r" "lst (nxt m) (nxt m r) rs"
    by (cases P rule: rev_cases; auto simp: slist_def)+
  have lc: "colour m j (last P) = c" and rc: "colour m j r \<noteq> c" using z cc by (auto simp: zip_at_def R)
  define k where "k = (2 ^ Suc j - 1 :: u64)"
  define q where "q = computeHashBucketId (last P) k m"
  have id: "computeHashBucketId x k m = q \<longleftrightarrow> colour m j x = c" for x
    unfolding k_def q_def using bucketId_eq [OF j, of x m "last P"] lc by simp
  have "unzipLoop r m k q = Some (case dropWhile (\<lambda>x. colour m j x \<noteq> c) rs of [] \<Rightarrow> (None, None)
      | t # _ \<Rightarrow> (Some (last (r # takeWhile (\<lambda>x. colour m j x \<noteq> c) rs)), Some t))"
    using unzipLoop_lst [OF n(2), of k q] by (simp only: id)
  moreover have "dropWhile (\<lambda>x. colour m j x \<noteq> c) rs = T" "r # takeWhile (\<lambda>x. colour m j x \<noteq> c) rs = S"
    using rc by (simp_all add: S T R)
  ultimately have "unzipLoop r m k q = Some (case T of [] \<Rightarrow> (None, None) | t # _ \<Rightarrow> (Some (last S), Some t))"
    by (simp only:)
  then have "unzipLoop r m k q = Some (if T = [] then None else Some (last S), first T)"
    by (cases T) simp_all
  moreover have "computeHashBucketId r k m \<noteq> q" using rc by (simp add: id)
  ultimately show ?thesis
    unfolding k_def [symmetric]
    by (simp add: unzipOneSegment_def l n(1) Let_def unzipStores_def q_def [symmetric])
qed

text \<open>After it, the two buckets have changed roles and share only \<open>T\<close>.\<close>

lemma unzip_step:
  assumes z: "zip_at m old new j i L c c' P Q R" and nodes: "bucket_nodes m j i L" and ne: "old \<noteq> new"
    and S: "S = takeWhile (\<lambda>x. colour m j x \<noteq> c) R" and T: "T = dropWhile (\<lambda>x. colour m j x \<noteq> c) R"
    and m': "m' = fold emit (unzipStores old i P S T) m"
  shows "if T = [] then separated m' old new j i L else zip_at m' old new j i L c' c (Q @ S) P T"
    and "touches (insert (BucketHead old i) (set L)) m m'" and "length T < length R"
proof -
  obtain r rs where R: "R = r # rs" "colour m j r = c'" using z by (cases R) (auto simp: zip_at_def)
  have cc: "c \<noteq> c'" "{c, c'} = {i, i + 2 ^ j}" using z by (auto simp: zip_at_def doubleton_eq_iff)
  have RST: "R = S @ T" by (simp add: S T)
  have S0: "S \<noteq> []" using R cc(1) by (auto simp: S)
  show "length T < length R" using RST S0 by simp
  note zz = z [unfolded zip_at_def]
  have Sc: "\<forall>x \<in> set S. colour m j x = c'"
    unfolding S using takeWhile_binary [of R "colour m j" c c'] zip_coloured [OF nodes _ cc(2)] zz by blast
  have Pin: "last P \<in> set L"
  proof -
    have "last P \<in> set P" using zz by simp
    then have "last P \<in> set (filter (\<lambda>x. colour m j x = c) L)" using zz by simp
    then show ?thesis by simp
  qed
  then show t: "touches (insert (BucketHead old i) (set L)) m m'"
    unfolding m' unzipStores_def by (auto intro!: touches_store)
  have hm: "hashOf m' = hashOf m" using touchesD(2) [OF t] .
  then have col: "colour m' j = colour m j" by (simp add: home_def fun_eq_iff)
  have nodeS: "isNode x" if "x \<in> set L" for x using nodes that by (simp add: bucket_nodes_def)
  have inL: "set P \<subseteq> set L" "set Q \<subseteq> set L"
  proof -
    have "set P \<subseteq> set (filter (\<lambda>x. colour m j x = c) L)" "set Q \<subseteq> set (filter (\<lambda>x. colour m j x = c') L)"
      using zz by auto
    then show "set P \<subseteq> set L" "set Q \<subseteq> set L" by auto
  qed
  have notin: "BucketHead k b \<notin> set L" for k b using nodeS by (force simp: isNode_def)
  let ?m1 = "storeNext (BucketHead old i) (if T = [] then None else Some (last S)) m"
  have RL: "set R \<subseteq> set L" using zz by blast
  have sl0: "slist m (BucketHead new c) (P @ R)" "slist m (BucketHead new c') (Q @ R)" using zz by blast+
  have "BucketHead old i \<notin> set (P @ R)" "BucketHead old i \<notin> set (Q @ R)" using inL RL notin by auto
  then have "slist ?m1 (BucketHead new c) (P @ R)" and sl1': "slist ?m1 (BucketHead new c') (Q @ R)"
    using sl0 ne by (simp_all only: slist_store_other loc.inject simp_thms)
  then have sl1: "slist ?m1 (BucketHead new c) (P @ S @ T)" by (simp only: RST)
  have m'2: "m' = storeNext (last P) (first T) ?m1" by (simp add: m' unzipStores_def)
  have slc: "slist m' (BucketHead new c) (P @ T)"
    unfolding m'2 using slist_skip [OF sl1] zz by blast
  have lastP: "last P \<notin> set (Q @ R)" "last P \<noteq> BucketHead new c'" "last P \<noteq> BucketHead old i"
  proof -
    have lp: "last P \<in> set P" using zz by simp
    moreover have "last P \<notin> set R" using lp slist_distinct [OF sl0(1)] by auto
    moreover have "last P \<notin> set Q" using lp zz cc(1) by metis
    ultimately show "last P \<notin> set (Q @ R)" by simp
    show "last P \<noteq> BucketHead new c'" "last P \<noteq> BucketHead old i" using lp inL notin by (metis subsetD)+
  qed
  have slc': "slist m' (BucketHead new c') (Q @ S @ T)"
    unfolding m'2 using sl1' lastP(1,2) by (simp only: slist_store_other RST simp_thms)
  have oldhead: "nxt m' (BucketHead old i) = (if T = [] then None else Some (last S))"
    using lastP(3) by (simp add: m'2)
  have fS: "filter (\<lambda>x. colour m j x = c) S = []" "filter (\<lambda>x. colour m j x = c') S = S"
    using Sc cc(1) by (auto simp: filter_empty_conv intro: filter_True)
  have fl: "filter (\<lambda>x. colour m j x = c) L = P @ filter (\<lambda>x. colour m j x = c) T"
    "filter (\<lambda>x. colour m j x = c') L = Q @ S @ filter (\<lambda>x. colour m j x = c') T"
    using zz fS by (simp_all add: RST)
  show "if T = [] then separated m' old new j i L else zip_at m' old new j i L c' c (Q @ S) P T"
  proof (cases "T = []")
    case True
    have "slist m' (BucketHead new b) (filter (\<lambda>x. colour m j x = b) L)" if "b \<in> {c, c'}" for b
      using that slc slc' fl by (auto simp: True)
    then show ?thesis using True oldhead by (simp add: separated_def col cc(2))
  next
    case False
    then obtain x xs where "T = x # xs" by (cases T) auto
    then have "colour m j (hd T) = c" using dropWhile_hd [of "\<lambda>x. colour m j x \<noteq> c" R x xs] by (simp add: T)
    then show ?thesis using False zz slc slc' oldhead fl S0 Sc cc
      by (auto simp: zip_at_def col RST)
  qed
qed

subsection \<open>The start of an expansion\<close>

text \<open>The new buckets point into the old list, which is still whole.\<close>

definition twinned :: "mem \<Rightarrow> nat \<Rightarrow> nat \<Rightarrow> nat \<Rightarrow> nat \<Rightarrow> loc list \<Rightarrow> bool" where
  "twinned m old new j i L \<longleftrightarrow> slist m (BucketHead old i) L
     \<and> (\<forall>c \<in> {i, i + 2 ^ j}. slist m (BucketHead new c) (dropWhile (\<lambda>x. colour m j x \<noteq> c) L))"

lemma bucket_not_node: "bucket_nodes m j i L \<Longrightarrow> BucketHead k b \<notin> set L"
  by (force simp: bucket_nodes_def isNode_def)

lemma initTwin_ok:
  assumes L: "slist m (BucketHead old i) L" and nodes: "bucket_nodes m j i L"
    and i: "i < 2 ^ j" "j < 31" and ne: "old \<noteq> new"
  shows "\<exists>m'. initTwinDstBuckets (BucketHead old i) (BucketHead new i) (BucketHead new (i + 2 ^ j))
      (of_nat i) (of_nat (i + 2 ^ j)) (2 ^ Suc j - 1) m = Some m'
    \<and> twinned m' old new j i L \<and> stores {BucketHead new i, BucketHead new (i + 2 ^ j)} m m'"
proof -
  let ?d0 = "BucketHead new i" and ?d1 = "BucketHead new (i + 2 ^ j)"
  define k where "k = (2 ^ Suc j - 1 :: u64)"
  define p0 p1 where "p0 = find (\<lambda>x. colour m j x = i) L" and "p1 = find (\<lambda>x. colour m j x = i + 2 ^ j) L"
  let ?m' = "storeNext ?d1 p1 (storeNext ?d0 p0 m)"
  have id: "computeHashBucketId x k m = of_nat c \<longleftrightarrow> colour m j x = c" if "c < 2 ^ Suc j" for x c
    unfolding k_def by (rule bucketId_of_nat [OF i(2) that])
  have id0: "computeHashBucketId x k m = of_nat i \<longleftrightarrow> colour m j x = i" for x
    using id [of i] i(1) by simp
  have id1: "computeHashBucketId x k m = of_nat (i + 2 ^ j) \<longleftrightarrow> colour m j x = i + 2 ^ j" for x
    using id [of "i + 2 ^ j"] i(1) by simp
  have "\<forall>x \<in> set L. colour m j x = i \<or> colour m j x = i + 2 ^ j"
    using zip_coloured [OF nodes, of L i "i + 2 ^ j"] by simp
  moreover have "(of_nat i :: u64) \<noteq> of_nat (i + 2 ^ j)"
  proof -
    have "(2::nat) ^ Suc j \<le> 2 ^ 31" using i(2) by (intro power_increasing) auto
    then have "unat (of_nat i :: u64) = i" "unat (of_nat (i + 2 ^ j) :: u64) = i + 2 ^ j"
      using i(1) by (simp_all add: unsigned_of_nat take_bit_nat_eq_self del: of_nat_add)
    then show ?thesis by (metis add_cancel_right_right power_not_zero zero_neq_numeral)
  qed
  ultimately have "twinLoop (nxt m (BucketHead old i)) m k (of_nat i) (of_nat (i + 2 ^ j)) None None = Some (p0, p1)"
    using twinLoop_lst [of m "nxt m (BucketHead old i)" L "of_nat i" "of_nat (i + 2 ^ j)" None None k] L
    by (simp only: id0 id1 slist_def p0_def p1_def) simp
  then have run: "initTwinDstBuckets (BucketHead old i) ?d0 ?d1 (of_nat i) (of_nat (i + 2 ^ j)) k m = Some ?m'"
    by (simp add: initTwinDstBuckets_def Let_def)
  have col: "colour ?m' j = colour m j" by (simp add: home_def fun_eq_iff)
  note nn = bucket_not_node [OF nodes]
  have l0: "lst (nxt m) p0 (dropWhile (\<lambda>x. colour m j x \<noteq> i) L)"
    and l1: "lst (nxt m) p1 (dropWhile (\<lambda>x. colour m j x \<noteq> i + 2 ^ j) L)"
    using lst_dropWhile [of "nxt m" "nxt m (BucketHead old i)" L "\<lambda>x. colour m j x \<noteq> i"]
      lst_dropWhile [of "nxt m" "nxt m (BucketHead old i)" L "\<lambda>x. colour m j x \<noteq> i + 2 ^ j"] L
    by (simp_all add: slist_def p0_def p1_def)
  have nd: "BucketHead b b' \<notin> set (dropWhile f L)" for b b' f using nn by (meson set_dropWhileD)
  have "slist ?m' ?d0 (dropWhile (\<lambda>x. colour m j x \<noteq> i) L)"
    "slist ?m' ?d1 (dropWhile (\<lambda>x. colour m j x \<noteq> i + 2 ^ j) L)" "slist ?m' (BucketHead old i) L"
    using l0 l1 L nd nn ne by (simp_all add: slist_def)
  then have "twinned ?m' old new j i L" by (simp add: twinned_def col)
  moreover have "stores {?d0, ?d1} m ?m'" by (intro stores_store) auto
  ultimately show ?thesis using run unfolding k_def by blast
qed

lemma twinned_empty: "twinned m old new j i [] \<Longrightarrow> zipped m old new j i [] []"
  by (simp add: twinned_def zipped_def separated_def) (simp add: slist_def)

lemma findFirst_ok:
  assumes tw: "twinned m old new j i L" and nodes: "bucket_nodes m j i L" and L: "L \<noteq> []"
    and j: "j < 31" and ne: "old \<noteq> new"
  shows "\<exists>r R. findFirstUnzipPoint (BucketHead old i) (2 ^ Suc j - 1) m = Some (r \<noteq> None, storeNext (BucketHead old i) r m)
    \<and> zipped (storeNext (BucketHead old i) r m) old new j i L R \<and> length R \<le> length L \<and> (r = None) = (R = [])"
proof -
  obtain x xs where Lx: "L = x # xs" using L by (cases L) auto
  define c where "c = colour m j x"
  define P R where "P = takeWhile (\<lambda>y. colour m j y = c) L" and "R = dropWhile (\<lambda>y. colour m j y = c) L"
  define r where "r = (case R of [] \<Rightarrow> None | _ \<Rightarrow> Some (last P))"
  let ?m' = "storeNext (BucketHead old i) r m"
  have P0: "P \<noteq> []" and PR: "L = P @ R" by (simp_all add: P_def R_def Lx c_def)
  have Pc: "\<forall>y \<in> set P. colour m j y = c" by (auto simp: P_def dest: set_takeWhileD)
  obtain c' where c': "{c, c'} = {i, i + 2 ^ j}" "c \<noteq> c'"
    using zip_coloured [OF nodes, of L i "i + 2 ^ j"] Lx c_def
    by (metis add_cancel_right_right insert_commute list.set_intros(1) order_refl power_not_zero zero_neq_numeral)
  then have Lc: "\<forall>y \<in> set L. colour m j y = c \<or> colour m j y = c'"
    using zip_coloured [OF nodes, of L c c'] by simp
  have l: "slist m (BucketHead old i) L" "slist m (BucketHead new c) (dropWhile (\<lambda>x. colour m j x \<noteq> c) L)"
    "slist m (BucketHead new c') (dropWhile (\<lambda>x. colour m j x \<noteq> c') L)"
    using tw unfolding twinned_def c'(1) [symmetric] by simp_all
  have dc: "dropWhile (\<lambda>x. colour m j x \<noteq> c) L = L" by (simp add: Lx c_def)
  have dc': "dropWhile (\<lambda>x. colour m j x \<noteq> c') L = R"
    unfolding R_def by (rule dropWhile_cong) (use Lc c'(2) in auto)
  have nn: "BucketHead b b' \<notin> set xs" if "set xs \<subseteq> set L" for b b' xs
    using bucket_not_node [OF nodes] that by blast
  have sub: "set P \<subseteq> set L" "set R \<subseteq> set L" by (simp_all add: PR)
  have sl: "slist ?m' (BucketHead new c) (P @ R)" "slist ?m' (BucketHead new c') R"
    using l(2,3) nn [of L old i] nn [OF sub(2), of old i] ne by (simp_all only: dc dc' PR [symmetric] slist_store_other loc.inject simp_thms order_refl not_False_eq_True)
  have col: "colour ?m' j = colour m j" by (simp add: home_def fun_eq_iff)
  define k where "k = (2 ^ Suc j - 1 :: u64)"
  have id: "computeHashBucketId y k m = computeHashBucketId x k m \<longleftrightarrow> colour m j y = c" for y
    unfolding k_def c_def by (rule bucketId_eq [OF j])
  have n: "nxt m (BucketHead old i) = Some x" "lst (nxt m) (nxt m x) xs" using l(1) by (simp_all add: slist_def Lx)
  have "dropWhile (\<lambda>y. colour m j y = c) xs = R" "x # takeWhile (\<lambda>y. colour m j y = c) xs = P"
    by (simp_all add: P_def R_def Lx c_def)
  then have "firstUnzipLoop x m k (computeHashBucketId x k m) = Some r"
    using firstUnzipLoop_lst [OF n(2), of k "computeHashBucketId x k m"] by (simp only: id r_def)
  then have run: "findFirstUnzipPoint (BucketHead old i) k m = Some (r \<noteq> None, ?m')"
    by (simp add: findFirstUnzipPoint_def n(1) Let_def)
  have rR: "(r = None) = (R = [])" by (simp add: r_def split: list.split)
  have fP: "filter (\<lambda>y. colour m j y = c) P = P" "filter (\<lambda>y. colour m j y = c') P = []"
    using Pc c'(2) by (auto simp: filter_empty_conv intro: filter_True)
  have "zipped ?m' old new j i L R"
  proof (cases "R = []")
    case True
    have "slist ?m' (BucketHead new b) (filter (\<lambda>x. colour m j x = b) L)" if "b \<in> {c, c'}" for b
      using that sl fP by (auto simp: True PR)
    moreover have "nxt ?m' (BucketHead old i) = None" using True rR by simp
    ultimately show ?thesis using True unfolding zipped_def separated_def col c'(1) [symmetric] by simp
  next
    case False
    then obtain y ys where "R = y # ys" by (cases R) auto
    then have "colour m j (hd R) \<noteq> c" using dropWhile_hd [of "\<lambda>y. colour m j y = c" L y ys] by (simp add: R_def)
    then have "colour m j (hd R) = c'" using Lc sub(2) False by (metis hd_in_set subsetD)
    moreover have "r = Some (last P)" using False by (simp add: r_def split: list.split)
    ultimately have "zip_at ?m' old new j i L c c' P [] R"
      unfolding zip_at_def col using sl Pc fP P0 False c'(1) sub(2) by (simp add: PR)
    then show ?thesis using False unfolding zipped_def by auto
  qed
  then show ?thesis using run rR unfolding k_def by (intro exI [of _ r] exI [of _ R]) (simp add: PR)
qed

subsection \<open>Buckets do not disturb one another\<close>

definition region :: "nat \<Rightarrow> nat \<Rightarrow> nat \<Rightarrow> nat \<Rightarrow> loc list \<Rightarrow> loc set" where
  "region old new j i L = {BucketHead old i, BucketHead new i, BucketHead new (i + 2 ^ j)} \<union> set L"

lemma region_disjoint:
  assumes "bucket_nodes m j i L" "bucket_nodes m j i' L'" "i \<noteq> i'" "i < 2 ^ j" "i' < 2 ^ j" "old \<noteq> new"
  shows "region old new j i L \<inter> region old new j i' L' = {}"
proof -
  have "set L \<inter> set L' = {}" using assms(1-3) by (auto simp: bucket_nodes_def)
  then show ?thesis
    using assms(3-6) bucket_not_node [OF assms(1)] bucket_not_node [OF assms(2)] by (auto simp: region_def)
qed

lemma bucket_nodes_touches: "touches A m m' \<Longrightarrow> bucket_nodes m' j i L = bucket_nodes m j i L"
  by (simp add: bucket_nodes_def home_def touchesD)

lemma colour_touches: "touches A m m' \<Longrightarrow> colour m' j = colour m j"
  by (simp add: home_def fun_eq_iff touchesD)

lemma filter_subset: "filter f L = P @ zs \<Longrightarrow> set P \<subseteq> set L"
  by (metis Un_upper1 filter_is_subset order_trans set_append)

lemma slist_region:
  assumes "touches A m m'" "A \<inter> region old new j i L = {}" "set xs \<subseteq> set L" "c \<in> {i, i + 2 ^ j}"
  shows "slist m' (BucketHead new c) xs = slist m (BucketHead new c) xs"
  using assms by (intro slist_frame) (auto simp: region_def intro!: touchesD)

lemma zipped_frame:
  assumes z: "zipped m old new j i L R" and t: "touches A m m'" and d: "A \<inter> region old new j i L = {}"
  shows "zipped m' old new j i L R"
proof -
  have hd: "nxt m' (BucketHead old i) = nxt m (BucketHead old i)"
    using d by (intro touchesD [OF t]) (auto simp: region_def)
  note sl = slist_region [OF t d]
  note col = colour_touches [OF t]
  show ?thesis
  proof (cases "R = []")
    case True
    then show ?thesis using z sl by (auto simp: zipped_def separated_def hd col)
  next
    case False
    then obtain c c' P Q where za: "zip_at m old new j i L c c' P Q R" using z by (auto simp: zipped_def)
    then have "set P \<subseteq> set L" "set Q \<subseteq> set L" "set R \<subseteq> set L"
      unfolding zip_at_def by (metis filter_subset)+
    then have "set (P @ R) \<subseteq> set L" "set (Q @ R) \<subseteq> set L" by simp_all
    moreover have "c \<in> {i, i + 2 ^ j}" "c' \<in> {i, i + 2 ^ j}" using za unfolding zip_at_def by blast+
    ultimately have "zip_at m' old new j i L c c' P Q R"
      using za sl unfolding zip_at_def by (simp add: hd col)
    then show ?thesis using False by (auto simp: zipped_def)
  qed
qed

lemma twinned_frame:
  assumes "twinned m old new j i L" and t: "touches A m m'" and d: "A \<inter> region old new j i L = {}"
  shows "twinned m' old new j i L"
proof -
  have "slist m' (BucketHead old i) L = slist m (BucketHead old i) L"
    using d by (intro slist_frame) (auto simp: region_def intro!: touchesD [OF t])
  moreover have "set (dropWhile f L) \<subseteq> set L" for f using set_dropWhileD by fast
  ultimately show ?thesis using assms(1) slist_region [OF t d]
    by (simp add: twinned_def colour_touches [OF t])
qed

lemma bucketAt_ok:
  assumes "blocks m k = Some (2 ^ j)" "j < 32" "i < 2 ^ j"
  shows "bucketAt m k i = Some (BucketHead k i)"
  using assms by (simp add: bucketAt_def unat_two_power)

subsection \<open>The loops over all buckets\<close>

text \<open>What stays the same during an expansion, whose memory updates only touch \<open>next\<close> fields.\<close>

definition expanding :: "mem \<Rightarrow> nat \<Rightarrow> nat \<Rightarrow> nat \<Rightarrow> loc list list \<Rightarrow> bool" where
  "expanding m old new j B \<longleftrightarrow> blocks m old = Some (2 ^ j) \<and> blocks m new = Some (2 ^ Suc j) \<and> j < 30
     \<and> old \<noteq> new \<and> length B = 2 ^ j \<and> (\<forall>i < 2 ^ j. bucket_nodes m j i (B ! i))"

lemma expandingD:
  assumes "expanding m old new j B"
  shows "blocks m old = Some (2 ^ j)" "blocks m new = Some (2 ^ Suc j)" "j < 30" "j < 31" "old \<noteq> new"
    "length B = 2 ^ j" "i < 2 ^ j \<Longrightarrow> bucket_nodes m j i (B ! i)"
    "i < 2 ^ j \<Longrightarrow> bucketAt m old i = Some (BucketHead old i)" "unat ((2 :: u64) ^ j) = 2 ^ j"
  using assms by (simp_all add: expanding_def bucketAt_ok unat_two_power)

lemma expanding_touches: "touches A m m' \<Longrightarrow> expanding m' old new j B = expanding m old new j B"
  unfolding expanding_def using bucket_nodes_touches by (simp add: touchesD)

lemma expanding_disjoint:
  assumes "expanding m old new j B" "i < 2 ^ j" "i' < 2 ^ j" "i \<noteq> i'"
  shows "region old new j i (B ! i) \<inter> region old new j i' (B ! i') = {}"
  using region_disjoint [OF expandingD(7) [OF assms(1,2)] expandingD(7) [OF assms(1,3)]] assms
  by (simp add: expandingD(5))

lemma touches_all: "touches A m m' \<Longrightarrow> touches UNIV m m'"
  by (rule touches_mono) auto

lemma touches_all_trans: "touches UNIV m m' \<Longrightarrow> touches A m' m'' \<Longrightarrow> touches UNIV m m''"
  using touches_trans [of UNIV m m' A m''] by simp

text \<open>
  An observer of the expansion: \<open>J i m\<close> holds of the memory when a round has treated the buckets below
  \<open>i\<close>.  It is kept by the stores to the old buckets, by the stores of a call of \<open>unzipOneSegment\<close>, and by
  the grace period between two rounds.  Whatever is to be known of the states between the stores is
  proved by choosing \<open>J\<close>.
\<close>

definition watches :: "(nat \<Rightarrow> mem \<Rightarrow> bool) \<Rightarrow> nat \<Rightarrow> nat \<Rightarrow> nat \<Rightarrow> loc list list \<Rightarrow> bool" where
  "watches J old new j B \<longleftrightarrow>
     (\<forall>k m i r. J k m \<longrightarrow> J k (storeNext (BucketHead old i) r m))
     \<and> (\<forall>i m. J i m \<longrightarrow> J (Suc i) m)
     \<and> (\<forall>i m c c' P Q R S T. i < 2 ^ j \<longrightarrow> expanding m old new j B \<longrightarrow> zip_at m old new j i (B ! i) c c' P Q R
          \<longrightarrow> R = S @ T \<longrightarrow> (\<forall>x \<in> set S. colour m j x = c') \<longrightarrow> J i m
          \<longrightarrow> J (Suc i) (fold emit (unzipStores old i P S T) m))
     \<and> (\<forall>m. expanding m old new j B \<longrightarrow> (\<forall>i < 2 ^ j. \<exists>R. zipped m old new j i (B ! i) R) \<longrightarrow> J (2 ^ j) m
          \<longrightarrow> J 0 (emit ESync m))"

lemma watchesD:
  assumes "watches J old new j B"
  shows "J k m \<Longrightarrow> J k (storeNext (BucketHead old i) r m)" "J i m \<Longrightarrow> J (Suc i) m"
    "i < 2 ^ j \<Longrightarrow> expanding m old new j B \<Longrightarrow> zip_at m old new j i (B ! i) c c' P Q R \<Longrightarrow> R = S @ T \<Longrightarrow>
      \<forall>x \<in> set S. colour m j x = c' \<Longrightarrow> J i m \<Longrightarrow> J (Suc i) (fold emit (unzipStores old i P S T) m)"
    "expanding m old new j B \<Longrightarrow> \<forall>i < 2 ^ j. \<exists>R. zipped m old new j i (B ! i) R \<Longrightarrow> J (2 ^ j) m \<Longrightarrow> J 0 (emit ESync m)"
proof -
  note w = assms [unfolded watches_def]
  show "J k m \<Longrightarrow> J k (storeNext (BucketHead old i) r m)" by (rule w [THEN conjunct1, rule_format])
  show "J i m \<Longrightarrow> J (Suc i) m" by (rule w [THEN conjunct2, THEN conjunct1, rule_format])
  show "J (Suc i) (fold emit (unzipStores old i P S T) m)"
    if "i < 2 ^ j" "expanding m old new j B" "zip_at m old new j i (B ! i) c c' P Q R" "R = S @ T"
      "\<forall>x \<in> set S. colour m j x = c'" "J i m"
    by (rule w [THEN conjunct2, THEN conjunct2, THEN conjunct1, THEN spec, of i, THEN spec, of m, THEN spec, of c, THEN spec, of c', THEN spec, of P, THEN spec, of Q, THEN spec, of R, THEN spec, of S, THEN spec, of T,
      THEN mp, THEN mp, THEN mp, THEN mp, THEN mp, THEN mp, OF that])
  show "J 0 (emit ESync m)" if "expanding m old new j B" "\<forall>i < 2 ^ j. \<exists>R. zipped m old new j i (B ! i) R" "J (2 ^ j) m"
    by (rule w [THEN conjunct2, THEN conjunct2, THEN conjunct2, THEN spec, of m, THEN mp, THEN mp, THEN mp, OF that])
qed

lemma watches_True: "watches (\<lambda>_ _. True) old new j B"
  by (simp add: watches_def)

text \<open>One bucket in one round: its first segment is unzipped, the rest is shorter, no other bucket is touched.\<close>

lemma unzip_bucket:
  assumes ex: "expanding m old new j B" and i: "i < 2 ^ j" and R: "zipped m old new j i (B ! i) R" "R \<noteq> []"
    and w: "watches J old new j B" "J i m"
  shows "nxt m (BucketHead old i) \<noteq> None \<and> (\<exists>m' T. unzipOneSegment (BucketHead old i) (2 ^ Suc j - 1) m = Some m'
    \<and> zipped m' old new j i (B ! i) T \<and> length T < length R \<and> J (Suc i) m' \<and> touches (region old new j i (B ! i)) m m')"
proof -
  obtain c c' P Q where z: "zip_at m old new j i (B ! i) c c' P Q R" using R by (auto simp: zipped_def)
  define S T where "S = takeWhile (\<lambda>x. colour m j x \<noteq> c) R" and "T = dropWhile (\<lambda>x. colour m j x \<noteq> c) R"
  define m' where "m' = fold emit (unzipStores old i P S T) m"
  have run: "unzipOneSegment (BucketHead old i) (2 ^ Suc j - 1) m = Some m'"
    unfolding m'_def by (rule unzip_run [OF z expandingD(4) [OF ex] S_def T_def])
  note st = unzip_step [OF z expandingD(7) [OF ex i] expandingD(5) [OF ex] S_def T_def m'_def]
  have "{c, c'} = {i, i + 2 ^ j}" "set R \<subseteq> set (B ! i)" using z by (simp_all add: zip_at_def)
  then have "\<forall>x \<in> set R. colour m j x = c \<or> colour m j x = c'"
    using zip_coloured [OF expandingD(7) [OF ex i], of R c c'] by blast
  then have Sc: "\<forall>x \<in> set S. colour m j x = c'"
    unfolding S_def using takeWhile_binary [of R "colour m j" c c'] by blast
  have RST: "R = S @ T" by (simp add: S_def T_def)
  have "J (Suc i) m'" unfolding m'_def by (rule watchesD(3) [OF w(1) i ex z RST Sc w(2)])
  moreover have "zipped m' old new j i (B ! i) T" using st(1) unfolding zipped_def by (metis (full_types))
  moreover have "touches (region old new j i (B ! i)) m m'"
    using st(2) by (rule touches_mono) (auto simp: region_def)
  moreover have "nxt m (BucketHead old i) \<noteq> None" using z by (simp add: zip_at_def)
  ultimately show ?thesis using run st(3) by blast
qed

lemma unzipRound_ok:
  assumes ex: "expanding m old new j B"
    and zs: "\<And>i. i < 2 ^ j \<Longrightarrow> \<exists>R. zipped m old new j i (B ! i) R \<and> length R \<le> n"
    and w: "watches J old new j B" and J: "J 0 m"
  shows "\<exists>flag m'. unzipRound old (2 ^ Suc j - 1) m = Some (flag, m') \<and> touches UNIV m m'
    \<and> (n = 0 \<longrightarrow> flag) \<and> J (2 ^ j) m' \<and> (flag \<longrightarrow> m' = m)
    \<and> (\<forall>i < 2 ^ j. \<exists>R. zipped m' old new j i (B ! i) R \<and> length R \<le> n - 1 \<and> (flag \<longrightarrow> R = []))"
proof -
  let ?Z = "\<lambda>m i R. zipped m old new j i (B ! i) R"
  let ?body = "\<lambda>iHalf (allFinished, m). do {
         pSrc \<leftarrow> bucketAt m old iHalf;
         if nxt m pSrc \<noteq> None then do {
           m \<leftarrow> unzipOneSegment pSrc (2 ^ Suc j - 1) m;
           Some (False, m)
         } else Some (allFinished, m)
       }"
  have "\<exists>s'. for_range 0 (2 ^ j) ?body (True, m) = Some s'
    \<and> (touches UNIV m (snd s') \<and> (n = 0 \<longrightarrow> fst s') \<and> J (2 ^ j) (snd s') \<and> (fst s' \<longrightarrow> snd s' = m))
    \<and> (\<forall>i < 2 ^ j. \<exists>R. ?Z (snd s') i R \<and> length R \<le> n - 1 \<and> (fst s' \<longrightarrow> R = []))"
  proof (rule for_range_each [where Pre = "\<lambda>i s. \<exists>R. ?Z (snd s) i R \<and> length R \<le> n"
      and Inv = "\<lambda>i s. touches UNIV m (snd s) \<and> (n = 0 \<longrightarrow> fst s) \<and> J i (snd s) \<and> (fst s \<longrightarrow> snd s = m)"
      and Post = "\<lambda>i s. \<exists>R. ?Z (snd s) i R \<and> length R \<le> n - 1 \<and> (fst s \<longrightarrow> R = [])"])
    fix i and s :: "bool \<times> mem"
    assume i: "i < 2 ^ j" and inv: "touches UNIV m (snd s) \<and> (n = 0 \<longrightarrow> fst s) \<and> J i (snd s) \<and> (fst s \<longrightarrow> snd s = m)"
      and pre: "\<exists>R. ?Z (snd s) i R \<and> length R \<le> n"
    obtain b m1 where s: "s = (b, m1)" by (cases s)
    have ex1: "expanding m1 old new j B" using ex inv expanding_touches by (metis s snd_conv)
    obtain R where R: "?Z m1 i R" "length R \<le> n" using pre by (auto simp: s)
    show "\<exists>s'. ?body i s = Some s' \<and> (touches UNIV m (snd s') \<and> (n = 0 \<longrightarrow> fst s') \<and> J (Suc i) (snd s') \<and> (fst s' \<longrightarrow> snd s' = m))
        \<and> (\<exists>R. ?Z (snd s') i R \<and> length R \<le> n - 1 \<and> (fst s' \<longrightarrow> R = []))
        \<and> (\<forall>i' < 2 ^ j. i' \<noteq> i \<longrightarrow> ((\<exists>R. ?Z (snd s) i' R \<and> length R \<le> n) \<longrightarrow> (\<exists>R. ?Z (snd s') i' R \<and> length R \<le> n))
          \<and> ((\<exists>R. ?Z (snd s) i' R \<and> length R \<le> n - 1 \<and> (fst s \<longrightarrow> R = []))
            \<longrightarrow> (\<exists>R. ?Z (snd s') i' R \<and> length R \<le> n - 1 \<and> (fst s' \<longrightarrow> R = []))))"
    proof (cases "R = []")
      case True
      then have "nxt m1 (BucketHead old i) = None" using R(1) by (simp add: zipped_def separated_def)
      then have "?body i s = Some s" using expandingD(8) [OF ex1 i] by (simp add: s)
      moreover have "J (Suc i) m1" using inv by (intro watchesD(2) [OF w]) (simp add: s)
      ultimately show ?thesis using R inv True
        by (intro exI [of _ s]) (auto simp: s intro!: exI [of _ "[]"])
    next
      case False
      obtain m2 T where u: "nxt m1 (BucketHead old i) \<noteq> None" "unzipOneSegment (BucketHead old i) (2 ^ Suc j - 1) m1 = Some m2"
        "?Z m2 i T" "length T < length R" "J (Suc i) m2" and t: "touches (region old new j i (B ! i)) m1 m2"
        using unzip_bucket [OF ex1 i R(1) False w] inv by (auto simp: s)
      have body: "?body i s = Some (False, m2)" using expandingD(8) [OF ex1 i] u(1,2) by (simp add: s)
      have fr: "?Z m1 i' R' \<Longrightarrow> ?Z m2 i' R'" if "i' < 2 ^ j" "i' \<noteq> i" for i' R'
        using zipped_frame [OF _ t] expanding_disjoint [OF ex1 i that(1)] that(2) by blast
      show ?thesis unfolding body
        using u(3-5) fr R(2) inv touches_all_trans [OF _ t]
        by (intro exI [of _ "(False, m2)"]) (auto simp: s)
    qed
  qed (use zs J in auto)
  then obtain s' where s': "for_range 0 (2 ^ j) ?body (True, m) = Some s'"
    "touches UNIV m (snd s')" "n = 0 \<longrightarrow> fst s'" "J (2 ^ j) (snd s')" "fst s' \<longrightarrow> snd s' = m"
    "\<forall>i < 2 ^ j. \<exists>R. ?Z (snd s') i R \<and> length R \<le> n - 1 \<and> (fst s' \<longrightarrow> R = [])" by blast
  then show ?thesis
    by (intro exI [of _ "fst s'"] exI [of _ "snd s'"])
      (simp add: unzipRound_def expandingD(1,9) [OF ex] del: power_Suc)
qed

lemma findFirstUnzipStarts_ok:
  assumes ex: "expanding m old new j B" and tw: "\<And>i. i < 2 ^ j \<Longrightarrow> twinned m old new j i (B ! i)"
    and w: "watches J old new j B" and J: "J 0 m"
  shows "\<exists>flag m'. findFirstUnzipStarts old (2 ^ Suc j - 1) m = Some (flag, m') \<and> touches UNIV m m' \<and> J 0 m'
    \<and> (\<forall>i < 2 ^ j. \<exists>R. zipped m' old new j i (B ! i) R \<and> length R \<le> length (B ! i) \<and> (flag \<longrightarrow> R = []))"
proof -
  let ?Z = "\<lambda>m i R. zipped m old new j i (B ! i) R"
  let ?body = "\<lambda>iHalf (allFinished, m). do {
         pSrc \<leftarrow> bucketAt m old iHalf;
         if nxt m pSrc \<noteq> None then do {
           (needUnzip, m) \<leftarrow> findFirstUnzipPoint pSrc (2 ^ Suc j - 1) m;
           Some (if needUnzip then False else allFinished, m)
         } else Some (allFinished, m)
       }"
  have "\<exists>s'. for_range 0 (2 ^ j) ?body (True, m) = Some s' \<and> (touches UNIV m (snd s') \<and> J 0 (snd s'))
    \<and> (\<forall>i < 2 ^ j. \<exists>R. ?Z (snd s') i R \<and> length R \<le> length (B ! i) \<and> (fst s' \<longrightarrow> R = []))"
  proof (rule for_range_each [where Pre = "\<lambda>i s. twinned (snd s) old new j i (B ! i)"
      and Inv = "\<lambda>_ s. touches UNIV m (snd s) \<and> J 0 (snd s)"
      and Post = "\<lambda>i s. \<exists>R. ?Z (snd s) i R \<and> length R \<le> length (B ! i) \<and> (fst s \<longrightarrow> R = [])"])
    fix i and s :: "bool \<times> mem"
    assume i: "i < 2 ^ j" and inv: "touches UNIV m (snd s) \<and> J 0 (snd s)" and pre: "twinned (snd s) old new j i (B ! i)"
    obtain b m1 where s: "s = (b, m1)" by (cases s)
    have ex1: "expanding m1 old new j B" using ex inv expanding_touches by (metis s snd_conv)
    note tw1 = pre [unfolded s snd_conv]
    show "\<exists>s'. ?body i s = Some s' \<and> (touches UNIV m (snd s') \<and> J 0 (snd s'))
        \<and> (\<exists>R. ?Z (snd s') i R \<and> length R \<le> length (B ! i) \<and> (fst s' \<longrightarrow> R = []))
        \<and> (\<forall>i' < 2 ^ j. i' \<noteq> i \<longrightarrow>
            (twinned (snd s) old new j i' (B ! i') \<longrightarrow> twinned (snd s') old new j i' (B ! i'))
          \<and> ((\<exists>R. ?Z (snd s) i' R \<and> length R \<le> length (B ! i') \<and> (fst s \<longrightarrow> R = []))
            \<longrightarrow> (\<exists>R. ?Z (snd s') i' R \<and> length R \<le> length (B ! i') \<and> (fst s' \<longrightarrow> R = []))))"
    proof (cases "B ! i = []")
      case True
      then have "nxt m1 (BucketHead old i) = None" "?Z m1 i []"
        using tw1 twinned_empty [of m1 old new j i] by (simp_all add: twinned_def slist_def)
      moreover from this have "?body i s = Some s" using expandingD(8) [OF ex1 i] by (simp add: s)
      ultimately show ?thesis using inv by (intro exI [of _ s]) (auto simp: s intro!: exI [of _ "[]"])
    next
      case False
      obtain r R where r: "findFirstUnzipPoint (BucketHead old i) (2 ^ Suc j - 1) m1 =
          Some (r \<noteq> None, storeNext (BucketHead old i) r m1)"
        "?Z (storeNext (BucketHead old i) r m1) i R" "length R \<le> length (B ! i)" "(r = None) = (R = [])"
        using findFirst_ok [OF tw1 expandingD(7) [OF ex1 i] False expandingD(4,5) [OF ex1]] by blast
      let ?m2 = "storeNext (BucketHead old i) r m1"
      have "nxt m1 (BucketHead old i) \<noteq> None" using tw1 False by (cases "B ! i") (auto simp: twinned_def slist_def)
      then have body: "?body i s = Some (if r \<noteq> None then False else b, ?m2)"
        using expandingD(8) [OF ex1 i] r(1) by (simp add: s)
      have t: "touches (region old new j i (B ! i)) m1 ?m2" by (intro touches_store) (auto simp: region_def)
      note dis = expanding_disjoint [OF ex1 i]
      have fr: "?Z m1 i' R' \<Longrightarrow> ?Z ?m2 i' R'" "twinned m1 old new j i' L \<Longrightarrow> L = B ! i' \<Longrightarrow> twinned ?m2 old new j i' L"
        if "i' < 2 ^ j" "i' \<noteq> i" for i' R' L
        using zipped_frame [OF _ t] twinned_frame [OF _ t] dis [OF that(1)] that(2) by blast+
      show ?thesis unfolding body
        using r(2-4) fr inv touches_all_trans [OF _ t] watchesD(1) [OF w, of 0 m1 i r]
        by (intro exI [of _ "(if r \<noteq> None then False else b, ?m2)"]) (auto simp: s)
    qed
  qed (use tw J in auto)
  then obtain s' where s': "for_range 0 (2 ^ j) ?body (True, m) = Some s'" "touches UNIV m (snd s')" "J 0 (snd s')"
    "\<forall>i < 2 ^ j. \<exists>R. ?Z (snd s') i R \<and> length R \<le> length (B ! i) \<and> (fst s' \<longrightarrow> R = [])" by blast
  then show ?thesis
    by (intro exI [of _ "fst s'"] exI [of _ "snd s'"])
      (simp add: findFirstUnzipStarts_def expandingD(1,9) [OF ex] del: power_Suc)
qed

lemma twinsLoop_ok:
  assumes ex: "expanding m old new j B" and sl: "\<And>i. i < 2 ^ j \<Longrightarrow> slist m (BucketHead old i) (B ! i)"
  shows "\<exists>m'. twinsLoop old new (2 ^ j) (2 ^ Suc j - 1) m = Some m' \<and> stores (range (BucketHead new)) m m'
    \<and> (\<forall>i < 2 ^ j. twinned m' old new j i (B ! i))"
proof -
  have "\<exists>m'. for_range 0 (2 ^ j) (\<lambda>iHalf m. do {
       pSrc \<leftarrow> bucketAt m old iHalf;
       dst0 \<leftarrow> bucketAt m new iHalf;
       let iSecondHalf = iHalf + 2 ^ j;
       dst1 \<leftarrow> bucketAt m new iSecondHalf;
       initTwinDstBuckets pSrc dst0 dst1 (of_nat iHalf) (of_nat iSecondHalf) (2 ^ Suc j - 1) m
     }) m = Some m' \<and> stores (range (BucketHead new)) m m' \<and> (\<forall>i < 2 ^ j. twinned m' old new j i (B ! i))"
  proof (rule for_range_each [where Pre = "\<lambda>i m'. slist m' (BucketHead old i) (B ! i)"])
    fix i m1
    assume i: "i < 2 ^ j" and pre: "slist m1 (BucketHead old i) (B ! i)" and inv: "stores (range (BucketHead new)) m m1"
    have ex1: "expanding m1 old new j B" using ex expanding_touches [OF stores_touches [OF inv]] by blast
    have at: "bucketAt m1 new b = Some (BucketHead new b)" if "b < 2 ^ Suc j" for b
      by (rule bucketAt_ok [OF expandingD(2) [OF ex1] _ that]) (use expandingD(3) [OF ex1] in simp)
    obtain m2 where m2: "initTwinDstBuckets (BucketHead old i) (BucketHead new i) (BucketHead new (i + 2 ^ j))
        (of_nat i) (of_nat (i + 2 ^ j)) (2 ^ Suc j - 1) m1 = Some m2" "twinned m2 old new j i (B ! i)"
      "stores {BucketHead new i, BucketHead new (i + 2 ^ j)} m1 m2"
      using initTwin_ok [OF pre expandingD(7) [OF ex1 i] i expandingD(4,5) [OF ex1]] by blast
    have t: "touches (region old new j i (B ! i)) m1 m2" using stores_touches [OF m2(3)] by (rule touches_mono) (auto simp: region_def)
    have "stores (range (BucketHead new)) m1 m2" by (rule stores_mono [OF m2(3)]) auto
    then have st: "stores (range (BucketHead new)) m m2" by (rule stores_trans [OF inv])
    note dis = expanding_disjoint [OF ex1 i]
    have fr: "(slist m1 (BucketHead old i') (B ! i') \<longrightarrow> slist m2 (BucketHead old i') (B ! i'))
        \<and> (twinned m1 old new j i' (B ! i') \<longrightarrow> twinned m2 old new j i' (B ! i'))"
      if "i' < 2 ^ j" "i' \<noteq> i" for i'
      using twinned_frame [OF _ t] slist_touches [OF _ t] dis [OF that(1)] that(2) by (auto simp: region_def)
    show "\<exists>m'. (do {
       pSrc \<leftarrow> bucketAt m1 old i;
       dst0 \<leftarrow> bucketAt m1 new i;
       let iSecondHalf = i + 2 ^ j;
       dst1 \<leftarrow> bucketAt m1 new iSecondHalf;
       initTwinDstBuckets pSrc dst0 dst1 (of_nat i) (of_nat iSecondHalf) (2 ^ Suc j - 1) m1
     }) = Some m' \<and> stores (range (BucketHead new)) m m' \<and> twinned m' old new j i (B ! i)
     \<and> (\<forall>i' < 2 ^ j. i' \<noteq> i \<longrightarrow> (slist m1 (BucketHead old i') (B ! i') \<longrightarrow> slist m' (BucketHead old i') (B ! i'))
        \<and> (twinned m1 old new j i' (B ! i') \<longrightarrow> twinned m' old new j i' (B ! i')))"
      using m2(1,2) fr st at [of i] at [of "i + 2 ^ j"] i expandingD(8) [OF ex1 i]
      by (intro exI [of _ m2]) simp
  qed (use sl in auto)
  then show ?thesis by (simp add: twinsLoop_def expandingD(9) [OF ex])
qed

subsection \<open>The table after an expansion\<close>

text \<open>Every old bucket, split in order.\<close>

definition expandBuckets :: "mem \<Rightarrow> nat \<Rightarrow> loc list list \<Rightarrow> loc list list" where
  "expandBuckets m j B = map (\<lambda>c. filter (\<lambda>x. colour m j x = c) (B ! (c mod 2 ^ j))) [0..<2 ^ Suc j]"

lemma expandBuckets_nth:
  "c < 2 ^ Suc j \<Longrightarrow> expandBuckets m j B ! c = filter (\<lambda>x. colour m j x = c) (B ! (c mod 2 ^ j))"
  by (simp add: expandBuckets_def del: upt_Suc)

lemma expandBuckets_touches: "touches A m m' \<Longrightarrow> expandBuckets m' j B = expandBuckets m j B"
  by (simp add: expandBuckets_def colour_touches)

lemma expandBuckets_set:
  assumes "expanding m old new j B"
  shows "set (concat (expandBuckets m j B)) = set (concat B)"
proof -
  have "x \<in> set (concat (expandBuckets m j B)) \<longleftrightarrow> x \<in> set (concat B)" for x
  proof -
    have h: "colour m j x < 2 ^ Suc j" "colour m j x mod 2 ^ j = home m j x" "home m j x < 2 ^ j"
      using home_of_Suc [of m j x] by (simp_all add: home_def)
    have "length (expandBuckets m j B) = 2 ^ Suc j" by (simp add: expandBuckets_def)
    then have "x \<in> set (concat (expandBuckets m j B)) \<longleftrightarrow>
        (\<exists>c < 2 ^ Suc j. x \<in> set (B ! (c mod 2 ^ j)) \<and> colour m j x = c)"
      unfolding concat_nth by (auto simp: expandBuckets_nth simp del: power_Suc)
    also have "\<dots> \<longleftrightarrow> x \<in> set (B ! home m j x)" using h by metis
    also have "\<dots> \<longleftrightarrow> x \<in> set (concat B)"
      unfolding concat_nth using h(3) expandingD(6,7) [OF assms] by (metis bucket_nodes_def)
    finally show ?thesis .
  qed
  then show ?thesis by blast
qed

lemma separated_buckets:
  assumes ex: "expanding m old new j B" and sep: "\<And>i. i < 2 ^ j \<Longrightarrow> separated m old new j i (B ! i)"
    and "new < freshBlock m"
  shows "buckets_at m new (Suc j) (expandBuckets m j B)"
proof -
  have "bucket_ok m new (Suc j) c (expandBuckets m j B ! c)" if c: "c < 2 ^ Suc j" for c
  proof -
    let ?i = "c mod 2 ^ j"
    have i: "?i < 2 ^ j" by simp
    have "c = ?i \<or> c = ?i + 2 ^ j"
    proof (cases "c < 2 ^ j")
      case False
      then have "c - 2 ^ j < 2 ^ j" "c mod 2 ^ j = (c - 2 ^ j) mod 2 ^ j" using c by (auto simp: le_mod_geq)
      then show ?thesis using False by simp
    qed simp
    then have "slist m (BucketHead new c) (filter (\<lambda>x. colour m j x = c) (B ! ?i))"
      using sep [OF i] unfolding separated_def by blast
    then show ?thesis using expandingD(7) [OF ex i]
      by (auto simp: expandBuckets_nth [OF c] bucket_ok_def bucket_nodes_def)
  qed
  then show ?thesis using assms(3) expandingD(2,3) [OF ex]
    by (simp add: buckets_at_def expandBuckets_def)
qed

text \<open>
  What the resizing functions need of \<open>rcuSynchronize\<close>: \<open>ready n z\<close> is a zone on which it returns at
  least \<open>n\<close> more times.
\<close>

locale synchronizer =
  fixes sync :: "'z \<Rightarrow> 'z option"
    and ready :: "nat \<Rightarrow> 'z \<Rightarrow> bool"
  assumes sync_law: "ready (Suc n) z \<Longrightarrow> \<exists>z'. sync z = Some z' \<and> ready n z'"
    and ready_less: "ready (Suc n) z \<Longrightarrow> ready n z"
begin

lemma ready_mono: "ready (n + k) z \<Longrightarrow> ready n z"
  by (induction k) (auto intro: ready_less)

text \<open>The rounds shorten what is shared, so \<open>unzip\<close> ends.\<close>

lemma unzip_ok:
  assumes "expanding m old new j B"
    and "\<And>i. i < 2 ^ j \<Longrightarrow> \<exists>R. zipped m old new j i (B ! i) R \<and> length R \<le> n"
    and "ready (n + k) z" and w: "watches J old new j B" and "J 0 m"
  shows "\<exists>m' z'. unzip sync old (2 ^ Suc j - 1) m z = Some (m', z') \<and> touches UNIV m m' \<and> ready k z' \<and> J 0 m'
    \<and> (\<forall>i < 2 ^ j. separated m' old new j i (B ! i))"
  using assms(1-3,5)
proof (induction n arbitrary: m z)
  case 0
  obtain flag m' where r: "unzipRound old (2 ^ Suc j - 1) m = Some (flag, m')" "touches UNIV m m'" "flag" "m' = m"
    "\<forall>i < 2 ^ j. \<exists>R. zipped m' old new j i (B ! i) R \<and> (flag \<longrightarrow> R = [])"
    using unzipRound_ok [where J = J, OF 0(1,2) w 0(4)] by blast
  then show ?case using 0(3,4) by (subst unzip.simps) (auto simp: zipped_def simp del: power_Suc)
next
  case (Suc n)
  obtain flag m' where r: "unzipRound old (2 ^ Suc j - 1) m = Some (flag, m')" "touches UNIV m m'"
    "\<forall>i < 2 ^ j. \<exists>R. zipped m' old new j i (B ! i) R \<and> length R \<le> Suc n - 1 \<and> (flag \<longrightarrow> R = [])"
    "J (2 ^ j) m'" "flag \<longrightarrow> m' = m"
    using unzipRound_ok [where J = J, OF Suc.prems(1,2) w Suc.prems(4)] by blast
  show ?case
  proof (cases flag)
    case True
    have "ready k z" using ready_mono [of k "Suc n" z] Suc.prems(3) by (simp add: add.commute)
    then show ?thesis using r True Suc.prems(4) by (subst unzip.simps) (auto simp: zipped_def simp del: power_Suc)
  next
    case False
    obtain z1 where z1: "sync z = Some z1" "ready (n + k) z1" using sync_law [of "n + k" z] Suc.prems(3) by auto
    have t: "touches {} m' (emit ESync m')" by (simp add: touches_def)
    have ex': "expanding m' old new j B" using Suc.prems(1) expanding_touches [OF r(2)] by blast
    have zs: "\<forall>i < 2 ^ j. \<exists>R. zipped m' old new j i (B ! i) R" using r(3) by blast
    have J': "J 0 (emit ESync m')" by (rule watchesD(4) [OF w ex' zs r(4)])
    have "expanding (emit ESync m') old new j B" using ex' expanding_touches [OF t] by blast
    moreover have "\<exists>R. zipped (emit ESync m') old new j i (B ! i) R \<and> length R \<le> n" if "i < 2 ^ j" for i
      using r(3) that zipped_frame [OF _ t] by fastforce
    ultimately obtain m2 z2 where "unzip sync old (2 ^ Suc j - 1) (emit ESync m') z1 = Some (m2, z2)"
      "touches UNIV (emit ESync m') m2" "ready k z2" "\<forall>i < 2 ^ j. separated m2 old new j i (B ! i)" "J 0 m2"
      using Suc.IH [of "emit ESync m'" z1] z1(2) J' by blast
    then show ?thesis using r(1,2) z1(1) False touches_all_trans [OF touches_all_trans [OF r(2) t]]
      by (subst unzip.simps) (auto simp del: power_Suc)
  qed
qed

end

text \<open>The steps before the first grace period: a new block whose buckets point into the old lists.\<close>

lemma expand_start:
  assumes at: "buckets_at m old j B" and fb: "fresh_blocks m" and j: "j < 30"
  obtains m1 m2 where "allocateAndInitBuckets (2 ^ Suc j) m = Some (freshBlock m, m1)"
    "twinsLoop old (freshBlock m) (2 ^ j) (2 ^ Suc j - 1) m1 = Some m2"
    "expanding m2 old (freshBlock m) j B" "\<And>i. i < 2 ^ j \<Longrightarrow> twinned m2 old (freshBlock m) j i (B ! i)"
    "hashOf m2 = hashOf m" "blocks m2 = (blocks m)(freshBlock m \<mapsto> 2 ^ Suc j)" "freshBlock m2 = Suc (freshBlock m)"
    "stores (range (BucketHead (freshBlock m))) (emit (EAlloc (freshBlock m) (2 ^ Suc j)) m) m2"
proof -
  let ?new = "freshBlock m"
  have pw: "(2::nat) ^ Suc j < 2 ^ 31" using j by (intro power_strict_increasing) auto
  have un: "unat (2 ^ Suc j :: u64) = 2 ^ Suc j" by (rule unat_two_power) (use j in simp)
  have "(2 ^ Suc j :: u64) \<noteq> 0" using un by (metis power_not_zero unat_0 zero_neq_numeral)
  then obtain m1 where m1: "allocateAndInitBuckets (2 ^ Suc j) m = Some (?new, m1)"
    "\<And>a. (\<And>i. a \<noteq> BucketHead ?new i) \<Longrightarrow> nxt m1 a = nxt m a" "hashOf m1 = hashOf m"
    "blocks m1 = (blocks m)(?new \<mapsto> 2 ^ Suc j)" "freshBlock m1 = Suc ?new"
    "stores (range (BucketHead ?new)) (emit (EAlloc ?new (2 ^ Suc j)) m) m1"
    using allocate_ok [of "2 ^ Suc j" m] pw by (metis un)
  have ne: "old \<noteq> ?new" using buckets_atD(3) [OF at] by simp
  have bo: "slist m (BucketHead old i) (B ! i) \<and> bucket_nodes m j i (B ! i)" if "i < 2 ^ j" for i
    using buckets_atD(5) [OF at that] by (simp add: bucket_ok_def bucket_nodes_def)
  have sl: "slist m1 (BucketHead old i) (B ! i)" if "i < 2 ^ j" for i
    using bo [OF that] m1(2) bucket_not_node [of m j i "B ! i"] ne
    by (subst slist_frame [of m1 _ m]) (auto, metis)
  have ex: "expanding m1 old ?new j B"
    using bo m1(3,4) buckets_atD(1,4) [OF at] j ne by (simp add: expanding_def bucket_nodes_def home_def)
  obtain m2 where m2: "twinsLoop old ?new (2 ^ j) (2 ^ Suc j - 1) m1 = Some m2" "stores (range (BucketHead ?new)) m1 m2"
    "\<forall>i < 2 ^ j. twinned m2 old ?new j i (B ! i)" using twinsLoop_ok [OF ex sl] by blast
  note t = stores_touches [OF m2(2)]
  have "expanding m2 old ?new j B" using ex expanding_touches [OF t] by simp
  then show ?thesis using that [OF m1(1) m2(1)] m2(3) m1(3-5) touchesD [OF t] stores_trans [OF m1(6) m2(2)] by simp
qed

context synchronizer
begin

text \<open>
  An expansion as a whole.  An observer that holds after the new array is published and the first
  grace period is over holds when nothing is shared any more; then the old block is freed.
\<close>

lemma expand_run:
  assumes tb: "table m t j B" and j: "j < 30" and rd: "ready (length (concat B) + Suc k) z"
    and old: "pBucketsInfo t = Some old" and w: "watches J old (freshBlock m) j B"
    and J: "\<And>m2. stores (range (BucketHead (freshBlock m))) (emit (EAlloc (freshBlock m) (2 ^ Suc j)) m) m2 \<Longrightarrow>
      expanding m2 old (freshBlock m) j B \<Longrightarrow> \<forall>i < 2 ^ j. twinned m2 old (freshBlock m) j i (B ! i) \<Longrightarrow>
      J 0 (emit ESync (emit (EPublish (Some (freshBlock m))) m2))"
  shows "\<exists>m5 z'. rTableCoreExpandBuckets2x sync t m z
      = Some (t\<lparr>pBucketsInfo := Some (freshBlock m)\<rparr>, emit (EFree old) m5, z') \<and> ready k z'
    \<and> J 0 m5 \<and> expanding m5 old (freshBlock m) j B \<and> (\<forall>i < 2 ^ j. separated m5 old (freshBlock m) j i (B ! i))
    \<and> hashOf m5 = hashOf m \<and> blocks m5 = (blocks m)(freshBlock m \<mapsto> 2 ^ Suc j) \<and> freshBlock m5 = Suc (freshBlock m)"
proof -
  have at: "buckets_at m old j B" using tb old by (auto elim: tableE)
  have fb: "fresh_blocks m" using tb by (simp add: table_def)
  let ?new = "freshBlock m" and ?k = "2 ^ Suc j - 1 :: u64"
  let ?t = "t\<lparr>pBucketsInfo := Some ?new\<rparr>"
  obtain m1 m2 where m2: "allocateAndInitBuckets (2 ^ Suc j) m = Some (?new, m1)"
    "twinsLoop old ?new (2 ^ j) ?k m1 = Some m2" "expanding m2 old ?new j B"
    "\<And>i. i < 2 ^ j \<Longrightarrow> twinned m2 old ?new j i (B ! i)" "hashOf m2 = hashOf m"
    "blocks m2 = (blocks m)(?new \<mapsto> 2 ^ Suc j)" "freshBlock m2 = Suc ?new"
    "stores (range (BucketHead ?new)) (emit (EAlloc ?new (2 ^ Suc j)) m) m2"
    using expand_start [OF at fb j] by metis
  let ?m3 = "emit ESync (emit (EPublish (Some ?new)) m2)"
  have t3: "touches {} m2 ?m3" by (simp add: touches_def)
  have ex3: "expanding ?m3 old ?new j B" using m2(3) expanding_touches [OF t3] by blast
  have tw3: "twinned ?m3 old ?new j i (B ! i)" if "i < 2 ^ j" for i
    using twinned_frame [OF m2(4) [OF that] t3] by simp
  have J3: "J 0 ?m3" using J [OF m2(8,3)] m2(4) by blast
  obtain z1 where z1: "sync z = Some z1" "ready (length (concat B) + k) z1"
    using sync_law [of "length (concat B) + k" z] rd by auto
  obtain flag m4 where m4: "findFirstUnzipStarts old ?k ?m3 = Some (flag, m4)" "touches UNIV ?m3 m4" "J 0 m4"
    "\<forall>i < 2 ^ j. \<exists>R. zipped m4 old ?new j i (B ! i) R \<and> length R \<le> length (B ! i) \<and> (flag \<longrightarrow> R = [])"
    using findFirstUnzipStarts_ok [where J = J, OF ex3 tw3 w J3] by blast
  have ex4: "expanding m4 old ?new j B" using ex3 expanding_touches [OF m4(2)] by simp
  have len: "length (B ! i) \<le> length (concat B)" if "i < 2 ^ j" for i
    using that expandingD(6) [OF m2(3)] member_le_sum_list [of "length (B ! i)" "map length B"]
    by (simp add: length_concat)
  have "\<exists>m5 z2. (if flag then Some (old, ?t, m4, z1) else do {
         (m, z) \<leftarrow> unzip sync old ?k m4 z1; Some (old, ?t, m, z) }) = Some (old, ?t, m5, z2)
      \<and> touches UNIV m4 m5 \<and> ready k z2 \<and> J 0 m5 \<and> (\<forall>i < 2 ^ j. separated m5 old ?new j i (B ! i))"
  proof (cases flag)
    case True
    then have "\<forall>i < 2 ^ j. separated m4 old ?new j i (B ! i)" using m4(4) by (auto simp: zipped_def)
    moreover have "ready k z1" using ready_mono [of k "length (concat B)" z1] z1(2) by (simp only: add.commute)
    ultimately show ?thesis using True m4(3) by auto
  next
    case False
    have "\<exists>R. zipped m4 old ?new j i (B ! i) R \<and> length R \<le> length (concat B)" if "i < 2 ^ j" for i
      using m4(4) len [OF that] that order_trans by blast
    then show ?thesis using unzip_ok [where J = J, OF ex4 _ z1(2) w m4(3)] False by fastforce
  qed
  then obtain m5 z2 where m5: "(if flag then Some (old, ?t, m4, z1) else do {
         (m, z) \<leftarrow> unzip sync old ?k m4 z1; Some (old, ?t, m, z) }) = Some (old, ?t, m5, z2)"
      "touches UNIV m4 m5" "ready k z2" "J 0 m5" "\<forall>i < 2 ^ j. separated m5 old ?new j i (B ! i)" by blast
  have nr: "(2 ^ j :: u64) * 2 = 2 ^ Suc j" by simp
  have run: "expandBucketsByFac2ReturnOld sync t m z = Some (old, ?t, m5, z2)"
    using m2(1,2) z1(1) m4(1) m5(1) buckets_atD(1) [OF at]
    by (cases flag) (simp_all add: expandBucketsByFac2ReturnOld_def old Let_def nr del: power_Suc)
  have t5: "touches UNIV m2 m5" using touches_all_trans [OF touches_all_trans [OF touches_all [OF t3] m4(2)] m5(2)] .
  have fin: "blocks m5 = (blocks m)(?new \<mapsto> 2 ^ Suc j)" "freshBlock m5 = Suc ?new" "hashOf m5 = hashOf m"
    using touchesD [OF t5] m2(5-7) by simp_all
  have ex5: "expanding m5 old ?new j B" using m2(3) expanding_touches [OF t5] by simp
  have "destroyAndFreeBuckets old m5 = Some (emit (EFree old) m5)"
    using expandingD(1) [OF ex5] by (simp add: destroyAndFreeBuckets_def)
  then show ?thesis using m5(3-5) fin ex5
    by (intro exI [of _ m5] exI [of _ z2]) (simp add: rTableCoreExpandBuckets2x_def run)
qed

end

lemma expanded_table:
  assumes fb: "fresh_blocks m" and ex: "expanding m5 old (freshBlock m) j B"
    and sep: "\<forall>i < 2 ^ j. separated m5 old (freshBlock m) j i (B ! i)"
    and fin: "hashOf m5 = hashOf m" "blocks m5 = (blocks m)(freshBlock m \<mapsto> 2 ^ Suc j)" "freshBlock m5 = Suc (freshBlock m)"
    and t: "pBucketsInfo t = Some (freshBlock m)"
  shows "table (emit (EFree old) m5) t (Suc j) (expandBuckets m j B)"
    and "absTable (emit (EFree old) m5) (expandBuckets m j B) = absTable m B"
    and "blocks (emit (EFree old) m5) old = None"
proof -
  let ?new = "freshBlock m"
  let ?B = "expandBuckets m j B" and ?m6 = "emit (EFree old) m5"
  have eB: "expandBuckets m5 j B = ?B" using fin(1) by (simp add: expandBuckets_def home_def)
  have "buckets_at m5 ?new (Suc j) ?B"
    using separated_buckets [OF ex] sep fin(3) by (simp add: eB)
  then have "buckets_at ?m6 ?new (Suc j) ?B"
    using expandingD(5) [OF ex] by (auto simp: buckets_at_def bucket_ok_def home_def)
  moreover have "fresh_blocks ?m6" using fb fin by (auto simp: fresh_blocks_def)
  ultimately show "table ?m6 t (Suc j) ?B" using t by (simp add: table_def)
  show "absTable ?m6 ?B = absTable m B"
    using expandBuckets_set [OF ex] fin(1) by (simp add: absTable_def eB fun_eq_iff del: set_concat)
qed simp

context synchronizer
begin

lemma expand_ok:
  assumes tb: "table m t j B" and j: "j < 30" and rd: "ready (length (concat B) + Suc k) z"
  shows "\<exists>t' m' z'. rTableCoreExpandBuckets2x sync t m z = Some (t', m', z') \<and> ready k z'
    \<and> table m' t' (Suc j) (expandBuckets m j B) \<and> absTable m' (expandBuckets m j B) = absTable m B
    \<and> t' = t\<lparr>pBucketsInfo := Some (freshBlock m)\<rparr> \<and> (\<forall>old. pBucketsInfo t = Some old \<longrightarrow> blocks m' old = None)"
proof -
  obtain old where old: "pBucketsInfo t = Some old" using tb by (rule tableE)
  have fb: "fresh_blocks m" using tb by (simp add: table_def)
  obtain m5 z' where r: "rTableCoreExpandBuckets2x sync t m z
      = Some (t\<lparr>pBucketsInfo := Some (freshBlock m)\<rparr>, emit (EFree old) m5, z')" "ready k z'"
    "expanding m5 old (freshBlock m) j B" "\<forall>i < 2 ^ j. separated m5 old (freshBlock m) j i (B ! i)"
    "hashOf m5 = hashOf m" "blocks m5 = (blocks m)(freshBlock m \<mapsto> 2 ^ Suc j)" "freshBlock m5 = Suc (freshBlock m)"
    using expand_run [OF tb j rd old watches_True] by blast
  show ?thesis
    using r(1,2) old expanded_table [OF fb r(3-7), of "t\<lparr>pBucketsInfo := Some (freshBlock m)\<rparr>"]
    by (intro exI [of _ "t\<lparr>pBucketsInfo := Some (freshBlock m)\<rparr>"] exI [of _ "emit (EFree old) m5"] exI [of _ z']) simp
qed

end

end
