(* ===== verification/Shrink.thy ===== *)
theory Shrink
  imports Expand
begin

text \<open>
  What shrinking does to a well-formed table: two buckets become one, by a single store that links
  the second list to the end of the first one; the old buckets stay readable until the grace
  period is over and the old block is freed.
\<close>

subsection \<open>Two buckets\<close>

lemma lastLoop_lst: "lst (nxt m) (nxt m p) xs \<Longrightarrow> lastLoop p m = Some (last (p # xs))"
proof (induction xs arbitrary: p)
  case Nil
  then show ?case by (simp add: lastLoop.simps)
next
  case (Cons x xs)
  then show ?case using Cons.IH [of x] by (simp add: lastLoop.simps [of p])
qed

lemma slist_join:
  assumes "slist m a xs" "slist m b ys" "xs \<noteq> []" "set xs \<inter> set ys = {}" "d \<notin> set xs \<union> set ys"
  shows "slist (storeNext d (nxt m a) (storeNext (last xs) (nxt m b) m)) d (xs @ ys)"
proof -
  obtain zs x where xs: "xs = zs @ [x]" using assms(3) by (cases xs rule: rev_cases) auto
  then have "x \<notin> set zs" using slist_distinct [OF assms(1)] by simp
  then show ?thesis using assms by (auto simp: slist_def xs)
qed

text \<open>What one call of \<open>shrinkTwoBucketsToOne\<close> stores.\<close>

definition shrinkStores :: "loc \<Rightarrow> loc list \<Rightarrow> loc list \<Rightarrow> event list" where
  "shrinkStores d xs ys =
     (if xs = [] \<or> ys = [] then [EStore d (first (xs @ ys))]
      else [EStore (last xs) (first ys), EStore d (first xs)])"

lemma shrinkTwo_ok:
  assumes "slist m a xs" "slist m b ys" "set xs \<inter> set ys = {}" "d \<notin> set xs \<union> set ys"
  shows "shrinkTwoBucketsToOne a b d m = Some (fold emit (shrinkStores d xs ys) m)"
    and "slist (fold emit (shrinkStores d xs ys) m) d (xs @ ys)"
    and "touches (insert d (set xs)) m (fold emit (shrinkStores d xs ys) m)"
proof -
  have a: "nxt m a = first xs" and b: "nxt m b = first ys" using assms(1,2) lst_first by (auto simp: slist_def)
  show "shrinkTwoBucketsToOne a b d m = Some (fold emit (shrinkStores d xs ys) m)"
  proof (cases xs)
    case Nil
    then show ?thesis using a b by (cases ys) (simp_all add: shrinkTwoBucketsToOne_def shrinkStores_def)
  next
    case (Cons x xs')
    then have "lst (nxt m) (nxt m x) xs'" using assms(1) by (simp add: slist_def)
    then show ?thesis using a b Cons lastLoop_lst
      by (cases ys) (simp_all add: shrinkTwoBucketsToOne_def shrinkStores_def Let_def)
  qed
  show "touches (insert d (set xs)) m (fold emit (shrinkStores d xs ys) m)"
    using last_in_set [of xs] by (auto simp: shrinkStores_def intro!: touches_store)
  show "slist (fold emit (shrinkStores d xs ys) m) d (xs @ ys)"
  proof (cases "xs = [] \<or> ys = []")
    case True
    then have "slist (storeNext d (nxt m a) m) d xs \<or> xs = []" "slist (storeNext d (nxt m b) m) d ys \<or> ys = []"
      using assms by (simp_all add: slist_def)
    then show ?thesis using True a b by (auto simp: shrinkStores_def slist_def)
  next
    case False
    then show ?thesis using slist_join [OF assms(1,2) _ assms(3,4)] a b by (simp add: shrinkStores_def)
  qed
qed

subsection \<open>All buckets\<close>

definition shrinkBuckets :: "nat \<Rightarrow> loc list list \<Rightarrow> loc list list" where
  "shrinkBuckets j B = map (\<lambda>i. B ! i @ B ! (i + 2 ^ j)) [0..<2 ^ j]"

lemma shrinkBuckets_set:
  assumes "length B = 2 ^ Suc j"
  shows "set (concat (shrinkBuckets j B)) = set (concat B)"
proof -
  have "x \<in> set (concat (shrinkBuckets j B)) \<longleftrightarrow> x \<in> set (concat B)" for x
  proof -
    have "x \<in> set (concat (shrinkBuckets j B)) \<longleftrightarrow> (\<exists>i < 2 ^ j. x \<in> set (B ! i) \<or> x \<in> set (B ! (i + 2 ^ j)))"
      unfolding concat_nth by (auto simp: shrinkBuckets_def)
    also have "\<dots> \<longleftrightarrow> (\<exists>i < 2 ^ Suc j. x \<in> set (B ! i))"
    proof
      assume "\<exists>i < 2 ^ Suc j. x \<in> set (B ! i)"
      then obtain i where i: "i < 2 ^ Suc j" "x \<in> set (B ! i)" by blast
      show "\<exists>i < 2 ^ j. x \<in> set (B ! i) \<or> x \<in> set (B ! (i + 2 ^ j))"
      proof (cases "i < 2 ^ j")
        case False
        then have "i - 2 ^ j < 2 ^ j" "i = i - 2 ^ j + 2 ^ j" using i(1) by auto
        then show ?thesis using i(2) by metis
      qed (use i(2) in blast)
    next
      assume "\<exists>i < 2 ^ j. x \<in> set (B ! i) \<or> x \<in> set (B ! (i + 2 ^ j))"
      then obtain i where i: "i < 2 ^ j" "x \<in> set (B ! i) \<or> x \<in> set (B ! (i + 2 ^ j))" by blast
      then have "i < 2 ^ Suc j" "i + 2 ^ j < 2 ^ Suc j" by simp_all
      then show "\<exists>i < 2 ^ Suc j. x \<in> set (B ! i)" using i(2) by blast
    qed
    finally show ?thesis using concat_nth [of x B] assms by simp
  qed
  then show ?thesis by blast
qed

text \<open>What stays the same while the buckets are joined.\<close>

definition joining :: "mem \<Rightarrow> nat \<Rightarrow> nat \<Rightarrow> nat \<Rightarrow> loc list list \<Rightarrow> bool" where
  "joining m old new j B \<longleftrightarrow> blocks m old = Some (2 ^ Suc j) \<and> blocks m new = Some (2 ^ j) \<and> j < 30
     \<and> old \<noteq> new \<and> length B = 2 ^ Suc j \<and> (\<forall>i < 2 ^ Suc j. bucket_nodes m (Suc j) i (B ! i))"

lemma joining_touches: "touches A m m' \<Longrightarrow> joining m' old new j B = joining m old new j B"
  unfolding joining_def using bucket_nodes_touches by (simp add: touchesD)

lemma joining_apart:
  assumes "joining m old new j B" "i < 2 ^ Suc j" "i' < 2 ^ Suc j" "i \<noteq> i'"
  shows "set (B ! i) \<inter> set (B ! i') = {}"
proof -
  have "bucket_nodes m (Suc j) i (B ! i)" "bucket_nodes m (Suc j) i' (B ! i')"
    using assms(1-3) unfolding joining_def by blast+
  then show ?thesis using assms(4) by (auto simp: bucket_nodes_def)
qed

lemma joining_head: "joining m old new j B \<Longrightarrow> i < 2 ^ Suc j \<Longrightarrow> BucketHead k b \<notin> set (B ! i)"
  unfolding joining_def using bucket_not_node by blast

text \<open>An observer of the loop that joins the buckets, as in \<open>watches\<close>.\<close>

definition watches_join :: "(mem \<Rightarrow> bool) \<Rightarrow> nat \<Rightarrow> nat \<Rightarrow> nat \<Rightarrow> loc list list \<Rightarrow> bool" where
  "watches_join J old new j B \<longleftrightarrow> (\<forall>i m. i < 2 ^ j \<longrightarrow> joining m old new j B
     \<longrightarrow> slist m (BucketHead old i) (B ! i) \<longrightarrow> slist m (BucketHead old (i + 2 ^ j)) (B ! (i + 2 ^ j)) \<longrightarrow> J m
     \<longrightarrow> J (fold emit (shrinkStores (BucketHead new i) (B ! i) (B ! (i + 2 ^ j))) m))"

lemma shrinkLoop_ok:
  assumes jo: "joining m old new j B" and sl: "\<And>i. i < 2 ^ Suc j \<Longrightarrow> slist m (BucketHead old i) (B ! i)"
    and w: "watches_join J old new j B" and J: "J m"
  shows "\<exists>m'. shrinkLoop old new (2 ^ j) m = Some m' \<and> touches UNIV m m' \<and> J m'
    \<and> (\<forall>i < 2 ^ j. slist m' (BucketHead new i) (B ! i @ B ! (i + 2 ^ j)))"
proof -
  let ?pre = "\<lambda>i m. slist m (BucketHead old i) (B ! i) \<and> slist m (BucketHead old (i + 2 ^ j)) (B ! (i + 2 ^ j))"
  let ?post = "\<lambda>i m. slist m (BucketHead new i) (B ! i @ B ! (i + 2 ^ j))"
  let ?body = "\<lambda>iHalf m. do {
       pDst \<leftarrow> bucketAt m new iHalf;
       pSrc0 \<leftarrow> bucketAt m old iHalf;
       let iSecondHalf = iHalf + 2 ^ j;
       pSrc1 \<leftarrow> bucketAt m old iSecondHalf;
       shrinkTwoBucketsToOne pSrc0 pSrc1 pDst m
     }"
  have j: "j < 30" using jo by (simp add: joining_def)
  have "\<exists>m'. for_range 0 (2 ^ j) ?body m = Some m' \<and> (touches UNIV m m' \<and> J m') \<and> (\<forall>i < 2 ^ j. ?post i m')"
  proof (rule for_range_each [where Pre = ?pre and Inv = "\<lambda>_ m'. touches UNIV m m' \<and> J m'"])
    fix i m1
    assume i: "i < 2 ^ j" and pre: "?pre i m1" and inv: "touches UNIV m m1 \<and> J m1"
    have jo1: "joining m1 old new j B" using jo inv joining_touches by blast
    have i2: "i < 2 ^ Suc j" "i + 2 ^ j < 2 ^ Suc j" using i by simp_all
    have at: "bucketAt m1 new i = Some (BucketHead new i)" "bucketAt m1 old i = Some (BucketHead old i)"
      "bucketAt m1 old (i + 2 ^ j) = Some (BucketHead old (i + 2 ^ j))"
      using bucketAt_ok [of m1 new j] bucketAt_ok [of m1 old "Suc j"] jo1 i i2 j
      by (simp_all only: joining_def)
    have "set (B ! i) \<inter> set (B ! (i + 2 ^ j)) = {}" using joining_apart [OF jo1 i2] by simp
    moreover define m2 where "m2 = fold emit (shrinkStores (BucketHead new i) (B ! i) (B ! (i + 2 ^ j))) m1"
    ultimately have m2: "shrinkTwoBucketsToOne (BucketHead old i) (BucketHead old (i + 2 ^ j)) (BucketHead new i) m1 = Some m2"
      "?post i m2" "touches (insert (BucketHead new i) (set (B ! i))) m1 m2"
      using shrinkTwo_ok [of m1 "BucketHead old i" "B ! i" "BucketHead old (i + 2 ^ j)" "B ! (i + 2 ^ j)" "BucketHead new i"]
        pre joining_head [OF jo1 i2(1)] joining_head [OF jo1 i2(2)] by auto
    have "J m2" unfolding m2_def using w i jo1 pre inv unfolding watches_join_def by blast
    have ne: "old \<noteq> new" using jo1 by (simp add: joining_def)
    have fr: "(?pre i' m1 \<longrightarrow> ?pre i' m2) \<and> (?post i' m1 \<longrightarrow> ?post i' m2)" if i': "i' < 2 ^ j" "i' \<noteq> i" for i'
    proof -
      have i'2: "i' < 2 ^ Suc j" "i' + 2 ^ j < 2 ^ Suc j" "i' + 2 ^ j \<noteq> i" using i i' by simp_all
      note ap = joining_apart [OF jo1 i2(1) i'2(1)] joining_apart [OF jo1 i2(1) i'2(2)]
      note hd = joining_head [OF jo1 i2(1)] joining_head [OF jo1 i'2(1)] joining_head [OF jo1 i'2(2)]
      show ?thesis
        using slist_touches [OF _ m2(3)] ap hd ne i'(2) i'2(3)
        by (auto simp: Int_Un_distrib)
    qed
    show "\<exists>m'. ?body i m1 = Some m' \<and> (touches UNIV m m' \<and> J m') \<and> ?post i m'
      \<and> (\<forall>i' < 2 ^ j. i' \<noteq> i \<longrightarrow> (?pre i' m1 \<longrightarrow> ?pre i' m') \<and> (?post i' m1 \<longrightarrow> ?post i' m'))"
      using m2(1,2) at fr touches_all_trans [OF conjunct1 [OF inv] m2(3)] \<open>J m2\<close> by (intro exI [of _ m2]) simp
  qed (use sl J in auto)
  then show ?thesis using j by (simp add: shrinkLoop_def unat_two_power)
qed

subsection \<open>The table after a shrink\<close>

lemma joined_buckets:
  assumes jo: "joining m old new j B" and "new < freshBlock m"
    and sl: "\<And>i. i < 2 ^ j \<Longrightarrow> slist m (BucketHead new i) (B ! i @ B ! (i + 2 ^ j))"
  shows "buckets_at m new j (shrinkBuckets j B)"
proof -
  have "bucket_ok m new j i (shrinkBuckets j B ! i)" if i: "i < 2 ^ j" for i
  proof -
    have "bucket_nodes m (Suc j) i (B ! i)" "bucket_nodes m (Suc j) (i + 2 ^ j) (B ! (i + 2 ^ j))"
      using jo i by (simp_all add: joining_def)
    then show ?thesis
      using sl [OF i] i home_of_Suc [of m j] by (auto simp: bucket_ok_def bucket_nodes_def shrinkBuckets_def)
  qed
  then show ?thesis using assms(2) jo by (simp add: buckets_at_def joining_def shrinkBuckets_def)
qed

lemma half_power: "j < 30 \<Longrightarrow> (2 ^ Suc j :: u64) div 2 = 2 ^ j"
proof -
  assume "j < 30"
  then have "unat (2 ^ Suc j :: u64) = 2 ^ Suc j" "unat (2 ^ j :: u64) = 2 ^ j"
    by (simp_all add: unat_two_power del: power_Suc)
  then have "unat ((2 ^ Suc j :: u64) div 2) = unat (2 ^ j :: u64)" by (simp only: unat_div) simp
  then show ?thesis by (simp only: word_unat_eq_iff)
qed

context synchronizer
begin

lemma shrink_run:
  assumes tb: "table m t (Suc j) B" and j: "j < 30" and rd: "ready (Suc k) z"
    and old: "pBucketsInfo t = Some old" and w: "watches_join J old (freshBlock m) j B"
    and J: "\<And>m1. stores (range (BucketHead (freshBlock m))) (emit (EAlloc (freshBlock m) (2 ^ j)) m) m1 \<Longrightarrow> J m1"
  shows "\<exists>m2 z'. rTableCoreShrinkBuckets2x sync t m z = Some (True, t\<lparr>pBucketsInfo := Some (freshBlock m)\<rparr>,
        emit (EFree old) (emit ESync (emit (EPublish (Some (freshBlock m))) m2)), z')
    \<and> sync z = Some z' \<and> ready k z' \<and> J m2 \<and> joining m2 old (freshBlock m) j B
    \<and> (\<forall>i < 2 ^ j. slist m2 (BucketHead (freshBlock m) i) (B ! i @ B ! (i + 2 ^ j)))
    \<and> hashOf m2 = hashOf m \<and> blocks m2 = (blocks m)(freshBlock m \<mapsto> 2 ^ j) \<and> freshBlock m2 = Suc (freshBlock m)"
proof -
  have at: "buckets_at m old (Suc j) B" using tb old by (auto elim: tableE)
  let ?new = "freshBlock m"
  let ?t = "t\<lparr>pBucketsInfo := Some ?new\<rparr>"
  have un: "unat (2 ^ j :: u64) = 2 ^ j" using j by (simp add: unat_two_power)
  have pw: "(2::nat) ^ j < 2 ^ 31" using j by (intro power_strict_increasing) auto
  have n0: "(2 ^ j :: u64) \<noteq> 0" using un by (metis power_not_zero unat_0 zero_neq_numeral)
  obtain m1 where m1: "allocateAndInitBuckets (2 ^ j) m = Some (?new, m1)"
    "\<And>a. (\<And>i. a \<noteq> BucketHead ?new i) \<Longrightarrow> nxt m1 a = nxt m a" "hashOf m1 = hashOf m"
    "blocks m1 = (blocks m)(?new \<mapsto> 2 ^ j)" "freshBlock m1 = Suc ?new"
    "stores (range (BucketHead ?new)) (emit (EAlloc ?new (2 ^ j)) m) m1"
    using allocate_ok [OF n0, of m] pw by (metis un)
  have ne: "old \<noteq> ?new" using buckets_atD(3) [OF at] by simp
  have bo: "slist m (BucketHead old i) (B ! i) \<and> bucket_nodes m (Suc j) i (B ! i)" if "i < 2 ^ Suc j" for i
    using buckets_atD(5) [OF at that] by (simp add: bucket_ok_def bucket_nodes_def)
  have sl: "slist m1 (BucketHead old i) (B ! i)" if "i < 2 ^ Suc j" for i
    using bo [OF that] m1(2) bucket_not_node [of m "Suc j" i "B ! i"] ne
    by (subst slist_frame [of m1 _ m]) (auto, metis)
  have jo: "joining m1 old ?new j B"
    using bo m1(3,4) buckets_atD(1,4) [OF at] j ne
    unfolding joining_def bucket_nodes_def home_def by simp
  obtain m2 where m2: "shrinkLoop old ?new (2 ^ j) m1 = Some m2" "touches UNIV m1 m2" "J m2"
    "\<forall>i < 2 ^ j. slist m2 (BucketHead ?new i) (B ! i @ B ! (i + 2 ^ j))"
    using shrinkLoop_ok [where J = J, OF jo sl w J [OF m1(6)]] by blast
  obtain z1 where z1: "sync z = Some z1" "ready k z1" using sync_law [OF rd] by blast
  let ?m3 = "emit ESync (emit (EPublish (Some ?new)) m2)"
  have run: "shrinkBucketsByFac2ReturnOld sync t m z = Some (Some old, ?t, ?m3, z1)"
    using m1(1) m2(1) z1(1) buckets_atD(1) [OF at] half_power [OF j] n0
    by (simp add: shrinkBucketsByFac2ReturnOld_def old Let_def del: power_Suc)
  have fin: "blocks m2 = (blocks m)(?new \<mapsto> 2 ^ j)" "freshBlock m2 = Suc ?new" "hashOf m2 = hashOf m"
    using touchesD [OF m2(2)] m1(3-5) by simp_all
  have jo2: "joining m2 old ?new j B" using jo joining_touches [OF m2(2)] by simp
  have "destroyAndFreeBuckets old ?m3 = Some (emit (EFree old) ?m3)"
    using jo2 by (simp add: destroyAndFreeBuckets_def joining_def)
  then show ?thesis using z1 m2(3,4) fin jo2
    by (intro exI [of _ m2] exI [of _ z1]) (simp add: rTableCoreShrinkBuckets2x_def run)
qed

end

lemma shrunk_table:
  assumes fb: "fresh_blocks m" and len: "length B = 2 ^ Suc j" and jo: "joining m2 old (freshBlock m) j B"
    and sl: "\<forall>i < 2 ^ j. slist m2 (BucketHead (freshBlock m) i) (B ! i @ B ! (i + 2 ^ j))"
    and fin: "hashOf m2 = hashOf m" "blocks m2 = (blocks m)(freshBlock m \<mapsto> 2 ^ j)" "freshBlock m2 = Suc (freshBlock m)"
    and t: "pBucketsInfo t = Some (freshBlock m)"
    and m4: "m4 = emit (EFree old) (emit ESync (emit (EPublish (Some (freshBlock m))) m2))"
  shows "table m4 t j (shrinkBuckets j B)" and "absTable m4 (shrinkBuckets j B) = absTable m B"
    and "blocks m4 old = None"
proof -
  have ne: "old \<noteq> freshBlock m" using jo by (simp add: joining_def)
  have "buckets_at m2 (freshBlock m) j (shrinkBuckets j B)" using joined_buckets [OF jo] sl fin(3) by simp
  then have "buckets_at m4 (freshBlock m) j (shrinkBuckets j B)"
    using ne by (auto simp: buckets_at_def bucket_ok_def home_def m4)
  moreover have "fresh_blocks m4" using fb fin by (auto simp: fresh_blocks_def m4)
  ultimately show "table m4 t j (shrinkBuckets j B)" using t by (simp add: table_def)
  show "absTable m4 (shrinkBuckets j B) = absTable m B"
    using shrinkBuckets_set [OF len] fin(1) by (simp add: absTable_def fun_eq_iff m4 del: set_concat)
qed (simp add: m4)

context synchronizer
begin

lemma shrink_ok:
  assumes tb: "table m t (Suc j) B" and j: "j < 30" and rd: "ready (Suc k) z"
  shows "\<exists>t' m' z'. rTableCoreShrinkBuckets2x sync t m z = Some (True, t', m', z') \<and> sync z = Some z' \<and> ready k z'
    \<and> table m' t' j (shrinkBuckets j B) \<and> absTable m' (shrinkBuckets j B) = absTable m B
    \<and> t' = t\<lparr>pBucketsInfo := Some (freshBlock m)\<rparr> \<and> (\<forall>old. pBucketsInfo t = Some old \<longrightarrow> blocks m' old = None)"
proof -
  obtain old where old: "pBucketsInfo t = Some old" "buckets_at m old (Suc j) B" using tb by (rule tableE)
  have fb: "fresh_blocks m" using tb by (simp add: table_def)
  have w: "watches_join (\<lambda>_. True) old (freshBlock m) j B" by (simp add: watches_join_def)
  obtain m2 z' where r: "rTableCoreShrinkBuckets2x sync t m z = Some (True, t\<lparr>pBucketsInfo := Some (freshBlock m)\<rparr>,
        emit (EFree old) (emit ESync (emit (EPublish (Some (freshBlock m))) m2)), z')" "sync z = Some z'" "ready k z'"
    "joining m2 old (freshBlock m) j B" "\<forall>i < 2 ^ j. slist m2 (BucketHead (freshBlock m) i) (B ! i @ B ! (i + 2 ^ j))"
    "hashOf m2 = hashOf m" "blocks m2 = (blocks m)(freshBlock m \<mapsto> 2 ^ j)" "freshBlock m2 = Suc (freshBlock m)"
    using shrink_run [OF tb j rd old(1) w] by blast
  show ?thesis
    using r(1-3) old(1) shrunk_table [OF fb buckets_atD(4) [OF old(2)] r(4-8) _ refl, of "t\<lparr>pBucketsInfo := Some (freshBlock m)\<rparr>"]
    by (intro exI [of _ "t\<lparr>pBucketsInfo := Some (freshBlock m)\<rparr>"]
        exI [of _ "emit (EFree old) (emit ESync (emit (EPublish (Some (freshBlock m))) m2))"] exI [of _ z']) simp
qed

end

text \<open>A table of one bucket does not shrink.\<close>

lemma shrink_one:
  assumes "table m t 0 B"
  shows "rTableCoreShrinkBuckets2x sync t m z = Some (False, t, m, z)"
proof -
  obtain old where "pBucketsInfo t = Some old" "blocks m old = Some 1"
    using assms by (auto simp: table_def buckets_at_def)
  moreover have "(1 :: u64) div 2 = 0" by (simp add: word_unat_eq_iff unat_div)
  ultimately show ?thesis by (simp add: rTableCoreShrinkBuckets2x_def shrinkBucketsByFac2ReturnOld_def Let_def)
qed

end
