(* ===== verification/RcuZone.thy ===== *)
theory RcuZone
  imports PowerOf2
begin

text \<open>
  The RCU zone of \<open>RCU.cpp\<close> and \<open>RCUTypes.h\<close> as a sequential component: the registry of reader
  threads, the zone record with its ring of two rows of reader counts, and one definition per
  function.  \<open>int\<close> is a 32-bit word and \<open>int64_t\<close> and \<open>size_t\<close> are 64-bit words, read with \<open>sint\<close>
  or \<open>unat\<close> as the code's type says; the atomics wrap as \<open>std::atomic\<close> does, and a signed overflow
  of a plain \<open>int\<close> is \<open>None\<close>.  What the operating system reports (\<open>hardware_concurrency\<close>, the hash
  of a thread id) is an argument.  The interleaved execution of these functions is the subject of
  the theory \<open>RcuProtocol\<close>.
\<close>

subsection \<open>Data\<close>

definition c_maxEpoches :: nat where "c_maxEpoches = 2"

definition c_epochMask :: u64 where "c_epochMask = of_nat c_maxEpoches - 1"

text \<open>\<open>nrNonOverlappingBucketCount\<close> is a constant fixed at program start.\<close>

record RCUReaderThreadRegistry =
  nextBucketId :: u32
  nrNonOverlappingBucketCount :: u32

text \<open>
  The reader counts of all rows are one array (\<open>new RCUReaderRefCountBucket[\<dots>]\<close>): \<open>counts\<close> is
  \<open>None\<close> before the allocation and after \<open>delete[]\<close>.  \<open>epochsRing\<close> holds the \<open>pBuckets\<close> pointers of
  the rows, as offsets into that array; \<open>None\<close> is \<open>nullptr\<close>.
\<close>

record RCUZone =
  nrHashThreadBuckets :: u32
  counts :: "u32 list option"
  epochsRing :: "nat option list"
  epochLatest :: u64
  epochOldest :: u64

text \<open>A zone as its member initialisers leave it.\<close>

definition freshZone :: RCUZone where
  "freshZone = \<lparr>nrHashThreadBuckets = 0, counts = None,
     epochsRing = replicate c_maxEpoches None, epochLatest = 0, epochOldest = 0\<rparr>"

definition staticRegistry :: "u32 \<Rightarrow> RCUReaderThreadRegistry" where
  "staticRegistry hardware_concurrency =
     \<lparr>nextBucketId = 0, nrNonOverlappingBucketCount = upperBoundPowerOf2_rcu hardware_concurrency\<rparr>"

subsection \<open>Registration\<close>

text \<open>
  The calling thread's \<open>tlsReaderBucketId\<close> is an argument and a result.  The counter is
  incremented even by a call that fails because all ids are taken.
\<close>

definition rcuRegisterReaderThread ::
    "RCUReaderThreadRegistry \<Rightarrow> u32 \<Rightarrow> bool \<times> RCUReaderThreadRegistry \<times> u32" where
  "rcuRegisterReaderThread reg tls =
     (if tls \<noteq> -1 then (False, reg, tls)
      else let bucketId = nextBucketId reg;
               reg' = reg\<lparr>nextBucketId := nextBucketId reg + 1\<rparr>
           in if sint bucketId \<ge> sint (nrNonOverlappingBucketCount reg) then (False, reg', tls)
              else (True, reg', bucketId))"

subsection \<open>Set-up and release\<close>

definition nrBucketsPerEpoch :: "RCUReaderThreadRegistry \<Rightarrow> RCUZone \<Rightarrow> u32 option" where
  "nrBucketsPerEpoch reg zone =
     (let a = nrHashThreadBuckets zone; b = nrNonOverlappingBucketCount reg
      in if sint (a + b) = sint a + sint b then Some (a + b) else None)"

text \<open>
  \<open>new RCUReaderRefCountBucket[n]\<close> with 64-byte elements throws \<open>std::bad_array_new_length\<close> when
  the size passes \<open>PTRDIFF_MAX\<close>.
\<close>

definition newBuckets :: "u64 \<Rightarrow> u32 list option" where
  "newBuckets n = (if unat n * 64 < 2 ^ 63 then Some (replicate (unat n) 0) else None)"

definition rcuInitZoneWithBucketCounts ::
    "RCUReaderThreadRegistry \<Rightarrow> RCUZone \<Rightarrow> u32 \<Rightarrow> RCUZone option" where
  "rcuInitZoneWithBucketCounts reg zone n0 =
     do {
       let n = (if n0 < 1 then 1 else n0);
       let zone = zone\<lparr>nrHashThreadBuckets := upperBoundPowerOf2_rcu n\<rparr>;
       perEpoch \<leftarrow> nrBucketsPerEpoch reg zone;
       let nrBucketsOneEpoch = (scast perEpoch :: u64);
       let nrTotalRefCounts = nrBucketsOneEpoch * of_nat c_maxEpoches;
       pStart \<leftarrow> newBuckets nrTotalRefCounts;
       Some (zone\<lparr>counts := Some pStart,
                  epochsRing := map (\<lambda>i. Some (i * unat nrBucketsOneEpoch)) [0..<c_maxEpoches],
                  epochLatest := 0,
                  epochOldest := 0\<rparr>)
     }"

definition c_nrRCUBucketsPerHardwareThread :: u64 where
  "c_nrRCUBucketsPerHardwareThread = 64"

text \<open>
  The product is taken on \<open>size_t\<close> and converted to \<open>uint32_t\<close> by the call.
\<close>

definition rcuInitZone :: "RCUReaderThreadRegistry \<Rightarrow> u32 \<Rightarrow> RCUZone \<Rightarrow> RCUZone option" where
  "rcuInitZone reg hardware_concurrency zone =
     rcuInitZoneWithBucketCounts reg zone
       (ucast (ucast hardware_concurrency * c_nrRCUBucketsPerHardwareThread))"

text \<open>
  \<open>delete[]\<close> frees the array when the pointer of row 0 is not null; only that pointer is reset.
\<close>

definition rcuReleaseZone :: "RCUZone \<Rightarrow> RCUZone" where
  "rcuReleaseZone zone =
     zone\<lparr>counts := (if epochsRing zone ! 0 \<noteq> None then None else counts zone),
          epochsRing := (epochsRing zone)[0 := None]\<rparr>"

definition destroyZone :: "RCUZone \<Rightarrow> RCUZone" where
  "destroyZone zone = (if epochsRing zone ! 0 \<noteq> None then rcuReleaseZone zone else zone)"

subsection \<open>Read side\<close>

definition fetchThreadBucketId :: "RCUReaderThreadRegistry \<Rightarrow> RCUZone \<Rightarrow> u32 \<Rightarrow> u64 \<Rightarrow> u32" where
  "fetchThreadBucketId reg zone tls threadIdHash =
     (if tls \<noteq> -1 then tls
      else nrNonOverlappingBucketCount reg +
             ucast (threadIdHash AND scast (nrHashThreadBuckets zone - 1)))"

text \<open>The atomic \<open>zone.epochsRing[epoch & c_epochMask].pBuckets[bucket].count\<close>.\<close>

definition countIndex :: "RCUZone \<Rightarrow> u64 \<Rightarrow> nat \<Rightarrow> nat option" where
  "countIndex zone epoch bucket =
     do { off \<leftarrow> epochsRing zone ! unat (epoch AND c_epochMask); Some (off + bucket) }"

definition loadCount :: "RCUZone \<Rightarrow> u64 \<Rightarrow> nat \<Rightarrow> u32 option" where
  "loadCount zone epoch bucket =
     do {
       i \<leftarrow> countIndex zone epoch bucket;
       cs \<leftarrow> counts zone;
       if i < length cs then Some (cs ! i) else None
     }"

definition fetchAddCount :: "RCUZone \<Rightarrow> u64 \<Rightarrow> nat \<Rightarrow> u32 \<Rightarrow> RCUZone option" where
  "fetchAddCount zone epoch bucket d =
     do {
       i \<leftarrow> countIndex zone epoch bucket;
       cs \<leftarrow> counts zone;
       if i < length cs then Some (zone\<lparr>counts := Some (cs[i := cs ! i + d])\<rparr>) else None
     }"

text \<open>
  The loop of \<open>rcuReadLock\<close> for a thread whose bucket is \<open>b\<close>, without interference: load the epoch,
  count in, load the epoch again, and start over when it moved.
\<close>

partial_function (option) rcuReadLock_loop :: "RCUZone \<Rightarrow> nat \<Rightarrow> (u64 \<times> RCUZone) option" where
  "rcuReadLock_loop zone b =
     do {
       let epochId = epochLatest zone;
       zone1 \<leftarrow> fetchAddCount zone epochId b 1;
       let epochIdRevalidate = epochLatest zone1;
       if epochIdRevalidate = epochId then Some (epochId, zone1)
       else do { zone2 \<leftarrow> fetchAddCount zone1 epochId b (-1); rcuReadLock_loop zone2 b }
     }"

definition rcuReadLock ::
    "RCUReaderThreadRegistry \<Rightarrow> RCUZone \<Rightarrow> u32 \<Rightarrow> u64 \<Rightarrow> (u64 \<times> RCUZone) option" where
  "rcuReadLock reg zone tls h = rcuReadLock_loop zone (unat (fetchThreadBucketId reg zone tls h))"

definition rcuReadUnlock ::
    "RCUReaderThreadRegistry \<Rightarrow> RCUZone \<Rightarrow> u32 \<Rightarrow> u64 \<Rightarrow> u64 \<Rightarrow> RCUZone option" where
  "rcuReadUnlock reg zone tls h epoch =
     fetchAddCount zone epoch (unat (fetchThreadBucketId reg zone tls h)) (-1)"

subsection \<open>Write side\<close>

text \<open>The innermost loop, \<open>while (count > 0) continue\<close>: alone, it ends at once or never.\<close>

partial_function (option) spinWhilePositive :: "RCUZone \<Rightarrow> u64 \<Rightarrow> nat \<Rightarrow> unit option" where
  "spinWhilePositive zone epoch b =
     do {
       c \<leftarrow> loadCount zone epoch b;
       if sint c > 0 then spinWhilePositive zone epoch b else Some ()
     }"

partial_function (option) synchronizeLoop :: "RCUZone \<Rightarrow> u64 \<Rightarrow> nat \<Rightarrow> RCUZone option" where
  "synchronizeLoop zone lastEpoch n =
     (if sint (epochOldest zone) \<le> sint lastEpoch then
        do {
          _ \<leftarrow> for_range 0 n (\<lambda>b _. spinWhilePositive zone (epochOldest zone) b) ();
          if sint (epochOldest zone) = 2 ^ 63 - 1 then None
          else synchronizeLoop (zone\<lparr>epochOldest := epochOldest zone + 1\<rparr>) lastEpoch n
        }
      else Some zone)"

definition rcuSynchronize :: "RCUReaderThreadRegistry \<Rightarrow> RCUZone \<Rightarrow> RCUZone option" where
  "rcuSynchronize reg zone =
     do {
       let lastEpoch = epochLatest zone;
       let zone = zone\<lparr>epochLatest := epochLatest zone + 1\<rparr>;
       nrBucketsOneZone \<leftarrow> nrBucketsPerEpoch reg zone;
       synchronizeLoop zone lastEpoch (nat (sint nrBucketsOneZone))
     }"

subsection \<open>Well-formed zones\<close>

text \<open>
  What \<open>rcuInitZoneWithBucketCounts\<close> establishes and every other function keeps: there is at
  least one hash bucket, the two rows lie one after the other in one array, and the number of
  buckets is a non-negative \<open>int\<close>.
\<close>

definition nbuckets :: "RCUReaderThreadRegistry \<Rightarrow> RCUZone \<Rightarrow> nat" where
  "nbuckets reg zone = unat (nrHashThreadBuckets zone) + unat (nrNonOverlappingBucketCount reg)"

definition wf_zone :: "RCUReaderThreadRegistry \<Rightarrow> RCUZone \<Rightarrow> bool" where
  "wf_zone reg zone \<longleftrightarrow>
     0 < unat (nrHashThreadBuckets zone) \<and> nbuckets reg zone < 2 ^ 31 \<and>
     (case counts zone of None \<Rightarrow> False | Some cs \<Rightarrow> length cs = 2 * nbuckets reg zone) \<and>
     epochsRing zone = [Some 0, Some (nbuckets reg zone)]"

text \<open>The row of an epoch, and a count read as a total function of row and bucket.\<close>

definition row :: "u64 \<Rightarrow> nat" where
  "row e = unat (e AND c_epochMask)"

definition countAt :: "RCUReaderThreadRegistry \<Rightarrow> RCUZone \<Rightarrow> nat \<Rightarrow> nat \<Rightarrow> u32" where
  "countAt reg zone r b = the (counts zone) ! (r * nbuckets reg zone + b)"

lemma epochMask_1: "c_epochMask = 1"
  by (simp add: c_epochMask_def c_maxEpoches_def)

lemma row_less: "row e < 2"
proof -
  have "unat (e AND 1) \<le> unat (1 :: u64)" by (rule and_le_right)
  then show ?thesis by (simp add: row_def epochMask_1)
qed

lemma row_cases: "row e = 0 \<or> row e = 1"
  using row_less [of e] by linarith

lemma row_Suc: "row (e + 1) = 1 - row e"
proof -
  have "row e = unat e mod 2" for e
    using and_mask_unat [of 1 e] by (simp add: row_def epochMask_1)
  moreover have "unat (e + 1) mod 2 = (unat e + 1) mod 2"
    by (simp add: unat_word_ariths mod_mod_cancel)
  ultimately show ?thesis by (simp add: mod_Suc)
qed

lemma row_neq_Suc: "row (e + 1) \<noteq> row e"
  using row_cases [of e] row_Suc [of e] by auto

lemma wf_zoneE:
  assumes "wf_zone reg zone"
  obtains cs where "counts zone = Some cs" "length cs = 2 * nbuckets reg zone"
    "epochsRing zone = [Some 0, Some (nbuckets reg zone)]"
    "nbuckets reg zone < 2 ^ 31" "0 < unat (nrHashThreadBuckets zone)"
  using assms by (auto simp: wf_zone_def split: option.splits)

lemma nrBucketsPerEpoch_wf:
  assumes "wf_zone reg zone"
  shows "\<exists>w. nrBucketsPerEpoch reg zone = Some w \<and> nat (sint w) = nbuckets reg zone
    \<and> unat w = nbuckets reg zone"
proof -
  let ?a = "nrHashThreadBuckets zone" and ?b = "nrNonOverlappingBucketCount reg"
  have n: "unat ?a + unat ?b < 2 ^ 31" using assms by (auto simp: wf_zone_def nbuckets_def)
  then have u: "unat (?a + ?b) = unat ?a + unat ?b" by (intro unat_add_small) simp
  have "sint ?a = int (unat ?a)" "sint ?b = int (unat ?b)" "sint (?a + ?b) = int (unat (?a + ?b))"
    using n u by (intro sint_small; simp)+
  then show ?thesis using u by (simp add: nrBucketsPerEpoch_def Let_def nbuckets_def nat_add_distrib)
qed

lemma countIndex_wf:
  assumes "wf_zone reg zone"
  shows "countIndex zone e b = Some (row e * nbuckets reg zone + b)"
  using row_cases [of e] assms by (auto simp: countIndex_def row_def elim!: wf_zoneE)

lemma index_bound:
  assumes "b < n" and "r < (2 :: nat)"
  shows "r * n + b < 2 * n"
  using assms by (cases r) auto

lemma index_inj:
  assumes "b < n" "b' < n" "r * n + b = r' * n + (b' :: nat)"
  shows "r = r' \<and> b = b'"
proof -
  have "(r * n + b) div n = (r' * n + b') div n" "(r * n + b) mod n = (r' * n + b') mod n"
    using assms(3) by simp_all
  then show ?thesis using assms(1,2) by simp
qed

lemma loadCount_wf:
  assumes "wf_zone reg zone" "b < nbuckets reg zone"
  shows "loadCount zone e b = Some (countAt reg zone (row e) b)"
  using assms index_bound [OF assms(2) row_less]
  by (auto simp: loadCount_def countIndex_wf countAt_def elim!: wf_zoneE)

text \<open>The effect of one atomic increment or decrement, as a function.\<close>

definition addAt :: "RCUReaderThreadRegistry \<Rightarrow> RCUZone \<Rightarrow> nat \<Rightarrow> nat \<Rightarrow> u32 \<Rightarrow> RCUZone" where
  "addAt reg zone r b d =
     zone\<lparr>counts := Some ((the (counts zone))[r * nbuckets reg zone + b := countAt reg zone r b + d])\<rparr>"

lemma fetchAddCount_wf:
  assumes "wf_zone reg zone" "b < nbuckets reg zone"
  shows "fetchAddCount zone e b d = Some (addAt reg zone (row e) b d)"
  using assms index_bound [OF assms(2) row_less]
  by (auto simp: fetchAddCount_def countIndex_wf addAt_def countAt_def elim!: wf_zoneE)

lemma nbuckets_addAt [simp]: "nbuckets reg (addAt reg' zone r b d) = nbuckets reg zone"
  by (simp add: nbuckets_def addAt_def)

lemma addAt_sel [simp]:
  "epochLatest (addAt reg zone r b d) = epochLatest zone"
  "epochOldest (addAt reg zone r b d) = epochOldest zone"
  "nrHashThreadBuckets (addAt reg zone r b d) = nrHashThreadBuckets zone"
  by (simp_all add: addAt_def)

lemma wf_zone_addAt [simp]: "wf_zone reg zone \<Longrightarrow> wf_zone reg (addAt reg zone r b d)"
  by (auto simp: wf_zone_def addAt_def nbuckets_def split: option.splits)

lemma wf_zone_epochs [simp]:
  "wf_zone reg (zone\<lparr>epochLatest := x\<rparr>) = wf_zone reg zone"
  "wf_zone reg (zone\<lparr>epochOldest := y\<rparr>) = wf_zone reg zone"
  "nbuckets reg (zone\<lparr>epochLatest := x\<rparr>) = nbuckets reg zone"
  "nbuckets reg (zone\<lparr>epochOldest := y\<rparr>) = nbuckets reg zone"
  "countAt reg (zone\<lparr>epochLatest := x\<rparr>) r b = countAt reg zone r b"
  "countAt reg (zone\<lparr>epochOldest := y\<rparr>) r b = countAt reg zone r b"
  by (simp_all add: wf_zone_def nbuckets_def countAt_def cong: option.case_cong)

lemma countAt_addAt:
  assumes "wf_zone reg zone" "b < nbuckets reg zone" "b' < nbuckets reg zone" "r < 2" "r' < 2"
  shows "countAt reg (addAt reg zone r b d) r' b' =
    (if r' = r \<and> b' = b then countAt reg zone r b + d else countAt reg zone r' b')"
proof -
  let ?n = "nbuckets reg zone"
  obtain cs where cs: "counts zone = Some cs" "length cs = 2 * ?n"
    using assms(1) by (rule wf_zoneE)
  have "r * ?n + b < length cs" using index_bound [OF assms(2,4)] cs by simp
  moreover have "r * ?n + b = r' * ?n + b' \<longleftrightarrow> r' = r \<and> b' = b"
    using index_inj [OF assms(2,3)] by blast
  ultimately show ?thesis using cs by (auto simp: countAt_def addAt_def nbuckets_def nth_list_update)
qed

subsection \<open>Bucket ids\<close>

text \<open>
  A thread's \<open>tlsReaderBucketId\<close> is -1 until it registers, and a non-overlapping bucket after.
\<close>

definition thread_ok :: "RCUReaderThreadRegistry \<Rightarrow> u32 \<Rightarrow> bool" where
  "thread_ok reg tls \<longleftrightarrow> tls = -1 \<or> unat tls < unat (nrNonOverlappingBucketCount reg)"

lemma hash_bucket_le:
  assumes "wf_zone reg zone"
  shows "unat (ucast (h AND scast (nrHashThreadBuckets zone - 1) :: u64) :: u32)
    < unat (nrHashThreadBuckets zone)"
proof -
  let ?m = "nrHashThreadBuckets zone - 1"
  have pos: "0 < unat (nrHashThreadBuckets zone)" and lt: "unat (nrHashThreadBuckets zone) < 2 ^ 31"
    using assms by (auto simp: wf_zone_def nbuckets_def)
  then have m: "unat ?m = unat (nrHashThreadBuckets zone) - 1"
    by (intro unat_minus_one) auto
  then have "unat (scast ?m :: u64) = unat ?m" using lt by (intro unat_scast_small) auto
  then have le: "unat (h AND scast ?m :: u64) \<le> unat ?m"
    using and_le_right [of h "scast ?m"] by simp
  then have "unat (ucast (h AND scast ?m :: u64) :: u32) = unat (h AND scast ?m :: u64)"
    using m lt by (intro unat_ucast_small) simp
  then show ?thesis using le m pos by linarith
qed

lemma unregistered_bucket:
  assumes "wf_zone reg zone"
  shows "unat (fetchThreadBucketId reg zone (-1) h) = unat (nrNonOverlappingBucketCount reg)
    + unat (ucast (h AND scast (nrHashThreadBuckets zone - 1) :: u64) :: u32)"
  using hash_bucket_le [OF assms, of h] assms
  by (auto simp: fetchThreadBucketId_def wf_zone_def nbuckets_def intro!: unat_add_small)

lemma fetchThreadBucketId_less:
  assumes "wf_zone reg zone" "thread_ok reg tls"
  shows "unat (fetchThreadBucketId reg zone tls h) < nbuckets reg zone"
proof (cases "tls = -1")
  case True
  then show ?thesis
    using unregistered_bucket [OF assms(1), of h] hash_bucket_le [OF assms(1), of h]
    by (simp add: nbuckets_def)
next
  case False
  then show ?thesis using assms(2) by (simp add: fetchThreadBucketId_def thread_ok_def nbuckets_def)
qed

text \<open>Registered threads never share a bucket with unregistered ones.\<close>

lemma buckets_disjoint:
  assumes "wf_zone reg zone" "thread_ok reg tls" "tls \<noteq> -1"
  shows "unat (fetchThreadBucketId reg zone tls h) < unat (nrNonOverlappingBucketCount reg)
    \<and> unat (nrNonOverlappingBucketCount reg) \<le> unat (fetchThreadBucketId reg zone (-1) h')"
  using assms(2,3) unregistered_bucket [OF assms(1), of h'] by (simp add: fetchThreadBucketId_def thread_ok_def)

subsection \<open>The functions on a well-formed zone, without interference\<close>

lemma rcuReadLock_wf:
  assumes "wf_zone reg zone" "thread_ok reg tls"
  shows "rcuReadLock reg zone tls h = Some (epochLatest zone,
    addAt reg zone (row (epochLatest zone)) (unat (fetchThreadBucketId reg zone tls h)) 1)"
  using assms by (simp add: rcuReadLock_def rcuReadLock_loop.simps fetchAddCount_wf
      fetchThreadBucketId_less Let_def)

lemma rcuReadUnlock_wf:
  assumes "wf_zone reg zone" "thread_ok reg tls"
  shows "rcuReadUnlock reg zone tls h e = Some
    (addAt reg zone (row e) (unat (fetchThreadBucketId reg zone tls h)) (-1))"
  using assms by (simp add: rcuReadUnlock_def fetchAddCount_wf fetchThreadBucketId_less)

lemma fetchThreadBucketId_addAt [simp]:
  "fetchThreadBucketId reg (addAt reg' zone r b d) tls h = fetchThreadBucketId reg zone tls h"
  by (simp add: fetchThreadBucketId_def)

lemma addAt_cancel:
  assumes "wf_zone reg zone" "b < nbuckets reg zone" "r < 2"
  shows "addAt reg (addAt reg zone r b d) r b (- d) = zone"
proof -
  obtain cs where cs: "counts zone = Some cs" "length cs = 2 * nbuckets reg zone"
    using assms(1) by (rule wf_zoneE)
  have "r * nbuckets reg zone + b < length cs" using index_bound [OF assms(2,3)] cs by simp
  with cs show ?thesis
    using countAt_addAt [OF assms(1,2,2,3,3), of d]
    by (simp add: addAt_def nbuckets_def countAt_def)
qed

lemma spin_ends: "loadCount zone e b = Some c \<Longrightarrow> sint c \<le> 0 \<Longrightarrow> spinWhilePositive zone e b = Some ()"
  by (simp add: spinWhilePositive.simps)

lemma spin_result:
  assumes "spinWhilePositive zone e b = Some r"
  shows "\<exists>c. loadCount zone e b = Some c \<and> sint c \<le> 0"
proof (rule spinWhilePositive.raw_induct
    [where P = "\<lambda>zone e b r. \<exists>c. loadCount zone e b = Some c \<and> sint c \<le> 0", OF _ assms])
  fix f :: "RCUZone \<Rightarrow> u64 \<Rightarrow> nat \<Rightarrow> unit option" and zone e b r
  assume IH: "\<And>zone e b r. f zone e b = Some r \<Longrightarrow> \<exists>c. loadCount zone e b = Some c \<and> sint c \<le> 0"
    and eq: "do {
       c \<leftarrow> loadCount zone e b;
       if sint c > 0 then f zone e b else Some ()
     } = Some r"
  show "\<exists>c. loadCount zone e b = Some c \<and> sint c \<le> 0"
    using eq IH [of zone e b r] by (cases "loadCount zone e b") (auto split: if_splits)
qed

text \<open>One scan of a row whose counts are all drained ends; a scan that meets a reader does not.\<close>

lemma scan_ends:
  assumes "\<And>b. b < n \<Longrightarrow> \<exists>c. loadCount zone e b = Some c \<and> sint c \<le> 0"
  shows "for_range 0 n (\<lambda>b _. spinWhilePositive zone e b) () = Some ()"
proof -
  have "\<exists>s'. for_range 0 n (\<lambda>b _. spinWhilePositive zone e b) () = Some s' \<and> True"
    by (rule for_range_rule) (use assms spin_ends in \<open>auto, blast\<close>)
  then show ?thesis by simp
qed

lemma scan_blocks:
  assumes "b < n" "loadCount zone e b = Some c" "0 < sint c"
  shows "for_range 0 n (\<lambda>b _. spinWhilePositive zone e b) () = None"
proof -
  have none: "spinWhilePositive zone e b = None"
    using spin_result [of zone e b] assms(2,3) by (cases "spinWhilePositive zone e b") auto
  show ?thesis by (simp add: for_range_split [OF assms(1)] none split: bind_splits)
qed

text \<open>No reader of the row of epoch \<open>e\<close>.\<close>

definition drained :: "RCUReaderThreadRegistry \<Rightarrow> RCUZone \<Rightarrow> u64 \<Rightarrow> bool" where
  "drained reg zone e \<longleftrightarrow> (\<forall>b < nbuckets reg zone. sint (countAt reg zone (row e) b) \<le> 0)"

lemma scan_drained:
  assumes "wf_zone reg zone" "drained reg zone e"
  shows "for_range 0 (nbuckets reg zone) (\<lambda>b _. spinWhilePositive zone e b) () = Some ()"
  by (rule scan_ends) (use assms in \<open>auto simp: loadCount_wf drained_def\<close>)

lemma scan_not_drained:
  assumes "wf_zone reg zone" "\<not> drained reg zone e"
  shows "for_range 0 (nbuckets reg zone) (\<lambda>b _. spinWhilePositive zone e b) () = None"
proof -
  obtain b where "b < nbuckets reg zone" "0 < sint (countAt reg zone (row e) b)"
    using assms(2) by (auto simp: drained_def not_le)
  then show ?thesis using assms(1) by (intro scan_blocks) (auto simp: loadCount_wf)
qed

lemma sint_Suc:
  assumes "sint (w :: u64) \<noteq> 2 ^ 63 - 1"
  shows "sint (w + 1) = sint w + 1"
proof -
  have "- (2 ^ 63) \<le> sint w" "sint w < 2 ^ 63"
    using sint_ge [of w] sint_lt [of w] by simp_all
  then have "signed_take_bit 63 (sint w + 1) = sint w + 1"
    using assms by (intro signed_take_bit_int_eq_self) linarith+
  then show ?thesis by (simp add: sint_word_ariths)
qed

lemma drained_epochs [simp]:
  "drained reg (zone\<lparr>epochLatest := x\<rparr>) e = drained reg zone e"
  "drained reg (zone\<lparr>epochOldest := x\<rparr>) e = drained reg zone e"
  by (simp_all add: drained_def)

text \<open>
  Between two calls the oldest epoch is the latest one.  Then a call advances both by one if the
  row of the current epoch is drained, and spins for ever if it is not: nobody else runs here,
  so this is the self-deadlock of a thread that synchronizes inside its own read section.
\<close>

lemma rcuSynchronize_alone:
  assumes wf: "wf_zone reg zone" and idle: "epochOldest zone = epochLatest zone"
    and max: "sint (epochLatest zone) \<noteq> 2 ^ 63 - 1"
  shows "rcuSynchronize reg zone =
    (if drained reg zone (epochLatest zone)
     then Some (zone\<lparr>epochLatest := epochLatest zone + 1, epochOldest := epochLatest zone + 1\<rparr>)
     else None)"
proof -
  define e where "e = epochLatest zone"
  let ?z = "zone\<lparr>epochLatest := e + 1\<rparr>"
  obtain w where w: "nrBucketsPerEpoch reg ?z = Some w" "nat (sint w) = nbuckets reg zone"
    using nrBucketsPerEpoch_wf [of reg ?z] wf by auto
  have old: "epochOldest zone = e" using idle by (simp add: e_def)
  have scan: "for_range 0 (nbuckets reg zone) (\<lambda>b _. spinWhilePositive ?z e b) () =
    (if drained reg zone e then Some () else None)"
    using scan_drained [of reg ?z e] scan_not_drained [of reg ?z e] wf by simp
  have "sint (e + 1) = sint e + 1" using max by (intro sint_Suc) (simp add: e_def)
  then have "synchronizeLoop (?z\<lparr>epochOldest := e + 1\<rparr>) e n = Some (?z\<lparr>epochOldest := e + 1\<rparr>)" for n
    by (simp add: synchronizeLoop.simps [of "?z\<lparr>epochOldest := e + 1\<rparr>"])
  then have "synchronizeLoop ?z e (nbuckets reg zone) =
    (if drained reg zone e then Some (?z\<lparr>epochOldest := e + 1\<rparr>) else None)"
    using scan old max [folded e_def] by (simp add: synchronizeLoop.simps [of ?z])
  then show ?thesis using w by (simp add: rcuSynchronize_def e_def [symmetric] Let_def)
qed

subsection \<open>Initialisation\<close>

lemma upperBound_small:
  assumes "unat v \<le> 2 ^ m" "m \<le> 31"
  shows "0 < unat (upperBoundPowerOf2_rcu v)" "unat (upperBoundPowerOf2_rcu v) \<le> 2 ^ m"
    "unat v \<le> unat (upperBoundPowerOf2_rcu v)"
proof -
  have "unat v \<le> 2 ^ 31" using assms power_increasing [of m 31 "2::nat"] by linarith
  then obtain k where k: "k \<le> 31" "upperBoundPowerOf2_tbl v = 2 ^ k" "unat v \<le> 2 ^ k"
    "\<And>j. unat v \<le> 2 ^ j \<Longrightarrow> k \<le> j"
    by (rule upperBoundPowerOf2_spec) blast
  then have "unat (upperBoundPowerOf2_rcu v) = 2 ^ k" "k \<le> m"
    using assms(1) by (simp_all add: upperBoundPowerOf2_copies unat_two_power)
  then show "0 < unat (upperBoundPowerOf2_rcu v)" "unat (upperBoundPowerOf2_rcu v) \<le> 2 ^ m"
    "unat v \<le> unat (upperBoundPowerOf2_rcu v)"
    using k(3) by simp_all
qed

text \<open>
  Up to \<open>2 ^ 30\<close> requested buckets and \<open>2 ^ 29\<close> hardware threads, initialisation succeeds with a
  well-formed zone whose epochs are 0 and whose counts are all 0.
\<close>

lemma rcuInitZoneWithBucketCounts_ok:
  assumes "unat n \<le> 2 ^ 30" and "unat (nrNonOverlappingBucketCount reg) \<le> 2 ^ 29"
  obtains zone' where "rcuInitZoneWithBucketCounts reg zone n = Some zone'" "wf_zone reg zone'"
    "epochLatest zone' = 0" "epochOldest zone' = 0"
    "counts zone' = Some (replicate (2 * nbuckets reg zone') 0)"
    "unat n \<le> unat (nrHashThreadBuckets zone')"
proof -
  define v where "v = (if n < 1 then 1 else n)"
  define h where "h = upperBoundPowerOf2_rcu v"
  let ?b = "nrNonOverlappingBucketCount reg"
  have "unat v \<le> 2 ^ 30" using assms(1) by (simp add: v_def)
  then have h: "0 < unat h" "unat h \<le> 2 ^ 30" "unat v \<le> unat h"
    using upperBound_small [of v 30] by (simp_all add: h_def)
  define z where "z = zone\<lparr>nrHashThreadBuckets := h\<rparr>"
  have sum: "unat h + unat ?b < 2 ^ 31" using h(2) assms(2) by simp
  define z' where "z' = z\<lparr>counts := Some (replicate (2 * (unat h + unat ?b)) 0),
     epochsRing := [Some 0, Some (unat h + unat ?b)], epochLatest := 0, epochOldest := 0\<rparr>"
  have nb: "nbuckets reg z' = unat h + unat ?b" by (simp add: nbuckets_def z'_def z_def)
  have sel: "counts z' = Some (replicate (2 * (unat h + unat ?b)) 0)"
    "epochsRing z' = [Some 0, Some (unat h + unat ?b)]" "nrHashThreadBuckets z' = h"
    by (simp_all add: z'_def z_def)
  have wf: "wf_zone reg z'"
    using sum h(1) by (simp add: wf_zone_def nb sel)
  have per: "nrBucketsPerEpoch reg z = nrBucketsPerEpoch reg z'"
    by (simp add: nrBucketsPerEpoch_def z'_def)
  obtain w where w: "nrBucketsPerEpoch reg z = Some w" "unat w = unat h + unat ?b"
    using nrBucketsPerEpoch_wf [OF wf] by (auto simp: per nb)
  have sw: "unat (scast w :: u64) = unat h + unat ?b"
    using w(2) sum by (subst unat_scast_small) auto
  have tot: "unat (scast w * of_nat c_maxEpoches :: u64) = 2 * (unat h + unat ?b)"
    using sw sum by (simp add: unat_word_ariths c_maxEpoches_def)
  have "rcuInitZoneWithBucketCounts reg zone n = Some z'"
    unfolding rcuInitZoneWithBucketCounts_def Let_def v_def [symmetric] h_def [symmetric]
      z_def [symmetric]
    using w tot sum sw by (simp add: newBuckets_def z'_def c_maxEpoches_def upt_rec)
  moreover have "unat n \<le> unat (nrHashThreadBuckets z')"
    using h(3) by (auto simp: z'_def z_def v_def split: if_splits)
  ultimately show ?thesis using that wf nb by (simp add: z'_def)
qed

subsection \<open>A history of registrations\<close>

text \<open>
  The calls of \<open>rcuRegisterReaderThread\<close> by threads named in a list, from program start; the map
  holds every thread's \<open>tlsReaderBucketId\<close>.
\<close>

fun registerAll :: "'t list \<Rightarrow> RCUReaderThreadRegistry \<times> ('t \<Rightarrow> u32) \<Rightarrow> RCUReaderThreadRegistry \<times> ('t \<Rightarrow> u32)" where
  "registerAll [] st = st"
| "registerAll (t # ts) (reg, tls) =
     (case rcuRegisterReaderThread reg (tls t) of
        (_, reg', b) \<Rightarrow> registerAll ts (reg', tls(t := b)))"

text \<open>
  The invariant: ids handed out are below the counter and the limit, and no two threads hold the
  same one.
\<close>

definition registry_inv :: "RCUReaderThreadRegistry \<Rightarrow> ('t \<Rightarrow> u32) \<Rightarrow> bool" where
  "registry_inv reg tls \<longleftrightarrow>
     (\<forall>t. tls t \<noteq> -1 \<longrightarrow> unat (tls t) < unat (nextBucketId reg)
        \<and> unat (tls t) < unat (nrNonOverlappingBucketCount reg)) \<and>
     (\<forall>t u. tls t \<noteq> -1 \<longrightarrow> tls t = tls u \<longrightarrow> t = u)"

lemma register_step:
  assumes inv: "registry_inv reg tls"
    and room: "unat (nextBucketId reg) < 2 ^ 31 - 1"
    and lim: "unat (nrNonOverlappingBucketCount reg) < 2 ^ 31"
    and step: "rcuRegisterReaderThread reg (tls t) = (ok, reg', b)"
  shows "registry_inv reg' (tls(t := b))" "unat (nextBucketId reg') \<le> Suc (unat (nextBucketId reg))"
    "nrNonOverlappingBucketCount reg' = nrNonOverlappingBucketCount reg"
proof -
  let ?i = "nextBucketId reg"
  have "sint ?i = int (unat ?i)" "sint (nrNonOverlappingBucketCount reg) =
      int (unat (nrNonOverlappingBucketCount reg))"
    using room lim by (intro sint_small; simp)+
  then have si: "sint (nrNonOverlappingBucketCount reg) \<le> sint ?i \<longleftrightarrow>
      unat (nrNonOverlappingBucketCount reg) \<le> unat ?i"
    by (simp only: of_nat_le_iff)
  have suc: "unat (?i + 1) = Suc (unat ?i)" using room unat_add_small [of ?i 1] by simp
  have nm: "?i \<noteq> -1" using room by (auto simp: unsigned_minus_1_eq_mask mask_eq_exp_minus_1)
  show "unat (nextBucketId reg') \<le> Suc (unat ?i)"
    using step suc by (auto simp: rcuRegisterReaderThread_def Let_def split: if_splits)
  show "nrNonOverlappingBucketCount reg' = nrNonOverlappingBucketCount reg"
    using step by (auto simp: rcuRegisterReaderThread_def Let_def split: if_splits)
  have fresh: "tls u \<noteq> ?i" for u
    using inv nm by (metis nat_less_le registry_inv_def)
  show "registry_inv reg' (tls(t := b))"
    using step inv fresh suc si
    by (auto simp: rcuRegisterReaderThread_def registry_inv_def Let_def less_Suc_eq split: if_splits)
qed

lemma registerAll_inv:
  assumes "registry_inv reg tls" "unat (nextBucketId reg) + length ts < 2 ^ 31"
    "unat (nrNonOverlappingBucketCount reg) < 2 ^ 31" "registerAll ts (reg, tls) = (reg', tls')"
  shows "registry_inv reg' tls' \<and> nrNonOverlappingBucketCount reg' = nrNonOverlappingBucketCount reg"
  using assms
proof (induction ts arbitrary: reg tls)
  case Nil
  then show ?case by simp
next
  case (Cons t ts)
  obtain ok reg1 b where st: "rcuRegisterReaderThread reg (tls t) = (ok, reg1, b)"
    by (cases "rcuRegisterReaderThread reg (tls t)") auto
  have "unat (nextBucketId reg) < 2 ^ 31 - 1" using Cons.prems(2) by simp
  note r = register_step [OF Cons.prems(1) this Cons.prems(3) st]
  have "registry_inv reg' tls' \<and> nrNonOverlappingBucketCount reg' = nrNonOverlappingBucketCount reg1"
    using Cons.IH [of reg1 "tls(t := b)"] r Cons.prems(2-4) st
    by (simp del: fun_upd_apply)
  with r(3) show ?case by simp
qed

text \<open>When all ids are taken, calls fail, and the counter goes on.\<close>

lemma registerAll_full:
  assumes "unat (nrNonOverlappingBucketCount reg) \<le> unat (nextBucketId reg)"
    and "unat (nextBucketId reg) + length ts \<le> 2 ^ 31" and "\<And>t. t \<in> set ts \<Longrightarrow> tls t = -1"
  shows "registerAll ts (reg, tls) = (reg\<lparr>nextBucketId := nextBucketId reg + of_nat (length ts)\<rparr>, tls)"
  using assms
proof (induction ts arbitrary: reg)
  case Nil
  then show ?case by (cases reg) simp
next
  case (Cons t ts)
  have lt: "unat (nextBucketId reg) < 2 ^ 31" using Cons.prems(2) by simp
  have "sint (nextBucketId reg) = int (unat (nextBucketId reg))"
    "sint (nrNonOverlappingBucketCount reg) = int (unat (nrNonOverlappingBucketCount reg))"
    using lt Cons.prems(1) by (intro sint_small; simp)+
  then have "sint (nrNonOverlappingBucketCount reg) \<le> sint (nextBucketId reg)" using Cons.prems(1) by (simp only: of_nat_le_iff)
  then have r: "rcuRegisterReaderThread reg (tls t) = (False, reg\<lparr>nextBucketId := nextBucketId reg + 1\<rparr>, tls t)"
    using Cons.prems(3) by (simp add: rcuRegisterReaderThread_def Let_def)
  have "unat (nextBucketId reg + 1) = Suc (unat (nextBucketId reg))" using lt unat_add_small [of "nextBucketId reg" 1] by simp
  then have "registerAll ts (reg\<lparr>nextBucketId := nextBucketId reg + 1\<rparr>, tls)
      = (reg\<lparr>nextBucketId := nextBucketId reg + 1 + of_nat (length ts)\<rparr>, tls)"
    using Cons.IH [of "reg\<lparr>nextBucketId := nextBucketId reg + 1\<rparr>"] Cons.prems by simp
  then show ?case using r by (simp add: fun_upd_idem add.assoc)
qed

subsection \<open>A concrete zone\<close>

text \<open>A small zone for the concrete instances: one hash bucket, one registered bucket.\<close>

definition exReg :: RCUReaderThreadRegistry where
  "exReg = \<lparr>nextBucketId = 1, nrNonOverlappingBucketCount = 1\<rparr>"

definition exZone :: RCUZone where
  "exZone = \<lparr>nrHashThreadBuckets = 1, counts = Some [0, 0, 0, 0], epochsRing = [Some 0, Some 2],
     epochLatest = 0, epochOldest = 0\<rparr>"

lemma exZone_wf: "wf_zone exReg exZone"
  by (simp add: exZone_def exReg_def wf_zone_def nbuckets_def)

subsection \<open>Properties\<close>

text \<open>
  Initialisation: for up to \<open>2 ^ 30\<close> hash buckets and \<open>2 ^ 29\<close> non-overlapping buckets,
  \<open>rcuInitZoneWithBucketCounts\<close> returns a well-formed zone at epoch 0 with every count 0 and at
  least as many hash buckets as asked for.
\<close>

theorem initZone_wf:
  assumes "unat n \<le> 2 ^ 30" and "unat (nrNonOverlappingBucketCount reg) \<le> 2 ^ 29"
  shows "\<exists>zone'. rcuInitZoneWithBucketCounts reg zone n = Some zone' \<and> wf_zone reg zone'
    \<and> epochLatest zone' = 0 \<and> epochOldest zone' = 0
    \<and> counts zone' = Some (replicate (2 * nbuckets reg zone') 0)
    \<and> unat n \<le> unat (nrHashThreadBuckets zone')"
  by (rule rcuInitZoneWithBucketCounts_ok [OF assms, of zone]) blast

theorem initZone_wf_witness:
  "\<exists>zone'. rcuInitZoneWithBucketCounts \<lparr>nextBucketId = 0, nrNonOverlappingBucketCount = 8\<rparr> freshZone 100
     = Some zone' \<and> wf_zone \<lparr>nextBucketId = 0, nrNonOverlappingBucketCount = 8\<rparr> zone'"
  using initZone_wf [of 100 "\<lparr>nextBucketId = 0, nrNonOverlappingBucketCount = 8\<rparr>" freshZone] by auto

text \<open>
  Reader buckets lie inside their row, and a registered thread never shares one with an
  unregistered thread.
\<close>

theorem bucketIds_in_row:
  assumes "wf_zone reg zone" and "thread_ok reg t"
  shows "unat (fetchThreadBucketId reg zone t h) < nbuckets reg zone
    \<and> (t \<noteq> -1 \<longrightarrow> fetchThreadBucketId reg zone t h \<noteq> fetchThreadBucketId reg zone (-1) h')"
  using fetchThreadBucketId_less [OF assms] buckets_disjoint [OF assms, of h h'] by auto

theorem bucketIds_in_row_witness:
  "unat (fetchThreadBucketId exReg exZone 0 7) < nbuckets exReg exZone
    \<and> fetchThreadBucketId exReg exZone 0 7 \<noteq> fetchThreadBucketId exReg exZone (-1) 9"
  using bucketIds_in_row [OF exZone_wf, of 0 7 9] by (simp add: thread_ok_def exReg_def)

text \<open>
  Unlocking with the epoch that the lock returned undoes the lock: the zone is back to what it
  was.
\<close>

theorem lock_unlock:
  assumes "wf_zone reg zone" and "thread_ok reg t"
  shows "do { (e, zone1) \<leftarrow> rcuReadLock reg zone t h; rcuReadUnlock reg zone1 t h e } = Some zone"
  using addAt_cancel [OF assms(1) fetchThreadBucketId_less [OF assms] row_less, of _ _ 1]
  by (simp add: rcuReadLock_wf [OF assms] rcuReadUnlock_wf assms)

theorem lock_unlock_witness:
  "do { (e, zone1) \<leftarrow> rcuReadLock exReg exZone (-1) 3; rcuReadUnlock exReg zone1 (-1) 3 e } = Some exZone"
  by (rule lock_unlock [OF exZone_wf]) (simp add: thread_ok_def)

text \<open>
  C40.  \<open>rcuSynchronize\<close> of a thread that runs alone: it returns, with both epochs advanced by one,
  exactly when no reader of the current epoch is counted in; otherwise it never returns.  The
  second case is the deadlock of a thread that synchronizes inside its own read section.
\<close>

theorem rcuSynchronize_returns_iff_drained:
  assumes "wf_zone reg zone" and "epochOldest zone = epochLatest zone"
    and "sint (epochLatest zone) \<noteq> 2 ^ 63 - 1"
  shows "rcuSynchronize reg zone =
    (if drained reg zone (epochLatest zone)
     then Some (zone\<lparr>epochLatest := epochLatest zone + 1, epochOldest := epochLatest zone + 1\<rparr>)
     else None)"
  by (rule rcuSynchronize_alone [OF assms])

theorem rcuSynchronize_returns_iff_drained_witness:
  "rcuSynchronize exReg exZone = Some (exZone\<lparr>epochLatest := 1, epochOldest := 1\<rparr>)
    \<and> rcuSynchronize exReg (addAt exReg exZone 0 1 1) = None"
proof -
  have "drained exReg exZone 0" "\<not> drained exReg (addAt exReg exZone 0 1 1) 0" by code_simp+
  then show ?thesis
    using rcuSynchronize_returns_iff_drained [OF exZone_wf]
      rcuSynchronize_returns_iff_drained [OF wf_zone_addAt [OF exZone_wf], of 0 1 1]
    by (simp add: exZone_def)
qed

text \<open>
  Registration: over any history of fewer than \<open>2 ^ 31\<close> calls from program start, the ids
  handed out lie below \<open>nrNonOverlappingBucketCount\<close>, so that the threads are well formed, and no
  two threads hold the same one.
\<close>

theorem registration_unique:
  assumes "length ts < 2 ^ 31" and "unat hc \<le> 2 ^ 30"
    and "registerAll ts (staticRegistry hc, \<lambda>_. -1) = (reg, tls)"
  shows "(\<forall>t. thread_ok reg (tls t)) \<and> (\<forall>t u. tls t \<noteq> -1 \<longrightarrow> tls t = tls u \<longrightarrow> t = u)"
proof -
  have "unat (upperBoundPowerOf2_rcu hc) \<le> 2 ^ 30" by (rule upperBound_small(2) [OF assms(2)]) simp
  then have "registry_inv reg tls \<and> nrNonOverlappingBucketCount reg = nrNonOverlappingBucketCount (staticRegistry hc)"
    using assms(1) by (intro registerAll_inv [OF _ _ _ assms(3)]) (auto simp: registry_inv_def staticRegistry_def)
  then show ?thesis by (auto simp: registry_inv_def thread_ok_def)
qed

theorem registration_unique_witness:
  "snd (registerAll [''a'', ''b'', ''a''] (staticRegistry 2, \<lambda>_. -1)) ''a'' \<noteq>
   snd (registerAll [''a'', ''b'', ''a''] (staticRegistry 2, \<lambda>_. -1)) ''b''"
proof -
  obtain reg tls where r: "registerAll [''a'', ''b'', ''a''] (staticRegistry 2, \<lambda>_. -1) = (reg, tls)"
    by (cases "registerAll [''a'', ''b'', ''a''] (staticRegistry 2, \<lambda>_. -1)") auto
  have "snd (registerAll [''a'', ''b'', ''a''] (staticRegistry 2, \<lambda>_. -1)) ''a'' \<noteq> -1" by code_simp
  then have a: "tls ''a'' \<noteq> -1" by (simp only: r snd_conv not_False_eq_True)
  have "\<forall>t u. tls t \<noteq> -1 \<longrightarrow> tls t = tls u \<longrightarrow> t = u"
    by (rule registration_unique [OF _ _ r, THEN conjunct2]) simp_all
  then have "tls ''a'' = tls ''b'' \<longrightarrow> ''a'' = ''b''" using a by blast
  then have "tls ''a'' \<noteq> tls ''b''" by simp
  then show ?thesis by (simp only: r snd_conv not_False_eq_True)
qed

text \<open>
  C39.  The counter of the registry wraps.  It is incremented by failing calls, too: when all ids are taken
  and so many more threads have tried in vain that it stands at \<open>2 ^ 31\<close>, the next call succeeds, with a
  negative id, and the first \<open>rcuReadLock\<close> of that thread accesses memory outside the counts.
\<close>

theorem registration_wraps:
  assumes "wf_zone reg zone" and "unat (nrNonOverlappingBucketCount reg) \<le> unat (nextBucketId reg)"
    and "nbuckets reg zone \<le> 2 ^ 29" and "unat (nextBucketId reg) + length ts = 2 ^ 31" and "\<And>t. t \<in> set ts \<Longrightarrow> tls t = -1" and "tls u = -1"
  shows "\<exists>reg1 reg2 b. registerAll ts (reg, tls) = (reg1, tls) \<and> rcuRegisterReaderThread reg1 (tls u) = (True, reg2, b)
    \<and> sint b = - (2 ^ 31) \<and> rcuReadLock reg zone b h = None"
proof -
  let ?reg1 = "reg\<lparr>nextBucketId := nextBucketId reg + of_nat (length ts)\<rparr>"
  have r1: "registerAll ts (reg, tls) = (?reg1, tls)" 
    by (rule registerAll_full [OF assms(2) _ assms(5)]) (use assms(4) in simp_all)
  have "nextBucketId reg + of_nat (length ts) = (of_nat (unat (nextBucketId reg) + length ts) :: u32)" by simp
  also have "\<dots> = 2147483648" unfolding assms(4) by simp
  finally have b: "nextBucketId reg + of_nat (length ts) = (2147483648 :: u32)" .
  have N: "unat (nrNonOverlappingBucketCount reg) < 2 ^ 31" using assms(1) by (auto simp: wf_zone_def nbuckets_def)
  have "0 \<le> sint (nrNonOverlappingBucketCount reg)" using sint_small [of "nrNonOverlappingBucketCount reg"] N by simp
  moreover have s: "sint (2147483648 :: u32) = - (2 ^ 31)" by simp
  ultimately have r2: "rcuRegisterReaderThread ?reg1 (tls u) = (True, ?reg1\<lparr>nextBucketId := 2147483648 + 1\<rparr>, 2147483648)"
    using assms(6) by (simp add: rcuRegisterReaderThread_def Let_def b)
  obtain cs where cs: "counts zone = Some cs" "length cs \<le> 2 ^ 30" and ring: "epochsRing zone = [Some 0, Some (nbuckets reg zone)]"
    using assms(1,3) by (auto simp: wf_zone_def split: option.splits)
  have out: "fetchAddCount zone e (2 ^ 31) d = None" for e d
    using cs ring by (auto simp: fetchAddCount_def countIndex_def nth_Cons split: bind_splits nat.splits)
  have "rcuReadLock reg zone 2147483648 h = None"
    using out by (simp add: rcuReadLock_def fetchThreadBucketId_def rcuReadLock_loop.simps)
  then show ?thesis using r1 r2 s by blast
qed

text \<open>A registry of one id that is about to wrap: two more failing calls.\<close>

theorem registration_wraps_witness:
  "\<exists>reg1 reg2 b. registerAll [''a'', ''b''] (exReg\<lparr>nextBucketId := 2 ^ 31 - 2\<rparr>, \<lambda>_. -1) = (reg1, \<lambda>_. -1)
    \<and> rcuRegisterReaderThread reg1 (-1) = (True, reg2, b) \<and> sint b = - (2 ^ 31) \<and> rcuReadLock exReg exZone b 7 = None"
proof -
  let ?reg = "exReg\<lparr>nextBucketId := 2 ^ 31 - 2\<rparr>"
  have "wf_zone ?reg exZone" "nbuckets ?reg exZone \<le> 2 ^ 29"
    by (simp_all add: wf_zone_def nbuckets_def exReg_def exZone_def)
  moreover have "unat (nrNonOverlappingBucketCount ?reg) \<le> unat (nextBucketId ?reg)"
    "unat (nextBucketId ?reg) + length [''a'', ''b''] = 2 ^ 31" by (simp_all add: exReg_def)
  moreover have "rcuReadLock ?reg exZone b 7 = rcuReadLock exReg exZone b 7" for b
    by (simp add: rcuReadLock_def fetchThreadBucketId_def)
  ultimately show ?thesis using registration_wraps [of ?reg exZone "[''a'', ''b'']" "\<lambda>_. -1" "''c''" 7] by simp
qed

text \<open>
  After \<open>rcuReleaseZone\<close> the destructor frees nothing more, and every later access to a count
  is an access to freed memory.
\<close>

theorem release_once:
  "destroyZone (rcuReleaseZone zone) = rcuReleaseZone zone
    \<and> (wf_zone reg zone \<longrightarrow> loadCount (rcuReleaseZone zone) e b = None
       \<and> fetchAddCount (rcuReleaseZone zone) e b d = None)"
  by (cases "epochsRing zone") (auto simp: destroyZone_def rcuReleaseZone_def wf_zone_def
      loadCount_def fetchAddCount_def)

theorem release_once_witness:
  "loadCount (rcuReleaseZone exZone) 1 0 = None"
  using release_once [of exZone exReg 1 0] exZone_wf by simp

end
