(* ===== verification/TableApi.thy ===== *)
theory TableApi
  imports Shrink RcuZone
begin

text \<open>
  The operations that resize by themselves (\<open>RCUHashTableCoreApi.h\<close>) and the table that owns its zone
  (\<open>RCUHashTableApi.h\<close>, \<open>RTable\<close>).  Here \<open>rcuSynchronize\<close> meets the resizing functions: it is shown
  to be a \<open>synchronizer\<close> on a zone without readers, and the operations on \<open>RTable\<close> are instances.
\<close>

subsection \<open>Operations with a shared zone\<close>

text \<open>
  The optional out-parameter \<open>outIfAlreadyRcuSynrhonized\<close> is the second result; the caller that
  passes \<open>nullptr\<close> ignores it.
\<close>

definition rTableCoreTryDetachAutoShrink ::
    "('z \<Rightarrow> 'z option) \<Rightarrow> RTableCore \<Rightarrow> u64 \<Rightarrow> (loc \<Rightarrow> bool) \<Rightarrow> mem \<Rightarrow> 'z
      \<Rightarrow> (ptr \<times> bool \<times> RTableCore \<times> mem \<times> 'z) option" where
  "rTableCoreTryDetachAutoShrink sync t hashVal matchOp m z =
     do {
       (p, m) \<leftarrow> rTableCoreTryDetachNoShrink t hashVal matchOp m;
       if p = None then Some (p, False, t, m, z)
       else do {
         let currentSize = tsize t;
         k \<leftarrow> pBucketsInfo t;
         nrBuckets \<leftarrow> blocks m k;
         (ifAlreadyRcuSynchronized, t, m, z) \<leftarrow> shrinkBucketsByFac2IfNecessary sync currentSize nrBuckets t m z;
         Some (p, ifAlreadyRcuSynchronized, t, m, z)
       }
     }"

definition rTableCoreTryInsert ::
    "('z \<Rightarrow> 'z option) \<Rightarrow> RTableCore \<Rightarrow> loc \<Rightarrow> u64 \<Rightarrow> (loc \<Rightarrow> loc \<Rightarrow> bool) \<Rightarrow> mem \<Rightarrow> 'z
      \<Rightarrow> (bool \<times> RTableCore \<times> mem \<times> 'z) option" where
  "rTableCoreTryInsert sync t pEntry hashVal matchOp m z =
     do {
       (inserted, t, m) \<leftarrow> rTableCoreTryInsertNoExpand t pEntry hashVal matchOp m;
       if \<not> inserted then Some (False, t, m, z)
       else do {
         let currentSize = tsize t;
         k \<leftarrow> pBucketsInfo t;
         nrBuckets \<leftarrow> blocks m k;
         (t, m, z) \<leftarrow> expandBucketsByFac2IfNecessary sync currentSize nrBuckets t m z;
         Some (True, t, m, z)
       }
     }"

definition rTableCoreTryDetachAndSynchronize ::
    "('z \<Rightarrow> 'z option) \<Rightarrow> RTableCore \<Rightarrow> u64 \<Rightarrow> (loc \<Rightarrow> bool) \<Rightarrow> mem \<Rightarrow> 'z
      \<Rightarrow> (ptr \<times> RTableCore \<times> mem \<times> 'z) option" where
  "rTableCoreTryDetachAndSynchronize sync t hashVal matchOp m z =
     do {
       (pEntry, ifAlreadyRcuSynchronized, t, m, z) \<leftarrow> rTableCoreTryDetachAutoShrink sync t hashVal matchOp m z;
       if pEntry = None then Some (pEntry, t, m, z)
       else if \<not> ifAlreadyRcuSynchronized then do { z \<leftarrow> sync z; Some (pEntry, t, emit ESync m, z) }
       else Some (pEntry, t, m, z)
     }"

subsection \<open>The table with its own zone\<close>

record RTable =
  core :: RTableCore
  rcuZone :: RCUZone

definition freshRTable :: RTable where
  "freshRTable = \<lparr>core = freshTable, rcuZone = freshZone\<rparr>"

record RTableConfig =
  nrBuckets :: u32
  nrRcuBucketsForUnregisteredThreads :: u32
  configExpandFactor :: f32
  configShrinkFactor :: f32

definition defaultConfig :: RTableConfig where
  "defaultConfig = \<lparr>nrBuckets = 64, nrRcuBucketsForUnregisteredThreads = 128,
     configExpandFactor = Fin 9227469 (-23), configShrinkFactor = Fin 1 (-2)\<rparr>"

definition rTableInitDetailed ::
    "RCUReaderThreadRegistry \<Rightarrow> RTable \<Rightarrow> RTableConfig \<Rightarrow> mem \<Rightarrow> (RTable \<times> mem) option" where
  "rTableInitDetailed reg tbl conf m =
     do {
       zone \<leftarrow> rcuInitZoneWithBucketCounts reg (rcuZone tbl) (nrRcuBucketsForUnregisteredThreads conf);
       let confCore = \<lparr>cfgBuckets = nrBuckets conf, cfgExpandFactor = configExpandFactor conf,
                       cfgShrinkFactor = configShrinkFactor conf\<rparr>;
       (t, m) \<leftarrow> rTableCoreInitDetailed (core tbl) confCore m;
       Some (\<lparr>core = t, rcuZone = zone\<rparr>, m)
     }"

definition rTableInit ::
    "RCUReaderThreadRegistry \<Rightarrow> u32 \<Rightarrow> RTable \<Rightarrow> u32 \<Rightarrow> mem \<Rightarrow> (RTable \<times> mem) option" where
  "rTableInit reg hardware_concurrency tbl n m =
     rTableInitDetailed reg tbl
       (defaultConfig\<lparr>nrBuckets := n, nrRcuBucketsForUnregisteredThreads := hardware_concurrency * 64\<rparr>) m"

definition rTableFind :: "RTable \<Rightarrow> u64 \<Rightarrow> (loc \<Rightarrow> bool) \<Rightarrow> mem \<Rightarrow> ptr option" where
  "rTableFind tbl hashVal matchOp m = rTableCoreFind (core tbl) hashVal matchOp m"

definition rTableTryInsertNoExpand ::
    "RTable \<Rightarrow> loc \<Rightarrow> u64 \<Rightarrow> (loc \<Rightarrow> loc \<Rightarrow> bool) \<Rightarrow> mem \<Rightarrow> (bool \<times> RTable \<times> mem) option" where
  "rTableTryInsertNoExpand tbl pEntry hashVal matchOp m =
     do {
       (r, t, m) \<leftarrow> rTableCoreTryInsertNoExpand (core tbl) pEntry hashVal matchOp m;
       Some (r, tbl\<lparr>core := t\<rparr>, m)
     }"

definition rTableTryInsert ::
    "RCUReaderThreadRegistry \<Rightarrow> RTable \<Rightarrow> loc \<Rightarrow> u64 \<Rightarrow> (loc \<Rightarrow> loc \<Rightarrow> bool) \<Rightarrow> mem
      \<Rightarrow> (bool \<times> RTable \<times> mem) option" where
  "rTableTryInsert reg tbl pEntry hashVal matchOp m =
     do {
       (r, t, m, z) \<leftarrow> rTableCoreTryInsert (rcuSynchronize reg) (core tbl) pEntry hashVal matchOp m (rcuZone tbl);
       Some (r, \<lparr>core = t, rcuZone = z\<rparr>, m)
     }"

definition rTableTryDetachAutoShrink ::
    "RCUReaderThreadRegistry \<Rightarrow> RTable \<Rightarrow> u64 \<Rightarrow> (loc \<Rightarrow> bool) \<Rightarrow> mem \<Rightarrow> (ptr \<times> bool \<times> RTable \<times> mem) option" where
  "rTableTryDetachAutoShrink reg tbl hashVal matchOp m =
     do {
       (p, done, t, m, z) \<leftarrow> rTableCoreTryDetachAutoShrink (rcuSynchronize reg) (core tbl) hashVal matchOp m (rcuZone tbl);
       Some (p, done, \<lparr>core = t, rcuZone = z\<rparr>, m)
     }"

definition rTableTryDetachAndSynchronize ::
    "RCUReaderThreadRegistry \<Rightarrow> RTable \<Rightarrow> u64 \<Rightarrow> (loc \<Rightarrow> bool) \<Rightarrow> mem \<Rightarrow> (ptr \<times> RTable \<times> mem) option" where
  "rTableTryDetachAndSynchronize reg tbl hashVal matchOp m =
     do {
       (p, t, m, z) \<leftarrow> rTableCoreTryDetachAndSynchronize (rcuSynchronize reg) (core tbl) hashVal matchOp m (rcuZone tbl);
       Some (p, \<lparr>core = t, rcuZone = z\<rparr>, m)
     }"

definition rTableReadLock ::
    "RCUReaderThreadRegistry \<Rightarrow> RTable \<Rightarrow> u32 \<Rightarrow> u64 \<Rightarrow> (u64 \<times> RTable) option" where
  "rTableReadLock reg tbl tls h =
     do { (epoch, z) \<leftarrow> rcuReadLock reg (rcuZone tbl) tls h; Some (epoch, tbl\<lparr>rcuZone := z\<rparr>) }"

definition rTableReadUnlock ::
    "RCUReaderThreadRegistry \<Rightarrow> RTable \<Rightarrow> u32 \<Rightarrow> u64 \<Rightarrow> u64 \<Rightarrow> RTable option" where
  "rTableReadUnlock reg tbl tls h epoch =
     do { z \<leftarrow> rcuReadUnlock reg (rcuZone tbl) tls h epoch; Some (tbl\<lparr>rcuZone := z\<rparr>) }"

text \<open>\<open>RTableReadLockGuard\<close>: the scope of a guard locks, runs its body with the epoch, and unlocks.\<close>

definition withReadLockGuard ::
    "RCUReaderThreadRegistry \<Rightarrow> u32 \<Rightarrow> u64 \<Rightarrow> (RTable \<Rightarrow> 'a option) \<Rightarrow> RTable \<Rightarrow> ('a \<times> RTable) option" where
  "withReadLockGuard reg tls h body tbl =
     do {
       (epoch, tbl) \<leftarrow> rTableReadLock reg tbl tls h;
       r \<leftarrow> body tbl;
       tbl \<leftarrow> rTableReadUnlock reg tbl tls h epoch;
       Some (r, tbl)
     }"

definition rTableSynchronize :: "RCUReaderThreadRegistry \<Rightarrow> RTable \<Rightarrow> mem \<Rightarrow> (RTable \<times> mem) option" where
  "rTableSynchronize reg tbl m =
     do { z \<leftarrow> rcuSynchronize reg (rcuZone tbl); Some (tbl\<lparr>rcuZone := z\<rparr>, emit ESync m) }"

definition rTableExpandBuckets2x :: "RCUReaderThreadRegistry \<Rightarrow> RTable \<Rightarrow> mem \<Rightarrow> (RTable \<times> mem) option" where
  "rTableExpandBuckets2x reg tbl m =
     do {
       (t, m, z) \<leftarrow> rTableCoreExpandBuckets2x (rcuSynchronize reg) (core tbl) m (rcuZone tbl);
       Some (\<lparr>core = t, rcuZone = z\<rparr>, m)
     }"

definition rTableShrinkBuckets2x :: "RCUReaderThreadRegistry \<Rightarrow> RTable \<Rightarrow> mem \<Rightarrow> (bool \<times> RTable \<times> mem) option" where
  "rTableShrinkBuckets2x reg tbl m =
     do {
       (r, t, m, z) \<leftarrow> rTableCoreShrinkBuckets2x (rcuSynchronize reg) (core tbl) m (rcuZone tbl);
       Some (r, \<lparr>core = t, rcuZone = z\<rparr>, m)
     }"

subsection \<open>A zone without readers is a synchronizer\<close>

definition quiet :: "RCUReaderThreadRegistry \<Rightarrow> nat \<Rightarrow> RCUZone \<Rightarrow> bool" where
  "quiet reg n z \<longleftrightarrow> wf_zone reg z \<and> epochOldest z = epochLatest z \<and> (\<forall>e. drained reg z e)
     \<and> sint (epochLatest z) + int n < 2 ^ 63"

lemma quiet_sync:
  assumes "quiet reg (Suc n) z"
  shows "rcuSynchronize reg z = Some (z\<lparr>epochLatest := epochLatest z + 1, epochOldest := epochLatest z + 1\<rparr>)"
    and "quiet reg n (z\<lparr>epochLatest := epochLatest z + 1, epochOldest := epochLatest z + 1\<rparr>)"
proof -
  have q: "wf_zone reg z" "epochOldest z = epochLatest z" "\<And>e. drained reg z e"
    "sint (epochLatest z) + int (Suc n) < 2 ^ 63"
    using assms by (simp_all add: quiet_def)
  have mx: "sint (epochLatest z) \<noteq> 2 ^ 63 - 1" using q(4) by linarith
  show "rcuSynchronize reg z = Some (z\<lparr>epochLatest := epochLatest z + 1, epochOldest := epochLatest z + 1\<rparr>)"
    using rcuSynchronize_alone [OF q(1,2) mx] q(3) by simp
  have "sint (epochLatest z + 1) + int n < 2 ^ 63" using q(4) by (simp add: sint_Suc [OF mx])
  then show "quiet reg n (z\<lparr>epochLatest := epochLatest z + 1, epochOldest := epochLatest z + 1\<rparr>)"
    using q(1,3) by (simp add: quiet_def)
qed

interpretation idle: synchronizer "rcuSynchronize reg" "quiet reg" for reg
proof
  fix n z
  assume "quiet reg (Suc n) z"
  then show "\<exists>z'. rcuSynchronize reg z = Some z' \<and> quiet reg n z'" using quiet_sync by blast
qed (simp add: quiet_def)

subsection \<open>What the operations do\<close>

text \<open>A bucket array holds no node twice, so its nodes are counted by the abstract table.\<close>

lemma distinct_concat_nth:
  assumes "\<And>i. i < length B \<Longrightarrow> distinct (B ! i)"
    and "\<And>i i'. i < length B \<Longrightarrow> i' < length B \<Longrightarrow> i \<noteq> i' \<Longrightarrow> set (B ! i) \<inter> set (B ! i') = {}"
  shows "distinct (concat B)"
  using assms
proof (induction B)
  case Nil
  then show ?case by simp
next
  case (Cons xs B)
  have "distinct (concat B)"
  proof (rule Cons.IH)
    show "distinct (B ! i)" if "i < length B" for i using Cons.prems(1) [of "Suc i"] that by simp
    show "set (B ! i) \<inter> set (B ! i') = {}" if "i < length B" "i' < length B" "i \<noteq> i'" for i i'
      using Cons.prems(2) [of "Suc i" "Suc i'"] that by simp
  qed
  moreover have "set xs \<inter> set ys = {}" if ys: "ys \<in> set B" for ys
  proof -
    obtain i where "i < length B" "B ! i = ys" using ys by (auto simp: in_set_conv_nth)
    then show ?thesis using Cons.prems(2) [of 0 "Suc i"] by simp
  qed
  ultimately show ?case using Cons.prems(1) [of 0] by auto
qed

lemma table_count:
  assumes "table m t j B"
  shows "length (concat B) = card (dom (absTable m B))"
proof -
  obtain k where at: "buckets_at m k j B" using assms by (rule tableE)
  have "distinct (concat B)"
  proof (rule distinct_concat_nth)
    show "distinct (B ! i)" if "i < length B" for i
      using buckets_atD(5) [OF at, of i] that buckets_atD(4) [OF at] by (auto simp: bucket_ok_def intro: slist_distinct)
    show "set (B ! i) \<inter> set (B ! i') = {}" if "i < length B" "i' < length B" "i \<noteq> i'" for i i'
      using table_home(1) [OF at, of i] table_home(1) [OF at, of i'] that buckets_atD(4) [OF at] by fastforce
  qed
  moreover have "dom (absTable m B) = set (concat B)" using dom_absTable [of _ m B] by blast
  ultimately show ?thesis by (simp only: distinct_card)
qed

lemma table_sync: "table m t j B \<Longrightarrow> table (emit ESync m) t j B" "absTable (emit ESync m) B = absTable m B"
  by (auto simp: table_def buckets_at_def fresh_blocks_def bucket_ok_def home_def absTable_def)

context synchronizer
begin

lemma same_table: "\<exists>q. t = t\<lparr>pBucketsInfo := q\<rparr>"
  by (rule exI [of _ "pBucketsInfo t"]) simp

lemma expandIfNecessary_ok:
  assumes tb: "table m t j B" and rd: "ready (length (concat B) + Suc k) z"
    and c: "c = f32_less (f32_mul (expandFactor t) (f32_of_u64 nb)) (f32_of_u64 n)" and j: "c \<Longrightarrow> j < 30"
  shows "\<exists>t' m' z' B'. expandBucketsByFac2IfNecessary sync n nb t m z = Some (t', m', z') \<and> ready k z'
    \<and> table m' t' (if c then Suc j else j) B' \<and> absTable m' B' = absTable m B
    \<and> (\<exists>q. t' = t\<lparr>pBucketsInfo := q\<rparr>)"
proof (cases c)
  case True
  obtain t' m' z' where x: "rTableCoreExpandBuckets2x sync t m z = Some (t', m', z')" "ready k z'"
    "table m' t' (Suc j) (expandBuckets m j B)" "absTable m' (expandBuckets m j B) = absTable m B"
    "t' = t\<lparr>pBucketsInfo := Some (freshBlock m)\<rparr>"
    using expand_ok [OF tb j [OF True] rd] by blast
  have "expandBucketsByFac2IfNecessary sync n nb t m z = Some (t', m', z')"
    using True c x(1) by (simp add: expandBucketsByFac2IfNecessary_def)
  then show ?thesis using x(2-5) True by (simp only: if_True) blast
next
  case False
  have "ready k z" using ready_mono [of k "Suc (length (concat B))" z] rd
    by (simp only: add_Suc_right add_Suc add.commute [of k])
  moreover have "expandBucketsByFac2IfNecessary sync n nb t m z = Some (t, m, z)"
    using False c by (simp add: expandBucketsByFac2IfNecessary_def)
  ultimately show ?thesis using False tb same_table [of t]
    by (intro exI [of _ t] exI [of _ m] exI [of _ z] exI [of _ B]) simp
qed

lemma rTableCoreTryInsert_ok:
  assumes tb: "table m t j B" and e: "isNode e" "e \<notin> dom (absTable m B)"
    and rd: "ready (card (dom (absTable m B)) + Suc (Suc k)) z"
    and ins: "ins = (\<not> (\<exists>x \<in> set (B ! (unat h mod 2 ^ j)). R x e))"
    and c: "c = (ins \<and> f32_less (f32_mul (expandFactor t) (f32_of_u64 (2 ^ j))) (f32_of_u64 (tsize t + 1)))"
    and j: "c \<Longrightarrow> j < 30"
  shows "\<exists>t' m' z' B'. rTableCoreTryInsert sync t e h R m z = Some (ins, t', m', z') \<and> ready k z'
    \<and> table m' t' (if c then Suc j else j) B'
    \<and> absTable m' B' = (if ins then (absTable m B)(e \<mapsto> h) else absTable m B)
    \<and> (\<exists>q. t' = t\<lparr>tsize := tsize t + (if ins then 1 else 0), pBucketsInfo := q\<rparr>)"
proof -
  have "e \<notin> set (concat B)" using e(2) by (simp only: dom_absTable not_False_eq_True)
  then obtain t1 m1 B1 where r: "rTableCoreTryInsertNoExpand t e h R m = Some (ins, t1, m1)" "table m1 t1 j B1"
    "absTable m1 B1 = (if ins then (absTable m B)(e \<mapsto> h) else absTable m B)"
    "t1 = t\<lparr>tsize := tsize t + (if ins then 1 else 0)\<rparr>"
    using rTableCoreTryInsertNoExpand_table [OF tb e(1), of h R] ins by auto
  show ?thesis
  proof (cases ins)
    case False
    have "ready k z" using ready_mono [of k "card (dom (absTable m B)) + 2" z] rd by (simp add: add.commute)
    moreover have "t = t\<lparr>tsize := tsize t, pBucketsInfo := pBucketsInfo t\<rparr>" by simp
    ultimately show ?thesis using r False c
      by (intro exI [of _ t] exI [of _ m1] exI [of _ z] exI [of _ B1])
        (auto simp: rTableCoreTryInsert_def intro!: exI [of _ "pBucketsInfo t"])
  next
    case True
    obtain k1 where k1: "pBucketsInfo t1 = Some k1" "blocks m1 k1 = Some (2 ^ j)"
      using r(2) by (auto simp: table_def buckets_at_def)
    have fin: "finite (dom (absTable m B))"
    proof -
      have "dom (absTable m B) = set (concat B)" using dom_absTable [of _ m B] by blast
      then show ?thesis by (simp only: List.finite_set)
    qed
    have "dom (absTable m1 B1) = insert e (dom (absTable m B))" using r(3) True by (simp del: dom_fun_upd) auto
    then have "length (concat B1) = Suc (card (dom (absTable m B)))"
      using table_count [OF r(2)] e(2) fin by (simp del: length_concat)
    then have "ready (length (concat B1) + Suc k) z" using rd by simp
    then obtain t' m' z' B' q where x: "expandBucketsByFac2IfNecessary sync (tsize t1) (2 ^ j) t1 m1 z = Some (t', m', z')"
      "ready k z'" "table m' t' (if c then Suc j else j) B'" "absTable m' B' = absTable m1 B1"
      "t' = t1\<lparr>pBucketsInfo := q\<rparr>"
      using expandIfNecessary_ok [OF r(2), of k z c "2 ^ j" "tsize t1"] c j r(4) True by auto
    then show ?thesis using r k1 True
      by (intro exI [of _ t'] exI [of _ m'] exI [of _ z'] exI [of _ B']) (auto simp: rTableCoreTryInsert_def)
  qed
qed

lemma shrinkIfNecessary_ok:
  assumes tb: "table m t j B" and rd: "ready (Suc k) z"
  shows "\<exists>b t' m' z' j' B'. shrinkBucketsByFac2IfNecessary sync n nb t m z = Some (b, t', m', z')
    \<and> table m' t' j' B' \<and> absTable m' B' = absTable m B \<and> j' \<le> j \<and> (\<exists>q. t' = t\<lparr>pBucketsInfo := q\<rparr>)
    \<and> (if b then sync z = Some z' \<and> ready k z' else z' = z)"
proof -
  have keep: ?thesis if "shrinkBucketsByFac2IfNecessary sync n nb t m z = Some (False, t, m, z)"
    by (rule exI [of _ False], rule exI [of _ t], rule exI [of _ m], rule exI [of _ z], rule exI [of _ j],
        rule exI [of _ B], intro conjI) (rule that tb refl order_refl same_table | simp)+
  show ?thesis
  proof (cases "f32_less (f32_of_u64 n) (f32_mul (shrinkFactor t) (f32_of_u64 nb)) \<and> 128 < n")
    case True
    then have run: "shrinkBucketsByFac2IfNecessary sync n nb t m z = rTableCoreShrinkBuckets2x sync t m z"
      by (simp add: shrinkBucketsByFac2IfNecessary_def)
    show ?thesis
    proof (cases j)
      case 0
      then show ?thesis using keep shrink_one [of m t B sync z] tb run by simp
    next
      case (Suc i)
      then have i: "i < 30" using tb by (auto simp: table_def buckets_at_def)
      obtain t' m' z' where x: "rTableCoreShrinkBuckets2x sync t m z = Some (True, t', m', z')" "sync z = Some z'" "ready k z'"
        "table m' t' i (shrinkBuckets i B)" "absTable m' (shrinkBuckets i B) = absTable m B"
        "t' = t\<lparr>pBucketsInfo := Some (freshBlock m)\<rparr>"
        using shrink_ok [OF tb [unfolded Suc] i rd] by blast
      have "\<exists>q. t' = t\<lparr>pBucketsInfo := q\<rparr>" using x(6) by blast
      then show ?thesis unfolding run
        using x(1-5) Suc by (intro exI [of _ True] exI [of _ t'] exI [of _ m'] exI [of _ z'] exI [of _ i]
            exI [of _ "shrinkBuckets i B"]) simp
    qed
  next
    case False
    then show ?thesis by (intro keep) (simp only: shrinkBucketsByFac2IfNecessary_def if_False)
  qed
qed

lemma rTableCoreTryDetachAutoShrink_ok:
  assumes tb: "table m t j B" and rd: "ready (Suc k) z"
  shows "\<exists>b t' m' z' j' B'. rTableCoreTryDetachAutoShrink sync t h P m z = Some (find P (B ! (unat h mod 2 ^ j)), b, t', m', z')
    \<and> table m' t' j' B' \<and> j' \<le> j \<and> (\<exists>q. t' = t\<lparr>pBucketsInfo := q\<rparr>)
    \<and> (if b then sync z = Some z' \<and> ready k z' else z' = z)
    \<and> (case find P (B ! (unat h mod 2 ^ j)) of
          None \<Rightarrow> \<not> b \<and> absTable m' B' = absTable m B
        | Some x \<Rightarrow> absTable m' B' = (absTable m B)(x := None))"
proof -
  let ?r = "find P (B ! (unat h mod 2 ^ j))"
  obtain m1 B1 where r: "rTableCoreTryDetachNoShrink t h P m = Some (?r, m1)" "table m1 t j B1"
    "absTable m1 B1 = (case ?r of None \<Rightarrow> absTable m B | Some x \<Rightarrow> (absTable m B)(x := None))"
    using rTableCoreTryDetachNoShrink_table [OF tb, of h P] by blast
  obtain k1 where k1: "pBucketsInfo t = Some k1" "blocks m1 k1 = Some (2 ^ j)"
    using r(2) by (auto simp: table_def buckets_at_def)
  show ?thesis
  proof (cases ?r)
    case None
    then have "rTableCoreTryDetachAutoShrink sync t h P m z = Some (None, False, t, m1, z)"
      using r(1) by (simp add: rTableCoreTryDetachAutoShrink_def)
    then show ?thesis using r(2,3) None same_table [of t]
      by (intro exI [of _ False] exI [of _ t] exI [of _ m1] exI [of _ z] exI [of _ j] exI [of _ B1]) simp
  next
    case (Some x)
    obtain b t2 m2 z2 j2 B2 where s: "shrinkBucketsByFac2IfNecessary sync (tsize t) (2 ^ j) t m1 z = Some (b, t2, m2, z2)"
      "table m2 t2 j2 B2" "absTable m2 B2 = absTable m1 B1" "j2 \<le> j" "\<exists>q. t2 = t\<lparr>pBucketsInfo := q\<rparr>"
      "if b then sync z = Some z2 \<and> ready k z2 else z2 = z"
      using shrinkIfNecessary_ok [OF r(2) rd, of "tsize t" "2 ^ j"] by blast
    have "rTableCoreTryDetachAutoShrink sync t h P m z = Some (Some x, b, t2, m2, z2)"
      using r(1) s(1) k1 Some by (simp add: rTableCoreTryDetachAutoShrink_def Let_def)
    then show ?thesis using r(3) s Some
      by (intro exI [of _ b] exI [of _ t2] exI [of _ m2] exI [of _ z2] exI [of _ j2] exI [of _ B2]) simp
  qed
qed

text \<open>
  A detach that finds a node returns after exactly one grace period, whichever of the two functions
  waited for it; one that finds nothing waits for none.
\<close>

lemma rTableCoreTryDetachAndSynchronize_ok:
  assumes tb: "table m t j B" and rd: "ready (Suc k) z"
  shows "\<exists>t' m' z' j' B'. rTableCoreTryDetachAndSynchronize sync t h P m z = Some (find P (B ! (unat h mod 2 ^ j)), t', m', z')
    \<and> table m' t' j' B' \<and> j' \<le> j \<and> (\<exists>q. t' = t\<lparr>pBucketsInfo := q\<rparr>)
    \<and> (case find P (B ! (unat h mod 2 ^ j)) of
          None \<Rightarrow> z' = z \<and> absTable m' B' = absTable m B
        | Some x \<Rightarrow> sync z = Some z' \<and> ready k z' \<and> absTable m' B' = (absTable m B)(x := None))"
proof -
  let ?r = "find P (B ! (unat h mod 2 ^ j))"
  obtain b t2 m2 z2 j2 B2 where r: "rTableCoreTryDetachAutoShrink sync t h P m z = Some (?r, b, t2, m2, z2)"
    "table m2 t2 j2 B2" "j2 \<le> j" "\<exists>q. t2 = t\<lparr>pBucketsInfo := q\<rparr>" "if b then sync z = Some z2 \<and> ready k z2 else z2 = z"
    "case ?r of None \<Rightarrow> \<not> b \<and> absTable m2 B2 = absTable m B | Some x \<Rightarrow> absTable m2 B2 = (absTable m B)(x := None)"
    using rTableCoreTryDetachAutoShrink_ok [OF assms, of h P] by blast
  show ?thesis
  proof (cases "?r = None \<or> b")
    case True
    then have "rTableCoreTryDetachAndSynchronize sync t h P m z = Some (?r, t2, m2, z2)"
      using r(1) by (auto simp: rTableCoreTryDetachAndSynchronize_def)
    then show ?thesis using r(2-6) True
      by (intro exI [of _ t2] exI [of _ m2] exI [of _ z2] exI [of _ j2] exI [of _ B2]) (auto split: option.splits if_splits)
  next
    case False
    then obtain x where x: "?r = Some x" "\<not> b" by auto
    obtain z3 where z3: "sync z = Some z3" "ready k z3" using sync_law [OF rd] by blast
    have "rTableCoreTryDetachAndSynchronize sync t h P m z = Some (Some x, t2, emit ESync m2, z3)"
      using r(1,5) x z3(1) by (simp add: rTableCoreTryDetachAndSynchronize_def)
    then show ?thesis using r(3-6) x z3 table_sync(1) [OF r(2)] table_sync(2) [of m2 B2]
      by (intro exI [of _ t2] exI [of _ "emit ESync m2"] exI [of _ z3] exI [of _ j2] exI [of _ B2]) simp
  qed
qed

end

text \<open>A guard that only reads leaves the zone as it was.\<close>

lemma guard_ok:
  assumes wf: "wf_zone reg (rcuZone T)" and t: "thread_ok reg tls"
    and body: "\<And>z. body (T\<lparr>rcuZone := z\<rparr>) = r"
  shows "withReadLockGuard reg tls h body T = map_option (\<lambda>x. (x, T)) r"
proof -
  let ?b = "unat (fetchThreadBucketId reg (rcuZone T) tls h)" and ?r = "row (epochLatest (rcuZone T))"
  have lock: "rcuReadLock reg (rcuZone T) tls h = Some (epochLatest (rcuZone T), addAt reg (rcuZone T) ?r ?b 1)"
    by (rule rcuReadLock_wf [OF wf t])
  have unlock: "rcuReadUnlock reg (addAt reg (rcuZone T) ?r ?b 1) tls h (epochLatest (rcuZone T)) = Some (rcuZone T)"
    using addAt_cancel [OF wf fetchThreadBucketId_less [OF wf t] row_less, of _ _ 1]
    by (simp add: rcuReadUnlock_wf wf t)
  show ?thesis using body
    by (cases r) (simp_all add: withReadLockGuard_def rTableReadLock_def rTableReadUnlock_def lock unlock)
qed

subsection \<open>Properties\<close>

definition exRTable :: RTable where
  "exRTable = \<lparr>core = exTable, rcuZone = exZone\<rparr>"

lemma exZone_quiet: "n < 2 ^ 62 \<Longrightarrow> quiet exReg n exZone"
proof -
  assume n: "n < 2 ^ 62"
  have "drained exReg exZone e" for e
    using row_cases [of e] by (auto simp: drained_def countAt_def exZone_def exReg_def nbuckets_def less_Suc_eq numeral_2_eq_2)
  then show ?thesis using n exZone_wf by (simp add: quiet_def) (simp add: exZone_def)
qed

text \<open>A table of two buckets with one node in each.\<close>

definition exMem2 :: mem where
  "exMem2 = \<lparr>nxt = (\<lambda>_. None)(BucketHead 0 0 := Some (NodeHead 2), BucketHead 0 1 := Some (NodeHead 1)),
     hashOf = (\<lambda>_. 0)(NodeHead 1 := 7), blocks = [0 \<mapsto> 2], freshBlock = 1, trace = []\<rparr>"

lemma exMem2_table: "table exMem2 (core exRTable) 1 [[NodeHead 2], [NodeHead 1]]"
  by (auto simp: table_def buckets_at_def fresh_blocks_def exRTable_def exTable_def bucket_ok_def slist_def
      isNode_def home_def exMem2_def less_2_cases_iff)

lemma exRTable_table: "table exMem (core exRTable) 0 exBuckets"
  using exMem_table by (simp add: exRTable_def)

text \<open>
  C27.  Doubling: \<open>rTableExpandBuckets2x\<close> ends, with a well-formed table of twice as many buckets in
  which every old bucket is split in order, the same nodes with the same hash values, and the old
  block freed.
\<close>

theorem expand_preserves:
  assumes "table m (core T) j B" and "j < 30" and "quiet reg (length (concat B) + Suc n) (rcuZone T)"
    and "pBucketsInfo (core T) = Some old"
  shows "\<exists>T' m'. rTableExpandBuckets2x reg T m = Some (T', m') \<and> table m' (core T') (Suc j) (expandBuckets m j B)
    \<and> absTable m' (expandBuckets m j B) = absTable m B \<and> tsize (core T') = tsize (core T)
    \<and> blocks m' old = None \<and> quiet reg n (rcuZone T')"
proof -
  obtain t' m' z' where x: "rTableCoreExpandBuckets2x (rcuSynchronize reg) (core T) m (rcuZone T) = Some (t', m', z')"
    "quiet reg n z'" "table m' t' (Suc j) (expandBuckets m j B)" "absTable m' (expandBuckets m j B) = absTable m B"
    "t' = core T\<lparr>pBucketsInfo := Some (freshBlock m)\<rparr>" "blocks m' old = None"
    using idle.expand_ok [OF assms(1-3)] assms(4) by blast
  then show ?thesis by (intro exI [of _ "\<lparr>core = t', rcuZone = z'\<rparr>"] exI [of _ m']) (simp add: rTableExpandBuckets2x_def)
qed

theorem expand_preserves_witness:
  "\<exists>T' m'. rTableExpandBuckets2x exReg exRTable exMem = Some (T', m')
    \<and> table m' (core T') 1 [[NodeHead 1, NodeHead 2, NodeHead 3], []] \<and> blocks m' 0 = None"
proof -
  have "quiet exReg (length (concat exBuckets) + Suc 0) (rcuZone exRTable)"
    by (simp add: exRTable_def exZone_quiet exBuckets_def)
  moreover have "pBucketsInfo (core exRTable) = Some 0" by (simp add: exRTable_def exTable_def)
  moreover have "expandBuckets exMem 0 exBuckets = [[NodeHead 1, NodeHead 2, NodeHead 3], []]"
    by (simp add: expandBuckets_def exBuckets_def home_def exMem_def upt_rec)
  ultimately show ?thesis using expand_preserves [OF exRTable_table, of exReg 0 0] by auto
qed



text \<open>
  C29.  \<open>rTableTryInsert\<close> adds the node to the abstract table unless it matches one in its bucket, and
  doubles the number of buckets exactly when the float test on the new size says so; the nodes
  survive the doubling.
\<close>

theorem tryInsert_refines:
  assumes "table m (core T) j B" and "isNode e" and "e \<notin> dom (absTable m B)"
    and "quiet reg (card (dom (absTable m B)) + Suc (Suc n)) (rcuZone T)"
    and "ins = (\<not> (\<exists>x \<in> set (B ! (unat h mod 2 ^ j)). R x e))"
    and "grow = (ins \<and> f32_less (f32_mul (expandFactor (core T)) (f32_of_u64 (2 ^ j))) (f32_of_u64 (tsize (core T) + 1)))"
    and "grow \<longrightarrow> j < 30"
  shows "\<exists>T' m' B'. rTableTryInsert reg T e h R m = Some (ins, T', m')
    \<and> table m' (core T') (if grow then Suc j else j) B'
    \<and> absTable m' B' = (if ins then (absTable m B)(e \<mapsto> h) else absTable m B)
    \<and> tsize (core T') = tsize (core T) + (if ins then 1 else 0) \<and> quiet reg n (rcuZone T')"
proof -
  obtain t' m' z' B' q where x: "rTableCoreTryInsert (rcuSynchronize reg) (core T) e h R m (rcuZone T) = Some (ins, t', m', z')"
    "quiet reg n z'" "table m' t' (if grow then Suc j else j) B'"
    "absTable m' B' = (if ins then (absTable m B)(e \<mapsto> h) else absTable m B)"
    "t' = core T\<lparr>tsize := tsize (core T) + (if ins then 1 else 0), pBucketsInfo := q\<rparr>"
    using idle.rTableCoreTryInsert_ok [where R = R, OF assms(1-6)] assms(7) by blast
  show ?thesis
    by (rule exI [of _ "\<lparr>core = t', rcuZone = z'\<rparr>"], rule exI [of _ m'], rule exI [of _ B'])
      (use x in \<open>simp add: rTableTryInsert_def\<close>)
qed

theorem tryInsert_refines_witness:
  "\<exists>T' m' B'. rTableTryInsert exReg exRTable (NodeHead 9) 5 (\<lambda>_ _. False) exMem = Some (True, T', m')
    \<and> table m' (core T') 0 B' \<and> absTable m' B' = (absTable exMem exBuckets)(NodeHead 9 \<mapsto> 5)"
proof -
  have d: "dom (absTable exMem exBuckets) = {NodeHead 1, NodeHead 2, NodeHead 3}"
    by (auto simp: absTable_def exBuckets_def dom_def)
  have no: "\<not> f32_less (f32_mul (expandFactor (core exRTable)) (f32_of_u64 (2 ^ 0))) (f32_of_u64 (tsize (core exRTable) + 1))"
    by code_simp
  have q: "quiet exReg (card (dom (absTable exMem exBuckets)) + Suc (Suc 0)) (rcuZone exRTable)"
    by (simp add: d exRTable_def exZone_quiet)
  have g: "False = (True \<and> f32_less (f32_mul (expandFactor (core exRTable)) (f32_of_u64 (2 ^ 0))) (f32_of_u64 (tsize (core exRTable) + 1)))"
    using no by blast
  show ?thesis
    using tryInsert_refines [OF exRTable_table _ _ q _ g, of "NodeHead 9" 5 "\<lambda>_ _. False"] d
    by (auto simp: isNode_def)
qed

text \<open>
  C30.  \<open>rTableTryDetachAndSynchronize\<close> removes the node it returns from the table and returns after
  exactly one grace period, whether or not it shrank the table; when it finds nothing it does not
  wait.
\<close>

theorem detachAndSynchronize_refines:
  assumes "table m (core T) j B" and "quiet reg (Suc n) (rcuZone T)"
  shows "\<exists>T' m' j' B'. rTableTryDetachAndSynchronize reg T h P m = Some (find P (B ! (unat h mod 2 ^ j)), T', m')
    \<and> table m' (core T') j' B' \<and> j' \<le> j \<and> tsize (core T') = tsize (core T)
    \<and> (case find P (B ! (unat h mod 2 ^ j)) of
          None \<Rightarrow> rcuZone T' = rcuZone T \<and> absTable m' B' = absTable m B
        | Some x \<Rightarrow> rcuSynchronize reg (rcuZone T) = Some (rcuZone T') \<and> absTable m' B' = (absTable m B)(x := None))"
proof -
  obtain t' m' z' j' B' q where x:
    "rTableCoreTryDetachAndSynchronize (rcuSynchronize reg) (core T) h P m (rcuZone T) = Some (find P (B ! (unat h mod 2 ^ j)), t', m', z')"
    "table m' t' j' B'" "j' \<le> j" "t' = core T\<lparr>pBucketsInfo := q\<rparr>"
    "case find P (B ! (unat h mod 2 ^ j)) of None \<Rightarrow> z' = rcuZone T \<and> absTable m' B' = absTable m B
      | Some x \<Rightarrow> rcuSynchronize reg (rcuZone T) = Some z' \<and> quiet reg n z' \<and> absTable m' B' = (absTable m B)(x := None)"
    using idle.rTableCoreTryDetachAndSynchronize_ok [OF assms] by blast
  show ?thesis
    by (rule exI [of _ "\<lparr>core = t', rcuZone = z'\<rparr>"], rule exI [of _ m'], rule exI [of _ j'], rule exI [of _ B'])
      (use x in \<open>simp add: rTableTryDetachAndSynchronize_def split: option.splits\<close>)
qed

theorem detachAndSynchronize_refines_witness:
  "\<exists>T' m' j' B'. rTableTryDetachAndSynchronize exReg exRTable 0 (\<lambda>x. x = NodeHead 2) exMem = Some (Some (NodeHead 2), T', m')
    \<and> table m' (core T') j' B' \<and> absTable m' B' = (absTable exMem exBuckets)(NodeHead 2 := None)
    \<and> tsize (core T') = 3"
  using detachAndSynchronize_refines [OF exRTable_table, of exReg 0 0 "\<lambda>x. x = NodeHead 2"]
  by (simp add: exRTable_def exZone_quiet exBuckets_def exTable_def) blast

text \<open>
  C37.  A lookup inside \<open>RTableReadLockGuard\<close> returns what the lookup returns, and leaving the scope
  puts the reader count back.
\<close>

theorem guarded_find:
  assumes "wf_zone reg (rcuZone T)" and "thread_ok reg tls"
  shows "withReadLockGuard reg tls h (\<lambda>T. rTableFind T k P m) T = map_option (\<lambda>x. (x, T)) (rTableFind T k P m)"
  by (rule guard_ok [OF assms]) (simp add: rTableFind_def)

theorem guarded_find_witness:
  "withReadLockGuard exReg (-1) 3 (\<lambda>T. rTableFind T 0 (\<lambda>x. x = NodeHead 2) exMem) exRTable =
    map_option (\<lambda>x. (x, exRTable)) (rTableFind exRTable 0 (\<lambda>x. x = NodeHead 2) exMem)"
  by (rule guarded_find) (simp_all add: exRTable_def exZone_wf thread_ok_def)

text \<open>
  C38.  With the default factor \<open>1.1f\<close> and fewer than \<open>2 ^ 24\<close> insertions so far, the float test of
  \<open>expandBucketsByFac2IfNecessary\<close> is exact: a table of \<open>2 ^ j\<close> buckets grows exactly when
  \<open>size / 2 ^ j > 9227469 / 2 ^ 23\<close>.
\<close>

theorem expansion_threshold:
  assumes "j \<le> 30" and "unat n < 2 ^ 24" and "expandFactor t = cfgExpandFactor defaultCoreConfig"
  shows "expandBucketsByFac2IfNecessary sync n (2 ^ j) t m z =
    (if 9227469 * 2 ^ j < unat n * 2 ^ 23 then rTableCoreExpandBuckets2x sync t m z else Some (t, m, z))"
  using expand_test [OF assms(1,2)] assms(3)
  by (simp add: expandBucketsByFac2IfNecessary_def defaultCoreConfig_def)

theorem expansion_threshold_witness:
  "expandBucketsByFac2IfNecessary (\<lambda>z :: unit. Some z) 70 (2 ^ 6) (freshTable\<lparr>expandFactor := Fin 9227469 (-23)\<rparr>) exMem ()
    = Some (freshTable\<lparr>expandFactor := Fin 9227469 (-23)\<rparr>, exMem, ())"
  by (subst expansion_threshold) (simp_all add: defaultCoreConfig_def)

definition wellFormed :: "RCUReaderThreadRegistry \<Rightarrow> RTable \<times> mem \<Rightarrow> bool" where
  "wellFormed reg = (\<lambda>(T, m). (\<exists>j B. table m (core T) j B) \<and> wf_zone reg (rcuZone T))"

lemma wellFormedI: "table m (core T) j B \<Longrightarrow> wf_zone reg (rcuZone T) \<Longrightarrow> wellFormed reg (T, m)"
  by (auto simp: wellFormed_def)

lemma quiet_wf: "quiet reg n z \<Longrightarrow> wf_zone reg z"
  by (simp add: quiet_def)

lemma insertions_keep_wellFormed:
  assumes tb: "table m (core T) j B" and j: "j < 30" and q: "quiet reg (length (concat B) + 2) (rcuZone T)"
    and e: "isNode e" "e \<notin> set (concat B)"
  shows "\<exists>b s. rTableTryInsert reg T e h R m = Some (b, s) \<and> wellFormed reg s"
    and "\<exists>b s. rTableTryInsertNoExpand T e h R m = Some (b, s) \<and> wellFormed reg s"
proof -
  have ed: "e \<notin> dom (absTable m B)" using e(2) by (simp only: dom_absTable not_False_eq_True)
  have q2: "quiet reg (card (dom (absTable m B)) + Suc (Suc 0)) (rcuZone T)"
    using q by (simp only: table_count [OF tb] numeral_2_eq_2)
  define ins where "ins = (\<not> (\<exists>x \<in> set (B ! (unat h mod 2 ^ j)). R x e))"
  define c where "c = (ins \<and> f32_less (f32_mul (expandFactor (core T)) (f32_of_u64 (2 ^ j))) (f32_of_u64 (tsize (core T) + 1)))"
  obtain t' m' z' B' where x: "rTableCoreTryInsert (rcuSynchronize reg) (core T) e h R m (rcuZone T) = Some (ins, t', m', z')"
    "quiet reg 0 z'" "table m' t' (if c then Suc j else j) B'"
    using idle.rTableCoreTryInsert_ok [where R = R, OF tb e(1) ed q2 ins_def c_def j] by blast
  show "\<exists>b s. rTableTryInsert reg T e h R m = Some (b, s) \<and> wellFormed reg s"
    using x(1) wellFormedI [of m' "\<lparr>core = t', rcuZone = z'\<rparr>"] x(3) quiet_wf [OF x(2)] by (simp add: rTableTryInsert_def)
  obtain i t1 m1 B1 where 1: "rTableCoreTryInsertNoExpand (core T) e h R m = Some (i, t1, m1)" "table m1 t1 j B1"
    using rTableCoreTryInsertNoExpand_table [OF tb e, of h R] by blast
  show "\<exists>b s. rTableTryInsertNoExpand T e h R m = Some (b, s) \<and> wellFormed reg s"
    using 1(1) wellFormedI [of m1 "T\<lparr>core := t1\<rparr>"] 1(2) quiet_wf [OF q] by (simp add: rTableTryInsertNoExpand_def)
qed

lemma detachments_keep_wellFormed:
  assumes tb: "table m (core T) j B" and q: "quiet reg (Suc 0) (rcuZone T)"
  shows "\<exists>p b s. rTableTryDetachAutoShrink reg T h P m = Some (p, b, s) \<and> wellFormed reg s"
    and "\<exists>p s. rTableTryDetachAndSynchronize reg T h P m = Some (p, s) \<and> wellFormed reg s"
proof -
  obtain r d t2 m2 z2 j2 B2 where 2: "rTableCoreTryDetachAutoShrink (rcuSynchronize reg) (core T) h P m (rcuZone T)
      = Some (r, d, t2, m2, z2)" "table m2 t2 j2 B2" "if d then quiet reg 0 z2 else z2 = rcuZone T"
    using idle.rTableCoreTryDetachAutoShrink_ok [OF tb q, of h P] by (metis (no_types, lifting))
  then have "wf_zone reg z2" using quiet_wf [OF q] quiet_wf by (cases d) auto
  then show "\<exists>p b s. rTableTryDetachAutoShrink reg T h P m = Some (p, b, s) \<and> wellFormed reg s"
    using 2(1) wellFormedI [of m2 "\<lparr>core = t2, rcuZone = z2\<rparr>"] 2(2) by (simp add: rTableTryDetachAutoShrink_def)
  obtain r t3 m3 z3 j3 B3 where 3: "rTableCoreTryDetachAndSynchronize (rcuSynchronize reg) (core T) h P m (rcuZone T)
      = Some (r, t3, m3, z3)" "table m3 t3 j3 B3" "z3 = rcuZone T \<or> quiet reg 0 z3"
    using idle.rTableCoreTryDetachAndSynchronize_ok [OF tb q, of h P]
    by (cases "find P (B ! (unat h mod 2 ^ j))") auto
  then have "wf_zone reg z3" using quiet_wf [OF q] quiet_wf by auto
  then show "\<exists>p s. rTableTryDetachAndSynchronize reg T h P m = Some (p, s) \<and> wellFormed reg s"
    using 3(1) wellFormedI [of m3 "\<lparr>core = t3, rcuZone = z3\<rparr>"] 3(2) by (simp add: rTableTryDetachAndSynchronize_def)
qed

text \<open>
  C14.  Well-formedness.  On a well-formed table whose zone has no readers, with fewer than \<open>2 ^ 30\<close>
  buckets and a node that is not in it, every writing operation returns, for every hash value and
  predicate, and leaves a well-formed table and zone.
\<close>

theorem operations_keep_wellFormed:
  assumes tb: "table m (core T) j B" and j: "j < 30" and q: "quiet reg (length (concat B) + 2) (rcuZone T)"
    and e: "isNode e" "e \<notin> set (concat B)"
  shows "(\<exists>b s. rTableTryInsert reg T e h R m = Some (b, s) \<and> wellFormed reg s)
    \<and> (\<exists>b s. rTableTryInsertNoExpand T e h R m = Some (b, s) \<and> wellFormed reg s)
    \<and> (\<exists>p b s. rTableTryDetachAutoShrink reg T h P m = Some (p, b, s) \<and> wellFormed reg s)
    \<and> (\<exists>p s. rTableTryDetachAndSynchronize reg T h P m = Some (p, s) \<and> wellFormed reg s)
    \<and> (\<exists>s. rTableSynchronize reg T m = Some s \<and> wellFormed reg s)
    \<and> (\<exists>s. rTableExpandBuckets2x reg T m = Some s \<and> wellFormed reg s)
    \<and> (\<exists>b s. rTableShrinkBuckets2x reg T m = Some (b, s) \<and> wellFormed reg s)"
proof (intro conjI)
  have q1: "quiet reg (length (concat B) + Suc 0) (rcuZone T)" "quiet reg (Suc 0) (rcuZone T)"
    using idle.ready_mono [of reg "length (concat B) + Suc 0" 1] idle.ready_mono [of reg "Suc 0" "length (concat B) + 1"] q
    by (simp_all add: add.commute del: length_concat)
  show "\<exists>b s. rTableTryInsert reg T e h R m = Some (b, s) \<and> wellFormed reg s"
    "\<exists>b s. rTableTryInsertNoExpand T e h R m = Some (b, s) \<and> wellFormed reg s"
    by (rule insertions_keep_wellFormed [OF assms])+
  show "\<exists>p b s. rTableTryDetachAutoShrink reg T h P m = Some (p, b, s) \<and> wellFormed reg s"
    "\<exists>p s. rTableTryDetachAndSynchronize reg T h P m = Some (p, s) \<and> wellFormed reg s"
    by (rule detachments_keep_wellFormed [OF tb q1(2)])+
  obtain z4 where 4: "rcuSynchronize reg (rcuZone T) = Some z4" "quiet reg 0 z4" using idle.sync_law [OF q1(2)] by blast
  show "\<exists>s. rTableSynchronize reg T m = Some s \<and> wellFormed reg s"
    using 4(1) wellFormedI [of "emit ESync m" "T\<lparr>rcuZone := z4\<rparr>"] table_sync(1) [OF tb] quiet_wf [OF 4(2)]
    by (simp add: rTableSynchronize_def)
  obtain t5 m5 z5 B5 where 5: "rTableCoreExpandBuckets2x (rcuSynchronize reg) (core T) m (rcuZone T) = Some (t5, m5, z5)"
    "quiet reg 0 z5" "table m5 t5 (Suc j) B5" using idle.expand_ok [OF tb j q1(1)] by blast
  show "\<exists>s. rTableExpandBuckets2x reg T m = Some s \<and> wellFormed reg s"
    using 5(1) wellFormedI [of m5 "\<lparr>core = t5, rcuZone = z5\<rparr>"] 5(3) quiet_wf [OF 5(2)] by (simp add: rTableExpandBuckets2x_def)
  show "\<exists>b s. rTableShrinkBuckets2x reg T m = Some (b, s) \<and> wellFormed reg s"
  proof (cases j)
    case 0
    then have "rTableShrinkBuckets2x reg T m = Some (False, T, m)"
      using shrink_one [of m "core T" B "rcuSynchronize reg" "rcuZone T"] tb by (simp add: rTableShrinkBuckets2x_def)
    then show ?thesis using wellFormedI [OF tb quiet_wf [OF q]] by auto
  next
    case (Suc i)
    then have i: "i < 30" using j by simp
    obtain t6 m6 z6 B6 where 6: "rTableCoreShrinkBuckets2x (rcuSynchronize reg) (core T) m (rcuZone T) = Some (True, t6, m6, z6)"
      "quiet reg 0 z6" "table m6 t6 i B6" using idle.shrink_ok [OF tb [unfolded Suc] i q1(2)] by blast
    then have "rTableShrinkBuckets2x reg T m = Some (True, \<lparr>core = t6, rcuZone = z6\<rparr>, m6)"
      by (simp add: rTableShrinkBuckets2x_def)
    moreover have "wellFormed reg (\<lparr>core = t6, rcuZone = z6\<rparr>, m6)"
      using wellFormedI [of m6 "\<lparr>core = t6, rcuZone = z6\<rparr>"] 6(3) quiet_wf [OF 6(2)] by simp
    ultimately show ?thesis by blast
  qed
qed

theorem operations_keep_wellFormed_witness:
  "\<exists>b s. rTableTryInsert exReg exRTable (NodeHead 9) 5 (\<lambda>x y. x = y) exMem2 = Some (b, s) \<and> wellFormed exReg s"
proof -
  have "quiet exReg (length (concat [[NodeHead 2], [NodeHead 1]]) + 2) (rcuZone exRTable)"
    by (simp add: exRTable_def exZone_quiet)
  from operations_keep_wellFormed [OF exMem2_table _ this, of "NodeHead 9"] show ?thesis by (simp add: isNode_def)
qed

end
