(* ===== verification/Dictionary.thy ===== *)
theory Dictionary
  imports TableApi
begin

text \<open>
  The contract a user of \<open>RTable\<close> relies on.  The nodes carry keys, read by a function \<open>key\<close>; the
  caller passes the hash value \<open>hf k\<close> of the key and a predicate that compares keys.  Then the table
  is a finite map from keys to nodes, and a whole history of requests returns what that map
  returns.  The locale \<open>dictionary\<close> states the contract and proves the history from it; its
  interpretation discharges it for the code's operations with their automatic resizing.
\<close>

subsection \<open>Requests and histories\<close>

datatype ('k, 'n) request = Insert 'n | Find 'k | Detach 'k

datatype 'n reply = Inserted bool | Found "'n option" | Detached "'n option"

text \<open>What the abstract map answers, and what it becomes.\<close>

fun serve :: "('n \<Rightarrow> 'k) \<Rightarrow> ('k, 'n) request \<Rightarrow> ('k \<rightharpoonup> 'n) \<Rightarrow> 'n reply \<times> ('k \<rightharpoonup> 'n)" where
  "serve key (Insert e) M = (Inserted (M (key e) = None), if M (key e) = None then M(key e \<mapsto> e) else M)"
| "serve key (Find k) M = (Found (M k), M)"
| "serve key (Detach k) M = (Detached (M k), M(k := None))"

fun serveAll :: "('n \<Rightarrow> 'k) \<Rightarrow> ('k, 'n) request list \<Rightarrow> ('k \<rightharpoonup> 'n) \<Rightarrow> 'n reply list" where
  "serveAll key [] M = []"
| "serveAll key (r # rs) M = (let (a, M') = serve key r M in a # serveAll key rs M')"

text \<open>The caller inserts well-formed nodes; one that is in the table already is refused.\<close>

fun legal :: "('n \<Rightarrow> 'k) \<Rightarrow> ('n \<Rightarrow> bool) \<Rightarrow> ('k, 'n) request list \<Rightarrow> ('k \<rightharpoonup> 'n) \<Rightarrow> bool" where
  "legal key ok [] M = True"
| "legal key ok (r # rs) M =
     ((case r of Insert e \<Rightarrow> ok e | _ \<Rightarrow> True) \<and> legal key ok rs (snd (serve key r M)))"

text \<open>The same requests served by operations on a state.\<close>

fun handle :: "('k \<Rightarrow> 's \<Rightarrow> 'n option option) \<Rightarrow> ('n \<Rightarrow> 's \<Rightarrow> (bool \<times> 's) option)
    \<Rightarrow> ('k \<Rightarrow> 's \<Rightarrow> ('n option \<times> 's) option) \<Rightarrow> ('k, 'n) request \<Rightarrow> 's \<Rightarrow> ('n reply \<times> 's) option" where
  "handle look ins det (Insert e) s = do { (b, s) \<leftarrow> ins e s; Some (Inserted b, s) }"
| "handle look ins det (Find k) s = do { x \<leftarrow> look k s; Some (Found x, s) }"
| "handle look ins det (Detach k) s = do { (x, s) \<leftarrow> det k s; Some (Detached x, s) }"

fun requests :: "('r \<Rightarrow> 's \<Rightarrow> ('a \<times> 's) option) \<Rightarrow> 'r list \<Rightarrow> 's \<Rightarrow> ('a list \<times> 's) option" where
  "requests f [] s = Some ([], s)"
| "requests f (r # rs) s = do { (a, s) \<leftarrow> f r s; (as, s) \<leftarrow> requests f rs s; Some (a # as, s) }"

text \<open>
  \<open>holds n s M\<close>: the state stands for \<open>M\<close> and admits at least \<open>n\<close> more requests.
\<close>

locale dictionary =
  fixes holds :: "nat \<Rightarrow> 's \<Rightarrow> ('k \<rightharpoonup> 'n) \<Rightarrow> bool"
    and key :: "'n \<Rightarrow> 'k"
    and ok :: "'n \<Rightarrow> bool"
    and look :: "'k \<Rightarrow> 's \<Rightarrow> 'n option option"
    and ins :: "'n \<Rightarrow> 's \<Rightarrow> (bool \<times> 's) option"
    and det :: "'k \<Rightarrow> 's \<Rightarrow> ('n option \<times> 's) option"
  assumes find_law: "holds n s M \<Longrightarrow> look k s = Some (M k)"
    and insert_law: "holds (Suc n) s M \<Longrightarrow> ok e \<Longrightarrow>
      \<exists>s'. ins e s = Some (M (key e) = None, s') \<and> holds n s' (if M (key e) = None then M(key e \<mapsto> e) else M)"
    and detach_law: "holds (Suc n) s M \<Longrightarrow>
      \<exists>s'. det k s = Some (M k, s') \<and> holds n s' (M(k := None))"
    and holds_less: "holds (Suc n) s M \<Longrightarrow> holds n s M"
begin

lemma request_served:
  assumes "holds (Suc n) s M" and "legal key ok [r] M"
  shows "\<exists>s'. handle look ins det r s = Some (fst (serve key r M), s') \<and> holds n s' (snd (serve key r M))"
proof (cases r)
  case (Insert e)
  then show ?thesis using insert_law [OF assms(1), of e] assms(2) by auto
next
  case (Find k)
  then show ?thesis using find_law [OF assms(1)] holds_less [OF assms(1)] by simp
next
  case (Detach k)
  then show ?thesis using detach_law [OF assms(1), of k] by auto
qed

theorem history_served:
  assumes "holds (length rs + n) s M" and "legal key ok rs M"
  shows "\<exists>s'. requests (handle look ins det) rs s = Some (serveAll key rs M, s')"
  using assms
proof (induction rs arbitrary: s M)
  case Nil
  then show ?case by simp
next
  case (Cons r rs)
  obtain s1 where s1: "handle look ins det r s = Some (fst (serve key r M), s1)"
    "holds (length rs + n) s1 (snd (serve key r M))"
    using request_served [of "length rs + n" s M r] Cons.prems by auto
  obtain s2 where "requests (handle look ins det) rs s1 = Some (serveAll key rs (snd (serve key r M)), s2)"
    using Cons.IH [OF s1(2)] Cons.prems(2) by auto
  then show ?case using s1(1) by (simp add: Let_def split_beta)
qed

end

subsection \<open>The table as a dictionary\<close>

definition keyed :: "(loc \<Rightarrow> 'k) \<Rightarrow> ('k \<Rightarrow> u64) \<Rightarrow> (loc \<rightharpoonup> u64) \<Rightarrow> ('k \<rightharpoonup> loc) \<Rightarrow> bool" where
  "keyed key hf A M \<longleftrightarrow> (\<forall>x h. A x = Some h \<longrightarrow> h = hf (key x))
     \<and> (\<forall>k x. M k = Some x \<longleftrightarrow> x \<in> dom A \<and> key x = k)"

text \<open>
  The budget \<open>n\<close> bounds the insertions, hence \<open>size\<close>, the number of doublings and the grace periods:
  an operation waits for fewer than \<open>2 ^ 25\<close> of them.
\<close>

definition holdsTable :: "RCUReaderThreadRegistry \<Rightarrow> (loc \<Rightarrow> 'k) \<Rightarrow> ('k \<Rightarrow> u64) \<Rightarrow> nat \<Rightarrow> RTable \<times> mem
    \<Rightarrow> ('k \<rightharpoonup> loc) \<Rightarrow> bool" where
  "holdsTable reg key hf n = (\<lambda>(T, m) M. \<exists>j B. table m (core T) j B \<and> j < 30 \<and> keyed key hf (absTable m B) M
     \<and> quiet reg (n * 2 ^ 25) (rcuZone T) \<and> expandFactor (core T) = Fin 9227469 (-23)
     \<and> card (dom (absTable m B)) \<le> unat (tsize (core T)) \<and> unat (tsize (core T)) + n < 2 ^ 24)"

definition findKey :: "(loc \<Rightarrow> 'k) \<Rightarrow> ('k \<Rightarrow> u64) \<Rightarrow> 'k \<Rightarrow> RTable \<times> mem \<Rightarrow> ptr option" where
  "findKey key hf k = (\<lambda>(T, m). rTableFind T (hf k) (\<lambda>x. key x = k) m)"

definition insertNode :: "RCUReaderThreadRegistry \<Rightarrow> (loc \<Rightarrow> 'k) \<Rightarrow> ('k \<Rightarrow> u64) \<Rightarrow> loc \<Rightarrow> RTable \<times> mem
    \<Rightarrow> (bool \<times> RTable \<times> mem) option" where
  "insertNode reg key hf e = (\<lambda>(T, m). rTableTryInsert reg T e (hf (key e)) (\<lambda>x y. key x = key y) m)"

definition detachKey :: "RCUReaderThreadRegistry \<Rightarrow> (loc \<Rightarrow> 'k) \<Rightarrow> ('k \<Rightarrow> u64) \<Rightarrow> 'k \<Rightarrow> RTable \<times> mem
    \<Rightarrow> (ptr \<times> RTable \<times> mem) option" where
  "detachKey reg key hf k = (\<lambda>(T, m). rTableTryDetachAndSynchronize reg T (hf k) (\<lambda>x. key x = k) m)"

text \<open>The bucket of a key holds the node of that key and no other one with it.\<close>

lemma keyed_find:
  assumes tb: "table m t j B" and ky: "keyed key hf (absTable m B) M"
  shows "find (\<lambda>x. key x = k) (B ! (unat (hf k) mod 2 ^ j)) = M k"
proof -
  obtain q where at: "buckets_at m q j B" using tb by (rule tableE)
  let ?b = "B ! (unat (hf k) mod 2 ^ j)"
  have "x \<in> set ?b \<longleftrightarrow> x \<in> set (concat B)" if "key x = k" for x
  proof -
    have "x \<in> set (concat B) \<Longrightarrow> absTable m B x = Some (hashOf m x)" by (simp only: absTable_def if_True)
    then have "x \<in> set (concat B) \<Longrightarrow> hashOf m x = hf k" using ky that unfolding keyed_def by blast
    then have "x \<in> set (concat B) \<Longrightarrow> x \<in> set ?b" using table_member [OF at, of x] unfolding home_def by metis
    moreover have "x \<in> set ?b \<Longrightarrow> x \<in> set (concat B)"
      using concat_nth [of x B] buckets_atD(4) [OF at] by (metis mod_less_divisor zero_less_numeral zero_less_power)
    ultimately show ?thesis by blast
  qed
  then have in_b: "x \<in> set ?b \<and> key x = k \<longleftrightarrow> M k = Some x" for x
    using ky dom_absTable [of x m B] unfolding keyed_def by blast
  show ?thesis
  proof (cases "find (\<lambda>x. key x = k) ?b")
    case None
    then have "M k \<noteq> Some x" for x using in_b [of x] by (auto simp: find_None_iff)
    then show ?thesis using None by (cases "M k") auto
  next
    case (Some x)
    then show ?thesis using in_b [of x] find_split [OF Some] by auto
  qed
qed

text \<open>The nodes of a map that share the bucket of the key \<open>k\<close> in a table of \<open>2 ^ j\<close> buckets.\<close>

definition bucketMates :: "nat \<Rightarrow> ('k \<Rightarrow> u64) \<Rightarrow> ('k \<rightharpoonup> loc) \<Rightarrow> 'k \<Rightarrow> loc set" where
  "bucketMates j hf M k = {x. \<exists>k'. M k' = Some x \<and> unat (hf k') mod 2 ^ j = unat (hf k) mod 2 ^ j}"

lemma keyed_bucket:
  assumes tb: "table m t j B" and ky: "keyed key hf (absTable m B) M"
  shows "set (B ! (unat (hf k) mod 2 ^ j)) = bucketMates j hf M k"
proof -
  obtain q where at: "buckets_at m q j B" using tb by (rule tableE)
  let ?i = "unat (hf k) mod 2 ^ j"
  have i: "?i < 2 ^ j" by simp
  have "x \<in> set (B ! ?i) \<longleftrightarrow> x \<in> set (concat B) \<and> home m j x = ?i" for x
    using table_member [OF at, of x] table_home(1) [OF at i, of x] concat_nth [of x B] buckets_atD(4) [OF at] i by metis
  moreover have "x \<in> set (concat B) \<and> home m j x = ?i \<longleftrightarrow> x \<in> bucketMates j hf M k" for x
  proof -
    have "x \<in> set (concat B) \<Longrightarrow> absTable m B x = Some (hashOf m x)" by (simp only: absTable_def if_True)
    then have h: "x \<in> set (concat B) \<Longrightarrow> hashOf m x = hf (key x)" using ky unfolding keyed_def by blast
    have "M k' = Some x \<longleftrightarrow> x \<in> set (concat B) \<and> key x = k'" for k'
      using ky dom_absTable [of x m B] unfolding keyed_def by blast
    then show ?thesis using h by (auto simp: bucketMates_def home_def simp del: set_concat)
  qed
  ultimately show ?thesis by blast
qed

lemma keyed_insert:
  assumes "keyed key hf A M" "M (key e) = None" "e \<notin> dom A"
  shows "keyed key hf (A(e \<mapsto> hf (key e))) (M(key e \<mapsto> e))"
  using assms unfolding keyed_def by (auto split: if_splits) (metis domI option.distinct(1))+

lemma keyed_detach:
  assumes "keyed key hf A M" "M k = Some x"
  shows "keyed key hf (A(x := None)) (M(k := None))"
  using assms unfolding keyed_def by (auto split: if_splits) (metis domI option.inject)+

lemma quiet_mono:
  assumes "quiet reg (n + k) z"
  shows "quiet reg n z"
  using idle.ready_mono [OF assms] .

lemma budget_split:
  "c + 2 \<le> 2 ^ 25 \<Longrightarrow> Suc n * 2 ^ 25 = c + Suc (Suc (n * 2 ^ 25)) + (2 ^ 25 - 2 - c)"
  by simp

text \<open>
  Insertion with any predicate \<open>R\<close> that refuses when the key is there already: the node goes in
  unless \<open>R\<close> holds of some node in its bucket.
\<close>

lemma tableInsert_any:
  assumes h: "holdsTable reg key hf (Suc n) (T, m) M" and e: "isNode e" "M (key e) \<noteq> Some e"
    and R: "\<And>j. \<forall>x \<in> bucketMates j hf M (key e). \<not> R x e \<Longrightarrow> M (key e) = None"
  shows "\<exists>j b s'. rTableTryInsert reg T e (hf (key e)) R m = Some (b, s')
    \<and> (b \<longleftrightarrow> (\<forall>x \<in> bucketMates j hf M (key e). \<not> R x e))
    \<and> holdsTable reg key hf n s' (if b then M(key e \<mapsto> e) else M)"
proof -
  obtain j B where tb: "table m (core T) j B" and j: "j < 30" and ky: "keyed key hf (absTable m B) M"
    and q: "quiet reg (Suc n * 2 ^ 25) (rcuZone T)" and ef: "expandFactor (core T) = Fin 9227469 (-23)"
    and cd: "card (dom (absTable m B)) \<le> unat (tsize (core T))" "unat (tsize (core T)) + Suc n < 2 ^ 24"
    using h by (auto simp: holdsTable_def)
  let ?t = "core T"
  have ed: "e \<notin> dom (absTable m B)" using ky e(2) by (auto simp: keyed_def)
  have q': "quiet reg (card (dom (absTable m B)) + Suc (Suc (n * 2 ^ 25))) (rcuZone T)"
  proof -
    have "Suc n * 2 ^ 25 = card (dom (absTable m B)) + Suc (Suc (n * 2 ^ 25)) + (2 ^ 25 - 2 - card (dom (absTable m B)))"
      using cd by (intro budget_split) simp
    then show ?thesis using q quiet_mono by metis
  qed
  define b where "b = (\<forall>x \<in> bucketMates j hf M (key e). \<not> R x e)"
  have ins: "b = (\<not> (\<exists>x \<in> set (B ! (unat (hf (key e)) mod 2 ^ j)). R x e))"
    unfolding b_def keyed_bucket [OF tb ky] by blast
  have new: "b \<Longrightarrow> M (key e) = None" unfolding b_def by (rule R)
  define c where "c = (b \<and> f32_less (f32_mul (expandFactor ?t) (f32_of_u64 (2 ^ j))) (f32_of_u64 (tsize ?t + 1)))"
  have sz: "unat (tsize ?t + 1) = unat (tsize ?t) + 1" using cd(2) by (intro unat_add_small [THEN trans]) simp_all
  have j24: "j < 24" if c
  proof -
    have "9227469 * 2 ^ j < unat (tsize ?t + 1) * 2 ^ 23"
      using that expand_test [of j "tsize ?t + 1"] j sz cd(2) unfolding c_def ef by simp
    also have "\<dots> \<le> 2 ^ 24 * 2 ^ 23" using sz cd(2) by (intro mult_le_mono1) simp
    finally have "(2 :: nat) ^ j < 2 ^ 24" by simp
    then show ?thesis by (rule power_less_imp_less_exp [rotated]) simp
  qed
  obtain t' m' z' B' pq where x: "rTableCoreTryInsert (rcuSynchronize reg) ?t e (hf (key e)) R m (rcuZone T)
      = Some (b, t', m', z')" "quiet reg (n * 2 ^ 25) z'" "table m' t' (if c then Suc j else j) B'"
    "absTable m' B' = (if b then (absTable m B)(e \<mapsto> hf (key e)) else absTable m B)"
    "t' = ?t\<lparr>tsize := tsize ?t + (if b then 1 else 0), pBucketsInfo := pq\<rparr>"
    using idle.rTableCoreTryInsert_ok [where R = R, OF tb e(1) ed q' ins c_def] j by blast
  have fin: "finite (dom (absTable m B))"
  proof -
    have "dom (absTable m B) = set (concat B)" using dom_absTable [of _ m B] by blast
    then show ?thesis by (simp only: List.finite_set)
  qed
  have run: "rTableTryInsert reg T e (hf (key e)) R m = Some (b, \<lparr>core = t', rcuZone = z'\<rparr>, m')"
    using x(1) by (simp add: rTableTryInsert_def)
  have "keyed key hf (absTable m' B') (if b then M(key e \<mapsto> e) else M)"
    using x(4) ky keyed_insert [OF ky new ed] by simp
  moreover have "card (dom (absTable m' B')) \<le> unat (tsize t')"
    using x(4,5) cd(1) sz fin card_insert_le_m1 by (auto simp: card_insert_if)
  moreover have "unat (tsize t') + n < 2 ^ 24" using x(5) cd(2) sz by simp
  moreover have "expandFactor t' = Fin 9227469 (-23)" using x(5) ef by simp
  moreover have "(if c then Suc j else j) < 30" using j j24 by auto
  ultimately have "holdsTable reg key hf n (\<lparr>core = t', rcuZone = z'\<rparr>, m') (if b then M(key e \<mapsto> e) else M)"
    unfolding holdsTable_def prod.case using x(2,3)
    by (intro exI [of _ "if c then Suc j else j"] exI [of _ B'] conjI) (simp_all only: RTable.simps)
  then show ?thesis using run b_def by blast
qed

lemma tableInsert_new:
  assumes h: "holdsTable reg key hf (Suc n) s M" and e: "isNode e" "M (key e) \<noteq> Some e"
  shows "\<exists>s'. insertNode reg key hf e s = Some (M (key e) = None, s')
    \<and> holdsTable reg key hf n s' (if M (key e) = None then M(key e \<mapsto> e) else M)"
proof -
  obtain T m where s: "s = (T, m)" by (cases s)
  have k: "M k = Some x \<Longrightarrow> key x = k" for k x using h by (auto simp: s holdsTable_def keyed_def)
  have iff: "(\<forall>x \<in> bucketMates j hf M (key e). \<not> key x = key e) \<longleftrightarrow> M (key e) = None" for j
    using k by (cases "M (key e)") (auto simp: bucketMates_def)
  obtain j b s' where "rTableTryInsert reg T e (hf (key e)) (\<lambda>x y. key x = key y) m = Some (b, s')"
    "b \<longleftrightarrow> M (key e) = None" "holdsTable reg key hf n s' (if b then M(key e \<mapsto> e) else M)"
    using tableInsert_any [where R = "\<lambda>x y. key x = key y", OF h [unfolded s] e] unfolding iff by blast
  then show ?thesis by (auto simp: s insertNode_def)
qed

lemma holds_less:
  assumes "holdsTable reg key hf (Suc n) s M"
  shows "holdsTable reg key hf n s M"
proof -
  have "quiet reg (Suc n * 2 ^ 25) z \<Longrightarrow> quiet reg (n * 2 ^ 25) z" for z
    using quiet_mono [of reg "n * 2 ^ 25" "2 ^ 25"] by (simp add: add.commute)
  then show ?thesis using assms by (fastforce simp: holdsTable_def)
qed

lemma keyed_abs: "keyed key hf A M \<Longrightarrow> M (key e) = Some e \<Longrightarrow> A e = Some (hf (key e))"
  unfolding keyed_def by (metis domD)

lemma tableInsert_again:
  assumes h: "holdsTable reg key hf (Suc n) (T, m) M" and e: "M (key e) = Some e"
  shows "insertNode reg key hf e (T, m) = Some (False, T, emit (EHash e (hf (key e))) m)"
    and "holdsTable reg key hf n (T, emit (EHash e (hf (key e))) m) M"
proof -
  have "holdsTable reg key hf n (T, m) M" using h by (rule holds_less)
  then obtain j B where *: "table m (core T) j B" "j < 30" "keyed key hf (absTable m B) M"
    "quiet reg (n * 2 ^ 25) (rcuZone T)" "expandFactor (core T) = Fin 9227469 (-23)"
    "card (dom (absTable m B)) \<le> unat (tsize (core T))" "unat (tsize (core T)) + n < 2 ^ 24"
    by (auto simp: holdsTable_def)
  note a = rTableCoreTryInsertNoExpand_again [where R = "\<lambda>x y. key x = key y", OF *(1) keyed_abs [OF *(3) e] refl]
  show "insertNode reg key hf e (T, m) = Some (False, T, emit (EHash e (hf (key e))) m)"
    by (simp add: insertNode_def rTableTryInsert_def rTableCoreTryInsert_def a(1))
  show "holdsTable reg key hf n (T, emit (EHash e (hf (key e))) m) M"
    using * a(2,3) unfolding holdsTable_def prod.case by (intro exI [of _ j] exI [of _ B]) simp
qed

lemma tableInsert_law:
  assumes h: "holdsTable reg key hf (Suc n) s M" and e: "isNode e"
  shows "\<exists>s'. insertNode reg key hf e s = Some (M (key e) = None, s')
    \<and> holdsTable reg key hf n s' (if M (key e) = None then M(key e \<mapsto> e) else M)"
proof (cases "M (key e) = Some e")
  case True
  then show ?thesis using tableInsert_again [where key = key and hf = hf, of reg n "fst s" "snd s" M e] h by auto
next
  case False
  then show ?thesis by (rule tableInsert_new [OF assms])
qed

lemma tableDetach_law:
  assumes h: "holdsTable reg key hf (Suc n) s M"
  shows "\<exists>s'. detachKey reg key hf k s = Some (M k, s') \<and> holdsTable reg key hf n s' (M(k := None))"
proof -
  obtain T m where s: "s = (T, m)" by (cases s)
  obtain j B where tb: "table m (core T) j B" and j: "j < 30" and ky: "keyed key hf (absTable m B) M"
    and q: "quiet reg (Suc n * 2 ^ 25) (rcuZone T)" and ef: "expandFactor (core T) = Fin 9227469 (-23)"
    and cd: "card (dom (absTable m B)) \<le> unat (tsize (core T))" "unat (tsize (core T)) + Suc n < 2 ^ 24"
    using h by (auto simp: holdsTable_def s)
  have q0: "quiet reg (n * 2 ^ 25) (rcuZone T)" and q1: "quiet reg (Suc (n * 2 ^ 25)) (rcuZone T)"
    using q quiet_mono [of reg "n * 2 ^ 25" "2 ^ 25"] quiet_mono [of reg "Suc (n * 2 ^ 25)" "2 ^ 25 - 1"]
    by (simp_all add: add.commute)
  let ?t = "core T"
  obtain t' m' z' j' B' pq where x: "rTableCoreTryDetachAndSynchronize (rcuSynchronize reg) ?t (hf k) (\<lambda>x. key x = k) m (rcuZone T)
      = Some (M k, t', m', z')" "table m' t' j' B'" "j' \<le> j" "t' = ?t\<lparr>pBucketsInfo := pq\<rparr>"
    "case M k of None \<Rightarrow> z' = rcuZone T \<and> absTable m' B' = absTable m B
      | Some x \<Rightarrow> rcuSynchronize reg (rcuZone T) = Some z' \<and> quiet reg (n * 2 ^ 25) z' \<and> absTable m' B' = (absTable m B)(x := None)"
    using idle.rTableCoreTryDetachAndSynchronize_ok [OF tb q1, of "hf k" "\<lambda>x. key x = k"]
    unfolding keyed_find [OF tb ky] by blast
  have run: "detachKey reg key hf k s = Some (M k, \<lparr>core = t', rcuZone = z'\<rparr>, m')"
    using x(1) by (simp add: detachKey_def rTableTryDetachAndSynchronize_def s)
  have "keyed key hf (absTable m' B') (M(k := None)) \<and> quiet reg (n * 2 ^ 25) z'
      \<and> card (dom (absTable m' B')) \<le> unat (tsize t')"
  proof (cases "M k")
    case None
    then have "M(k := None) = M" by auto
    then show ?thesis using None x(4,5) ky q0 cd(1) by simp
  next
    case (Some y)
    have "card (dom (absTable m B) - {y}) \<le> card (dom (absTable m B))" by (rule card_Diff1_le)
    then show ?thesis using Some x(4,5) keyed_detach [OF ky Some] cd(1) by auto
  qed
  moreover have "unat (tsize t') + n < 2 ^ 24" "expandFactor t' = Fin 9227469 (-23)" using x(4) cd(2) ef by simp_all
  moreover have "j' < 30" using x(3) j by simp
  ultimately have "holdsTable reg key hf n (\<lparr>core = t', rcuZone = z'\<rparr>, m') (M(k := None))"
    unfolding holdsTable_def prod.case using x(2)
    by (intro exI [of _ j'] exI [of _ B'] conjI) (simp_all only: RTable.simps simp_thms)
  then show ?thesis using run by blast
qed

lemma tableFind_law:
  assumes "holdsTable reg key hf n s M"
  shows "findKey key hf k s = Some (M k)"
proof -
  obtain T m j B where "s = (T, m)" "table m (core T) j B" "keyed key hf (absTable m B) M"
    using assms by (cases s) (auto simp: holdsTable_def)
  then show ?thesis
    using rTableCoreFind_eq keyed_find by (simp add: findKey_def rTableFind_def)
qed

interpretation tableDict: dictionary "holdsTable reg key hf" key isNode "findKey key hf"
  "insertNode reg key hf" "detachKey reg key hf" for reg key hf
  by unfold_locales (fact tableFind_law tableInsert_law tableDetach_law holds_less)+

subsection \<open>From initialisation on\<close>

lemma zero_counts_drained:
  assumes "wf_zone reg z" "counts z = Some (replicate (2 * nbuckets reg z) 0)"
  shows "drained reg z e"
  using assms index_bound [OF _ row_less] by (auto simp: drained_def countAt_def)

lemma rTableInit_holds:
  assumes "unat nb \<le> 2 ^ 20" "unat hc \<le> 2 ^ 20" "unat (nrNonOverlappingBucketCount reg) \<le> 2 ^ 29"
    and "fresh_blocks m" and "n < 2 ^ 24"
  shows "\<exists>s. rTableInit reg hc freshRTable nb m = Some s \<and> holdsTable reg key hf n s Map.empty
    \<and> (\<exists>j B. table (snd s) (core (fst s)) j B \<and> (\<forall>i. unat nb \<le> 2 ^ i \<longrightarrow> j \<le> i))"
proof -
  have "unat (hc * 64) = unat hc * 64" using assms(2) by (simp add: unat_word_ariths)
  then have hz: "unat (hc * 64) \<le> 2 ^ 30" using assms(2) by simp
  obtain z where z: "rcuInitZoneWithBucketCounts reg freshZone (hc * 64) = Some z" "wf_zone reg z"
    "epochLatest z = 0" "epochOldest z = 0" "counts z = Some (replicate (2 * nbuckets reg z) 0)"
    using rcuInitZoneWithBucketCounts_ok [OF hz assms(3), of freshZone] by metis
  let ?conf = "\<lparr>cfgBuckets = nb, cfgExpandFactor = Fin 9227469 (-23), cfgShrinkFactor = Fin 1 (-2)\<rparr>"
  have nb: "unat (cfgBuckets ?conf) \<le> 2 ^ 30" using assms(1) by simp
  obtain t' m' j where t: "rTableCoreInitDetailed freshTable ?conf m = Some (t', m')"
    "table m' t' j (replicate (2 ^ j) [])" "tsize t' = 0" "expandFactor t' = Fin 9227469 (-23)" "j < 30"
    "\<forall>i. unat nb \<le> 2 ^ i \<longrightarrow> j \<le> i"
  proof -
    obtain t' m' j where *: "rTableCoreInitDetailed freshTable ?conf m = Some (t', m')"
      "table m' t' j (replicate (2 ^ j) [])" "tsize t' = tsize freshTable" "expandFactor t' = cfgExpandFactor ?conf"
      "\<And>i. unat (cfgBuckets ?conf) \<le> 2 ^ i \<Longrightarrow> j \<le> i" using init_table [OF nb assms(4), of freshTable] by metis
    moreover have "j \<le> 20" using *(5) [of 20] assms(1) by simp
    ultimately show ?thesis using that by (simp add: freshTable_def)
  qed
  have run: "rTableInit reg hc freshRTable nb m = Some (\<lparr>core = t', rcuZone = z\<rparr>, m')"
    using z(1) t(1) by (simp add: rTableInit_def rTableInitDetailed_def defaultConfig_def freshRTable_def Let_def)
  have ab: "absTable m' (replicate (2 ^ j) []) = Map.empty" by (auto simp: absTable_def)
  have "n * 2 ^ 25 < 2 ^ 24 * 2 ^ 25" using assms(5) by (intro mult_strict_right_mono) simp_all
  also have "\<dots> < 2 ^ 63" by simp
  finally have nq: "int (n * 2 ^ 25) < 2 ^ 63" using of_nat_less_iff [of "n * 2 ^ 25" "2 ^ 63", where 'a = int] by simp
  have "quiet reg (n * 2 ^ 25) z"
    using z(2-5) zero_counts_drained [OF z(2,5)] nq unfolding quiet_def by auto
  then have "holdsTable reg key hf n (\<lparr>core = t', rcuZone = z\<rparr>, m') Map.empty"
    unfolding holdsTable_def prod.case using t(2-5) assms(5)
    by (intro exI [of _ j] exI [of _ "replicate (2 ^ j) []"] conjI) (simp_all add: ab keyed_def)
  then show ?thesis using run t(2,6) by auto
qed

end
