(* ===== verification/Readers.thy ===== *)
theory Readers
  imports TableCore
begin

text \<open>
  Concurrent lookups.  A reader runs \<open>rTableCoreFind\<close> one shared access at a time: it loads
  \<open>pBucketsInfo\<close>, reads the number of buckets from the block, and follows \<open>next\<close> fields, comparing the
  key of every node it meets.  The writer's stores come between these accesses.

  A set \<open>V\<close> of addresses \<^emph>\<open>covers\<close> a memory for a hash value and a target if a reader of that hash
  value that stands in \<open>V\<close> stays in \<open>V\<close> until it meets the target, or the end of the list when the
  target is null.  A \<^emph>\<open>script\<close> is a sequence of the writer's writes after each of which a set still
  covers the memory; the set only grows, except at a grace period, when no old reader is left.
\<close>

subsection \<open>A lookup, access by access\<close>

text \<open>
  \<^item> \<open>Loaded k b\<close>: the block \<open>b\<close> was loaded from \<open>pBucketsInfo\<close>;
  \<^item> \<open>At k p\<close>: about to load the \<open>next\<close> field of \<open>p\<close>;
  \<^item> \<open>Visit k y\<close>: about to call the predicate on the node \<open>y\<close>;
  \<^item> \<open>Hit k y\<close>, \<open>Miss k\<close>: the lookup returned \<open>y\<close>, or null;
  \<^item> \<open>Fault k\<close>: it accessed null, or a block that is not live.
\<close>

datatype 'k search = Idle | Loaded 'k nat | At 'k loc | Visit 'k loc | Hit 'k loc | Miss 'k | Fault 'k

fun beginSearch :: "nat option \<Rightarrow> 'k \<Rightarrow> 'k search" where
  "beginSearch None k = Fault k"
| "beginSearch (Some b) k = Loaded k b"

fun liveHead :: "mem \<Rightarrow> loc \<Rightarrow> bool" where
  "liveHead m (BucketHead b i) = (bucketAt m b i \<noteq> None)"
| "liveHead m (NodeHead n) = True"

fun searchStep :: "(loc \<Rightarrow> 'k) \<Rightarrow> ('k \<Rightarrow> u64) \<Rightarrow> mem \<Rightarrow> 'k search \<Rightarrow> 'k search" where
  "searchStep key hf m (Loaded k b) =
     (case blocks m b of None \<Rightarrow> Fault k
      | Some n \<Rightarrow> (case bucketAt m b (unat (hf k AND (n - 1))) of None \<Rightarrow> Fault k | Some p \<Rightarrow> At k p))"
| "searchStep key hf m (At k p) =
     (if liveHead m p then (case nxt m p of None \<Rightarrow> Miss k | Some y \<Rightarrow> Visit k y) else Fault k)"
| "searchStep key hf m (Visit k y) = (if key y = k then Hit k y else At k y)"
| "searchStep key hf m s = s"

fun finished :: "'k search \<Rightarrow> bool" where
  "finished Idle = True" | "finished (Hit k y) = True" | "finished (Miss k) = True"
| "finished s = False"

text \<open>Without interference the accesses compute \<open>rTableCoreFind\<close>.\<close>

abbreviation searchSteps :: "(loc \<Rightarrow> 'k) \<Rightarrow> ('k \<Rightarrow> u64) \<Rightarrow> mem \<Rightarrow> nat \<Rightarrow> 'k search \<Rightarrow> 'k search" where
  "searchSteps key hf m n \<equiv> (searchStep key hf m) ^^ n"

definition outcome :: "'k \<Rightarrow> ptr \<Rightarrow> 'k search" where
  "outcome k r = (case r of None \<Rightarrow> Miss k | Some y \<Rightarrow> Hit k y)"

lemma searchSteps_Suc: "searchSteps key hf m (Suc n) s = searchSteps key hf m n (searchStep key hf m s)"
  by (simp add: funpow_swap1)

lemma search_lst:
  assumes "lst (nxt m) (nxt m p) xs" and "liveHead m p" and "\<forall>x \<in> set xs. isNode x"
  shows "\<exists>n. searchSteps key hf m n (At k p) = outcome k (find (\<lambda>x. key x = k) xs)"
  using assms
proof (induction xs arbitrary: p)
  case Nil
  then show ?case by (intro exI [of _ 1]) (simp add: outcome_def)
next
  case (Cons x xs)
  have x: "nxt m p = Some x" "lst (nxt m) (nxt m x) xs" "liveHead m x"
    using Cons.prems by (auto simp: isNode_def split: loc.splits)
  show ?case
  proof (cases "key x = k")
    case True
    then show ?thesis using Cons.prems x by (intro exI [of _ 2]) (simp add: outcome_def numeral_2_eq_2)
  next
    case False
    obtain n where "searchSteps key hf m n (At k x) = outcome k (find (\<lambda>x. key x = k) xs)"
      using Cons.IH [OF x(2,3)] Cons.prems(3) by auto
    then show ?thesis using Cons.prems(2) x(1) False
      by (intro exI [of _ "Suc (Suc n)"]) (simp only: searchSteps_Suc, simp)
  qed
qed

lemma search_alone:
  assumes "table m t j B"
  shows "\<exists>n r. searchSteps key hf m n (beginSearch (pBucketsInfo t) k) = outcome k r
    \<and> rTableCoreFind t (hf k) (\<lambda>x. key x = k) m = Some r"
proof -
  let ?i = "unat (hf k) mod 2 ^ j"
  obtain b where b: "pBucketsInfo t = Some b" "buckets_at m b j B" using assms by (rule tableE)
  have i: "?i < 2 ^ j" by simp
  have j: "j < 31" "blocks m b = Some (2 ^ j)" using buckets_atD [OF b(2)] by auto
  have "bucketAt m b (unat (hf k AND (2 ^ j - 1))) = Some (BucketHead b ?i)"
    using j i by (simp add: bucketAt_def and_mask_unat unat_two_power)
  then have s1: "searchStep key hf m (beginSearch (pBucketsInfo t) k) = At k (BucketHead b ?i)"
    using b(1) j(2) by simp
  have lv: "liveHead m (BucketHead b ?i)" using j i by (simp add: bucketAt_def unat_two_power)
  obtain n where "searchSteps key hf m n (At k (BucketHead b ?i)) = outcome k (find (\<lambda>x. key x = k) (B ! ?i))"
    using search_lst [OF _ lv] buckets_atD(5) [OF b(2) i] unfolding bucket_ok_def slist_def by metis
  then have "searchSteps key hf m (Suc n) (beginSearch (pBucketsInfo t) k) = outcome k (find (\<lambda>x. key x = k) (B ! ?i))"
    by (simp only: searchSteps_Suc s1)
  then show ?thesis using rTableCoreFind_eq [OF assms] by blast
qed

subsection \<open>Covers\<close>

text \<open>\<open>leads m q n p\<close>: from \<open>p\<close>, the pointer \<open>q\<close> is loaded after \<open>n\<close> other ones.\<close>

primrec leads :: "mem \<Rightarrow> ptr \<Rightarrow> nat \<Rightarrow> loc \<Rightarrow> bool" where
  "leads m q 0 p \<longleftrightarrow> nxt m p = q"
| "leads m q (Suc n) p \<longleftrightarrow> (\<exists>y. nxt m p = Some y \<and> leads m q n y)"

text \<open>
  Every address in \<open>V\<close> is allowed (in \<open>G\<close>) and leads to the target through \<open>V\<close>; the bucket in which a
  reader of the hash value \<open>h\<close> starts is in \<open>V\<close>, and the buckets in \<open>V\<close> are live.
\<close>

definition cover :: "u64 \<Rightarrow> ptr \<Rightarrow> loc set \<Rightarrow> nat option \<Rightarrow> mem \<Rightarrow> loc set \<Rightarrow> bool" where
  "cover h q G pub m V \<longleftrightarrow> V \<subseteq> G
     \<and> (\<exists>k i. pub = Some k \<and> BucketHead k i \<in> V)
     \<and> (\<forall>k i. BucketHead k i \<in> V \<longrightarrow> (\<exists>j < 32. blocks m k = Some (2 ^ j) \<and> i = unat h mod 2 ^ j))
     \<and> (\<forall>p \<in> V. (nxt m p = q \<or> (\<exists>y \<in> V. isNode y \<and> nxt m p = Some y)) \<and> (\<exists>n. leads m q n p))"

lemma coverD:
  assumes "cover h q G pub m V"
  shows "V \<subseteq> G" "\<exists>k i. pub = Some k \<and> BucketHead k i \<in> V"
    "BucketHead k i \<in> V \<Longrightarrow> \<exists>j < 32. blocks m k = Some (2 ^ j) \<and> i = unat h mod 2 ^ j"
    "p \<in> V \<Longrightarrow> nxt m p = q \<or> (\<exists>y \<in> V. isNode y \<and> nxt m p = Some y)"
    "p \<in> V \<Longrightarrow> \<exists>n. leads m q n p"
  using assms unfolding cover_def by blast+

lemma leads_frame:
  assumes "leads m q n p" "p \<in> V" "\<And>p. p \<in> V \<Longrightarrow> nxt m p = q \<or> (\<exists>y \<in> V. nxt m p = Some y)"
    and "\<And>p. p \<in> V \<Longrightarrow> nxt m' p = nxt m p"
  shows "\<exists>n. leads m' q n p"
  using assms(1,2)
proof (induction n arbitrary: p)
  case 0
  then show ?case using assms(4) by (intro exI [of _ 0]) simp
next
  case (Suc n)
  then obtain y where y: "nxt m p = Some y" "leads m q n y" by auto
  show ?case
  proof (cases "nxt m p = q")
    case True
    then show ?thesis using assms(4) Suc.prems(2) by (intro exI [of _ 0]) simp
  next
    case False
    then have "y \<in> V" using assms(3) [OF Suc.prems(2)] y(1) by auto
    then obtain n' where "leads m' q n' y" using Suc.IH y(2) by blast
    then show ?thesis using y(1) assms(4) [OF Suc.prems(2)] by (intro exI [of _ "Suc n'"]) simp
  qed
qed

lemma cover_frame:
  assumes c: "cover h q G pub m V" and n: "\<And>p. p \<in> V \<Longrightarrow> nxt m' p = nxt m p"
    and b: "\<And>k i. BucketHead k i \<in> V \<Longrightarrow> blocks m' k = blocks m k"
  shows "cover h q G pub m' V"
proof -
  have "\<exists>n. leads m' q n p" if "p \<in> V" for p
    using coverD(5) [OF c that] leads_frame [of m q _ p V m'] that n coverD(4) [OF c] by blast
  then show ?thesis using c n b unfolding cover_def by auto
qed

lemma cover_off: "cover h q G pub m V \<Longrightarrow> a \<notin> V \<Longrightarrow> cover h q G pub (storeNext a p m) V"
  by (erule cover_frame) auto

lemma cover_hash: "cover h q G pub m V \<Longrightarrow> cover h q G pub (emit (EHash a x) m) V"
  by (erule cover_frame) auto

lemma cover_sync: "cover h q G pub m V \<Longrightarrow> cover h q G pub (emit ESync m) V"
  by (erule cover_frame) auto

lemma cover_alloc: "cover h q G pub m V \<Longrightarrow> blocks m k = None \<Longrightarrow> cover h q G pub (emit (EAlloc k n) m) V"
  by (rule cover_frame) (auto dest: coverD(3))

lemma cover_free: "cover h q G pub m V \<Longrightarrow> \<forall>i. BucketHead k i \<notin> V \<Longrightarrow> cover h q G pub (emit (EFree k) m) V"
  by (erule cover_frame) auto

text \<open>A path up to the target covers.\<close>

definition until :: "ptr \<Rightarrow> loc list \<Rightarrow> loc list" where
  "until q xs = takeWhile (\<lambda>y. Some y \<noteq> q) xs"

lemma set_until: "y \<in> set (until q xs) \<Longrightarrow> y \<in> set xs \<and> Some y \<noteq> q"
  unfolding until_def by (auto dest: set_takeWhileD)

lemma until_chain: "lst nx p xs \<Longrightarrow> q = None \<or> (\<exists>x \<in> set xs. q = Some x) \<Longrightarrow> chain nx p (until q xs) q"
  by (induction xs arbitrary: p) (auto simp: until_def)

lemma chain_leads:
  assumes "chain (nxt m) (nxt m l) ys q" and "p \<in> set (l # ys)"
  shows "(nxt m p = q \<or> (\<exists>y \<in> set ys. nxt m p = Some y)) \<and> (\<exists>n. leads m q n p)"
  using assms
proof (induction ys arbitrary: l p)
  case Nil
  then show ?case by (auto intro!: exI [of _ 0])
next
  case (Cons y ys)
  have y: "nxt m l = Some y" "chain (nxt m) (nxt m y) ys q" using Cons.prems(1) by auto
  show ?case
  proof (cases "p = l")
    case True
    obtain n where "leads m q n y" using Cons.IH [OF y(2), of y] by auto
    then show ?thesis using True y(1) by (auto intro!: exI [of _ "Suc n"])
  next
    case False
    then show ?thesis using Cons.IH [OF y(2), of p] Cons.prems(2) by auto
  qed
qed

lemma cover_path:
  assumes "slist m (BucketHead k i) xs" and "q = None \<or> (\<exists>x \<in> set xs. q = Some x)"
    and "\<forall>y \<in> set xs. isNode y" and "BucketHead k i \<in> G" "set (until q xs) \<subseteq> G"
    and "blocks m k = Some (2 ^ j)" "j < 32" "i = unat h mod 2 ^ j"
  shows "cover h q G (Some k) m (insert (BucketHead k i) (set (until q xs)))"
proof -
  let ?l = "BucketHead k i" and ?ys = "until q xs"
  have "chain (nxt m) (nxt m ?l) ?ys q" using until_chain assms(1,2) by (simp add: slist_def)
  from chain_leads [OF this] have
    "(nxt m p = q \<or> (\<exists>y \<in> set ?ys. nxt m p = Some y)) \<and> (\<exists>n. leads m q n p)" if "p \<in> insert ?l (set ?ys)" for p
    using that by simp
  moreover have "isNode y" if "y \<in> set ?ys" for y using that assms(3) set_until by blast
  moreover from this have "BucketHead k' i' \<in> insert ?l (set ?ys) \<Longrightarrow> k' = k \<and> i' = i" for k' i'
    by (force simp: isNode_def)
  ultimately show ?thesis using assms(4-8) unfolding cover_def by blast
qed

lemma cover_union:
  assumes "cover h q G pub m V" and "cover h q G pub' m W"
  shows "cover h q G pub' m (V \<union> W)"
proof -
  have "\<exists>j < 32. blocks m k = Some (2 ^ j) \<and> i = unat h mod 2 ^ j" if "BucketHead k i \<in> V \<union> W" for k i
    using that coverD(3) [OF assms(1)] coverD(3) [OF assms(2)] by blast
  moreover have "(nxt m p = q \<or> (\<exists>y \<in> V \<union> W. isNode y \<and> nxt m p = Some y)) \<and> (\<exists>n. leads m q n p)"
    if "p \<in> V \<union> W" for p
    using that coverD(4,5) [OF assms(1)] coverD(4,5) [OF assms(2)] by blast
  ultimately show ?thesis
    using coverD(1,2) [OF assms(1)] coverD(1,2) [OF assms(2)] unfolding cover_def by blast
qed

lemma cover_publish: "cover h q G pub m V \<Longrightarrow> cover h q G pub (emit (EPublish p) m) V"
  by (erule cover_frame) auto

subsection \<open>Stores that keep a cover\<close>

text \<open>Skipping a part of a list that does not hold the target.\<close>

lemma leads_after:
  assumes "leads m q n a" "chain (nxt m) (nxt m a) S p" "\<forall>s \<in> set S. Some s \<noteq> q"
  shows "p = q \<or> (\<exists>y k. p = Some y \<and> k < n \<and> leads m q k y)"
  using assms
proof (induction S arbitrary: a n)
  case Nil
  then show ?case by (cases n) auto
next
  case (Cons s S)
  then obtain n' where n': "n = Suc n'" "leads m q n' s" by (cases n) auto
  then show ?case using Cons.IH [OF n'(2)] Cons.prems(2,3) less_Suc_eq by auto
qed

lemma leads_skip:
  assumes "leads m q n p" "chain (nxt m) (nxt m a) S r" "\<forall>s \<in> set S. Some s \<noteq> q"
  shows "\<exists>n. leads (storeNext a r m) q n p"
  using assms(1)
proof (induction n arbitrary: p rule: less_induct)
  case (less n)
  show ?case
  proof (cases "p = a")
    case True
    then consider "r = q" | y k where "r = Some y" "k < n" "leads m q k y"
      using leads_after [OF _ assms(2,3), of n] less.prems by blast
    then show ?thesis
    proof cases
      case 1
      then show ?thesis using True by (intro exI [of _ 0]) simp
    next
      case 2
      then obtain n' where "leads (storeNext a r m) q n' y" using less.IH by blast
      then show ?thesis using True 2(1) by (intro exI [of _ "Suc n'"]) simp
    qed
  next
    case False
    show ?thesis
    proof (cases n)
      case 0
      then show ?thesis using False less.prems by (intro exI [of _ 0]) simp
    next
      case (Suc k)
      then obtain y where y: "nxt m p = Some y" "leads m q k y" using less.prems by auto
      then obtain n' where "leads (storeNext a r m) q n' y" using less.IH Suc by blast
      then show ?thesis using y(1) False by (intro exI [of _ "Suc n'"]) simp
    qed
  qed
qed

lemma closed_chain:
  assumes "cover h q G pub m V" "a \<in> V" "chain (nxt m) (nxt m a) S r" "\<forall>s \<in> set S. Some s \<noteq> q"
  shows "r = q \<or> (\<exists>y \<in> V. isNode y \<and> r = Some y)"
  using assms(2-4)
proof (induction S arbitrary: a)
  case Nil
  then show ?case using coverD(4) [OF assms(1)] by auto
next
  case (Cons s S)
  then have "s \<in> V" using coverD(4) [OF assms(1), of a] by auto
  then show ?case using Cons by auto
qed

lemma cover_skip:
  assumes c: "cover h q G pub m V" and S: "chain (nxt m) (nxt m a) S r" "a \<in> V \<Longrightarrow> \<forall>s \<in> set S. Some s \<noteq> q"
  shows "cover h q G pub (storeNext a r m) V"
proof (cases "a \<in> V")
  case True
  have "\<exists>n. leads (storeNext a r m) q n p" if "p \<in> V" for p
    using coverD(5) [OF c that] leads_skip [OF _ S(1) S(2) [OF True]] by blast
  moreover have "nxt (storeNext a r m) p = q \<or> (\<exists>y \<in> V. isNode y \<and> nxt (storeNext a r m) p = Some y)"
    if "p \<in> V" for p
    using closed_chain [OF c True S(1) S(2) [OF True]] coverD(4) [OF c that] by simp
  ultimately show ?thesis using c unfolding cover_def by simp
qed (rule cover_off [OF c])

text \<open>Linking a list behind a last element: only a reader that runs to the end can get there.\<close>

lemma cover_append:
  assumes c: "cover h q G pub m V" and a: "nxt m a = None"
    and W: "lst (nxt m) r W" "a \<notin> set W" "set W \<subseteq> G" "\<forall>w \<in> set W. isNode w"
  shows "\<exists>U. V \<subseteq> U \<and> U \<subseteq> V \<union> set W \<and> cover h q G pub (storeNext a r m) U"
proof (cases "a \<in> V")
  case False
  then show ?thesis using cover_off [OF c] by blast
next
  case True
  then have q: "q = None" using coverD(4) [OF c True] a by auto
  let ?m = "storeNext a r m"
  have l: "lst (nxt ?m) (nxt ?m a) W" using W(1,2) by simp
  have "(nxt ?m p = q \<or> (\<exists>y \<in> V \<union> set W. isNode y \<and> nxt ?m p = Some y)) \<and> (\<exists>n. leads ?m q n p)"
    if "p \<in> V \<union> set W" for p
  proof (cases "p \<in> set (a # W)")
    case True
    then show ?thesis using chain_leads [OF l True] W(4) q by blast
  next
    case False
    then have p: "p \<in> V" "p \<noteq> a" using that by auto
    have "\<exists>n. leads ?m q n p" if "leads m q n p" for n p
      using that
    proof (induction n arbitrary: p)
      case 0
      then show ?case using chain_leads [OF l, of a] q by (cases "p = a") (auto intro!: exI [of _ 0])
    next
      case (Suc n)
      then obtain y where y: "nxt m p = Some y" "leads m q n y" by auto
      then obtain n' where "leads ?m q n' y" using Suc.IH by blast
      moreover have "p \<noteq> a" using y(1) a by auto
      ultimately show ?case using y(1) by (intro exI [of _ "Suc n'"]) simp
    qed
    then show ?thesis using coverD(4,5) [OF c p(1)] p(2) by auto
  qed
  then have "cover h q G pub ?m (V \<union> set W)"
    using c W(3,4) unfolding cover_def by (auto simp: isNode_def)
  then show ?thesis by blast
qed

text \<open>Linking a new node.\<close>

lemma cover_insert:
  assumes c: "cover h q G pub m V" and a: "a \<in> V" and e: "nxt m e = nxt m a" "e \<noteq> a" "isNode e" "e \<in> G"
  shows "cover h q G pub (storeNext a (Some e) m) (insert e V)"
proof -
  let ?m = "storeNext a (Some e) m"
  have L: "\<exists>n. leads ?m q n p" if "leads m q n p" for n p
    using that
  proof (induction n arbitrary: p)
    case 0
    then have "leads ?m q (if p = a then Suc 0 else 0) p" using e by auto
    then show ?case by blast
  next
    case (Suc n)
    then obtain y where y: "nxt m p = Some y" "leads m q n y" by auto
    then obtain n' where "leads ?m q n' y" using Suc.IH by blast
    then have "leads ?m q (if p = a then Suc (Suc n') else Suc n') p" using y(1) e by auto
    then show ?case by blast
  qed
  obtain n where "leads m q n a" using coverD(5) [OF c a] by blast
  then have "leads m q n e" using e(1) by (cases n) auto
  then have "\<exists>n. leads ?m q n e" using L by blast
  moreover have "nxt ?m e = q \<or> (\<exists>y \<in> insert e V. isNode y \<and> nxt ?m e = Some y)"
    using coverD(4) [OF c a] e by auto
  moreover have "(nxt ?m p = q \<or> (\<exists>y \<in> insert e V. isNode y \<and> nxt ?m p = Some y)) \<and> (\<exists>n. leads ?m q n p)" if "p \<in> V" for p
    using coverD(4,5) [OF c that] L e(3) by auto
  ultimately show ?thesis using c e(3,4) unfolding cover_def by (auto simp: isNode_def)
qed

subsection \<open>Properties\<close>

lemma outcome_stays: "searchSteps key hf m n (outcome k r) = outcome k r"
  by (induction n) (auto simp: outcome_def split: option.split)

lemma outcome_inj [simp]: "outcome k r = outcome k r' \<longleftrightarrow> r = r'"
  by (auto simp: outcome_def split: option.splits)

lemma outcome_unique:
  assumes "searchSteps key hf m n s = outcome k r" and "searchSteps key hf m n' s = outcome k r'"
  shows "r = r'"
proof -
  have "r = r'" if "n \<le> n'" "searchSteps key hf m n s = outcome k r" "searchSteps key hf m n' s = outcome k r'" for n n' r r'
  proof -
    have "searchSteps key hf m n' s = searchSteps key hf m (n' - n) (searchSteps key hf m n s)"
      using that(1) funpow_add [of "n' - n" n "searchStep key hf m"] by simp
    then show ?thesis using that(2,3) by (simp add: outcome_stays)
  qed
  then show ?thesis using assms by (metis nle_le)
qed

text \<open>
  C32.  Executed one shared access at a time, without interference, a lookup computes exactly what
  \<open>rTableCoreFind\<close> computes.
\<close>

theorem find_by_accesses:
  assumes "table m t j B"
  shows "rTableCoreFind t (hf k) (\<lambda>x. key x = k) m = Some r
    \<longleftrightarrow> (\<exists>n. searchSteps key hf m n (beginSearch (pBucketsInfo t) k) = outcome k r)"
proof -
  obtain n r' where "searchSteps key hf m n (beginSearch (pBucketsInfo t) k) = outcome k r'"
    "rTableCoreFind t (hf k) (\<lambda>x. key x = k) m = Some r'" using search_alone [OF assms, of key hf k] by blast
  then show ?thesis using outcome_unique by (metis option.inject)
qed

theorem find_by_accesses_witness:
  "\<exists>n. searchSteps (\<lambda>x. case x of NodeHead y \<Rightarrow> y | _ \<Rightarrow> 0) (\<lambda>_. 0) exMem n (beginSearch (pBucketsInfo exTable) 3)
    = outcome 3 (Some (NodeHead 3))"
proof -
  have "rTableCoreFind exTable 0 (\<lambda>x. (case x of NodeHead y \<Rightarrow> y | _ \<Rightarrow> 0) = 3) exMem = Some (Some (NodeHead 3))"
    using rTableCoreFind_eq [OF exMem_table, of 0 "\<lambda>x. (case x of NodeHead y \<Rightarrow> y | _ \<Rightarrow> 0) = 3"] by (simp add: exBuckets_def)
  then show ?thesis using find_by_accesses [OF exMem_table, of "\<lambda>_. 0" 3 "\<lambda>x. case x of NodeHead y \<Rightarrow> y | _ \<Rightarrow> 0"] by simp
qed

end
