(* ===== verification/RcuProtocol.thy ===== *)
theory RcuProtocol
  imports RcuZone
begin

text \<open>
  The zone under interleaving: any number of reader threads run \<open>rcuReadLock\<close> and
  \<open>rcuReadUnlock\<close> while one writer runs \<open>rcuSynchronize\<close>.  Every access to an atomic is one step,
  so a reader may be delayed between its first load of the epoch, its increment, its second load
  and the undo, and the writer scans the row bucket by bucket.  Steps interleave sequentially
  consistently; the memory orders of the code are the subject of \<open>OrderedBenchmark\<close>.  Writers are serialised,
  as the hash table requires, and a thread's \<open>tlsReaderBucketId\<close> does not change while it is
  counted in.
\<close>

subsection \<open>Program counters and states\<close>

text \<open>
  \<^item> \<open>ROut\<close>: outside; \<open>RTop\<close>: at the head of the loop of \<open>rcuReadLock\<close>;
  \<^item> \<open>RLoaded e\<close>: \<open>epochId = e\<close> loaded; \<open>RCounted e\<close>: the count of row \<open>e\<close> incremented;
  \<^item> \<open>RIn e\<close>: \<open>rcuReadLock\<close> returned \<open>e\<close>, in the critical section;
  \<^item> \<open>RRevert e\<close>: the epoch moved, about to undo the increment.
\<close>

datatype rpc = ROut | RTop | RLoaded u64 | RCounted u64 | RIn u64 | RRevert u64

record thread =
  tls :: u32
  tidHash :: u64
  pc :: rpc

text \<open>
  \<^item> \<open>WOut\<close>: not synchronizing; \<open>WOuter le\<close>: at the test of the outer loop;
  \<^item> \<open>WScan le b\<close>: in the row of \<open>epochOldest\<close>, about to test bucket \<open>b\<close>.
\<close>

datatype wpc = WOut | WOuter u64 | WScan u64 nat

record pstate =
  zone :: RCUZone
  threads :: "thread list"
  writer :: wpc

definition setPc :: "pstate \<Rightarrow> nat \<Rightarrow> rpc \<Rightarrow> pstate" where
  "setPc s i p = s\<lparr>threads := (threads s)[i := (threads s ! i)\<lparr>pc := p\<rparr>]\<rparr>"

definition bucketOf :: "RCUReaderThreadRegistry \<Rightarrow> RCUZone \<Rightarrow> thread \<Rightarrow> nat" where
  "bucketOf reg z t = unat (fetchThreadBucketId reg z (tls t) (tidHash t))"

abbreviation pcOf :: "pstate \<Rightarrow> nat \<Rightarrow> rpc" where
  "pcOf s i \<equiv> pc (threads s ! i)"

inductive pstep :: "RCUReaderThreadRegistry \<Rightarrow> pstate \<Rightarrow> pstate \<Rightarrow> bool" for reg where
  lock: "i < length (threads s) \<Longrightarrow> pcOf s i = ROut \<Longrightarrow> pstep reg s (setPc s i RTop)"
| load: "i < length (threads s) \<Longrightarrow> pcOf s i = RTop \<Longrightarrow>
    pstep reg s (setPc s i (RLoaded (epochLatest (zone s))))"
| count: "i < length (threads s) \<Longrightarrow> pcOf s i = RLoaded e \<Longrightarrow>
    fetchAddCount (zone s) e (bucketOf reg (zone s) (threads s ! i)) 1 = Some z \<Longrightarrow>
    pstep reg s ((setPc s i (RCounted e))\<lparr>zone := z\<rparr>)"
| valid: "i < length (threads s) \<Longrightarrow> pcOf s i = RCounted e \<Longrightarrow> epochLatest (zone s) = e \<Longrightarrow>
    pstep reg s (setPc s i (RIn e))"
| stale: "i < length (threads s) \<Longrightarrow> pcOf s i = RCounted e \<Longrightarrow> epochLatest (zone s) \<noteq> e \<Longrightarrow>
    pstep reg s (setPc s i (RRevert e))"
| revert: "i < length (threads s) \<Longrightarrow> pcOf s i = RRevert e \<Longrightarrow>
    fetchAddCount (zone s) e (bucketOf reg (zone s) (threads s ! i)) (-1) = Some z \<Longrightarrow>
    pstep reg s ((setPc s i RTop)\<lparr>zone := z\<rparr>)"
| unlock: "i < length (threads s) \<Longrightarrow> pcOf s i = RIn e \<Longrightarrow>
    fetchAddCount (zone s) e (bucketOf reg (zone s) (threads s ! i)) (-1) = Some z \<Longrightarrow>
    pstep reg s ((setPc s i ROut)\<lparr>zone := z\<rparr>)"
| sync: "writer s = WOut \<Longrightarrow>
    pstep reg s (s\<lparr>zone := (zone s)\<lparr>epochLatest := epochLatest (zone s) + 1\<rparr>,
                   writer := WOuter (epochLatest (zone s))\<rparr>)"
| enter_row: "writer s = WOuter le \<Longrightarrow> sint (epochOldest (zone s)) \<le> sint le \<Longrightarrow>
    pstep reg s (s\<lparr>writer := WScan le 0\<rparr>)"
| return: "writer s = WOuter le \<Longrightarrow> \<not> sint (epochOldest (zone s)) \<le> sint le \<Longrightarrow>
    pstep reg s (s\<lparr>writer := WOut\<rparr>)"
| spin: "writer s = WScan le b \<Longrightarrow> nrBucketsPerEpoch reg (zone s) = Some n \<Longrightarrow>
    int b < sint n \<Longrightarrow> loadCount (zone s) (epochOldest (zone s)) b = Some c \<Longrightarrow> 0 < sint c \<Longrightarrow>
    pstep reg s s"
| next_bucket: "writer s = WScan le b \<Longrightarrow> nrBucketsPerEpoch reg (zone s) = Some n \<Longrightarrow>
    int b < sint n \<Longrightarrow> loadCount (zone s) (epochOldest (zone s)) b = Some c \<Longrightarrow> sint c \<le> 0 \<Longrightarrow>
    pstep reg s (s\<lparr>writer := WScan le (Suc b)\<rparr>)"
| leave_row: "writer s = WScan le b \<Longrightarrow> nrBucketsPerEpoch reg (zone s) = Some n \<Longrightarrow>
    \<not> int b < sint n \<Longrightarrow> sint (epochOldest (zone s)) \<noteq> 2 ^ 63 - 1 \<Longrightarrow>
    pstep reg s (s\<lparr>zone := (zone s)\<lparr>epochOldest := epochOldest (zone s) + 1\<rparr>,
                   writer := WOuter le\<rparr>)"

text \<open>
  A run starts on a zone just initialised, with every thread outside.  Below \<open>2 ^ 31\<close> threads a
  count cannot pass the largest \<open>int\<close>.
\<close>

definition pstart :: "RCUReaderThreadRegistry \<Rightarrow> pstate \<Rightarrow> bool" where
  "pstart reg s \<longleftrightarrow>
     wf_zone reg (zone s) \<and> epochLatest (zone s) = 0 \<and> epochOldest (zone s) = 0 \<and>
     counts (zone s) = Some (replicate (2 * nbuckets reg (zone s)) 0) \<and>
     writer s = WOut \<and> length (threads s) < 2 ^ 31 \<and>
     (\<forall>t \<in> set (threads s). thread_ok reg (tls t) \<and> pc t = ROut)"

subsection \<open>The invariant\<close>

text \<open>Whether a thread at \<open>p\<close> is counted in, in row \<open>r\<close>.\<close>

fun countedIn :: "rpc \<Rightarrow> nat \<Rightarrow> bool" where
  "countedIn (RCounted e) r \<longleftrightarrow> row e = r"
| "countedIn (RIn e) r \<longleftrightarrow> row e = r"
| "countedIn (RRevert e) r \<longleftrightarrow> row e = r"
| "countedIn _ r \<longleftrightarrow> False"

definition held :: "RCUReaderThreadRegistry \<Rightarrow> RCUZone \<Rightarrow> nat \<Rightarrow> nat \<Rightarrow> thread \<Rightarrow> bool" where
  "held reg z r b t \<longleftrightarrow> countedIn (pc t) r \<and> bucketOf reg z t = b"

definition nheld :: "RCUReaderThreadRegistry \<Rightarrow> RCUZone \<Rightarrow> thread list \<Rightarrow> nat \<Rightarrow> nat \<Rightarrow> nat" where
  "nheld reg z ts r b = length (filter (held reg z r b) ts)"

text \<open>Every count is the number of threads counted in there.\<close>

definition counts_inv :: "RCUReaderThreadRegistry \<Rightarrow> RCUZone \<Rightarrow> thread list \<Rightarrow> bool" where
  "counts_inv reg z ts \<longleftrightarrow>
     (\<forall>r < 2. \<forall>b < nbuckets reg z. countAt reg z r b = of_nat (nheld reg z ts r b))"

text \<open>The two epochs agree while the writer is out; inside, the scan is one row behind.\<close>

fun writer_inv :: "RCUZone \<Rightarrow> wpc \<Rightarrow> bool" where
  "writer_inv z WOut \<longleftrightarrow> epochOldest z = epochLatest z"
| "writer_inv z (WOuter le) \<longleftrightarrow> epochLatest z = le + 1 \<and>
     (epochOldest z = le \<or> (epochOldest z = le + 1 \<and> sint le \<noteq> 2 ^ 63 - 1))"
| "writer_inv z (WScan le b) \<longleftrightarrow> epochLatest z = le + 1 \<and> epochOldest z = le"

text \<open>
  A reader inside holds the latest epoch, or the one being waited for; then its bucket is still
  to be scanned.
\<close>

definition reader_inv :: "RCUReaderThreadRegistry \<Rightarrow> RCUZone \<Rightarrow> wpc \<Rightarrow> thread \<Rightarrow> bool" where
  "reader_inv reg z w t \<longleftrightarrow>
     (\<forall>e. pc t = RIn e \<longrightarrow> e = epochLatest z \<or>
        (e = epochOldest z \<and> (\<forall>le b. w = WScan le b \<longrightarrow> b \<le> bucketOf reg z t)))"

definition pinv :: "RCUReaderThreadRegistry \<Rightarrow> pstate \<Rightarrow> bool" where
  "pinv reg s \<longleftrightarrow> wf_zone reg (zone s) \<and> length (threads s) < 2 ^ 31 \<and>
     (\<forall>t \<in> set (threads s). thread_ok reg (tls t)) \<and>
     counts_inv reg (zone s) (threads s) \<and> writer_inv (zone s) (writer s) \<and>
     (\<forall>t \<in> set (threads s). reader_inv reg (zone s) (writer s) t)"

subsection \<open>Threads and counts under updates\<close>

lemma length_filter_update:
  "i < length xs \<Longrightarrow> length (filter P (xs[i := x])) + (if P (xs ! i) then 1 else 0) =
     length (filter P xs) + (if P x then 1 else (0::nat))"
proof (induction xs arbitrary: i)
  case Nil
  then show ?case by simp
next
  case (Cons y ys)
  show ?case
  proof (cases i)
    case 0
    then show ?thesis by simp
  next
    case (Suc j)
    then show ?thesis using Cons.IH [of j] Cons.prems by simp
  qed
qed

lemma bucketOf_simps [simp]:
  "bucketOf reg (addAt reg' z r b d) t = bucketOf reg z t"
  "bucketOf reg (z\<lparr>epochLatest := x\<rparr>) t = bucketOf reg z t"
  "bucketOf reg (z\<lparr>epochOldest := x\<rparr>) t = bucketOf reg z t"
  "bucketOf reg z (t\<lparr>pc := p\<rparr>) = bucketOf reg z t"
  by (simp_all add: bucketOf_def fetchThreadBucketId_def)

lemma nheld_simps [simp]:
  "nheld reg (addAt reg' z r' b' d) ts r b = nheld reg z ts r b"
  "nheld reg (z\<lparr>epochLatest := x\<rparr>) ts r b = nheld reg z ts r b"
  "nheld reg (z\<lparr>epochOldest := x\<rparr>) ts r b = nheld reg z ts r b"
  by (simp_all add: nheld_def held_def [abs_def])

lemma setPc_sel [simp]:
  "zone (setPc s i p) = zone s" "writer (setPc s i p) = writer s"
  "threads (setPc s i p) = (threads s)[i := (threads s ! i)\<lparr>pc := p\<rparr>]"
  by (simp_all add: setPc_def)

lemma nheld_setPc:
  assumes "i < length ts"
  shows "nheld reg z (ts[i := (ts ! i)\<lparr>pc := p\<rparr>]) r b
      + (if countedIn (pc (ts ! i)) r \<and> bucketOf reg z (ts ! i) = b then 1 else 0)
    = nheld reg z ts r b + (if countedIn p r \<and> bucketOf reg z (ts ! i) = b then 1 else 0)"
  using length_filter_update [OF assms, of "held reg z r b" "(ts ! i)\<lparr>pc := p\<rparr>"]
  by (simp add: nheld_def held_def)

lemma nheld_le: "nheld reg z ts r b \<le> length ts"
  by (simp add: nheld_def)

lemma nheld_zero: "nheld reg z ts r b = 0 \<longleftrightarrow> (\<forall>t \<in> set ts. \<not> held reg z r b t)"
  by (simp add: nheld_def filter_empty_conv)

lemma bucketOf_less:
  "wf_zone reg z \<Longrightarrow> thread_ok reg (tls t) \<Longrightarrow> bucketOf reg z t < nbuckets reg z"
  by (simp add: bucketOf_def fetchThreadBucketId_less)

text \<open>A move that is in the same row before and after leaves the counts right.\<close>

lemma counts_inv_same:
  assumes "counts_inv reg z ts" "i < length ts" "\<And>r. countedIn p r = countedIn (pc (ts ! i)) r"
  shows "counts_inv reg z (ts[i := (ts ! i)\<lparr>pc := p\<rparr>])"
  using assms nheld_setPc [OF assms(2), of reg z p] by (auto simp: counts_inv_def)

lemma counts_inv_enter:
  assumes "counts_inv reg z ts" "i < length ts" "wf_zone reg z" "thread_ok reg (tls (ts ! i))"
    "\<And>r. \<not> countedIn (pc (ts ! i)) r" "\<And>r. countedIn p r \<longleftrightarrow> row e = r"
  shows "counts_inv reg (addAt reg z (row e) (bucketOf reg z (ts ! i)) 1) (ts[i := (ts ! i)\<lparr>pc := p\<rparr>])"
proof -
  let ?b = "bucketOf reg z (ts ! i)"
  have b: "?b < nbuckets reg z" using assms(3,4) by (rule bucketOf_less)
  have "nheld reg z (ts[i := (ts ! i)\<lparr>pc := p\<rparr>]) r b =
      nheld reg z ts r b + (if row e = r \<and> ?b = b then 1 else 0)" for r b
    using nheld_setPc [OF assms(2), of reg z p r b] assms(5,6) by simp
  then show ?thesis
    using assms(1) b by (auto simp: counts_inv_def countAt_addAt [OF assms(3)] row_less)
qed

lemma counts_inv_leave:
  assumes "counts_inv reg z ts" "i < length ts" "wf_zone reg z" "thread_ok reg (tls (ts ! i))"
    "\<And>r. countedIn (pc (ts ! i)) r \<longleftrightarrow> row e = r" "\<And>r. \<not> countedIn p r"
  shows "counts_inv reg (addAt reg z (row e) (bucketOf reg z (ts ! i)) (-1)) (ts[i := (ts ! i)\<lparr>pc := p\<rparr>])"
proof -
  let ?b = "bucketOf reg z (ts ! i)"
  have b: "?b < nbuckets reg z" using assms(3,4) by (rule bucketOf_less)
  have n: "nheld reg z ts r b =
      nheld reg z (ts[i := (ts ! i)\<lparr>pc := p\<rparr>]) r b + (if row e = r \<and> ?b = b then 1 else 0)" for r b
    using nheld_setPc [OF assms(2), of reg z p r b] assms(5,6) by simp
  then show ?thesis
    using assms(1) b by (auto simp: counts_inv_def countAt_addAt [OF assms(3)] row_less)
qed

subsection \<open>Every step keeps the invariant\<close>

text \<open>The tests of the outer loop: entering a row or returning tells which epoch is the oldest.\<close>

lemma outer_test:
  assumes "writer_inv z (WOuter le)"
  shows "sint (epochOldest z) \<le> sint le \<longleftrightarrow> epochOldest z = le"
  using assms sint_Suc [of le] by auto

lemma pinvD:
  assumes "pinv reg s"
  shows "wf_zone reg (zone s)" "length (threads s) < 2 ^ 31"
    "counts_inv reg (zone s) (threads s)" "writer_inv (zone s) (writer s)"
    "i < length (threads s) \<Longrightarrow> thread_ok reg (tls (threads s ! i))"
    "i < length (threads s) \<Longrightarrow> reader_inv reg (zone s) (writer s) (threads s ! i)"
  using assms by (auto simp: pinv_def)

lemma all_set_update:
  "(\<forall>t \<in> set ts. P t) \<Longrightarrow> P x \<Longrightarrow> \<forall>t \<in> set (ts[i := x]). P t"
  using set_update_subset_insert [of ts i x] by blast

text \<open>A thread step that leaves the epochs alone keeps everything but the counts at once.\<close>

lemma pinv_thread:
  assumes inv: "pinv reg s" and i: "i < length (threads s)"
    and s': "threads s' = (threads s)[i := (threads s ! i)\<lparr>pc := p\<rparr>]" "writer s' = writer s"
    and z': "zone s' = zone s \<or> (\<exists>r b d. zone s' = addAt reg (zone s) r b d)"
    and c: "counts_inv reg (zone s') (threads s')"
    and p: "\<And>e. p = RIn e \<Longrightarrow> e = epochLatest (zone s)"
  shows "pinv reg s'"
proof -
  have wf: "wf_zone reg (zone s')" using z' pinvD(1) [OF inv] by auto
  have w: "writer_inv (zone s') (writer s')"
    using z' pinvD(4) [OF inv] s'(2) by (cases "writer s") auto
  have r: "reader_inv reg (zone s') (writer s') t = reader_inv reg (zone s) (writer s) t" for t
    using z' s'(2) by (auto simp: reader_inv_def)
  have "reader_inv reg (zone s) (writer s) ((threads s ! i)\<lparr>pc := p\<rparr>)"
    using p by (simp add: reader_inv_def)
  then have "\<forall>t \<in> set (threads s'). reader_inv reg (zone s) (writer s) t"
    unfolding s'(1) using inv by (intro all_set_update) (auto simp: pinv_def)
  moreover have "\<forall>t \<in> set (threads s'). thread_ok reg (tls t)"
    unfolding s'(1) using inv i by (intro all_set_update) (auto simp: pinv_def)
  ultimately show ?thesis
    using wf w c pinvD(2) [OF inv] by (simp add: pinv_def r s'(1))
qed

text \<open>
  The count of a scanned bucket tells whether a reader of that row is left: it is small enough to
  read as a non-negative \<open>int\<close>.
\<close>

lemma count_value:
  assumes inv: "pinv reg s" and r: "r < 2" and b: "b < nbuckets reg (zone s)"
  shows "sint (countAt reg (zone s) r b) = int (nheld reg (zone s) (threads s) r b)"
proof -
  let ?n = "nheld reg (zone s) (threads s) r b"
  have lt: "?n < 2 ^ 31"
    using nheld_le [of reg "zone s" "threads s" r b] pinvD(2) [OF inv] by linarith
  then have u: "unat (of_nat ?n :: u32) = ?n"
    by (simp add: unsigned_of_nat take_bit_nat_eq_self)
  have "sint (of_nat ?n :: u32) = int (unat (of_nat ?n :: u32))"
    by (rule sint_small) (use u lt in simp)
  then have "sint (of_nat ?n :: u32) = int ?n" by (simp only: u)
  moreover have "countAt reg (zone s) r b = of_nat ?n"
    using pinvD(3) [OF inv] r b by (simp add: counts_inv_def)
  ultimately show ?thesis by simp
qed

lemma count_nonpos:
  assumes "pinv reg s" "r < 2" "b < nbuckets reg (zone s)"
  shows "sint (countAt reg (zone s) r b) \<le> 0 \<longleftrightarrow> (\<forall>t \<in> set (threads s). \<not> held reg (zone s) r b t)"
  using count_value [OF assms] nheld_zero [of reg "zone s" "threads s" r b] by simp

lemma pinv_writer:
  assumes inv: "pinv reg s"
    and z': "z' = zone s \<or> (\<exists>x. z' = (zone s)\<lparr>epochLatest := x\<rparr>) \<or> (\<exists>x. z' = (zone s)\<lparr>epochOldest := x\<rparr>)"
    and w: "writer_inv z' w'"
    and r: "\<And>t. t \<in> set (threads s) \<Longrightarrow> reader_inv reg (zone s) (writer s) t \<Longrightarrow> thread_ok reg (tls t)
      \<Longrightarrow> reader_inv reg z' w' t"
  shows "pinv reg (s\<lparr>zone := z', writer := w'\<rparr>)"
proof -
  have "wf_zone reg z'" using z' inv by (auto simp: pinv_def)
  moreover have "counts_inv reg z' (threads s)" using z' inv by (auto simp: pinv_def counts_inv_def)
  ultimately show ?thesis using inv w r by (simp add: pinv_def)
qed

lemma int_less_nbuckets:
  assumes "wf_zone reg z" "nrBucketsPerEpoch reg z = Some n"
  shows "int b < sint n \<longleftrightarrow> b < nbuckets reg z"
  using nrBucketsPerEpoch_wf [OF assms(1)] assms(2) by auto

lemma pinv_next_bucket:
  assumes inv: "pinv reg s" and w: "writer s = WScan le b" and n: "nrBucketsPerEpoch reg (zone s) = Some n"
    and b: "int b < sint n" and c: "loadCount (zone s) (epochOldest (zone s)) b = Some c" "sint c \<le> 0"
  shows "pinv reg (s\<lparr>writer := WScan le (Suc b)\<rparr>)"
proof -
  have wf: "wf_zone reg (zone s)" using inv by (rule pinvD)
  have bn: "b < nbuckets reg (zone s)" using int_less_nbuckets [OF wf n] b by simp
  have "countAt reg (zone s) (row (epochOldest (zone s))) b = c"
    using c(1) loadCount_wf [OF wf bn] by simp
  then have none: "\<not> held reg (zone s) (row (epochOldest (zone s))) b t" if "t \<in> set (threads s)" for t
    using count_nonpos [OF inv row_less bn] c(2) that by blast
  have "pinv reg (s\<lparr>zone := zone s, writer := WScan le (Suc b)\<rparr>)"
  proof (rule pinv_writer [OF inv])
    show "writer_inv (zone s) (WScan le (Suc b))" using pinvD(4) [OF inv] w by simp
    fix t
    assume "t \<in> set (threads s)" "reader_inv reg (zone s) (writer s) t"
    then show "reader_inv reg (zone s) (WScan le (Suc b)) t"
      using none [of t] w by (auto simp: reader_inv_def held_def le_less Suc_le_eq)
  qed simp
  then show ?thesis by simp
qed

lemma pinv_leave_row:
  assumes inv: "pinv reg s" and w: "writer s = WScan le b" and n: "nrBucketsPerEpoch reg (zone s) = Some n"
    and b: "\<not> int b < sint n" and max: "sint (epochOldest (zone s)) \<noteq> 2 ^ 63 - 1"
  shows "pinv reg (s\<lparr>zone := (zone s)\<lparr>epochOldest := epochOldest (zone s) + 1\<rparr>, writer := WOuter le\<rparr>)"
proof (rule pinv_writer [OF inv])
  show "writer_inv ((zone s)\<lparr>epochOldest := epochOldest (zone s) + 1\<rparr>) (WOuter le)"
    using pinvD(4) [OF inv] w max by simp
  have wf: "wf_zone reg (zone s)" using inv by (rule pinvD)
  have bn: "nbuckets reg (zone s) \<le> b" using int_less_nbuckets [OF wf n] b by simp
  fix t
  assume "t \<in> set (threads s)" "reader_inv reg (zone s) (writer s) t" "thread_ok reg (tls t)"
  then show "reader_inv reg ((zone s)\<lparr>epochOldest := epochOldest (zone s) + 1\<rparr>) (WOuter le) t"
    using w bn bucketOf_less [OF wf, of t] by (fastforce simp: reader_inv_def)
qed blast

lemma pstep_pinv:
  assumes "pstep reg s s'" and inv: "pinv reg s"
  shows "pinv reg s'"
  using assms(1)
proof cases
  case (lock i)
  then show ?thesis
    by (intro pinv_thread [OF inv lock(2), of _ RTop]) (auto intro!: counts_inv_same pinvD(3) [OF inv])
next
  case (load i)
  then show ?thesis
    by (intro pinv_thread [OF inv load(2), of _ "RLoaded (epochLatest (zone s))"])
      (auto intro!: counts_inv_same pinvD(3) [OF inv])
next
  case (count i e z)
  have wf: "wf_zone reg (zone s)" and ok: "thread_ok reg (tls (threads s ! i))"
    using pinvD(1,5) [OF inv] count(2) by auto
  have z: "z = addAt reg (zone s) (row e) (bucketOf reg (zone s) (threads s ! i)) 1"
    using count(4) fetchAddCount_wf [OF wf bucketOf_less [OF wf ok], of e 1] by simp
  show ?thesis
    by (rule pinv_thread [OF inv count(2), of _ "RCounted e"])
      (use z count ok wf in \<open>auto intro!: counts_inv_enter pinvD(3) [OF inv]\<close>)
next
  case (valid i e)
  then show ?thesis
    by (intro pinv_thread [OF inv valid(2), of _ "RIn e"]) (auto intro!: counts_inv_same pinvD(3) [OF inv])
next
  case (stale i e)
  then show ?thesis
    by (intro pinv_thread [OF inv stale(2), of _ "RRevert e"]) (auto intro!: counts_inv_same pinvD(3) [OF inv])
next
  case (revert i e z)
  have wf: "wf_zone reg (zone s)" and ok: "thread_ok reg (tls (threads s ! i))"
    using pinvD(1,5) [OF inv] revert(2) by auto
  have z: "z = addAt reg (zone s) (row e) (bucketOf reg (zone s) (threads s ! i)) (-1)"
    using revert(4) fetchAddCount_wf [OF wf bucketOf_less [OF wf ok], of e "-1"] by simp
  show ?thesis
    by (rule pinv_thread [OF inv revert(2), of _ RTop])
      (use z revert ok wf in \<open>auto intro!: counts_inv_leave pinvD(3) [OF inv]\<close>)
next
  case (unlock i e z)
  have wf: "wf_zone reg (zone s)" and ok: "thread_ok reg (tls (threads s ! i))"
    using pinvD(1,5) [OF inv] unlock(2) by auto
  have z: "z = addAt reg (zone s) (row e) (bucketOf reg (zone s) (threads s ! i)) (-1)"
    using unlock(4) fetchAddCount_wf [OF wf bucketOf_less [OF wf ok], of e "-1"] by simp
  show ?thesis
    by (rule pinv_thread [OF inv unlock(2), of _ ROut])
      (use z unlock ok wf in \<open>auto intro!: counts_inv_leave pinvD(3) [OF inv]\<close>)
next
  case sync
  then show ?thesis
    using pinvD(4) [OF inv] by (auto intro!: pinv_writer [OF inv] simp: reader_inv_def)
next
  case (enter_row le)
  have "pinv reg (s\<lparr>zone := zone s, writer := WScan le 0\<rparr>)"
    using pinvD(4) [OF inv] enter_row outer_test [of "zone s" le] by (intro pinv_writer [OF inv]) (auto simp: reader_inv_def)
  then show ?thesis using enter_row by simp
next
  case (return le)
  have "pinv reg (s\<lparr>zone := zone s, writer := WOut\<rparr>)"
    using pinvD(4) [OF inv] return outer_test [of "zone s" le]
    by (intro pinv_writer [OF inv]) (auto simp: reader_inv_def)
  then show ?thesis using return by simp
next
  case (spin le b n c)
  then show ?thesis using inv by simp
next
  case (next_bucket le b n c)
  then show ?thesis using pinv_next_bucket [OF inv] by simp
next
  case (leave_row le b n)
  then show ?thesis using pinv_leave_row [OF inv] by simp
qed

lemma pstart_pinv:
  assumes "pstart reg s"
  shows "pinv reg s"
proof -
  have wf: "wf_zone reg (zone s)" and c: "counts (zone s) = Some (replicate (2 * nbuckets reg (zone s)) 0)"
    using assms by (auto simp: pstart_def)
  have "held reg (zone s) r b t = False" if "t \<in> set (threads s)" for r b t
    using assms that by (auto simp: pstart_def held_def)
  then have "nheld reg (zone s) (threads s) r b = 0" for r b
    by (simp add: nheld_zero)
  moreover have "countAt reg (zone s) r b = 0" if "r < 2" "b < nbuckets reg (zone s)" for r b
    using c index_bound [OF that(2,1)] by (simp add: countAt_def)
  ultimately have "counts_inv reg (zone s) (threads s)" by (simp add: counts_inv_def)
  then show ?thesis using assms by (auto simp: pinv_def pstart_def reader_inv_def)
qed

interpretation protocol: invariant_system "pstart reg" "pstep reg" "pinv reg" for reg
  by unfold_locales (auto intro: pstart_pinv pstep_pinv)

subsection \<open>The grace period\<close>

definition inSection :: "pstate \<Rightarrow> nat \<Rightarrow> bool" where
  "inSection s i \<longleftrightarrow> i < length (threads s) \<and> (\<exists>e. pcOf s i = RIn e)"

text \<open>Consecutive states of a run.\<close>

fun prun :: "RCUReaderThreadRegistry \<Rightarrow> pstate list \<Rightarrow> bool" where
  "prun reg (s # t # ss) \<longleftrightarrow> pstep reg s t \<and> prun reg (t # ss)"
| "prun reg _ \<longleftrightarrow> True"

text \<open>While a reader stays inside, its epoch does not change.\<close>

lemma pstep_stays:
  assumes "pstep reg s s'" "i < length (threads s)" "pcOf s i = RIn e" "inSection s' i"
  shows "pcOf s' i = RIn e"
  using assms by cases (auto simp: inSection_def nth_list_update split: if_splits)

lemma pstep_length: "pstep reg s s' \<Longrightarrow> length (threads s') = length (threads s)"
  by (cases rule: pstep.cases) auto

text \<open>
  What the writer's steps do to the latest epoch: it changes only by the call of
  \<open>rcuSynchronize\<close>, and inside one call it stays where the call put it.
\<close>

lemma pstep_latest:
  "pstep reg s s' \<Longrightarrow> writer s \<noteq> WOut \<Longrightarrow> pinv reg s \<Longrightarrow> epochLatest (zone s') = epochLatest (zone s)"
proof (induction rule: pstep.induct)
  case (count i s e z)
  then show ?case using pinvD(1) [OF count.prems(2)] pinvD(5) [OF count.prems(2), of i]
    by (auto simp: fetchAddCount_wf bucketOf_less)
next
  case (revert i s e z)
  then show ?case using pinvD(1) [OF revert.prems(2)] pinvD(5) [OF revert.prems(2), of i]
    by (auto simp: fetchAddCount_wf bucketOf_less)
next
  case (unlock i s e z)
  then show ?case using pinvD(1) [OF unlock.prems(2)] pinvD(5) [OF unlock.prems(2), of i]
    by (auto simp: fetchAddCount_wf bucketOf_less)
qed auto

text \<open>
  One call of \<open>rcuSynchronize\<close>: the states from the one in which the writer is out, through the
  call, to the one in which it has returned.
\<close>

definition syncCall :: "RCUReaderThreadRegistry \<Rightarrow> pstate \<Rightarrow> pstate list \<Rightarrow> pstate \<Rightarrow> bool" where
  "syncCall reg s ss s' \<longleftrightarrow> prun reg (s # ss @ [s']) \<and> ss \<noteq> [] \<and> writer s = WOut \<and>
     writer s' = WOut \<and> (\<forall>u \<in> set ss. writer u \<noteq> WOut)"

lemma prun_stays:
  assumes "prun reg (s # ss)" "i < length (threads s)" "pcOf s i = RIn e"
    "\<forall>u \<in> set ss. inSection u i"
  shows "\<forall>u \<in> set ss. pcOf u i = RIn e"
  using assms
proof (induction ss arbitrary: s)
  case Nil
  then show ?case by simp
next
  case (Cons u ss)
  then have st: "pstep reg s u" by simp
  have "pcOf u i = RIn e" using pstep_stays [OF st Cons.prems(2,3)] Cons.prems(4) by simp
  moreover have "i < length (threads u)" using pstep_length [OF st] Cons.prems(2) by simp
  ultimately show ?case using Cons.IH [of u] Cons.prems by simp
qed

lemma prun_latest:
  assumes "prun reg (s # ss @ [s'])" "pinv reg s" "writer s \<noteq> WOut" "\<forall>u \<in> set ss. writer u \<noteq> WOut"
  shows "epochLatest (zone s') = epochLatest (zone s) \<and> pinv reg s'"
  using assms
proof (induction ss arbitrary: s)
  case Nil
  then show ?case using pstep_latest pstep_pinv by simp
next
  case (Cons u ss)
  then show ?case using pstep_latest [of reg s u] pstep_pinv [of reg s u] Cons.IH [of u] by simp
qed

lemma sync_call_step:
  assumes "pstep reg s u" "writer s = WOut" "writer u \<noteq> WOut"
  shows "epochLatest (zone u) = epochLatest (zone s) + 1 \<and> threads u = threads s"
  using assms by cases auto

text \<open>
  The guarantee: a reader inside when the writer calls \<open>rcuSynchronize\<close> has been outside by the
  time the call returns.
\<close>

lemma grace_period:
  assumes inv: "pinv reg s" and call: "syncCall reg s ss s'" and i: "inSection s i"
  shows "\<exists>u \<in> set (ss @ [s']). \<not> inSection u i"
proof (rule ccontr)
  assume "\<not> ?thesis"
  then have stay: "\<forall>u \<in> set (ss @ [s']). inSection u i" by blast
  obtain e where e: "pcOf s i = RIn e" and il: "i < length (threads s)"
    using i by (auto simp: inSection_def)
  have run: "prun reg (s # ss @ [s'])" and out: "writer s = WOut" "writer s' = WOut"
    using call by (auto simp: syncCall_def)
  have "e = epochLatest (zone s)"
    using pinvD(4) [OF inv] pinvD(6) [OF inv il] out e by (auto simp: reader_inv_def)
  moreover obtain u us where ss: "ss = u # us" using call by (cases ss) (auto simp: syncCall_def)
  moreover have u: "pstep reg s u" "prun reg (u # us @ [s'])" using run ss by auto
  moreover have uw: "writer u \<noteq> WOut" "\<forall>v \<in> set us. writer v \<noteq> WOut"
    using call ss by (auto simp: syncCall_def)
  moreover have "epochLatest (zone u) = epochLatest (zone s) + 1"
    using sync_call_step [OF u(1) out(1) uw(1)] by simp
  moreover have s': "epochLatest (zone s') = epochLatest (zone u) \<and> pinv reg s'"
    using prun_latest [OF u(2) pstep_pinv [OF u(1) inv] uw] by simp
  moreover have "pcOf s' i = RIn e" using prun_stays [OF run il e] stay by simp
  moreover have "i < length (threads s')" using stay by (simp add: inSection_def)
  ultimately show False
    using pinvD(4) [of reg s'] pinvD(6) [of reg s' i] out(2) by (auto simp: reader_inv_def)
qed

subsection \<open>Executing a schedule\<close>

text \<open>
  A thread's next step is determined by its program counter, and so is the writer's: a run is a
  schedule, the list of who moves.
\<close>

datatype actor = Thread nat | Writer

fun threadStep :: "RCUReaderThreadRegistry \<Rightarrow> nat \<Rightarrow> pstate \<Rightarrow> pstate option" where
  "threadStep reg i s =
     (if \<not> i < length (threads s) then None
      else let b = bucketOf reg (zone s) (threads s ! i) in
        case pcOf s i of
          ROut \<Rightarrow> Some (setPc s i RTop)
        | RTop \<Rightarrow> Some (setPc s i (RLoaded (epochLatest (zone s))))
        | RLoaded e \<Rightarrow> do { z \<leftarrow> fetchAddCount (zone s) e b 1; Some ((setPc s i (RCounted e))\<lparr>zone := z\<rparr>) }
        | RCounted e \<Rightarrow> Some (setPc s i (if epochLatest (zone s) = e then RIn e else RRevert e))
        | RIn e \<Rightarrow> do { z \<leftarrow> fetchAddCount (zone s) e b (-1); Some ((setPc s i ROut)\<lparr>zone := z\<rparr>) }
        | RRevert e \<Rightarrow> do { z \<leftarrow> fetchAddCount (zone s) e b (-1); Some ((setPc s i RTop)\<lparr>zone := z\<rparr>) })"

fun writerStep :: "RCUReaderThreadRegistry \<Rightarrow> pstate \<Rightarrow> pstate option" where
  "writerStep reg s =
     (case writer s of
        WOut \<Rightarrow> Some (s\<lparr>zone := (zone s)\<lparr>epochLatest := epochLatest (zone s) + 1\<rparr>,
                         writer := WOuter (epochLatest (zone s))\<rparr>)
      | WOuter le \<Rightarrow> Some (s\<lparr>writer := if sint (epochOldest (zone s)) \<le> sint le then WScan le 0 else WOut\<rparr>)
      | WScan le b \<Rightarrow> do {
          n \<leftarrow> nrBucketsPerEpoch reg (zone s);
          if int b < sint n then do {
            c \<leftarrow> loadCount (zone s) (epochOldest (zone s)) b;
            Some (if 0 < sint c then s else s\<lparr>writer := WScan le (Suc b)\<rparr>)
          }
          else if sint (epochOldest (zone s)) = 2 ^ 63 - 1 then None
          else Some (s\<lparr>zone := (zone s)\<lparr>epochOldest := epochOldest (zone s) + 1\<rparr>, writer := WOuter le\<rparr>)
        })"

fun actorStep :: "RCUReaderThreadRegistry \<Rightarrow> actor \<Rightarrow> pstate \<Rightarrow> pstate option" where
  "actorStep reg (Thread i) s = threadStep reg i s"
| "actorStep reg Writer s = writerStep reg s"

fun schedule :: "RCUReaderThreadRegistry \<Rightarrow> actor list \<Rightarrow> pstate \<Rightarrow> pstate list option" where
  "schedule reg [] s = Some [s]"
| "schedule reg (a # as) s = do { t \<leftarrow> actorStep reg a s; ts \<leftarrow> schedule reg as t; Some (s # ts) }"

lemma threadStep_sound: "threadStep reg i s = Some s' \<Longrightarrow> pstep reg s s'"
  by (cases "pcOf s i")
    (auto simp: Let_def split: if_splits bind_splits
      intro: pstep.lock pstep.load pstep.count pstep.valid pstep.stale pstep.revert pstep.unlock)

lemma writerStep_sound: "writerStep reg s = Some s' \<Longrightarrow> pstep reg s s'"
  by (cases "writer s")
    (auto split: if_splits bind_splits
      intro: pstep.sync pstep.enter_row pstep.return pstep.spin pstep.next_bucket pstep.leave_row)

lemma actorStep_sound: "actorStep reg a s = Some s' \<Longrightarrow> pstep reg s s'"
  by (cases a) (auto simp del: threadStep.simps writerStep.simps intro: threadStep_sound writerStep_sound)

lemma pstep_actor: "pstep reg s s' \<Longrightarrow> \<exists>a. actorStep reg a s = Some s'"
proof (induction rule: pstep.induct)
  case (lock i s)
  then show ?case by (intro exI [of _ "Thread i"]) (simp add: Let_def)
next
  case (load i s)
  then show ?case by (intro exI [of _ "Thread i"]) (simp add: Let_def)
next
  case (count i s e z)
  then show ?case by (intro exI [of _ "Thread i"]) (simp add: Let_def)
next
  case (valid i s e)
  then show ?case by (intro exI [of _ "Thread i"]) (simp add: Let_def)
next
  case (stale i s e)
  then show ?case by (intro exI [of _ "Thread i"]) (simp add: Let_def)
next
  case (revert i s e z)
  then show ?case by (intro exI [of _ "Thread i"]) (simp add: Let_def)
next
  case (unlock i s e z)
  then show ?case by (intro exI [of _ "Thread i"]) (simp add: Let_def)
qed (rule exI [of _ Writer], simp)+

lemma schedule_sound: "schedule reg as s = Some ss \<Longrightarrow> prun reg ss \<and> ss \<noteq> [] \<and> hd ss = s"
proof (induction as arbitrary: s ss)
  case Nil
  then show ?case by auto
next
  case (Cons a as)
  then obtain t ts where t: "actorStep reg a s = Some t" "schedule reg as t = Some ts" "ss = s # ts"
    by (auto split: bind_splits)
  have "prun reg ts \<and> ts \<noteq> [] \<and> hd ts = t" by (rule Cons.IH [OF t(2)])
  then show ?case using t actorStep_sound [OF t(1)] by (cases ts) auto
qed

lemma prun_reaches: "prun reg (s # ss) \<Longrightarrow> (pstep reg)\<^sup>*\<^sup>* s (last (s # ss))"
proof (induction ss arbitrary: s)
  case Nil
  then show ?case by simp
next
  case (Cons t ss)
  then show ?case by (auto intro: converse_rtranclp_into_rtranclp)
qed

subsection \<open>Progress\<close>

text \<open>In a reachable state no reader step faults: the counts it touches exist.\<close>

lemma reader_moves:
  assumes inv: "pinv reg s" and i: "i < length (threads s)"
  shows "\<exists>s'. threadStep reg i s = Some s' \<and> pcOf s' i \<noteq> pcOf s i"
proof -
  have wf: "wf_zone reg (zone s)" and ok: "thread_ok reg (tls (threads s ! i))"
    using pinvD(1) [OF inv] pinvD(5) [OF inv i] by auto
  show ?thesis
    using i fetchAddCount_wf [OF wf bucketOf_less [OF wf ok]]
    by (cases "pcOf s i") (auto simp: Let_def)
qed

text \<open>The writer alone runs through a drained row and returns.\<close>

definition writerMove :: "RCUReaderThreadRegistry \<Rightarrow> pstate \<Rightarrow> pstate \<Rightarrow> bool" where
  "writerMove reg s s' \<longleftrightarrow> writerStep reg s = Some s'"

lemma writerMoves_psteps: "(writerMove reg)\<^sup>*\<^sup>* s s' \<Longrightarrow> (pstep reg)\<^sup>*\<^sup>* s s'"
  by (erule rtranclp_mono [THEN predicate2D, rotated]) (auto simp: writerMove_def intro: writerStep_sound)

lemma scan_run:
  assumes wf: "wf_zone reg (zone s)" and w: "writer s = WScan le b"
    and b: "b \<le> nbuckets reg (zone s)" and d: "drained reg (zone s) (epochOldest (zone s))"
  shows "(writerMove reg)\<^sup>*\<^sup>* s (s\<lparr>writer := WScan le (nbuckets reg (zone s))\<rparr>)"
  using w b d wf
proof (induction "nbuckets reg (zone s) - b" arbitrary: s b)
  case 0
  then have "s\<lparr>writer := WScan le (nbuckets reg (zone s))\<rparr> = s" by (cases s) simp
  then show ?case by simp
next
  case (Suc k)
  obtain n where n: "nrBucketsPerEpoch reg (zone s) = Some n"
    using nrBucketsPerEpoch_wf [OF Suc.prems(4)] by blast
  have b: "b < nbuckets reg (zone s)" using Suc.hyps(2) by simp
  let ?s = "s\<lparr>writer := WScan le (Suc b)\<rparr>"
  have "writerMove reg s ?s"
    using Suc.prems(1,3) n b loadCount_wf [OF Suc.prems(4) b] int_less_nbuckets [OF Suc.prems(4) n]
    by (auto simp: writerMove_def drained_def)
  moreover have "(writerMove reg)\<^sup>*\<^sup>* ?s (?s\<lparr>writer := WScan le (nbuckets reg (zone ?s))\<rparr>)"
    using Suc.hyps Suc.prems b by (intro Suc.hyps(1)) auto
  ultimately show ?case by (simp add: converse_rtranclp_into_rtranclp)
qed

definition syncDone :: "pstate \<Rightarrow> u64 \<Rightarrow> pstate" where
  "syncDone s le = s\<lparr>zone := (zone s)\<lparr>epochOldest := le + 1\<rparr>, writer := WOut\<rparr>"

lemma scan_returns:
  assumes wf: "wf_zone reg (zone s)" and w: "writer s = WScan le b" "epochOldest (zone s) = le"
    and b: "b \<le> nbuckets reg (zone s)" and d: "drained reg (zone s) le" and max: "sint le \<noteq> 2 ^ 63 - 1"
  shows "(writerMove reg)\<^sup>*\<^sup>* s (syncDone s le)"
proof -
  obtain n where n: "nrBucketsPerEpoch reg (zone s) = Some n"
    using nrBucketsPerEpoch_wf [OF wf] by blast
  let ?s1 = "s\<lparr>writer := WScan le (nbuckets reg (zone s))\<rparr>"
  let ?s2 = "?s1\<lparr>zone := (zone ?s1)\<lparr>epochOldest := epochOldest (zone ?s1) + 1\<rparr>, writer := WOuter le\<rparr>"
  have "(writerMove reg)\<^sup>*\<^sup>* s ?s1" using scan_run [OF wf w(1) b] d w(2) by simp
  moreover have "writerMove reg ?s1 ?s2"
    using n int_less_nbuckets [OF wf n] w max by (simp add: writerMove_def)
  moreover have "writerMove reg ?s2 (?s2\<lparr>writer := WOut\<rparr>)"
    using w(2) sint_Suc [OF max] by (simp add: writerMove_def)
  moreover have "?s2\<lparr>writer := WOut\<rparr> = syncDone s le" using w(2) by (simp add: syncDone_def)
  ultimately show ?thesis by (metis rtranclp.rtrancl_into_rtrancl)
qed

lemma outer_returns:
  assumes wf: "wf_zone reg (zone s)" and w: "writer s = WOuter le" "writer_inv (zone s) (WOuter le)"
    and d: "drained reg (zone s) le" and max: "sint le \<noteq> 2 ^ 63 - 1"
  shows "(writerMove reg)\<^sup>*\<^sup>* s (syncDone s le)"
proof (cases "epochOldest (zone s) = le")
  case True
  let ?s = "s\<lparr>writer := WScan le 0\<rparr>"
  have "writerMove reg s ?s" using w True by (simp add: writerMove_def)
  moreover have "(writerMove reg)\<^sup>*\<^sup>* ?s (syncDone ?s le)"
    by (rule scan_returns) (use wf True d max in auto)
  ultimately show ?thesis by (simp add: syncDone_def converse_rtranclp_into_rtranclp)
next
  case False
  then have o: "epochOldest (zone s) = le + 1" using w(2) by simp
  have "writerMove reg s (s\<lparr>writer := WOut\<rparr>)"
    using w o sint_Suc [OF max] by (simp add: writerMove_def)
  moreover have "s\<lparr>writer := WOut\<rparr> = syncDone s le" using o by (simp add: syncDone_def)
  ultimately show ?thesis by auto
qed

text \<open>
  Liveness: once no thread is counted in, a pending \<open>rcuSynchronize\<close> can run to its return
  without any further help.
\<close>

lemma writer_returns:
  assumes inv: "pinv reg s" and quiet: "\<And>t r. t \<in> set (threads s) \<Longrightarrow> \<not> countedIn (pc t) r"
    and w: "writer s = WOuter le \<or> writer s = WScan le b \<and> b \<le> nbuckets reg (zone s)"
    and max: "sint le \<noteq> 2 ^ 63 - 1"
  shows "(writerMove reg)\<^sup>*\<^sup>* s (syncDone s le)"
proof -
  note wf = pinvD(1) [OF inv]
  have d: "drained reg (zone s) le"
    using count_nonpos [OF inv row_less] quiet by (auto simp: drained_def held_def)
  show ?thesis
  proof (cases "writer s = WOuter le")
    case True
    then show ?thesis using pinvD(4) [OF inv] outer_returns [OF wf True] d max by simp
  next
    case False
    then show ?thesis using w pinvD(4) [OF inv] scan_returns [OF wf] d max by auto
  qed
qed

subsection \<open>The sequential functions are runs of the protocol\<close>

lemma rcuSynchronize_run:
  assumes wf: "wf_zone reg (zone s)" and out: "writer s = WOut" "epochOldest (zone s) = epochLatest (zone s)"
    and max: "sint (epochLatest (zone s)) \<noteq> 2 ^ 63 - 1" and call: "rcuSynchronize reg (zone s) = Some z"
  shows "(pstep reg)\<^sup>*\<^sup>* s (s\<lparr>zone := z\<rparr>)"
proof -
  define le where "le = epochLatest (zone s)"
  have d: "drained reg (zone s) le" and z: "z = (zone s)\<lparr>epochLatest := le + 1, epochOldest := le + 1\<rparr>"
    using rcuSynchronize_alone [OF wf out(2) max] call by (auto simp: le_def split: if_splits)
  let ?s = "s\<lparr>zone := (zone s)\<lparr>epochLatest := le + 1\<rparr>, writer := WOuter le\<rparr>"
  have "pstep reg s ?s" using pstep.sync [OF out(1)] by (simp add: le_def)
  moreover have "(pstep reg)\<^sup>*\<^sup>* ?s (syncDone ?s le)"
    by (rule writerMoves_psteps, rule outer_returns) (use wf out d max in \<open>auto simp: le_def\<close>)
  moreover have "syncDone ?s le = s\<lparr>zone := z\<rparr>"
    using out(1) by (cases s) (simp add: syncDone_def z)
  ultimately show ?thesis by (simp add: converse_rtranclp_into_rtranclp)
qed

lemma rcuReadLock_run:
  assumes wf: "wf_zone reg (zone s)" and i: "i < length (threads s)" "pcOf s i = ROut"
    and ok: "thread_ok reg (tls (threads s ! i))"
    and call: "rcuReadLock reg (zone s) (tls (threads s ! i)) (tidHash (threads s ! i)) = Some (e, z)"
  shows "(pstep reg)\<^sup>*\<^sup>* s ((setPc s i (RIn e))\<lparr>zone := z\<rparr>)"
proof -
  let ?t = "threads s ! i"
  have e: "e = epochLatest (zone s)" and z: "z = addAt reg (zone s) (row e) (bucketOf reg (zone s) ?t) 1"
    using call rcuReadLock_wf [OF wf ok] by (auto simp: bucketOf_def)
  let ?s1 = "setPc s i RTop"
  let ?s2 = "setPc ?s1 i (RLoaded e)"
  let ?s3 = "(setPc ?s2 i (RCounted e))\<lparr>zone := z\<rparr>"
  let ?s4 = "setPc ?s3 i (RIn e)"
  have "pstep reg s ?s1" using i by (rule pstep.lock)
  moreover have "pstep reg ?s1 ?s2" using i pstep.load [of i ?s1 reg] by (simp add: e)
  moreover have "pstep reg ?s2 ?s3"
    by (rule pstep.count) (use i z fetchAddCount_wf [OF wf bucketOf_less [OF wf ok]] in auto)
  moreover have "pstep reg ?s3 ?s4"
    by (rule pstep.valid) (use i in \<open>auto simp: z e\<close>)
  moreover have "?s4 = (setPc s i (RIn e))\<lparr>zone := z\<rparr>"
    using i by (simp add: setPc_def)
  ultimately show ?thesis by (metis (no_types, lifting) rtranclp.simps)
qed

subsection \<open>A concrete run\<close>

text \<open>Two threads, one of them registered, on the small zone of \<open>RcuZone\<close>.\<close>

definition exState :: pstate where
  "exState = \<lparr>zone = exZone, threads = [\<lparr>tls = -1, tidHash = 5, pc = ROut\<rparr>, \<lparr>tls = 0, tidHash = 6, pc = ROut\<rparr>],
     writer = WOut\<rparr>"

lemma exState_start: "pstart exReg exState"
proof -
  have "replicate (2 * nbuckets exReg exZone) (0 :: u32) = [0, 0, 0, 0]" by code_simp
  then have "counts (zone exState) = Some (replicate (2 * nbuckets exReg (zone exState)) 0)"
    by (simp add: exState_def) (simp add: exZone_def)
  then show ?thesis
    using exZone_wf by (simp add: pstart_def) (simp add: exState_def exZone_def thread_ok_def exReg_def)
qed

text \<open>
  Thread 0 takes the read lock; then the writer synchronizes, and the thread leaves while the
  writer spins on its bucket.
\<close>

definition exLock :: "pstate list" where
  "exLock = the (schedule exReg (replicate 4 (Thread 0)) exState)"

definition exSync :: "pstate list" where
  "exSync = the (schedule exReg
     [Writer, Writer, Writer, Writer, Thread 0, Writer, Writer, Writer] (last exLock))"

lemma exLock_schedule: "schedule exReg (replicate 4 (Thread 0)) exState = Some exLock"
  by code_simp

lemma exSync_schedule: "schedule exReg
    [Writer, Writer, Writer, Writer, Thread 0, Writer, Writer, Writer] (last exLock) = Some exSync"
  by code_simp

lemma exLock_reachable: "(pstep exReg)\<^sup>*\<^sup>* exState (last exLock)"
proof -
  have run: "prun exReg exLock" "exLock \<noteq> []" "hd exLock = exState"
    using schedule_sound [OF exLock_schedule] by auto
  then have "exLock = exState # tl exLock" by (metis list.collapse)
  then show ?thesis using run(1) prun_reaches [of exReg exState "tl exLock"] by simp
qed

lemma exSync_call: "syncCall exReg (last exLock) (butlast (tl exSync)) (last exSync)"
proof -
  have run: "prun exReg exSync" "exSync \<noteq> []" "hd exSync = last exLock"
    using schedule_sound [OF exSync_schedule] by auto
  have "tl exSync \<noteq> []" by code_simp
  then have "exSync = last exLock # butlast (tl exSync) @ [last exSync]"
    using run(2,3) by (metis append_butlast_last_id last_tl list.collapse)
  then have "prun exReg (last exLock # butlast (tl exSync) @ [last exSync])" using run(1) by simp
  moreover have "butlast (tl exSync) \<noteq> []" "writer (last exLock) = WOut" "writer (last exSync) = WOut"
    "\<forall>u \<in> set (butlast (tl exSync)). writer u \<noteq> WOut"
    by code_simp+
  ultimately show ?thesis by (simp add: syncCall_def)
qed

lemma exSync_reaches:
  assumes "schedule exReg [Writer, Writer, Writer, Writer, Thread 0, Writer] (last exLock) = Some (take 7 exSync)"
  shows "(pstep exReg)\<^sup>*\<^sup>* (last exLock) (exSync ! 6)"
proof -
  have run: "prun exReg (take 7 exSync)" "take 7 exSync \<noteq> []" "hd (take 7 exSync) = last exLock"
    using schedule_sound [OF assms] by auto
  then have "take 7 exSync = last exLock # tl (take 7 exSync)" by (metis list.collapse)
  moreover have "last (take 7 exSync) = exSync ! 6" by code_simp
  ultimately show ?thesis using run(1) prun_reaches [of exReg "last exLock" "tl (take 7 exSync)"] by simp
qed

lemma exLock_inside: "inSection (last exLock) 0"
proof -
  have "pcOf (last exLock) 0 = RIn 0" "0 < length (threads (last exLock))" by code_simp+
  then show ?thesis by (simp add: inSection_def)
qed

subsection \<open>Properties\<close>

text \<open>
  C1.  The grace period.  On every interleaving of a run from a fresh zone: a reader that is inside
  its critical section when the writer calls \<open>rcuSynchronize\<close> has left it at some point before
  the call returns.
\<close>

theorem synchronize_waits_for_readers:
  assumes "pstart reg s0" and "(pstep reg)\<^sup>*\<^sup>* s0 s" and "syncCall reg s ss s'" and "inSection s i"
  shows "\<exists>u \<in> set (ss @ [s']). \<not> inSection u i"
  using grace_period [OF protocol.inv_reachable [OF assms(1,2)] assms(3,4)] .

theorem synchronize_waits_for_readers_witness:
  "\<exists>u \<in> set (butlast (tl exSync) @ [last exSync]). \<not> inSection u 0"
  by (rule synchronize_waits_for_readers [OF exState_start exLock_reachable exSync_call exLock_inside])

text \<open>
  Two rows are enough: in every reachable state a reader inside its section holds the
  latest epoch or the oldest one, and these differ by at most one and only while the writer is
  inside \<open>rcuSynchronize\<close>.
\<close>

theorem readers_hold_two_epochs:
  assumes "pstart reg s0" and "(pstep reg)\<^sup>*\<^sup>* s0 s" and "i < length (threads s)" and "pcOf s i = RIn e"
  shows "e \<in> {epochOldest (zone s), epochLatest (zone s)}
    \<and> (epochLatest (zone s) = epochOldest (zone s)
       \<or> epochLatest (zone s) = epochOldest (zone s) + 1 \<and> writer s \<noteq> WOut)"
proof -
  have inv: "pinv reg s" using assms(1,2) by (rule protocol.inv_reachable)
  show ?thesis using pinvD(4) [OF inv] pinvD(6) [OF inv assms(3)] assms(4)
    by (cases "writer s") (auto simp: reader_inv_def)
qed

theorem readers_hold_two_epochs_witness:
  "0 \<in> {epochOldest (zone (last exLock)), epochLatest (zone (last exLock))}"
proof -
  have "0 < length (threads (last exLock))" "pcOf (last exLock) 0 = RIn 0" by code_simp+
  from readers_hold_two_epochs [OF exState_start exLock_reachable this] show ?thesis by blast
qed

text \<open>
  C2.  Every count is exact: read as an \<open>int\<close>, it is the number of threads that have counted
  themselves in there and not yet out.  So no count is negative, none is lost under contention
  on a shared bucket, and none overflows.
\<close>

theorem counts_exact:
  assumes "pstart reg s0" and "(pstep reg)\<^sup>*\<^sup>* s0 s" and "r < 2" and "b < nbuckets reg (zone s)"
  shows "sint (countAt reg (zone s) r b) =
    int (card {i. i < length (threads s) \<and> held reg (zone s) r b (threads s ! i)})"
proof -
  have inv: "pinv reg s" using assms(1,2) by (rule protocol.inv_reachable)
  have "nheld reg (zone s) (threads s) r b = card {i. i < length (threads s) \<and> held reg (zone s) r b (threads s ! i)}"
    by (simp add: nheld_def length_filter_conv_card)
  then show ?thesis using count_value [OF inv assms(3,4)] by simp
qed

theorem counts_exact_witness:
  "sint (countAt exReg (zone (last exLock)) 0 1) =
    int (card {i. i < length (threads (last exLock)) \<and> held exReg (zone (last exLock)) 0 1 (threads (last exLock) ! i)})"
proof (rule counts_exact [OF exState_start exLock_reachable])
  show "1 < nbuckets exReg (zone (last exLock))" by code_simp
qed simp



text \<open>
  C3.  Liveness of the writer: from every reachable state in which \<open>rcuSynchronize\<close> is pending and
  no thread is counted in, the writer's own steps alone take it to its return, with the oldest
  epoch advanced past the one it waited for.
\<close>

theorem synchronize_returns:
  assumes "pstart reg s0" and "(pstep reg)\<^sup>*\<^sup>* s0 s"
    and "\<And>t r. t \<in> set (threads s) \<Longrightarrow> \<not> countedIn (pc t) r"
    and "writer s = WOuter le \<or> writer s = WScan le b \<and> b \<le> nbuckets reg (zone s)"
    and "sint le \<noteq> 2 ^ 63 - 1"
  shows "(writerMove reg)\<^sup>*\<^sup>* s (syncDone s le)"
  using writer_returns [OF protocol.inv_reachable [OF assms(1,2)] assms(3-5)] .

theorem synchronize_returns_witness:
  "(writerMove exReg)\<^sup>*\<^sup>* (exSync ! 6) (syncDone (exSync ! 6) 0)"
proof (rule synchronize_returns [OF exState_start])
  show "(pstep exReg)\<^sup>*\<^sup>* exState (exSync ! 6)"
    by (rule rtranclp_trans [OF exLock_reachable exSync_reaches]) code_simp
  have "\<forall>t \<in> set (threads (exSync ! 6)). pc t = ROut" by code_simp
  then show "\<not> countedIn (pc t) r" if "t \<in> set (threads (exSync ! 6))" for t r using that by simp
  show "writer (exSync ! 6) = WOuter 0 \<or>
      writer (exSync ! 6) = WScan 0 2 \<and> 2 \<le> nbuckets exReg (zone (exSync ! 6))" by code_simp
qed simp



text \<open>
  The sequential \<open>rcuReadLock\<close> is a run of the protocol: from any well-formed zone, with the
  writer anywhere, its steps without interference take the thread from outside to inside, holding
  the epoch it returns.
\<close>

theorem rcuReadLock_refines:
  assumes "wf_zone reg (zone s)" and "i < length (threads s)" and "pcOf s i = ROut"
    and "thread_ok reg (tls (threads s ! i))"
    and "rcuReadLock reg (zone s) (tls (threads s ! i)) (tidHash (threads s ! i)) = Some (e, z)"
  shows "(pstep reg)\<^sup>*\<^sup>* s ((setPc s i (RIn e))\<lparr>zone := z\<rparr>)"
  by (rule rcuReadLock_run [OF assms])

theorem rcuReadLock_refines_witness:
  "(pstep exReg)\<^sup>*\<^sup>* exState ((setPc exState 1 (RIn 0))\<lparr>zone := addAt exReg exZone 0 0 1\<rparr>)"
proof (rule rcuReadLock_refines)
  show wf: "wf_zone exReg (zone exState)" using exZone_wf by (simp add: exState_def)
  show "1 < length (threads exState)" "pcOf exState 1 = ROut"
    and ok: "thread_ok exReg (tls (threads exState ! 1))" by code_simp+
  have "row 0 = 0" "fetchThreadBucketId exReg exZone 0 6 = 0" by code_simp+
  then show "rcuReadLock exReg (zone exState) (tls (threads exState ! 1)) (tidHash (threads exState ! 1))
      = Some (0, addAt exReg exZone 0 0 1)"
    using rcuReadLock_wf [OF wf ok, of 6] by (simp add: exState_def) (simp add: exZone_def)
qed

end
