(* ===== verification/Concurrent.thy ===== *)
theory Concurrent
  imports Readers RcuProtocol
begin

text \<open>
  The whole system: the reader threads of the zone run lookups inside their critical sections while
  the writer performs a given sequence of writes, each grace period of which is a call of
  \<open>rcuSynchronize\<close> executed step by step.  The invariant proved here turns a \<^emph>\<open>script\<close>, a condition on
  the writer alone, into safety of every lookup under every interleaving.
\<close>

subsection \<open>Scripts\<close>

fun pubAfter :: "event \<Rightarrow> nat option \<Rightarrow> nat option" where
  "pubAfter (EPublish k) p = k"
| "pubAfter e p = p"

text \<open>
  \<open>script h q G es (V, pub, m) (V', pub', m')\<close>: the writes \<open>es\<close> lead from the memory \<open>m\<close>, covered by \<open>V\<close>,
  to \<open>m'\<close>, covered by \<open>V'\<close>.  A write keeps every address of the cover, since a reader may stand on it;
  a grace period allows any other cover of the same memory.
\<close>

inductive script :: "u64 \<Rightarrow> ptr \<Rightarrow> loc set \<Rightarrow> event list \<Rightarrow> loc set \<times> nat option \<times> mem
    \<Rightarrow> loc set \<times> nat option \<times> mem \<Rightarrow> bool" for h q G where
  nothing: "script h q G [] c c"
| stored: "e \<noteq> ESync \<Longrightarrow> V \<subseteq> U \<Longrightarrow> cover h q G (pubAfter e pub) (emit e m) U \<Longrightarrow>
    script h q G es (U, pubAfter e pub, emit e m) c \<Longrightarrow> script h q G (e # es) (V, pub, m) c"
| grace: "cover h q G pub m U \<Longrightarrow> script h q G es (U, pub, emit ESync m) c \<Longrightarrow>
    script h q G (ESync # es) (V, pub, m) c"

inductive_cases script_consE: "script h q G (e # es) (V, pub, m) c"
inductive_simps script_nil [simp]: "script h q G [] c d"

lemma script_append: "script h q G es c d \<Longrightarrow> script h q G es' d d' \<Longrightarrow> script h q G (es @ es') c d'"
  by (induction rule: script.induct) (auto intro: script.intros)

lemma script_wrote: "script h q G es (V, pub, m) (V', pub', m') \<Longrightarrow> wrote m es m'"
  by (induction es "(V, pub, m)" "(V', pub', m')" arbitrary: V pub m rule: script.induct)
    (auto simp: wrote_def)

lemma script_cover:
  "script h q G es (V, pub, m) (V', pub', m') \<Longrightarrow> cover h q G pub m V \<Longrightarrow> cover h q G pub' m' V'"
  by (induction es "(V, pub, m)" "(V', pub', m')" arbitrary: V pub m rule: script.induct)
    (auto intro: cover_sync)

text \<open>Some script leads there.\<close>

definition covered_run :: "u64 \<Rightarrow> ptr \<Rightarrow> loc set \<Rightarrow> loc set \<times> nat option \<times> mem
    \<Rightarrow> loc set \<times> nat option \<times> mem \<Rightarrow> bool" where
  "covered_run h q G c d \<longleftrightarrow> (\<exists>es. script h q G es c d)"

lemma run_refl [simp]: "covered_run h q G c c"
  unfolding covered_run_def by (rule exI [of _ "[]"]) simp

lemma run_trans [trans]: "covered_run h q G c d \<Longrightarrow> covered_run h q G d d' \<Longrightarrow> covered_run h q G c d'"
  unfolding covered_run_def using script_append by blast

lemma run_write:
  "covered_run h q G c (V, pub, m) \<Longrightarrow> e \<noteq> ESync \<Longrightarrow> V \<subseteq> U \<Longrightarrow> cover h q G (pubAfter e pub) (emit e m) U \<Longrightarrow>
    covered_run h q G c (U, pubAfter e pub, emit e m)"
  by (erule run_trans) (auto simp: covered_run_def intro: script.intros)

lemma run_store:
  "covered_run h q G c (V, pub, m) \<Longrightarrow> V \<subseteq> U \<Longrightarrow> cover h q G pub (storeNext a p m) U \<Longrightarrow>
    covered_run h q G c (U, pub, storeNext a p m)"
  using run_write [of h q G c V pub m "EStore a p" U] by simp

lemma run_grace:
  "covered_run h q G c (V, pub, m) \<Longrightarrow> cover h q G pub m U \<Longrightarrow> covered_run h q G c (U, pub, emit ESync m)"
  by (erule run_trans) (auto simp: covered_run_def intro: script.intros)

lemma run_cover: "covered_run h q G (V, pub, m) (V', pub', m') \<Longrightarrow> cover h q G pub m V \<Longrightarrow> cover h q G pub' m' V'"
  unfolding covered_run_def using script_cover by blast

text \<open>Stores elsewhere.\<close>

lemma run_stores:
  assumes "covered_run h q G c (V, pub, m)" "cover h q G pub m V" "stores A m m'" "A \<inter> V = {}"
  shows "covered_run h q G c (V, pub, m') \<and> cover h q G pub m' V"
proof -
  have "covered_run h q G c (V, pub, fold emit es m) \<and> cover h q G pub (fold emit es m) V"
    if "covered_run h q G c (V, pub, m)" "cover h q G pub m V" "\<forall>e \<in> set es. \<exists>a \<in> A. \<exists>p. e = EStore a p" for es m
    using that
  proof (induction es arbitrary: m)
    case (Cons e es)
    then obtain a p where e: "e = EStore a p" "a \<in> A" by auto
    then have "cover h q G pub (emit e m) V" using cover_off [OF Cons.prems(2), of a p] assms(4) by blast
    then show ?case using Cons.IH [of "emit e m"] run_store [OF Cons.prems(1)] Cons.prems(3) e(1) by auto
  qed simp
  then show ?thesis using assms by (auto simp: stores_def wrote_def)
qed

subsection \<open>The system\<close>

text \<open>
  A reader thread has its current lookup, and the nodes its lookups returned in the current critical
  section, which it may go on using.
\<close>

record 'k reader =
  search :: "'k search"
  got :: "('k \<times> loc) list"

definition idleReader :: "'k reader" where
  "idleReader = \<lparr>search = Idle, got = []\<rparr>"

definition advance :: "(loc \<Rightarrow> 'k) \<Rightarrow> ('k \<Rightarrow> u64) \<Rightarrow> mem \<Rightarrow> 'k reader \<Rightarrow> 'k reader" where
  "advance key hf m r =
     (let s = searchStep key hf m (search r)
      in \<lparr>search = s, got = (case s of Hit k y \<Rightarrow> (k, y) # got r | _ \<Rightarrow> got r)\<rparr>)"

record 'k system =
  proto :: pstate
  shared :: mem
  published :: "nat option"
  todo :: "event list"
  readers :: "nat \<Rightarrow> 'k reader"

definition reading :: "pstate \<Rightarrow> nat \<Rightarrow> bool" where
  "reading p i \<longleftrightarrow> i < length (threads p) \<and> (case pcOf p i of RIn e \<Rightarrow> True | _ \<Rightarrow> False)"

text \<open>
  One step of thread \<open>i\<close> in the locking protocol (entering or leaving the section forgets its
  pointers), the start of a lookup, one access of it, or one step of the writer.
\<close>

datatype 'k action = Protocol nat | Begin nat 'k | Access nat | Write

fun act :: "RCUReaderThreadRegistry \<Rightarrow> (loc \<Rightarrow> 'k) \<Rightarrow> ('k \<Rightarrow> u64) \<Rightarrow> 'k action \<Rightarrow> 'k system \<Rightarrow> 'k system option" where
  "act reg key hf (Protocol i) s = do {
     p \<leftarrow> threadStep reg i (proto s);
     Some (s\<lparr>proto := p, readers := (readers s)(i := idleReader)\<rparr>)
   }"
| "act reg key hf (Begin i k) s =
     (if reading (proto s) i \<and> finished (search (readers s i))
      then Some (s\<lparr>readers := (readers s)(i := (readers s i)\<lparr>search := beginSearch (published s) k\<rparr>)\<rparr>)
      else None)"
| "act reg key hf (Access i) s =
     (if reading (proto s) i \<and> \<not> finished (search (readers s i))
      then Some (s\<lparr>readers := (readers s)(i := advance key hf (shared s) (readers s i))\<rparr>)
      else None)"
| "act reg key hf Write s =
     (case todo s of
        [] \<Rightarrow> None
      | e # es \<Rightarrow>
          if e = ESync then do {
            p \<leftarrow> writerStep reg (proto s);
            Some (if writer p = WOut then s\<lparr>proto := p, todo := es, shared := emit ESync (shared s)\<rparr>
                  else s\<lparr>proto := p\<rparr>)
          }
          else Some (s\<lparr>shared := emit e (shared s), published := pubAfter e (published s), todo := es\<rparr>))"

definition sysstep :: "RCUReaderThreadRegistry \<Rightarrow> (loc \<Rightarrow> 'k) \<Rightarrow> ('k \<Rightarrow> u64) \<Rightarrow> 'k system \<Rightarrow> 'k system \<Rightarrow> bool" where
  "sysstep reg key hf s s' \<longleftrightarrow> (\<exists>a. act reg key hf a s = Some s')"

fun actions :: "RCUReaderThreadRegistry \<Rightarrow> (loc \<Rightarrow> 'k) \<Rightarrow> ('k \<Rightarrow> u64) \<Rightarrow> 'k action list \<Rightarrow> 'k system \<Rightarrow> 'k system option" where
  "actions reg key hf [] s = Some s"
| "actions reg key hf (a # as) s = do { s \<leftarrow> act reg key hf a s; actions reg key hf as s }"

lemma actions_reach: "actions reg key hf as s = Some s' \<Longrightarrow> (sysstep reg key hf)\<^sup>*\<^sup>* s s'"
proof (induction as arbitrary: s)
  case (Cons a as)
  then obtain t where "act reg key hf a s = Some t" "actions reg key hf as t = Some s'"
    by (auto simp del: act.simps split: bind_splits)
  then show ?case using Cons.IH converse_rtranclp_into_rtranclp [of "sysstep reg key hf" s t s']
    unfolding sysstep_def by blast
qed simp

subsection \<open>The invariant\<close>

text \<open>What a lookup of the key \<open>k\<close> may be doing while \<open>V\<close> covers the memory for the target \<open>q\<close>.\<close>

fun search_ok :: "ptr \<Rightarrow> loc set \<Rightarrow> 'k \<Rightarrow> 'k search \<Rightarrow> bool" where
  "search_ok q V k (Loaded k' b) = (k' = k \<longrightarrow> (\<exists>i. BucketHead b i \<in> V))"
| "search_ok q V k (At k' p) = (k' = k \<longrightarrow> p \<in> V)"
| "search_ok q V k (Visit k' y) = (k' = k \<longrightarrow> y \<in> V \<and> isNode y \<or> Some y = q)"
| "search_ok q V k (Miss k') = (k' = k \<longrightarrow> q = None)"
| "search_ok q V k (Fault k') = (k' \<noteq> k)"
| "search_ok q V k s = True"

definition reader_ok :: "(loc \<Rightarrow> 'k) \<Rightarrow> ptr \<Rightarrow> 'k \<Rightarrow> loc set \<Rightarrow> 'k reader \<Rightarrow> bool" where
  "reader_ok key q k V r \<longleftrightarrow> search_ok q V k (search r)
     \<and> (\<forall>y. search r = Hit k y \<or> (k, y) \<in> set (got r) \<longrightarrow> key y = k \<and> (y \<in> V \<and> isNode y \<or> Some y = q))"

lemma search_ok_mono: "search_ok q V k s \<Longrightarrow> V \<subseteq> U \<Longrightarrow> search_ok q U k s"
  by (induction q V k s rule: search_ok.induct) auto

lemma reader_ok_mono: "reader_ok key q k V r \<Longrightarrow> V \<subseteq> U \<Longrightarrow> reader_ok key q k U r"
  unfolding reader_ok_def by (meson search_ok_mono subsetD)

lemma reader_ok_idle [simp]: "reader_ok key q k V idleReader"
  by (simp add: reader_ok_def idleReader_def)

lemma reader_ok_begin:
  assumes "cover h q G pub m V" and "reader_ok key q k V r"
  shows "reader_ok key q k V (r\<lparr>search := beginSearch pub k'\<rparr>)"
  using assms coverD(2) [OF assms(1)] by (auto simp: reader_ok_def)

lemma bucketAt_cover:
  assumes "cover h q G pub m V" and "BucketHead b i \<in> V"
  shows "\<exists>n. blocks m b = Some n \<and> bucketAt m b (unat (h AND (n - 1))) = Some (BucketHead b i) \<and> liveHead m (BucketHead b i)"
proof -
  obtain j where j: "j < 32" "blocks m b = Some (2 ^ j)" "i = unat h mod 2 ^ j"
    using coverD(3) [OF assms] by blast
  then have "unat (h AND (2 ^ j - 1)) = i" "unat ((2 :: u64) ^ j) = 2 ^ j" by (simp_all add: and_mask_unat unat_two_power)
  then show ?thesis using j by (simp add: bucketAt_def)
qed

lemma search_ok_step:
  assumes c: "cover (hf k) q G pub m V" and t: "\<And>x. q = Some x \<Longrightarrow> key x = k" and s: "search_ok q V k s"
  shows "search_ok q V k (searchStep key hf m s)"
proof (cases s)
  case (Loaded k' b)
  then show ?thesis using s bucketAt_cover [OF c] by (cases "k' = k") (auto split: option.splits, fastforce+)
next
  case (At k' p)
  show ?thesis
  proof (cases "k' = k")
    case True
    then have p: "p \<in> V" using s At by simp
    have "liveHead m p" using bucketAt_cover [OF c] p by (cases p) auto
    then show ?thesis using coverD(4) [OF c p] At True by (auto split: option.split)
  qed (use At in \<open>auto split: option.split\<close>)
next
  case (Visit k' y)
  then show ?thesis using s t by (cases "k' = k") auto
qed (use s in auto)

lemma reader_ok_advance:
  assumes c: "cover (hf k) q G pub m V" and t: "\<And>x. q = Some x \<Longrightarrow> key x = k" and r: "reader_ok key q k V r"
  shows "reader_ok key q k V (advance key hf m r)"
proof -
  let ?s = "searchStep key hf m (search r)"
  have "search_ok q V k ?s" using search_ok_step [where hf = hf and key = key, OF c] t r by (simp add: reader_ok_def)
  moreover have "key y = k \<and> (y \<in> V \<and> isNode y \<or> Some y = q)" if "?s = Hit k y" for y
    using that r by (cases "search r") (auto simp: reader_ok_def split: if_splits option.splits)
  ultimately show ?thesis using r by (auto simp: reader_ok_def advance_def Let_def split: search.splits)
qed

text \<open>
  While the writer is not in \<open>rcuSynchronize\<close> one cover serves all readers.  While it is, the readers
  of the old epoch may stand in the old cover, and those of the new epoch are in the next one.
\<close>

definition inNewEpoch :: "pstate \<Rightarrow> nat \<Rightarrow> bool" where
  "inNewEpoch p i \<longleftrightarrow> i < length (threads p) \<and> pcOf p i = RIn (epochLatest (zone p))"

definition covers_now :: "(loc \<Rightarrow> 'k) \<Rightarrow> ('k \<Rightarrow> u64) \<Rightarrow> ptr \<Rightarrow> loc set \<Rightarrow> 'k
    \<Rightarrow> loc set \<times> nat option \<times> mem \<Rightarrow> 'k system \<Rightarrow> bool" where
  "covers_now key hf q G k d s \<longleftrightarrow>
     (if writer (proto s) = WOut then
        \<exists>V. cover (hf k) q G (published s) (shared s) V \<and> script (hf k) q G (todo s) (V, published s, shared s) d
          \<and> (\<forall>i. reader_ok key q k V (readers s i))
      else \<exists>V U es. todo s = ESync # es \<and> cover (hf k) q G (published s) (shared s) V
          \<and> cover (hf k) q G (published s) (shared s) U \<and> script (hf k) q G es (U, published s, emit ESync (shared s)) d
          \<and> (\<forall>i. reader_ok key q k
              (if inNewEpoch (proto s) i then U else V)
              (readers s i)))"

definition sysinv :: "RCUReaderThreadRegistry \<Rightarrow> (loc \<Rightarrow> 'k) \<Rightarrow> ('k \<Rightarrow> u64) \<Rightarrow> ptr \<Rightarrow> loc set \<Rightarrow> 'k
    \<Rightarrow> loc set \<times> nat option \<times> mem \<Rightarrow> 'k system \<Rightarrow> bool" where
  "sysinv reg key hf q G k d s \<longleftrightarrow> pinv reg (proto s) \<and> (\<forall>x. q = Some x \<longrightarrow> key x = k)
     \<and> covers_now key hf q G k d s \<and> (\<forall>i. \<not> reading (proto s) i \<longrightarrow> readers s i = idleReader)"


lemma reading_RIn: "reading p i \<longleftrightarrow> i < length (threads p) \<and> (\<exists>e. pcOf p i = RIn e)"
  by (auto simp: reading_def split: rpc.splits)

lemma sysinv_target: "sysinv reg key hf q G k d s \<Longrightarrow> q = Some x \<Longrightarrow> key x = k"
  by (simp add: sysinv_def)

lemma covers_quietI:
  assumes "writer (proto s) = WOut" "cover (hf k) q G (published s) (shared s) V"
    "script (hf k) q G (todo s) (V, published s, shared s) d" "\<And>i. reader_ok key q k V (readers s i)"
  shows "covers_now key hf q G k d s"
  using assms unfolding covers_now_def by auto

lemma covers_syncI:
  assumes "writer (proto s) \<noteq> WOut" "todo s = ESync # es" "cover (hf k) q G (published s) (shared s) V"
    "cover (hf k) q G (published s) (shared s) U" "script (hf k) q G es (U, published s, emit ESync (shared s)) d"
    "\<And>i. reader_ok key q k (if inNewEpoch (proto s) i then U else V) (readers s i)"
  shows "covers_now key hf q G k d s"
  unfolding covers_now_def if_not_P [OF assms(1)] using assms(2-6) by blast

lemma covers_quietE:
  assumes "covers_now key hf q G k d s" "writer (proto s) = WOut"
  obtains V where "cover (hf k) q G (published s) (shared s) V"
    "script (hf k) q G (todo s) (V, published s, shared s) d" "\<forall>i. reader_ok key q k V (readers s i)"
  using assms unfolding covers_now_def by auto

lemma covers_syncE:
  assumes "covers_now key hf q G k d s" "writer (proto s) \<noteq> WOut"
  obtains V U es where "todo s = ESync # es" "cover (hf k) q G (published s) (shared s) V"
    "cover (hf k) q G (published s) (shared s) U" "script (hf k) q G es (U, published s, emit ESync (shared s)) d"
    "\<forall>i. reader_ok key q k (if inNewEpoch (proto s) i then U else V) (readers s i)"
  using assms(1) unfolding covers_now_def if_not_P [OF assms(2)] by blast

text \<open>The readers may change as long as each stays in its cover.\<close>

lemma covers_now_reader:
  assumes c: "covers_now key hf q G k d s"
    and r: "\<And>V. cover (hf k) q G (published s) (shared s) V \<Longrightarrow> reader_ok key q k V (readers s i) \<Longrightarrow> reader_ok key q k V r"
  shows "covers_now key hf q G k d (s\<lparr>readers := (readers s)(i := r)\<rparr>)"
proof (cases "writer (proto s) = WOut")
  case True
  obtain V where "cover (hf k) q G (published s) (shared s) V"
    "script (hf k) q G (todo s) (V, published s, shared s) d" "\<forall>i. reader_ok key q k V (readers s i)"
    by (rule covers_quietE [OF c True])
  then show ?thesis using True r by (intro covers_quietI [of _ _ _ _ _ V]) auto
next
  case False
  obtain V U es where *: "todo s = ESync # es" "cover (hf k) q G (published s) (shared s) V"
    "cover (hf k) q G (published s) (shared s) U" "script (hf k) q G es (U, published s, emit ESync (shared s)) d"
    "\<forall>i. reader_ok key q k (if inNewEpoch (proto s) i then U else V) (readers s i)"
    by (rule covers_syncE [OF c False])
  have "reader_ok key q k (if inNewEpoch (proto s) i' then U else V) (((readers s)(i := r)) i')" for i'
    using *(5) [rule_format, of i'] r [OF *(2)] r [OF *(3)] by (cases "i' = i") (auto split: if_splits)
  then show ?thesis using False *(1-4) by (intro covers_syncI [where V = V and U = U and es = es]) simp_all
qed

text \<open>A protocol step of a thread resets its reader and leaves the others where they are.\<close>

lemma threadStep_frame:
  assumes "threadStep reg i p = Some p'"
  shows "writer p' = writer p" "epochLatest (zone p') = epochLatest (zone p)"
    "length (threads p') = length (threads p)" "i' \<noteq> i \<Longrightarrow> threads p' ! i' = threads p ! i'" "i < length (threads p)"
  using assms by (auto simp: Let_def fetchAddCount_def setPc_def split: if_splits rpc.splits bind_splits)

lemma covers_now_thread:
  assumes "covers_now key hf q G k d s" and "threadStep reg i (proto s) = Some p"
  shows "covers_now key hf q G k d (s\<lparr>proto := p, readers := (readers s)(i := idleReader)\<rparr>)"
proof -
  note f = threadStep_frame [OF assms(2)]
  let ?s = "s\<lparr>readers := (readers s)(i := idleReader)\<rparr>"
  have r: "covers_now key hf q G k d ?s" by (rule covers_now_reader [OF assms(1)]) simp
  show ?thesis
  proof (cases "writer (proto s) = WOut")
    case True
    then have w: "writer (proto ?s) = WOut" by simp
    obtain V where "cover (hf k) q G (published ?s) (shared ?s) V"
      "script (hf k) q G (todo ?s) (V, published ?s, shared ?s) d" "\<forall>i. reader_ok key q k V (readers ?s i)"
      by (rule covers_quietE [OF r w])
    then show ?thesis using True f(1) by (intro covers_quietI [where V = V]) simp_all
  next
    case False
    then have w: "writer (proto ?s) \<noteq> WOut" by simp
    obtain V U es where *: "todo ?s = ESync # es" "cover (hf k) q G (published ?s) (shared ?s) V"
      "cover (hf k) q G (published ?s) (shared ?s) U" "script (hf k) q G es (U, published ?s, emit ESync (shared ?s)) d"
      "\<forall>i. reader_ok key q k (if inNewEpoch (proto ?s) i then U else V) (readers ?s i)"
      by (rule covers_syncE [OF r w])
    have "reader_ok key q k (if inNewEpoch p i' then U else V) (readers ?s i')" for i'
      using *(5) [rule_format, of i'] f by (cases "i' = i") (auto simp: inNewEpoch_def)
    then show ?thesis using False f(1) *(1-4) by (intro covers_syncI [where V = V and U = U and es = es]) simp_all
  qed
qed

text \<open>
  A step of the writer inside \<open>rcuSynchronize\<close>.  When the call starts, every reader in its section
  holds the old epoch; when it returns, every one holds the new one.
\<close>

lemma writerStep_threads: "writerStep reg p = Some p' \<Longrightarrow> threads p' = threads p"
  by (auto split: wpc.splits bind_splits if_splits)

lemma writerStep_latest: "writerStep reg p = Some p' \<Longrightarrow> writer p \<noteq> WOut \<Longrightarrow> epochLatest (zone p') = epochLatest (zone p)"
  by (auto split: wpc.splits bind_splits if_splits)

lemma pinv_old_epoch: "pinv reg p \<Longrightarrow> writer p = WOut \<Longrightarrow> i < length (threads p) \<Longrightarrow> pcOf p i = RIn e \<Longrightarrow> e = epochLatest (zone p)"
  using pinvD(4) [of reg p] pinvD(6) [of reg p i] by (auto simp: reader_inv_def)

lemma covers_now_sync:
  assumes c: "covers_now key hf q G k d s" and inv: "pinv reg (proto s)"
    and idle: "\<And>i. \<not> reading (proto s) i \<Longrightarrow> readers s i = idleReader"
    and st: "writerStep reg (proto s) = Some p" and es: "todo s = ESync # es"
  shows "covers_now key hf q G k d
    (if writer p = WOut then s\<lparr>proto := p, todo := es, shared := emit ESync (shared s)\<rparr> else s\<lparr>proto := p\<rparr>)"
proof (cases "writer (proto s) = WOut")
  case True
  obtain V where V: "cover (hf k) q G (published s) (shared s) V"
    "script (hf k) q G (ESync # es) (V, published s, shared s) d" "\<forall>i. reader_ok key q k V (readers s i)"
    using covers_quietE [OF c True] es by metis
  obtain U where U: "cover (hf k) q G (published s) (shared s) U"
    "script (hf k) q G es (U, published s, emit ESync (shared s)) d"
    using V(2) by (auto elim: script_consE)
  have p: "p = (proto s)\<lparr>zone := (zone (proto s))\<lparr>epochLatest := epochLatest (zone (proto s)) + 1\<rparr>,
      writer := WOuter (epochLatest (zone (proto s)))\<rparr>" using st True by simp
  have "\<not> inNewEpoch p i" for i
    using pinv_old_epoch [OF inv True, of i] by (auto simp: inNewEpoch_def p)
  then show ?thesis using V(1,3) U es by (auto simp: p intro!: covers_syncI [where V = V and U = U and es = es])
next
  case False
  obtain V U where *: "cover (hf k) q G (published s) (shared s) V"
    "cover (hf k) q G (published s) (shared s) U" "script (hf k) q G es (U, published s, emit ESync (shared s)) d"
    "\<forall>i. reader_ok key q k (if inNewEpoch (proto s) i then U else V) (readers s i)"
    using covers_syncE [OF c False] es by (metis list.inject)
  note f = writerStep_threads [OF st] writerStep_latest [OF st False]
  have new: "inNewEpoch p i = inNewEpoch (proto s) i" for i using f by (simp add: inNewEpoch_def)
  show ?thesis
  proof (cases "writer p = WOut")
    case w: True
    have "pinv reg p" using pstep_pinv [OF writerStep_sound [OF st] inv] .
    then have "inNewEpoch p i" if "reading (proto s) i" for i
      using that pinv_old_epoch [of reg p i] w f(1) by (auto simp: inNewEpoch_def reading_RIn)
    then have "reader_ok key q k U (readers s i)" for i
      using *(4) [rule_format, of i] idle [of i] new [of i] by (cases "reading (proto s) i") auto
    then show ?thesis using w *(2,3) by (auto intro!: covers_quietI [where V = U] cover_sync)
  next
    case w: False
    then show ?thesis using * es new by (auto intro!: covers_syncI [where V = V and U = U and es = es])
  qed
qed

lemma covers_now_write:
  assumes c: "covers_now key hf q G k d s" and es: "todo s = e # es" "e \<noteq> ESync"
  shows "covers_now key hf q G k d (s\<lparr>shared := emit e (shared s), published := pubAfter e (published s), todo := es\<rparr>)"
proof (cases "writer (proto s) = WOut")
  case True
  obtain V where V: "script (hf k) q G (e # es) (V, published s, shared s) d" "\<forall>i. reader_ok key q k V (readers s i)"
    using covers_quietE [OF c True] es by metis
  obtain U where U: "V \<subseteq> U" "cover (hf k) q G (pubAfter e (published s)) (emit e (shared s)) U"
    "script (hf k) q G es (U, pubAfter e (published s), emit e (shared s)) d"
    using V(1) es(2) by (auto elim: script_consE)
  have "reader_ok key q k U (readers s i)" for i
    by (rule reader_ok_mono [OF spec [OF V(2)] U(1)])
  then show ?thesis using True U by (intro covers_quietI [where V = U]) simp_all
next
  case False
  then show ?thesis using covers_syncE [OF c False] es by (metis list.inject)
qed

lemma sysinv_step:
  assumes inv: "sysinv reg key hf q G k d s" and st: "sysstep reg key hf s s'"
  shows "sysinv reg key hf q G k d s'"
proof -
  note i = inv [unfolded sysinv_def]
  have pi: "pinv reg (proto s)" and c: "covers_now key hf q G k d s"
    and idle: "\<And>i. \<not> reading (proto s) i \<Longrightarrow> readers s i = idleReader" using i by auto
  obtain a where "act reg key hf a s = Some s'" using st by (auto simp: sysstep_def)
  then show ?thesis
  proof (cases a)
    case (Protocol i)
    then obtain p where p: "threadStep reg i (proto s) = Some p" "s' = s\<lparr>proto := p, readers := (readers s)(i := idleReader)\<rparr>"
      using \<open>act reg key hf a s = Some s'\<close> by (auto simp del: threadStep.simps split: bind_splits)
    have "pinv reg p" using pstep_pinv [OF threadStep_sound [OF p(1)] pi] .
    moreover have "reading p i' = reading (proto s) i'" if "i' \<noteq> i" for i'
      using threadStep_frame [OF p(1)] that by (simp add: reading_def)
    ultimately show ?thesis using covers_now_thread [OF c p(1)] idle i by (auto simp: sysinv_def p(2))
  next
    case (Begin i k')
    then have s': "reading (proto s) i" "s' = s\<lparr>readers := (readers s)(i := (readers s i)\<lparr>search := beginSearch (published s) k'\<rparr>)\<rparr>"
      using \<open>act reg key hf a s = Some s'\<close> by (auto split: if_splits)
    then show ?thesis using covers_now_reader [OF c reader_ok_begin, of i] idle i by (auto simp: sysinv_def)
  next
    case (Access i)
    then have s': "reading (proto s) i" "s' = s\<lparr>readers := (readers s)(i := advance key hf (shared s) (readers s i))\<rparr>"
      using \<open>act reg key hf a s = Some s'\<close> by (auto split: if_splits)
    have "reader_ok key q k V (advance key hf (shared s) (readers s i))"
      if "cover (hf k) q G (published s) (shared s) V" "reader_ok key q k V (readers s i)" for V
      using reader_ok_advance [where key = key and hf = hf, OF that(1) _ that(2)] i by blast
    then show ?thesis using s' covers_now_reader [OF c, of i] idle i by (auto simp: sysinv_def)
  next
    case Write
    then obtain e es where es: "todo s = e # es" using \<open>act reg key hf a s = Some s'\<close> by (auto split: list.splits)
    show ?thesis
    proof (cases "e = ESync")
      case True
      then obtain p where p: "writerStep reg (proto s) = Some p" "s' = (if writer p = WOut
          then s\<lparr>proto := p, todo := es, shared := emit ESync (shared s)\<rparr> else s\<lparr>proto := p\<rparr>)"
        using \<open>act reg key hf a s = Some s'\<close> Write es by (auto simp del: writerStep.simps split: bind_splits)
      have "pinv reg p" using pstep_pinv [OF writerStep_sound [OF p(1)] pi] .
      moreover have "reading p i' = reading (proto s) i'" for i' using writerStep_threads [OF p(1)] by (simp add: reading_def)
      moreover have "covers_now key hf q G k d s'"
        unfolding p(2) by (rule covers_now_sync [OF c pi idle p(1)]) (use es True in simp_all)
      ultimately show ?thesis using idle i by (auto simp: sysinv_def p(2))
    next
      case False
      then have "s' = s\<lparr>shared := emit e (shared s), published := pubAfter e (published s), todo := es\<rparr>"
        using \<open>act reg key hf a s = Some s'\<close> Write es by simp
      then show ?thesis using covers_now_write [OF c es False] pi idle i by (simp add: sysinv_def)
    qed
  qed
qed


subsection \<open>From a script to the safety of every lookup\<close>

text \<open>
  The system starts with a zone in any reachable state in which no grace period is pending, and no
  lookup running.
\<close>

definition sysstart :: "RCUReaderThreadRegistry \<Rightarrow> nat option \<Rightarrow> mem \<Rightarrow> event list \<Rightarrow> 'k system \<Rightarrow> bool" where
  "sysstart reg p m es s \<longleftrightarrow> (\<exists>p0. pstart reg p0 \<and> (pstep reg)\<^sup>*\<^sup>* p0 (proto s)) \<and> writer (proto s) = WOut
     \<and> published s = p \<and> shared s = m \<and> todo s = es \<and> readers s = (\<lambda>_. idleReader)"

definition scripted :: "(loc \<Rightarrow> 'k) \<Rightarrow> ('k \<Rightarrow> u64) \<Rightarrow> ptr \<Rightarrow> loc set \<Rightarrow> 'k \<Rightarrow> loc set \<times> nat option \<times> mem \<Rightarrow> 'k system \<Rightarrow> bool" where
  "scripted key hf q G k d s \<longleftrightarrow> (\<forall>x. q = Some x \<longrightarrow> key x = k)
     \<and> (\<exists>V. cover (hf k) q G (published s) (shared s) V \<and> script (hf k) q G (todo s) (V, published s, shared s) d)"

interpretation concurrent: invariant_system
  "\<lambda>s. sysstart reg p m es s \<and> scripted key hf q G k d s" "sysstep reg key hf" "sysinv reg key hf q G k d"
  for reg p m es key hf q G k d
proof
  fix s
  assume a: "sysstart reg p m es s \<and> scripted key hf q G k d s"
  then obtain p0 where "pstart reg p0" "(pstep reg)\<^sup>*\<^sup>* p0 (proto s)" by (auto simp: sysstart_def)
  then have "pinv reg (proto s)" by (rule protocol.inv_reachable)
  moreover obtain V where "cover (hf k) q G (published s) (shared s) V"
    "script (hf k) q G (todo s) (V, published s, shared s) d" using a by (auto simp: scripted_def)
  then have "covers_now key hf q G k d s"
    using a by (intro covers_quietI [where V = V]) (simp_all add: sysstart_def)
  ultimately show "sysinv reg key hf q G k d s" using a by (simp add: sysinv_def sysstart_def scripted_def)
qed (rule sysinv_step)

text \<open>Where the readers of a key are, in every reachable state.\<close>

lemma sysinv_reader:
  assumes "sysinv reg key hf q G k d s"
  obtains V where "cover (hf k) q G (published s) (shared s) V" "reader_ok key q k V (readers s i)"
proof -
  have c: "covers_now key hf q G k d s" using assms by (simp add: sysinv_def)
  show ?thesis
  proof (cases "writer (proto s) = WOut")
    case True
    then obtain V where V: "cover (hf k) q G (published s) (shared s) V" "\<forall>i. reader_ok key q k V (readers s i)"
      using c unfolding covers_now_def by auto
    show ?thesis by (rule that [OF V(1) spec [OF V(2)]])
  next
    case False
    obtain V U where VU: "cover (hf k) q G (published s) (shared s) V" "cover (hf k) q G (published s) (shared s) U"
      "\<forall>i. reader_ok key q k (if inNewEpoch (proto s) i then U else V) (readers s i)"
      by (rule covers_syncE [OF c False])
    have "cover (hf k) q G (published s) (shared s) (if inNewEpoch (proto s) i then U else V)" using VU(1,2) by simp
    then show ?thesis by (rule that [OF _ spec [OF VU(3)]])
  qed
qed

text \<open>A lookup that is left alone ends.\<close>

lemma search_ends_at:
  assumes c: "cover (hf k) None G p m V" and l: "leads m None n x" and x: "x \<in> V"
  shows "\<exists>n. finished (searchSteps key hf m n (At k x))"
  using l x
proof (induction n arbitrary: x)
  case 0
  have "liveHead m x" using bucketAt_cover [OF c] 0(2) by (cases x) auto
  then show ?case using 0 by (intro exI [of _ 1]) simp
next
  case (Suc n)
  then obtain y where y: "nxt m x = Some y" "leads m None n y" by auto
  have "liveHead m x" using bucketAt_cover [OF c] Suc.prems(2) by (cases x) auto
  then have st: "searchStep key hf m (searchStep key hf m (At k x)) = (if key y = k then Hit k y else At k y)"
    using y(1) by simp
  show ?case
  proof (cases "key y = k")
    case True
    then have "finished (searchSteps key hf m (Suc (Suc 0)) (At k x))" using st by simp
    then show ?thesis by blast
  next
    case False
    have "y \<in> V" using coverD(4) [OF c Suc.prems(2)] y(1) by auto
    then obtain n' where "finished (searchSteps key hf m n' (At k y))" using Suc.IH y(2) by blast
    then have "finished (searchSteps key hf m (Suc (Suc n')) (At k x))"
      using st False by (simp only: searchSteps_Suc if_False)
    then show ?thesis by blast
  qed
qed

lemma search_ends:
  assumes c: "cover (hf k) None G p m V" and s: "search_ok None V k s" "s \<in> {Loaded k b, At k x, Visit k x}"
  shows "\<exists>n. finished (searchSteps key hf m n s)"
proof -
  have at: "\<exists>n. finished (searchSteps key hf m n (At k y))" if "y \<in> V" for y
    using coverD(5) [OF c that] search_ends_at [where key = key and hf = hf, OF c _ that] by blast
  have later: "\<exists>n. finished (searchSteps key hf m n s)" if "\<exists>n. finished (searchSteps key hf m n (searchStep key hf m s))"
    using that searchSteps_Suc [where key = key and hf = hf and m = m and s = s] by metis
  consider "s = Loaded k b" | "s = At k x" | "s = Visit k x" using s(2) by blast
  then show ?thesis
  proof cases
    case 1
    then obtain i where i: "BucketHead b i \<in> V" using s(1) by auto
    then have "searchStep key hf m s = At k (BucketHead b i)" using bucketAt_cover [OF c] 1 by fastforce
    then show ?thesis using later at [OF i] by simp
  next
    case 2
    then show ?thesis using at s(1) by simp
  next
    case 3
    then have "x \<in> V" using s(1) by simp
    have "finished (searchSteps key hf m 0 (Hit k x))" by simp
    then have h: "\<exists>n. finished (searchSteps key hf m n (Hit k x))" ..
    have "\<exists>n. finished (searchSteps key hf m n (searchStep key hf m s))"
      unfolding 3 using at [OF \<open>x \<in> V\<close>] h by (simp only: searchStep.simps split: if_split) simp
    then show ?thesis by (rule later)
  qed
qed

lemma sysinv_end:
  assumes "sysinv reg key hf q G k (V, p, m) s" and "todo s = []"
  shows "published s = p \<and> shared s = m \<and> reader_ok key q k V (readers s i)"
proof -
  have c: "covers_now key hf q G k (V, p, m) s" using assms by (simp add: sysinv_def)
  then show ?thesis using assms(2) unfolding covers_now_def by (auto split: if_splits)
qed

end
