(* ===== verification/Relativistic.thy ===== *)
theory Relativistic
  imports TableApi Concurrent
begin

text \<open>
  The writes of every operation of the table form a script: whatever lookups run beside the writer, a
  reader is never led off its bucket.  The state of the table and of the cover between two operations
  is \<open>settled\<close>; each operation takes a settled state to a settled state through a covered run.
\<close>

subsection \<open>Settled states\<close>

text \<open>
  The aim of a reader: the target is a node of the table with the reader's hash value, or null, and
  all other nodes of the table are allowed.
\<close>

definition aim :: "u64 \<Rightarrow> ptr \<Rightarrow> loc set \<Rightarrow> (loc \<rightharpoonup> u64) \<Rightarrow> bool" where
  "aim h q G A \<longleftrightarrow> (\<forall>k i. BucketHead k i \<in> G) \<and> (\<forall>y. A y \<noteq> None \<longrightarrow> Some y \<noteq> q \<longrightarrow> y \<in> G)
     \<and> (\<forall>x. q = Some x \<longrightarrow> A x = Some h)"

text \<open>The nodes that share the bucket of \<open>h\<close> in a table of \<open>2 ^ j\<close> buckets.\<close>

definition sameBucket :: "u64 \<Rightarrow> nat \<Rightarrow> (loc \<rightharpoonup> u64) \<Rightarrow> loc set" where
  "sameBucket h j A = {y. \<exists>g. A y = Some g \<and> unat g mod 2 ^ j = unat h mod 2 ^ j}"

text \<open>
  \<open>X\<close> holds the nodes in limbo: detached, and not yet given up by the readers that may hold them.
\<close>

definition settled :: "u64 \<Rightarrow> ptr \<Rightarrow> loc set \<Rightarrow> loc set \<Rightarrow> (loc \<rightharpoonup> u64) \<Rightarrow> RTableCore \<Rightarrow> mem \<Rightarrow> nat \<Rightarrow> loc set \<Rightarrow> bool" where
  "settled h q G X A t m j V \<longleftrightarrow> (\<exists>B. table m t j B \<and> absTable m B = A)
     \<and> (\<exists>k. pBucketsInfo t = Some k \<and> cover h q G (Some k) m V
          \<and> V \<subseteq> insert (BucketHead k (unat h mod 2 ^ j)) (sameBucket h j A \<union> X))
     \<and> aim h q G A \<and> (\<forall>x \<in> X. isNode x \<and> A x = None)"

lemma settledE:
  assumes "settled h q G X A t m j V"
  obtains B k where "table m t j B" "absTable m B = A" "pBucketsInfo t = Some k" "buckets_at m k j B"
    "cover h q G (Some k) m V" "V \<subseteq> insert (BucketHead k (unat h mod 2 ^ j)) (sameBucket h j A \<union> X)"
    "aim h q G A" "\<forall>x \<in> X. isNode x \<and> A x = None"
proof -
  obtain B k where *: "table m t j B" "absTable m B = A" "pBucketsInfo t = Some k"
    "cover h q G (Some k) m V" "V \<subseteq> insert (BucketHead k (unat h mod 2 ^ j)) (sameBucket h j A \<union> X)"
    "aim h q G A" "\<forall>x \<in> X. isNode x \<and> A x = None"
    using assms unfolding settled_def by blast
  moreover have "buckets_at m k j B" using *(1,3) by (auto elim: tableE)
  ultimately show ?thesis using that by blast
qed

lemma bucket_abs:
  assumes "buckets_at m k j B" "i < 2 ^ j"
  shows "set (B ! i) = {y. \<exists>g. absTable m B y = Some g \<and> unat g mod 2 ^ j = i}"
proof -
  have "y \<in> set (B ! i) \<longleftrightarrow> y \<in> set (concat B) \<and> home m j y = i" for y
    using table_member [OF assms(1), of y] table_home(1) [OF assms] concat_nth [of y B] buckets_atD(4) [OF assms(1)] assms(2)
    by metis
  then show ?thesis by (auto simp: absTable_def home_def simp del: set_concat split: if_splits)
qed

lemma bucket_same:
  "buckets_at m k j B \<Longrightarrow> set (B ! (unat h mod 2 ^ j)) = sameBucket h j (absTable m B)"
  by (subst bucket_abs) (auto simp: sameBucket_def)

lemma sameBucket_node: "buckets_at m k j B \<Longrightarrow> y \<in> sameBucket h j (absTable m B) \<Longrightarrow> isNode y"
  using bucket_same [of m k j B h] table_home(2) [of m k j B "unat h mod 2 ^ j" y] by simp

text \<open>Addresses of a cover: its bucket, and nodes of that bucket or in limbo.\<close>

lemma settled_nodes:
  assumes "settled h q G X A t m j V" "y \<in> V"
  shows "(\<exists>k. pBucketsInfo t = Some k \<and> y = BucketHead k (unat h mod 2 ^ j))
    \<or> isNode y \<and> (y \<in> sameBucket h j A \<or> y \<in> X)"
proof -
  obtain B k where s: "absTable m B = A" "pBucketsInfo t = Some k" "buckets_at m k j B"
    "V \<subseteq> insert (BucketHead k (unat h mod 2 ^ j)) (sameBucket h j A \<union> X)" "\<forall>x \<in> X. isNode x \<and> A x = None"
    using assms(1) by (rule settledE)
  show ?thesis using s assms(2) sameBucket_node [OF s(3), of y h] by auto
qed

lemma settled_notin:
  assumes "settled h q G X A t m j V" "isNode e" "A e = None" "e \<notin> X"
  shows "e \<notin> V"
  using settled_nodes [OF assms(1), of e] assms(2-4) by (auto simp: isNode_def sameBucket_def)

lemma aim_bucket:
  assumes "buckets_at m k j B" "aim h q G (absTable m B)"
  shows "q = None \<or> (\<exists>x \<in> set (B ! (unat h mod 2 ^ j)). q = Some x)"
    and "set (until q (B ! (unat h mod 2 ^ j))) \<subseteq> G"
proof -
  show "q = None \<or> (\<exists>x \<in> set (B ! (unat h mod 2 ^ j)). q = Some x)"
    using assms(2) by (cases q) (auto simp: bucket_same [OF assms(1)] sameBucket_def aim_def)
  show "set (until q (B ! (unat h mod 2 ^ j))) \<subseteq> G"
  proof
    fix y
    assume "y \<in> set (until q (B ! (unat h mod 2 ^ j)))"
    then have "y \<in> sameBucket h j (absTable m B)" "Some y \<noteq> q"
      using set_until [of y q] bucket_same [OF assms(1), of h] by auto
    then show "y \<in> G" using assms(2) by (auto simp: aim_def sameBucket_def)
  qed
qed

text \<open>The path of a reader that starts now.\<close>

lemma table_cover:
  assumes at: "buckets_at m k j B" and a: "aim h q G (absTable m B)"
  shows "cover h q G (Some k) m (insert (BucketHead k (unat h mod 2 ^ j)) (set (until q (B ! (unat h mod 2 ^ j)))))"
proof -
  let ?i = "unat h mod 2 ^ j"
  have i: "?i < 2 ^ j" by simp
  have b: "slist m (BucketHead k ?i) (B ! ?i)" "\<forall>y \<in> set (B ! ?i). isNode y"
    using buckets_atD(5) [OF at i] by (auto simp: bucket_ok_def)
  show ?thesis
    by (rule cover_path [OF b(1) aim_bucket(1) [OF at a] b(2) _ aim_bucket(2) [OF at a] buckets_atD(1) [OF at]])
      (use a buckets_atD(2) [OF at] in \<open>auto simp: aim_def\<close>)
qed

lemma settled_start:
  assumes tb: "table m t j B" and a: "aim h q G (absTable m B)"
  shows "\<exists>V. settled h q G {} (absTable m B) t m j V"
proof -
  obtain k where k: "pBucketsInfo t = Some k" "buckets_at m k j B" using tb by (rule tableE)
  have "set (until q (B ! (unat h mod 2 ^ j))) \<subseteq> sameBucket h j (absTable m B)"
    using set_until [of _ q] bucket_same [OF k(2), of h] by blast
  then show ?thesis using table_cover [OF k(2) a] tb a k(1) unfolding settled_def by blast
qed

text \<open>A grace period ends the limbo.\<close>

lemma settled_sync:
  assumes s: "settled h q G X A t m j V"
  shows "\<exists>V'. covered_run h q G (V, pBucketsInfo t, m) (V', pBucketsInfo t, emit ESync m)
    \<and> settled h q G {} A t (emit ESync m) j V'"
proof -
  obtain B k where B: "table m t j B" "absTable m B = A" "pBucketsInfo t = Some k" "aim h q G A"
    using s by (rule settledE)
  obtain V' where V': "settled h q G {} A t m j V'" using settled_start [OF B(1)] B(2,4) by blast
  then have c: "cover h q G (Some k) m V'" using B(3) by (auto simp: settled_def)
  have "covered_run h q G (V, Some k, m) (V', Some k, emit ESync m)" by (rule run_grace [OF run_refl c])
  moreover have "settled h q G {} A t (emit ESync m) j V'"
    using V' table_sync cover_sync unfolding settled_def by metis
  ultimately show ?thesis using B(3) by auto
qed

subsection \<open>Insertion and removal at a fixed size\<close>

lemma insert_covered:
  assumes s: "settled h q G X A t m j V" and e: "isNode e" "A e = None" "e \<notin> X"
    and run: "rTableCoreTryInsertNoExpand t e g R m = Some (ins, t1, m1)" and G: "ins \<Longrightarrow> e \<in> G"
  shows "\<exists>V1. covered_run h q G (V, pBucketsInfo t, m) (V1, pBucketsInfo t1, m1)
    \<and> settled h q G X (if ins then A(e \<mapsto> g) else A) t1 m1 j V1"
proof -
  obtain B k where B: "table m t j B" "absTable m B = A" "pBucketsInfo t = Some k" "buckets_at m k j B"
    "cover h q G (Some k) m V" "V \<subseteq> insert (BucketHead k (unat h mod 2 ^ j)) (sameBucket h j A \<union> X)"
    "aim h q G A" "\<forall>x \<in> X. isNode x \<and> A x = None"
    using s by (rule settledE)
  have eB: "e \<notin> set (concat B)" using e(2) B(2) dom_absTable [of e m B] by (auto simp: dom_def simp del: set_concat)
  obtain B1 where B1: "table m1 t1 j B1" "absTable m1 B1 = (if ins then A(e \<mapsto> g) else A)"
    "t1 = t\<lparr>tsize := tsize t + (if ins then 1 else 0)\<rparr>"
    using rTableCoreTryInsertNoExpand_table [where R = R and h = g, OF B(1) e(1) eB] run B(2) by auto
  let ?m = "emit (EHash e g) m" and ?i = "unat g mod 2 ^ j"
  have tb: "table ?m t j B" using table_hash [OF B(1) eB] .
  obtain k' where k': "bucketFor t g ?m = Some (BucketHead k' ?i)" "bucket_ok ?m k' j ?i (B ! ?i)" "pBucketsInfo t = Some k'"
    by (rule bucketFor_table [OF tb])
  let ?l = "BucketHead k ?i"
  have k: "bucketFor t g ?m = Some ?l" "slist ?m ?l (B ! ?i)" using k' B(3) by (simp_all add: bucket_ok_def)
  have "?i < length B" using buckets_atD(4) [OF B(4)] by simp
  then have el: "e \<notin> set (?l # B ! ?i)" using e(1) eB concat_nth [of e B] by (auto simp: isNode_def)
  have p: "rcuSlistPrependIfNoMatch ?l e R ?m = Some (ins, m1)"
    using run k(1) by (auto simp: rTableCoreTryInsertNoExpand_def Let_def split: bind_splits)
  have r0: "covered_run h q G (V, Some k, m) (V, Some k, ?m)"
    using run_write [OF run_refl, of "EHash e g" V V h q G "Some k" m] cover_hash [OF B(5)] by simp
  have c0: "cover h q G (Some k) ?m V" using cover_hash [OF B(5)] .
  have p1: "pBucketsInfo t1 = Some k" using B1(3) B(3) by simp
  show ?thesis
  proof (cases ins)
    case False
    then have "m1 = ?m" using p rcuSlistPrependIfNoMatch_slist [OF k(2) el, of R] by (auto split: if_splits)
    then show ?thesis using False r0 c0 B B1 p1 unfolding settled_def by (intro exI [of _ V]) auto
  next
    case True
    let ?m2 = "storeNext e (nxt ?m ?l) ?m"
    have m1: "m1 = storeNext ?l (Some e) ?m2" using True p rcuSlistPrependIfNoMatch_slist [OF k(2) el, of R] by (auto split: if_splits)
    have eV: "e \<notin> V" using settled_notin [OF s e] .
    have c2: "cover h q G (Some k) ?m2 V" by (rule cover_off [OF c0 eV])
    have r2: "covered_run h q G (V, Some k, m) (V, Some k, ?m2)" by (rule run_store [OF r0 subset_refl c2])
    define V1 where "V1 = (if ?l \<in> V then insert e V else V)"
    have c1: "cover h q G (Some k) m1 V1"
    proof (cases "?l \<in> V")
      case True
      have "cover h q G (Some k) (storeNext ?l (Some e) ?m2) (insert e V)"
        by (rule cover_insert [OF c2 True]) (use el e(1) G \<open>ins\<close> in auto)
      then show ?thesis using True by (simp add: m1 V1_def)
    next
      case False
      then show ?thesis unfolding m1 V1_def using cover_off [OF c2 False] by simp
    qed
    have "V \<subseteq> V1" by (auto simp: V1_def)
    then have r1: "covered_run h q G (V, Some k, m) (V1, Some k, m1)"
      using run_store [OF r2, of V1] c1 unfolding m1 by blast
    have "?l \<in> V \<Longrightarrow> ?i = unat h mod 2 ^ j" using settled_nodes [OF s, of ?l] by (auto simp: isNode_def)
    then have "V1 \<subseteq> insert (BucketHead k (unat h mod 2 ^ j)) (sameBucket h j (A(e \<mapsto> g)) \<union> X)"
      using B(6) e(2) by (auto simp: V1_def sameBucket_def)
    moreover have "aim h q G (A(e \<mapsto> g))" using B(7) G True e(2) by (auto simp: aim_def)
    moreover have "\<forall>x \<in> X. isNode x \<and> (A(e \<mapsto> g)) x = None" using B(8) e(3) by auto
    ultimately show ?thesis using True r1 c1 B1 p1 B(3) unfolding settled_def by (intro exI [of _ V1]) auto
  qed
qed

text \<open>A refused node that is in the table: its hash value is stored again.\<close>

lemma rehash_covered:
  assumes s: "settled h q G X A t m j V" and e: "A e = Some g"
  shows "\<exists>j' V'. covered_run h q G (V, pBucketsInfo t, m) (V', pBucketsInfo t, emit (EHash e g) m)
    \<and> settled h q G X A t (emit (EHash e g) m) j' V'"
proof -
  obtain B k where B: "table m t j B" "absTable m B = A" "pBucketsInfo t = Some k" "cover h q G (Some k) m V"
    using s by (rule settledE)
  note a = rTableCoreTryInsertNoExpand_again [where R = "\<lambda>_ _. True", OF B(1) e [folded B(2)] TrueI]
  have "covered_run h q G (V, Some k, m) (V, Some k, emit (EHash e g) m)"
    using run_write [OF run_refl, of "EHash e g" V V h q G "Some k" m] cover_hash [OF B(4)] by simp
  moreover have "settled h q G X A t (emit (EHash e g) m) j V"
    using s a(2,3) B cover_hash unfolding settled_def by (metis option.inject)
  ultimately show ?thesis using B(3) by auto
qed

lemma detach_covered:
  assumes s: "settled h q G X A t m j V" and run: "rTableCoreTryDetachNoShrink t g P m = Some (r, m1)"
    and q: "r \<noteq> None \<Longrightarrow> r \<noteq> q"
  shows "\<exists>V1. covered_run h q G (V, pBucketsInfo t, m) (V1, pBucketsInfo t, m1)
    \<and> settled h q G (X \<union> set_option r) (case r of None \<Rightarrow> A | Some x \<Rightarrow> A(x := None)) t m1 j V1"
proof -
  obtain B k where B: "table m t j B" "absTable m B = A" "pBucketsInfo t = Some k" "buckets_at m k j B"
    "cover h q G (Some k) m V" "V \<subseteq> insert (BucketHead k (unat h mod 2 ^ j)) (sameBucket h j A \<union> X)"
    "aim h q G A" "\<forall>x \<in> X. isNode x \<and> A x = None"
    using s by (rule settledE)
  let ?i = "unat g mod 2 ^ j"
  obtain B1 where B1: "r = find P (B ! ?i)" "table m1 t j B1"
    "absTable m1 B1 = (case r of None \<Rightarrow> A | Some x \<Rightarrow> A(x := None))"
    using rTableCoreTryDetachNoShrink_table [OF B(1), of g P] run B(2) by auto
  obtain k' where k': "bucketFor t g m = Some (BucketHead k' ?i)" "bucket_ok m k' j ?i (B ! ?i)" "pBucketsInfo t = Some k'"
    by (rule bucketFor_table [OF B(1)])
  let ?l = "BucketHead k ?i"
  have k: "rcuSlistRemoveIf ?l P m = Some (r, m1)" "slist m ?l (B ! ?i)"
    using k' B(3) run by (simp_all add: bucket_ok_def rTableCoreTryDetachNoShrink_def)
  have i: "?i < 2 ^ j" by simp
  from rcuSlistRemoveIf_slist [OF k(2), of P] show ?thesis
  proof (elim disjE exE conjE)
    assume "find P (B ! ?i) = None" "rcuSlistRemoveIf ?l P m = Some (None, m)"
    then show ?thesis using k s by (intro exI [of _ V]) simp
  next
    fix ys x zs
    assume x: "B ! ?i = ys @ x # zs" "find P (B ! ?i) = Some x"
      "rcuSlistRemoveIf ?l P m = Some (Some x, storeNext (last (?l # ys)) (nxt m x) m)"
    let ?a = "last (?l # ys)"
    have m1: "r = Some x" "m1 = storeNext ?a (nxt m x) m" using x(3) k(1) by simp_all
    have "chain (nxt m) (nxt m ?l) ys (Some x)" using k(2) x(1) by (auto simp: slist_def)
    then have a: "nxt m ?a = Some x" by (cases ys rule: rev_cases) auto
    have c1: "cover h q G (Some k) m1 V"
      unfolding m1 by (rule cover_skip [OF B(5), of _ "[x]"]) (use a q m1(1) in auto)
    have r1: "covered_run h q G (V, Some k, m) (V, Some k, m1)"
      using run_store [OF run_refl subset_refl] c1 unfolding m1 by blast
    have xi: "x \<in> set (B ! ?i)" using x(1) by simp
    have xn: "isNode x" using table_home(2) [OF B(4) i xi] .
    have "V \<subseteq> insert (BucketHead k (unat h mod 2 ^ j)) (sameBucket h j (A(x := None)) \<union> (X \<union> {x}))"
      using B(6) by (auto simp: sameBucket_def)
    moreover have "aim h q G (A(x := None))" using B(7) q m1(1) by (auto simp: aim_def)
    moreover have "\<forall>y \<in> X \<union> {x}. isNode y \<and> (A(x := None)) y = None" using B(8) xn by auto
    ultimately have "settled h q G (X \<union> {x}) (A(x := None)) t m1 j V"
      using B1(2,3) m1(1) c1 B(3) unfolding settled_def by auto
    then show ?thesis using r1 m1(1) B(3) by (intro exI [of _ V]) simp
  qed
qed


subsection \<open>Expansion\<close>

text \<open>The list a reader finds in a new bucket, while the old bucket is being unzipped.\<close>

lemma zip_at_list:
  assumes "zip_at m old new j i L c c' P Q R" "d \<in> {i, i + 2 ^ j}"
  obtains xs where "slist m (BucketHead new d) xs" "set xs \<subseteq> set L" "\<forall>x \<in> set L. colour m j x = d \<longrightarrow> x \<in> set xs"
    "xs = (if d = c then P else Q) @ R"
proof -
  note z = assms(1) [unfolded zip_at_def]
  have f: "filter (\<lambda>x. colour m j x = c) L = P @ filter (\<lambda>x. colour m j x = c) R"
    "filter (\<lambda>x. colour m j x = c') L = Q @ filter (\<lambda>x. colour m j x = c') R" "set R \<subseteq> set L" using z by blast+
  have PQ: "set P \<subseteq> set L" "set Q \<subseteq> set L" using filter_subset [OF f(1)] filter_subset [OF f(2)] .
  have mem: "x \<in> set P \<union> set R" if "x \<in> set L" "colour m j x = c" for x
    using that f(1) by (metis (mono_tags, lifting) Un_iff mem_Collect_eq set_append set_filter)
  have mem': "x \<in> set Q \<union> set R" if "x \<in> set L" "colour m j x = c'" for x
    using that f(2) by (metis (mono_tags, lifting) Un_iff mem_Collect_eq set_append set_filter)
  have sl: "slist m (BucketHead new c) (P @ R)" "slist m (BucketHead new c') (Q @ R)" "d = c \<or> d = c'"
    using z assms(2) by blast+
  show ?thesis
  proof (cases "d = c")
    case True
    show ?thesis by (rule that [of "P @ R"]) (use sl(1) PQ f(3) mem True in auto)
  next
    case False
    then have d: "d = c'" using sl(3) by blast
    show ?thesis by (rule that [of "Q @ R"]) (use sl(2) PQ f(3) mem' False d in auto)
  qed
qed

lemma zipped_list:
  assumes "zipped m old new j i L R" "d \<in> {i, i + 2 ^ j}"
  shows "\<exists>xs. slist m (BucketHead new d) xs \<and> set xs \<subseteq> set L \<and> (\<forall>x \<in> set L. colour m j x = d \<longrightarrow> x \<in> set xs)"
proof (cases "R = []")
  case True
  then show ?thesis using assms
    by (intro exI [of _ "filter (\<lambda>x. colour m j x = d) L"]) (auto simp: zipped_def separated_def)
next
  case False
  then obtain c c' P Q where z: "zip_at m old new j i L c c' P Q R" using assms(1) by (auto simp: zipped_def)
  then show ?thesis using zip_at_list [OF z assms(2)] by blast
qed

lemma twinned_list:
  assumes "twinned m old new j i L" "d \<in> {i, i + 2 ^ j}"
  shows "\<exists>xs. slist m (BucketHead new d) xs \<and> set xs \<subseteq> set L \<and> (\<forall>x \<in> set L. colour m j x = d \<longrightarrow> x \<in> set xs)"
proof -
  have "x \<in> set (dropWhile (\<lambda>y. colour m j y \<noteq> d) xs)" if "x \<in> set xs" "colour m j x = d" for x xs
    using that by (induction xs) auto
  then show ?thesis using assms
    by (intro exI [of _ "dropWhile (\<lambda>x. colour m j x \<noteq> d) L"]) (auto simp: twinned_def dest: set_dropWhileD)
qed

text \<open>
  The observer of an expansion that starts in \<open>m\<close>, covered by \<open>V\<close>: some cover of the reader's new bucket
  has been reached, and until a round has treated the bucket the cover lies on its list.
\<close>

definition tracked :: "u64 \<Rightarrow> ptr \<Rightarrow> loc set \<Rightarrow> loc set \<times> nat option \<times> mem \<Rightarrow> nat \<Rightarrow> nat \<Rightarrow> loc list list \<Rightarrow> nat \<Rightarrow> mem \<Rightarrow> bool" where
  "tracked h q G c new j B i m \<longleftrightarrow>
     (\<exists>V. covered_run h q G c (V, Some new, m) \<and> cover h q G (Some new) m V
        \<and> V \<subseteq> insert (BucketHead new (unat h mod 2 ^ Suc j)) (set (B ! (unat h mod 2 ^ j)))
        \<and> (i \<le> unat h mod 2 ^ j \<longrightarrow> (\<exists>L. slist m (BucketHead new (unat h mod 2 ^ Suc j)) L
             \<and> set L \<subseteq> set (B ! (unat h mod 2 ^ j)) \<and> V \<subseteq> insert (BucketHead new (unat h mod 2 ^ Suc j)) (set L))))
     \<and> (\<forall>x. q = Some x \<longrightarrow> colour m j x = unat h mod 2 ^ Suc j \<and> x \<in> set (B ! (unat h mod 2 ^ j)))
     \<and> (\<forall>k i. BucketHead k i \<in> G) \<and> (\<forall>y \<in> set (B ! (unat h mod 2 ^ j)). isNode y \<and> (Some y \<noteq> q \<longrightarrow> y \<in> G))"

lemma half_home: "unat h mod 2 ^ Suc j \<in> {unat h mod 2 ^ j, unat h mod 2 ^ j + 2 ^ j}"
proof -
  have "unat h mod (2 ^ j * 2) = 2 ^ j * (unat h div 2 ^ j mod 2) + unat h mod 2 ^ j" by (rule mod_mult2_eq)
  moreover have "unat h div 2 ^ j mod 2 = 0 \<or> unat h div 2 ^ j mod 2 = 1" by auto
  ultimately show ?thesis by (auto simp: mult.commute)
qed

text \<open>A new cover, on the path from the new bucket.\<close>

lemma tracked_path:
  assumes ex: "expanding m old new j B"
    and xs: "slist m (BucketHead new (unat h mod 2 ^ Suc j)) xs" "set xs \<subseteq> set (B ! (unat h mod 2 ^ j))"
      "\<forall>x \<in> set (B ! (unat h mod 2 ^ j)). colour m j x = unat h mod 2 ^ Suc j \<longrightarrow> x \<in> set xs"
    and q: "\<forall>x. q = Some x \<longrightarrow> colour m j x = unat h mod 2 ^ Suc j \<and> x \<in> set (B ! (unat h mod 2 ^ j))"
    and G: "\<forall>k i. BucketHead k i \<in> G" "\<forall>y \<in> set (B ! (unat h mod 2 ^ j)). isNode y \<and> (Some y \<noteq> q \<longrightarrow> y \<in> G)"
  shows "cover h q G (Some new) m (insert (BucketHead new (unat h mod 2 ^ Suc j)) (set (until q xs)))"
proof (rule cover_path [OF xs(1)])
  show "q = None \<or> (\<exists>x \<in> set xs. q = Some x)" using q xs(3) by (cases q) auto
  show "set (until q xs) \<subseteq> G" using set_until [of _ q xs] G(2) xs(2) by blast
  show "blocks m new = Some (2 ^ Suc j)" "Suc j < 32" using expandingD(2,3) [OF ex] by simp_all
qed (use G xs(2) in auto)

lemma tracked_grace:
  assumes run: "covered_run h q G c (V, Some new, m)" and ex: "expanding m old new j B"
    and xs: "\<exists>xs. slist m (BucketHead new (unat h mod 2 ^ Suc j)) xs \<and> set xs \<subseteq> set (B ! (unat h mod 2 ^ j))
      \<and> (\<forall>x \<in> set (B ! (unat h mod 2 ^ j)). colour m j x = unat h mod 2 ^ Suc j \<longrightarrow> x \<in> set xs)"
    and q: "\<forall>x. q = Some x \<longrightarrow> colour m j x = unat h mod 2 ^ Suc j \<and> x \<in> set (B ! (unat h mod 2 ^ j))"
    and G: "\<forall>k i. BucketHead k i \<in> G" "\<forall>y \<in> set (B ! (unat h mod 2 ^ j)). isNode y \<and> (Some y \<noteq> q \<longrightarrow> y \<in> G)"
  shows "tracked h q G c new j B i (emit ESync m)"
proof -
  obtain xs where xs: "slist m (BucketHead new (unat h mod 2 ^ Suc j)) xs" "set xs \<subseteq> set (B ! (unat h mod 2 ^ j))"
    "\<forall>x \<in> set (B ! (unat h mod 2 ^ j)). colour m j x = unat h mod 2 ^ Suc j \<longrightarrow> x \<in> set xs" using xs by blast
  let ?V = "insert (BucketHead new (unat h mod 2 ^ Suc j)) (set (until q xs))"
  have c: "cover h q G (Some new) m ?V" by (rule tracked_path [OF ex xs q G])
  have "set (until q xs) \<subseteq> set xs" using set_until [of _ q xs] by blast
  moreover have "slist (emit ESync m) (BucketHead new (unat h mod 2 ^ Suc j)) xs" using xs(1) by simp
  moreover have "home (emit ESync m) n x = home m n x" for n x by (simp add: home_def)
  ultimately show ?thesis unfolding tracked_def
    using run_grace [OF run c] cover_sync [OF c] xs(2) q G
    by (intro conjI exI [of _ ?V]) (blast | simp)+
qed


lemma trackedE:
  assumes "tracked h q G c new j B i m"
  obtains V where "covered_run h q G c (V, Some new, m)" "cover h q G (Some new) m V"
    "V \<subseteq> insert (BucketHead new (unat h mod 2 ^ Suc j)) (set (B ! (unat h mod 2 ^ j)))"
    "i \<le> unat h mod 2 ^ j \<longrightarrow> (\<exists>L. slist m (BucketHead new (unat h mod 2 ^ Suc j)) L
             \<and> set L \<subseteq> set (B ! (unat h mod 2 ^ j)) \<and> V \<subseteq> insert (BucketHead new (unat h mod 2 ^ Suc j)) (set L))"
    "\<forall>x. q = Some x \<longrightarrow> colour m j x = unat h mod 2 ^ Suc j \<and> x \<in> set (B ! (unat h mod 2 ^ j))"
    "\<forall>k i. BucketHead k i \<in> G" "\<forall>y \<in> set (B ! (unat h mod 2 ^ j)). isNode y \<and> (Some y \<noteq> q \<longrightarrow> y \<in> G)"
  using assms unfolding tracked_def by blast

text \<open>One more store, at \<open>a\<close>, that keeps the cover.\<close>

lemma tracked_store:
  assumes t: "tracked h q G c new j B i m"
    and cov: "\<And>V. cover h q G (Some new) m V \<Longrightarrow> V \<subseteq> insert (BucketHead new (unat h mod 2 ^ Suc j)) (set (B ! (unat h mod 2 ^ j)))
      \<Longrightarrow> (i \<le> unat h mod 2 ^ j \<Longrightarrow> \<exists>L. slist m (BucketHead new (unat h mod 2 ^ Suc j)) L
             \<and> set L \<subseteq> set (B ! (unat h mod 2 ^ j)) \<and> V \<subseteq> insert (BucketHead new (unat h mod 2 ^ Suc j)) (set L))
      \<Longrightarrow> cover h q G (Some new) (storeNext a r m) V"
    and i': "i \<le> i'" "i' \<le> unat h mod 2 ^ j \<Longrightarrow> a \<notin> insert (BucketHead new (unat h mod 2 ^ Suc j)) (set (B ! (unat h mod 2 ^ j)))"
  shows "tracked h q G c new j B i' (storeNext a r m)"
proof -
  let ?hd = "BucketHead new (unat h mod 2 ^ Suc j)" and ?b = "set (B ! (unat h mod 2 ^ j))"
  obtain V where V: "covered_run h q G c (V, Some new, m)" "cover h q G (Some new) m V" "V \<subseteq> insert ?hd ?b"
    "i \<le> unat h mod 2 ^ j \<longrightarrow> (\<exists>L. slist m ?hd L \<and> set L \<subseteq> ?b \<and> V \<subseteq> insert ?hd (set L))"
    and q: "\<forall>x. q = Some x \<longrightarrow> colour m j x = unat h mod 2 ^ Suc j \<and> x \<in> ?b"
    and G: "\<forall>k i. BucketHead k i \<in> G" "\<forall>y \<in> ?b. isNode y \<and> (Some y \<noteq> q \<longrightarrow> y \<in> G)"
    using t by (rule trackedE)
  have c': "cover h q G (Some new) (storeNext a r m) V" by (rule cov [OF V(2,3)]) (use V(4) in blast)
  have L: "\<exists>L. slist (storeNext a r m) ?hd L \<and> set L \<subseteq> ?b \<and> V \<subseteq> insert ?hd (set L)" if le: "i' \<le> unat h mod 2 ^ j"
  proof -
    obtain L where L: "slist m ?hd L" "set L \<subseteq> ?b" "V \<subseteq> insert ?hd (set L)" using V(4) order_trans [OF i'(1) le] by blast
    moreover have "a \<noteq> ?hd" "a \<notin> set L" using i'(2) [OF le] L(2) by auto
    ultimately show ?thesis using slist_store_other [of a ?hd L r m] by blast
  qed
  have "colour (storeNext a r m) j x = colour m j x" for x by (simp add: home_def)
  then show ?thesis unfolding tracked_def
    using run_store [OF V(1) subset_refl c'] c' V(3) L q G by (intro conjI exI [of _ V]) (blast | simp)+
qed

lemma tracked_mono: "tracked h q G c new j B i m \<Longrightarrow> i \<le> i' \<Longrightarrow> tracked h q G c new j B i' m"
  unfolding tracked_def using order_trans by (elim conjE exE) (intro conjI exI; blast?)

lemma tracked_head:
  assumes t: "tracked h q G c new j B i m" and ne: "old \<noteq> new"
  shows "tracked h q G c new j B i (storeNext (BucketHead old b) r m)"
proof (rule tracked_store [OF t _ order_refl])
  have "\<forall>y \<in> set (B ! (unat h mod 2 ^ j)). isNode y" using t unfolding tracked_def by blast
  then have a: "BucketHead old b \<notin> insert (BucketHead new (unat h mod 2 ^ Suc j)) (set (B ! (unat h mod 2 ^ j)))"
    using ne by (auto simp: isNode_def)
  then show "BucketHead old b \<notin> insert (BucketHead new (unat h mod 2 ^ Suc j)) (set (B ! (unat h mod 2 ^ j)))" .
  show "cover h q G (Some new) (storeNext (BucketHead old b) r m) V"
    if "cover h q G (Some new) m V" "V \<subseteq> insert (BucketHead new (unat h mod 2 ^ Suc j)) (set (B ! (unat h mod 2 ^ j)))" for V
    using cover_off [OF that(1)] that(2) a by blast
qed

lemma tracked_unzip:
  assumes t: "tracked h q G c new j B i m" and i: "i < 2 ^ j" and ex: "expanding m old new j B"
    and z: "zip_at m old new j i (B ! i) d d' P Q R" and R: "R = S @ T" and S: "\<forall>x \<in> set S. colour m j x = d'"
  shows "tracked h q G c new j B (Suc i) (fold emit (unzipStores old i P S T) m)"
proof -
  let ?hd = "BucketHead new (unat h mod 2 ^ Suc j)" and ?i = "unat h mod 2 ^ j"
  define r where "r = (if T = [] then None else Some (last S))"
  let ?m1 = "storeNext (BucketHead old i) r m"
  have t1: "tracked h q G c new j B i ?m1" by (rule tracked_head [OF t expandingD(5) [OF ex]])
  have zz: "{d, d'} = {i, i + 2 ^ j}" "P \<noteq> []" "slist m (BucketHead new d) (P @ R)" "slist m (BucketHead new d') (Q @ R)"
    "\<forall>x \<in> set P. colour m j x = d" "\<forall>x \<in> set Q. colour m j x = d'" "set R \<subseteq> set (B ! i)"
    "filter (\<lambda>x. colour m j x = d) (B ! i) = P @ filter (\<lambda>x. colour m j x = d) R"
    using z unfolding zip_at_def by blast+
  have dd: "d \<noteq> d'" using zz(1) by (auto simp: doubleton_eq_iff)
  have lP: "last P \<in> set P" "last P \<in> set (B ! i)" using zz(2) filter_subset [OF zz(8)] by auto
  have lR: "last P \<notin> set R" using slist_distinct [OF zz(3)] lP(1) by auto
  have nB: "BucketHead k b \<notin> set (B ! i)" for k b using bucket_not_node [OF expandingD(7) [OF ex i]] .
  have ch: "chain (nxt ?m1) (nxt ?m1 (last P)) S (first T)"
  proof -
    obtain P0 where P: "P = P0 @ [last P]" using zz(2) by (metis append_butlast_last_id)
    have "chain (nxt m) (nxt m (BucketHead new d)) (P0 @ [last P] @ S @ T) None"
      using zz(3) P R unfolding slist_def by (metis append.assoc)
    then obtain r where "chain (nxt m) (nxt m (last P)) S r" "lst (nxt m) r T" by auto
    then have "chain (nxt m) (nxt m (last P)) S (first T)" using lst_first by blast
    moreover have "BucketHead old i \<notin> set S" "last P \<noteq> BucketHead old i" using nB zz(7) R lP(2) by auto
    ultimately show ?thesis by simp
  qed
  have "tracked h q G c new j B (Suc i) (storeNext (last P) (first T) ?m1)"
  proof (rule tracked_store [OF t1])
    fix V
    assume V: "cover h q G (Some new) ?m1 V" "V \<subseteq> insert ?hd (set (B ! ?i))"
      "i \<le> ?i \<Longrightarrow> \<exists>L. slist ?m1 ?hd L \<and> set L \<subseteq> set (B ! ?i) \<and> V \<subseteq> insert ?hd (set L)"
    show "cover h q G (Some new) (storeNext (last P) (first T) ?m1) V"
    proof (rule cover_skip [OF V(1) ch])
      assume PV: "last P \<in> V"
      have ii: "i = ?i"
      proof (rule ccontr)
        assume "i \<noteq> ?i"
        then have "set (B ! i) \<inter> set (B ! ?i) = {}" using expanding_disjoint [OF ex i, of ?i] by (auto simp: region_def)
        then show False using PV V(2) lP(2) nB by auto
      qed
      then obtain L where L: "slist ?m1 ?hd L" "V \<subseteq> insert ?hd (set L)" using V(3) by auto
      have "unat h mod 2 ^ Suc j \<in> {d, d'}" using half_home [of h j] zz(1) ii by simp
      moreover have "unat h mod 2 ^ Suc j \<noteq> d'"
      proof
        assume e: "unat h mod 2 ^ Suc j = d'"
        have "set Q \<subseteq> set (B ! i)" using z unfolding zip_at_def by (metis filter_subset)
        then have "slist ?m1 ?hd (Q @ R)" using zz(4,7) e nB expandingD(5) [OF ex] by (subst slist_store_other) auto
        then have "L = Q @ R" by (rule slist_unique [OF L(1)])
        then have "last P \<in> set Q" using PV L(2) lR lP(2) nB by auto
        then show False using zz(5,6) lP(1) dd by auto
      qed
      ultimately have "unat h mod 2 ^ Suc j = d" by blast
      moreover have "colour m j x = unat h mod 2 ^ Suc j" if "q = Some x" for x
        using t that unfolding tracked_def by blast
      ultimately show "\<forall>s \<in> set S. Some s \<noteq> q" using S dd by metis
    qed
  next
    assume le: "Suc i \<le> ?i"
    have "?i < 2 ^ j" by simp
    then have "set (B ! i) \<inter> set (B ! ?i) = {}" using expanding_disjoint [OF ex i, of ?i] le by (auto simp: region_def)
    then show "last P \<notin> insert ?hd (set (B ! ?i))" using lP(2) nB by auto
  qed simp
  then show ?thesis by (simp add: unzipStores_def r_def)
qed

lemma tracked_watches:
  assumes "old \<noteq> new"
  shows "watches (tracked h q G c new j B) old new j B"
  unfolding watches_def
proof (intro conjI allI impI)
  fix m
  assume ex: "expanding m old new j B" and zs: "\<forall>i < 2 ^ j. \<exists>R. zipped m old new j i (B ! i) R"
    and t: "tracked h q G c new j B (2 ^ j) m"
  obtain R where R: "zipped m old new j (unat h mod 2 ^ j) (B ! (unat h mod 2 ^ j)) R"
    using zs [rule_format, of "unat h mod 2 ^ j"] by auto
  obtain V where V: "covered_run h q G c (V, Some new, m)"
    and q: "\<forall>x. q = Some x \<longrightarrow> colour m j x = unat h mod 2 ^ Suc j \<and> x \<in> set (B ! (unat h mod 2 ^ j))"
    and G: "\<forall>k i. BucketHead k i \<in> G" "\<forall>y \<in> set (B ! (unat h mod 2 ^ j)). isNode y \<and> (Some y \<noteq> q \<longrightarrow> y \<in> G)"
    using t by (rule trackedE)
  show "tracked h q G c new j B 0 (emit ESync m)"
    by (rule tracked_grace [OF V ex zipped_list [OF R half_home] q G])
qed (auto intro: tracked_head [OF _ assms] tracked_mono tracked_unzip)


text \<open>The allocation of a block and the stores to its buckets are invisible.\<close>

lemma private_block:
  assumes s: "settled h q G X A t m j V" and st: "stores (range (BucketHead (freshBlock m))) (emit (EAlloc (freshBlock m) n) m) m'"
  shows "covered_run h q G (V, pBucketsInfo t, m) (V, pBucketsInfo t, m') \<and> cover h q G (pBucketsInfo t) m' V"
proof -
  obtain B k where B: "table m t j B" "pBucketsInfo t = Some k" "buckets_at m k j B" "cover h q G (Some k) m V"
    using s by (rule settledE)
  have "blocks m (freshBlock m) = None" using B(1) by (simp add: table_def fresh_blocks_def)
  then have c: "cover h q G (Some k) (emit (EAlloc (freshBlock m) n) m) V" using cover_alloc [OF B(4)] by blast
  have r: "covered_run h q G (V, Some k, m) (V, Some k, emit (EAlloc (freshBlock m) n) m)"
    using run_write [OF run_refl, of "EAlloc (freshBlock m) n" V V h q G "Some k" m] c by simp
  have "range (BucketHead (freshBlock m)) \<inter> V = {}"
    using settled_nodes [OF s] buckets_atD(3) [OF B(3)] B(2) by (fastforce simp: isNode_def)
  from run_stores [OF r c st this] show ?thesis using B(2) by simp
qed

context synchronizer
begin

text \<open>What the expansion of the table \<open>A\<close> needs to know of the bucket that readers search.\<close>

lemma aimed_bucket:
  assumes at: "buckets_at m old j B" and aim: "aim h q G (absTable m B)"
  shows "\<forall>k i. BucketHead k i \<in> G" "\<forall>y \<in> set (B ! (unat h mod 2 ^ j)). isNode y \<and> (Some y \<noteq> q \<longrightarrow> y \<in> G)"
    "hashOf m' = hashOf m \<Longrightarrow> \<forall>x. q = Some x \<longrightarrow> colour m' j x = unat h mod 2 ^ Suc j \<and> x \<in> set (B ! (unat h mod 2 ^ j))"
proof -
  have i: "unat h mod 2 ^ j < 2 ^ j" by simp
  show "\<forall>k i. BucketHead k i \<in> G" using aim by (simp add: aim_def)
  show "\<forall>y \<in> set (B ! (unat h mod 2 ^ j)). isNode y \<and> (Some y \<noteq> q \<longrightarrow> y \<in> G)"
    using aim table_home(2) [OF at i] unfolding bucket_same [OF at] by (auto simp: aim_def sameBucket_def)
  have hash: "hashOf m y = g" if "absTable m B y = Some g" for y g
    using that unfolding absTable_def by (auto split: if_splits)
  show "\<forall>x. q = Some x \<longrightarrow> colour m' j x = unat h mod 2 ^ Suc j \<and> x \<in> set (B ! (unat h mod 2 ^ j))" if "hashOf m' = hashOf m"
    using aim hash that unfolding bucket_same [OF at] by (auto simp: aim_def sameBucket_def home_def)
qed

text \<open>After the publication and its grace period the readers are where the unzipping wants them.\<close>

lemma tracked_start:
  assumes s: "settled h q G X (absTable m B) t m j V" and old: "pBucketsInfo t = Some old" and at: "buckets_at m old j B"
    and aim: "aim h q G (absTable m B)" and st: "stores (range (BucketHead (freshBlock m))) (emit (EAlloc (freshBlock m) (2 ^ Suc j)) m) m2"
    and ex: "expanding m2 old (freshBlock m) j B" and tw: "\<forall>i < 2 ^ j. twinned m2 old (freshBlock m) j i (B ! i)"
  shows "tracked h q G (V, Some old, m) (freshBlock m) j B 0 (emit ESync (emit (EPublish (Some (freshBlock m))) m2))"
proof -
  let ?new = "freshBlock m" and ?i = "unat h mod 2 ^ j" and ?c = "(V, Some old, m)"
  let ?hd = "BucketHead ?new (unat h mod 2 ^ Suc j)" and ?m3 = "emit (EPublish (Some (freshBlock m))) m2"
  note ab = aimed_bucket [OF at aim]
  have i: "?i < 2 ^ j" by simp
  have hm: "hashOf ?m3 = hashOf m" using touchesD(2) [OF stores_touches [OF st]] by simp
  note q3 = ab(3) [OF hm]
  have r: "covered_run h q G ?c (V, Some old, m2)" "cover h q G (Some old) m2 V"
    using private_block [OF s st] old by simp_all
  have t3: "touches {} m2 ?m3" by (simp add: touches_def)
  have ex3: "expanding ?m3 old ?new j B" using ex expanding_touches [OF t3] by blast
  have xs: "\<exists>xs. slist ?m3 ?hd xs \<and> set xs \<subseteq> set (B ! ?i) \<and> (\<forall>x \<in> set (B ! ?i). colour ?m3 j x = unat h mod 2 ^ Suc j \<longrightarrow> x \<in> set xs)"
    by (rule twinned_list [OF twinned_frame [OF tw [rule_format, OF i] t3] half_home]) simp
  then obtain xs where xs': "slist ?m3 ?hd xs" "set xs \<subseteq> set (B ! ?i)"
    "\<forall>x \<in> set (B ! ?i). colour ?m3 j x = unat h mod 2 ^ Suc j \<longrightarrow> x \<in> set xs" by blast
  have "cover h q G (Some ?new) ?m3 (V \<union> insert ?hd (set (until q xs)))"
    by (rule cover_union [OF cover_publish [OF r(2)] tracked_path [OF ex3 xs' q3 ab(1,2)]])
  then have "covered_run h q G ?c (V \<union> insert ?hd (set (until q xs)), Some ?new, ?m3)"
    using run_write [OF r(1), of "EPublish (Some ?new)" "V \<union> insert ?hd (set (until q xs))"] Un_upper1
    by (simp del: Un_insert_right)
  then show ?thesis by (rule tracked_grace [OF _ ex3 xs q3 ab(1,2)])
qed

lemma expand_covered:
  assumes s: "settled h q G X A t m j V" and j: "j < 30" and rd: "ready (card (dom A) + Suc k) z"
  shows "\<exists>t' m' z' V'. rTableCoreExpandBuckets2x sync t m z = Some (t', m', z') \<and> ready k z'
    \<and> (\<exists>p. t' = t\<lparr>pBucketsInfo := p\<rparr>)
    \<and> covered_run h q G (V, pBucketsInfo t, m) (V', pBucketsInfo t', m') \<and> settled h q G {} A t' m' (Suc j) V'"
proof -
  obtain B old where B: "table m t j B" "absTable m B = A" "pBucketsInfo t = Some old" "buckets_at m old j B" "aim h q G A"
    using s by (rule settledE)
  let ?new = "freshBlock m" and ?i = "unat h mod 2 ^ j" and ?c = "(V, Some old, m)"
  let ?hd = "BucketHead ?new (unat h mod 2 ^ Suc j)" and ?t = "t\<lparr>pBucketsInfo := Some (freshBlock m)\<rparr>"
  have fb: "fresh_blocks m" and ne: "old \<noteq> ?new" using B(1) buckets_atD(3) [OF B(4)] by (simp_all add: table_def)
  have rd': "ready (length (concat B) + Suc k) z" using rd table_count [OF B(1)] B(2) by simp
  have aim: "aim h q G (absTable m B)" and s': "settled h q G X (absTable m B) t m j V" using B(2,5) s by simp_all
  have i: "?i < 2 ^ j" by simp
  note start = tracked_start [OF s' B(3,4) aim]
  have hash: "hashOf m y = g" if "A y = Some g" for y g
    using that unfolding B(2) [symmetric] absTable_def by (auto split: if_splits)
  obtain m5 z' where e: "rTableCoreExpandBuckets2x sync t m z = Some (?t, emit (EFree old) m5, z')" "ready k z'"
    "tracked h q G ?c ?new j B 0 m5" "expanding m5 old ?new j B" "\<forall>i < 2 ^ j. separated m5 old ?new j i (B ! i)"
    "hashOf m5 = hashOf m" "blocks m5 = (blocks m)(?new \<mapsto> 2 ^ Suc j)" "freshBlock m5 = Suc ?new"
    using expand_run [where J = "tracked h q G ?c ?new j B", OF B(1) j rd' B(3) tracked_watches [OF ne] start] by blast
  let ?m6 = "emit (EFree old) m5"
  obtain V5 L where V5: "covered_run h q G ?c (V5, Some ?new, m5)" "cover h q G (Some ?new) m5 V5"
    "slist m5 ?hd L" "V5 \<subseteq> insert ?hd (set L)"
    using e(3) unfolding tracked_def by blast
  have "slist m5 ?hd (filter (\<lambda>x. colour m5 j x = unat h mod 2 ^ Suc j) (B ! ?i))"
    using e(5) i half_home [of h j] unfolding separated_def by blast
  then have L: "L = filter (\<lambda>x. colour m5 j x = unat h mod 2 ^ Suc j) (B ! ?i)" by (rule slist_unique [OF V5(3)])
  have sub: "set L \<subseteq> sameBucket h (Suc j) A"
  proof
    fix y
    assume y: "y \<in> set L"
    then have "y \<in> sameBucket h j A" using bucket_same [OF B(4), of h] B(2) by (simp add: L)
    then obtain g where g: "A y = Some g" by (auto simp: sameBucket_def)
    have "unat g mod 2 ^ Suc j = unat h mod 2 ^ Suc j" using y hash [OF g] e(6) by (simp add: L home_def del: power_Suc)
    then show "y \<in> sameBucket h (Suc j) A" using g unfolding sameBucket_def by blast
  qed
  have "\<forall>i. BucketHead old i \<notin> V5"
    using V5(4) sub sameBucket_node [OF B(4)] ne aimed_bucket(2) [OF B(4) aim] unfolding L by (fastforce simp: isNode_def)
  then have c6: "cover h q G (Some ?new) ?m6 V5" by (rule cover_free [OF V5(2)])
  have r6: "covered_run h q G ?c (V5, Some ?new, ?m6)"
    using run_write [OF V5(1), of "EFree old" V5] c6 by simp
  have "table ?m6 ?t (Suc j) (expandBuckets m j B)" "absTable ?m6 (expandBuckets m j B) = A"
    using expanded_table [OF fb e(4-8), of ?t] B(2) by simp_all
  then have "settled h q G {} A ?t ?m6 (Suc j) V5"
    using c6 V5(4) sub B(5) unfolding settled_def by (auto simp del: power_Suc)
  then show ?thesis using e(1,2) r6 B(3)
    by (intro exI [of _ ?t] exI [of _ ?m6] exI [of _ z'] exI [of _ V5]) auto
qed

end


subsection \<open>Shrinking\<close>

text \<open>
  The observer of a shrink: the cover lies on the reader's old bucket, on the list that gets linked
  behind it, and in limbo.
\<close>

definition joined :: "u64 \<Rightarrow> ptr \<Rightarrow> loc set \<Rightarrow> loc set \<Rightarrow> loc set \<times> nat option \<times> mem \<Rightarrow> nat \<Rightarrow> nat \<Rightarrow> loc list list \<Rightarrow> mem \<Rightarrow> bool" where
  "joined h q G X c old j B m \<longleftrightarrow>
     (\<exists>V. covered_run h q G c (V, Some old, m) \<and> cover h q G (Some old) m V
        \<and> V \<subseteq> insert (BucketHead old (unat h mod 2 ^ Suc j))
            (set (B ! (unat h mod 2 ^ j)) \<union> set (B ! (unat h mod 2 ^ j + 2 ^ j)) \<union> X))"

lemma joined_off:
  assumes "joined h q G X c old j B m"
    and "a \<notin> insert (BucketHead old (unat h mod 2 ^ Suc j))
            (set (B ! (unat h mod 2 ^ j)) \<union> set (B ! (unat h mod 2 ^ j + 2 ^ j)) \<union> X)"
  shows "joined h q G X c old j B (storeNext a r m)"
proof -
  obtain V where V: "covered_run h q G c (V, Some old, m)" "cover h q G (Some old) m V"
    "V \<subseteq> insert (BucketHead old (unat h mod 2 ^ Suc j))
            (set (B ! (unat h mod 2 ^ j)) \<union> set (B ! (unat h mod 2 ^ j + 2 ^ j)) \<union> X)"
    using assms(1) unfolding joined_def by blast
  then have "cover h q G (Some old) (storeNext a r m) V" using assms(2) by (intro cover_off) auto
  then show ?thesis using run_store [OF V(1) subset_refl] V(3) unfolding joined_def by blast
qed

lemma joined_watches:
  assumes X: "\<forall>x \<in> X. isNode x \<and> (\<forall>i < 2 ^ Suc j. x \<notin> set (B ! i))"
    and G: "\<And>i y. i < 2 ^ Suc j \<Longrightarrow> y \<in> set (B ! i) \<Longrightarrow> Some y \<noteq> q \<Longrightarrow> y \<in> G"
  shows "watches_join (joined h q G X c old j B) old new j B"
  unfolding watches_join_def
proof (intro allI impI)
  fix i m
  let ?xs = "B ! i" and ?ys = "B ! (i + 2 ^ j)" and ?i = "unat h mod 2 ^ j"
  let ?R = "insert (BucketHead old (unat h mod 2 ^ Suc j)) (set (B ! ?i) \<union> set (B ! (?i + 2 ^ j)) \<union> X)"
  assume i: "i < 2 ^ j" and jo: "joining m old new j B" and J: "joined h q G X c old j B m"
    and sl: "slist m (BucketHead old i) ?xs" "slist m (BucketHead old (i + 2 ^ j)) ?ys"
  have i2: "i < 2 ^ Suc j" "i + 2 ^ j < 2 ^ Suc j" "?i < 2 ^ Suc j" "?i + 2 ^ j < 2 ^ Suc j"
    using i mod_less_divisor [of "2 ^ j" "unat h"] by (auto simp: trans_less_add2 mult_2 simp del: mod_less_divisor)
  have ne: "old \<noteq> new" using jo by (simp add: joining_def)
  have nodes: "isNode y" if "y \<in> set (B ! b)" "b < 2 ^ Suc j" for y b
    using jo that unfolding joining_def bucket_nodes_def by blast
  have d: "BucketHead new i \<notin> ?R" using ne nodes i2(3,4) X by (fastforce simp: isNode_def)
  have main: "joined h q G X c old j B (storeNext (last ?xs) (first ?ys) m)" if n: "?xs \<noteq> []" "?ys \<noteq> []"
  proof -
    let ?a = "last ?xs"
    obtain V where V: "covered_run h q G c (V, Some old, m)" "cover h q G (Some old) m V" "V \<subseteq> ?R"
      using J unfolding joined_def by blast
    show ?thesis
    proof (cases "?a \<in> V")
      case False
      then have "cover h q G (Some old) (storeNext ?a (first ?ys) m) V" by (rule cover_off [OF V(2)])
      then show ?thesis using run_store [OF V(1) subset_refl] V(3) unfolding joined_def by blast
    next
      case True
      have a: "?a \<in> set ?xs" using n(1) by simp
      have ii: "i = ?i"
      proof (rule ccontr)
        assume "i \<noteq> ?i"
        moreover have "i \<noteq> ?i + 2 ^ j" using i by simp
        ultimately have "?a \<notin> set (B ! ?i)" "?a \<notin> set (B ! (?i + 2 ^ j))"
          using a joining_apart [OF jo i2(1,3)] joining_apart [OF jo i2(1,4)] by blast+
        moreover have "?a \<notin> X" using X a i2(1) by blast
        ultimately show False using True V(3) nodes [OF a i2(1)] by (auto simp: isNode_def)
      qed
      have an: "nxt m ?a = None" using sl(1) n(1) by (cases ?xs rule: rev_cases) (auto simp: slist_def)
      then have q: "q = None" using coverD(4) [OF V(2) True] by auto
      have W: "lst (nxt m) (first ?ys) ?ys" using sl(2) lst_first unfolding slist_def by metis
      have aW: "?a \<notin> set ?ys" using joining_apart [OF jo i2(1,2)] a by auto
      have "set ?ys \<subseteq> G" using G [OF i2(2)] q by blast
      from cover_append [OF V(2) an W aW this] obtain U where U: "V \<subseteq> U" "U \<subseteq> V \<union> set ?ys"
        "cover h q G (Some old) (storeNext ?a (first ?ys) m) U" using nodes i2(2) by blast
      have "U \<subseteq> ?R" using U(2) V(3) ii by auto
      then show ?thesis using run_store [OF V(1) U(1,3)] U(3) unfolding joined_def by blast
    qed
  qed
  show "joined h q G X c old j B (fold emit (shrinkStores (BucketHead new i) ?xs ?ys) m)"
    using joined_off [OF J d] joined_off [OF main d] by (auto simp: shrinkStores_def)
qed

context synchronizer
begin

lemma shrink_covered:
  assumes s: "settled h q G X A t m (Suc j) V" and rd: "ready (Suc k) z"
  shows "\<exists>t' m' z' V'. rTableCoreShrinkBuckets2x sync t m z = Some (True, t', m', z') \<and> sync z = Some z' \<and> ready k z'
    \<and> (\<exists>p. t' = t\<lparr>pBucketsInfo := p\<rparr>)
    \<and> covered_run h q G (V, pBucketsInfo t, m) (V', pBucketsInfo t', m') \<and> settled h q G {} A t' m' j V'"
proof -
  obtain B old where B: "table m t (Suc j) B" "absTable m B = A" "pBucketsInfo t = Some old" "buckets_at m old (Suc j) B"
    "V \<subseteq> insert (BucketHead old (unat h mod 2 ^ Suc j)) (sameBucket h (Suc j) A \<union> X)" "aim h q G A"
    "\<forall>x \<in> X. isNode x \<and> A x = None"
    using s by (rule settledE)
  have j: "j < 30" using buckets_atD(2) [OF B(4)] by simp
  let ?new = "freshBlock m" and ?c = "(V, Some old, m)" and ?t = "t\<lparr>pBucketsInfo := Some (freshBlock m)\<rparr>"
  have fb: "fresh_blocks m" and ne: "old \<noteq> ?new" using B(1) buckets_atD(3) [OF B(4)] by (simp_all add: table_def)
  have inA: "A y \<noteq> None" if "i < 2 ^ Suc j" "y \<in> set (B ! i)" for i y
    using that bucket_abs [OF B(4) that(1)] B(2) by auto
  have X: "\<forall>x \<in> X. isNode x \<and> (\<forall>i < 2 ^ Suc j. x \<notin> set (B ! i))" using B(7) inA by blast
  have G: "y \<in> G" if "i < 2 ^ Suc j" "y \<in> set (B ! i)" "Some y \<noteq> q" for i y
    using inA [OF that(1,2)] that(3) B(6) by (simp add: aim_def)
  have "sameBucket h (Suc j) A \<subseteq> set (B ! (unat h mod 2 ^ j)) \<union> set (B ! (unat h mod 2 ^ j + 2 ^ j))"
    using bucket_same [OF B(4), of h] B(2) half_home [of h j] by auto
  then have VR: "V \<subseteq> insert (BucketHead old (unat h mod 2 ^ Suc j))
      (set (B ! (unat h mod 2 ^ j)) \<union> set (B ! (unat h mod 2 ^ j + 2 ^ j)) \<union> X)" using B(5) by blast
  have start: "joined h q G X ?c old j B m1" if "stores (range (BucketHead ?new)) (emit (EAlloc ?new (2 ^ j)) m) m1" for m1
    using private_block [OF s that] B(3) VR unfolding joined_def by auto
  have w: "watches_join (joined h q G X ?c old j B) old ?new j B"
    by (rule joined_watches [OF X]) (fact G)
  obtain m2 z' where e: "rTableCoreShrinkBuckets2x sync t m z = Some (True, ?t,
        emit (EFree old) (emit ESync (emit (EPublish (Some ?new)) m2)), z')" "sync z = Some z'" "ready k z'"
    "joined h q G X ?c old j B m2" "joining m2 old ?new j B"
    "\<forall>i < 2 ^ j. slist m2 (BucketHead ?new i) (B ! i @ B ! (i + 2 ^ j))"
    "hashOf m2 = hashOf m" "blocks m2 = (blocks m)(?new \<mapsto> 2 ^ j)" "freshBlock m2 = Suc ?new"
    using shrink_run [where J = "joined h q G X ?c old j B", OF B(1) j rd B(3) w] start by blast
  let ?m3 = "emit (EPublish (Some ?new)) m2"
  let ?m4 = "emit (EFree old) (emit ESync ?m3)"
  have tb: "table ?m4 ?t j (shrinkBuckets j B)" and ab: "absTable ?m4 (shrinkBuckets j B) = A"
    using shrunk_table [OF fb buckets_atD(4) [OF B(4)] e(5-9) _ refl, of ?t] B(2) by simp_all
  obtain V4 where V4: "settled h q G {} A ?t ?m4 j V4" using settled_start [OF tb] ab B(6) by metis
  then have c4: "cover h q G (Some ?new) ?m4 V4" unfolding settled_def by auto
  have heads: "k = ?new" if "BucketHead k i \<in> V4" for k i using settled_nodes [OF V4 that] by (auto simp: isNode_def)
  have c3: "cover h q G (Some ?new) ?m3 V4"
    by (rule cover_frame [OF c4]) (use heads ne in auto)
  obtain V2 where V2: "covered_run h q G ?c (V2, Some old, m2)" "cover h q G (Some old) m2 V2"
    using e(4) unfolding joined_def by blast
  have "cover h q G (Some ?new) ?m3 (V2 \<union> V4)" by (rule cover_union [OF cover_publish [OF V2(2)] c3])
  then have r3: "covered_run h q G ?c (V2 \<union> V4, Some ?new, ?m3)"
    using run_write [OF V2(1), of "EPublish (Some ?new)" "V2 \<union> V4"] by simp
  have r4: "covered_run h q G ?c (V4, Some ?new, emit ESync ?m3)" by (rule run_grace [OF r3 c3])
  have "covered_run h q G ?c (V4, Some ?new, ?m4)"
    using run_write [OF r4, of "EFree old" V4] c4 by simp
  then show ?thesis using e(1-3) V4 B(3)
    by (intro exI [of _ ?t] exI [of _ ?m4] exI [of _ z'] exI [of _ V4]) auto
qed

end


subsection \<open>The operations that resize by themselves\<close>

lemma settled_card: "settled h q G X A t m j V \<Longrightarrow> \<exists>B. table m t j B \<and> absTable m B = A \<and> length (concat B) = card (dom A) \<and> finite (dom A)"
proof -
  assume "settled h q G X A t m j V"
  then obtain B where B: "table m t j B" "absTable m B = A" unfolding settled_def by blast
  have "dom A = set (concat B)" using dom_absTable [of _ m B] B(2) by blast
  then have "finite (dom A)" by (simp only: List.finite_set)
  then show ?thesis using B table_count [OF B(1)] by blast
qed

lemma settled_block: "settled h q G X A t m j V \<Longrightarrow> \<exists>k. pBucketsInfo t = Some k \<and> blocks m k = Some (2 ^ j) \<and> j < 31"
  unfolding settled_def table_def buckets_at_def by auto

lemma settled_limbo: "settled h q G X A t m j V \<Longrightarrow> \<forall>x \<in> X. A x = None"
  by (auto simp: settled_def)

context synchronizer
begin

lemma tryInsert_covered:
  assumes s: "settled h q G X A t m j V" and e: "isNode e" "A e = None" "e \<notin> X" and j: "j < 30"
    and rd: "ready (card (dom A) + Suc (Suc k)) z"
    and run: "rTableCoreTryInsert sync t e g R m z = Some (ins, t', m', z')" and G: "ins \<Longrightarrow> e \<in> G"
  shows "\<exists>j' X' V'. covered_run h q G (V, pBucketsInfo t, m) (V', pBucketsInfo t', m') \<and> X' \<subseteq> X
    \<and> settled h q G X' (if ins then A(e \<mapsto> g) else A) t' m' j' V'"
proof -
  obtain t1 m1 where r1: "rTableCoreTryInsertNoExpand t e g R m = Some (ins, t1, m1)"
    using run by (auto simp: rTableCoreTryInsert_def split: bind_splits if_splits)
  obtain V1 where V1: "covered_run h q G (V, pBucketsInfo t, m) (V1, pBucketsInfo t1, m1)"
    "settled h q G X (if ins then A(e \<mapsto> g) else A) t1 m1 j V1"
    using insert_covered [where R = R, OF s e r1 G] by blast
  have keep: ?thesis if "t' = t1" "m' = m1" using that V1 by blast
  show ?thesis
  proof (cases "ins \<and> (t', m') \<noteq> (t1, m1)")
    case False
    show ?thesis
    proof (cases ins)
      case True
      then show ?thesis using False keep by simp
    next
      case f: False
      then show ?thesis using run r1 keep by (auto simp: rTableCoreTryInsert_def)
    qed
  next
    case True
    obtain k1 where k1: "pBucketsInfo t1 = Some k1" "blocks m1 k1 = Some (2 ^ j)" using settled_block [OF V1(2)] by blast
    have x: "rTableCoreExpandBuckets2x sync t1 m1 z = Some (t', m', z')"
      using run r1 k1 True
      by (auto simp: rTableCoreTryInsert_def expandBucketsByFac2IfNecessary_def split: bind_splits if_splits)
    have "card (dom (A(e \<mapsto> g))) = Suc (card (dom A))" using settled_card [OF s] e(2) by (auto simp: card_insert_if domIff)
    then have "ready (card (dom (A(e \<mapsto> g))) + Suc k) z" using rd by simp
    then obtain V' where V': "covered_run h q G (V1, pBucketsInfo t1, m1) (V', pBucketsInfo t', m')"
      "settled h q G {} (A(e \<mapsto> g)) t' m' (Suc j) V'"
      using expand_covered [OF V1(2) j, of k z] x True by auto
    show ?thesis using run_trans [OF V1(1) V'(1)] V'(2) True
      by (intro exI [of _ "Suc j"] exI [of _ "{}"] exI [of _ V']) simp
  qed
qed

lemma tryDetachAutoShrink_covered:
  assumes s: "settled h q G X A t m j V" and rd: "ready (Suc k) z"
    and run: "rTableCoreTryDetachAutoShrink sync t g P m z = Some (r, b, t', m', z')" and q: "r \<noteq> None \<Longrightarrow> r \<noteq> q"
  shows "\<exists>j' X' V'. covered_run h q G (V, pBucketsInfo t, m) (V', pBucketsInfo t', m')
    \<and> X' \<subseteq> X \<union> set_option r \<and> (b \<longrightarrow> X' = {})
    \<and> settled h q G X' (case r of None \<Rightarrow> A | Some x \<Rightarrow> A(x := None)) t' m' j' V'"
proof -
  obtain m1 where r1: "rTableCoreTryDetachNoShrink t g P m = Some (r, m1)"
    using run by (auto simp: rTableCoreTryDetachAutoShrink_def split: bind_splits if_splits)
  let ?A = "case r of None \<Rightarrow> A | Some x \<Rightarrow> A(x := None)"
  obtain V1 where V1: "covered_run h q G (V, pBucketsInfo t, m) (V1, pBucketsInfo t, m1)"
    "settled h q G (X \<union> set_option r) ?A t m1 j V1"
    using detach_covered [OF s r1 q] by blast
  obtain k1 where k1: "pBucketsInfo t = Some k1" "blocks m1 k1 = Some (2 ^ j)" using settled_block [OF V1(2)] by blast
  consider "b = False" "t' = t" "m' = m1" | "rTableCoreShrinkBuckets2x sync t m1 z = Some (b, t', m', z')"
    using run r1 k1 by (auto simp: rTableCoreTryDetachAutoShrink_def shrinkBucketsByFac2IfNecessary_def Let_def
        split: bind_splits if_splits)
  then show ?thesis
  proof cases
    case 1
    then show ?thesis using V1 by blast
  next
    case 2
    show ?thesis
    proof (cases j)
      case 0
      then obtain B where "table m1 t 0 B" using V1(2) unfolding settled_def by blast
      then have "b = False" "t' = t" "m' = m1" using shrink_one [of m1 t B sync z] 2 by simp_all
      then show ?thesis using V1 by blast
    next
      case (Suc i)
      then have V1': "settled h q G (X \<union> set_option r) ?A t m1 (Suc i) V1" using V1(2) by simp
      obtain V' where "covered_run h q G (V1, pBucketsInfo t, m1) (V', pBucketsInfo t', m')" "settled h q G {} ?A t' m' i V'"
        using shrink_covered [OF V1' rd] 2 by auto
      then show ?thesis using run_trans [OF V1(1)] by blast
    qed
  qed
qed

lemma tryDetachAndSynchronize_covered:
  assumes s: "settled h q G X A t m j V" and rd: "ready (Suc k) z"
    and run: "rTableCoreTryDetachAndSynchronize sync t g P m z = Some (r, t', m', z')" and q: "r \<noteq> None \<Longrightarrow> r \<noteq> q"
  shows "\<exists>j' V'. covered_run h q G (V, pBucketsInfo t, m) (V', pBucketsInfo t', m')
    \<and> settled h q G (if r = None then X else {}) (case r of None \<Rightarrow> A | Some x \<Rightarrow> A(x := None)) t' m' j' V'"
proof -
  let ?A = "case r of None \<Rightarrow> A | Some x \<Rightarrow> A(x := None)"
  obtain b t1 m1 z1 where a: "rTableCoreTryDetachAutoShrink sync t g P m z = Some (r, b, t1, m1, z1)"
    using run by (auto simp: rTableCoreTryDetachAndSynchronize_def split: bind_splits if_splits)
  show ?thesis
  proof (cases r)
    case None
    then have "t1 = t'" "m1 = m'" "rTableCoreTryDetachNoShrink t g P m = Some (None, m')" "t1 = t"
      using run a by (auto simp: rTableCoreTryDetachAndSynchronize_def rTableCoreTryDetachAutoShrink_def
          split: bind_splits if_splits)
    then show ?thesis using detach_covered [OF s, of g P None m'] None by auto
  next
    case (Some x)
    obtain j' X' V' where V': "covered_run h q G (V, pBucketsInfo t, m) (V', pBucketsInfo t1, m1)" "b \<longrightarrow> X' = {}"
      "settled h q G X' ?A t1 m1 j' V'"
      using tryDetachAutoShrink_covered [OF s rd a q] by blast
    show ?thesis
    proof (cases b)
      case True
      then have "t' = t1" "m' = m1" using run a Some by (simp_all add: rTableCoreTryDetachAndSynchronize_def)
      then show ?thesis using V' True Some by auto
    next
      case False
      then have ne: "t' = t1" "m' = emit ESync m1"
        using run a Some by (auto simp: rTableCoreTryDetachAndSynchronize_def split: bind_splits)
      obtain U where U: "covered_run h q G (V', pBucketsInfo t1, m1) (U, pBucketsInfo t1, emit ESync m1)"
        "settled h q G {} ?A t1 (emit ESync m1) j' U" using settled_sync [OF V'(3)] by blast
      show ?thesis unfolding ne using run_trans [OF V'(1) U(1)] U(2) Some by (intro exI [of _ j'] exI [of _ U]) simp
    qed
  qed
qed

end

end
