(* ===== verification/ConcurrentTable.thy ===== *)
theory ConcurrentTable
  imports Dictionary Relativistic
begin

text \<open>
  The contract of the table towards concurrent readers.  The writer serves a history of requests; its
  writes are the \<open>todo\<close> of the system of \<open>Concurrent\<close>, and every grace period in them is a call of
  \<open>rcuSynchronize\<close> against the reader threads.  By \<open>Relativistic\<close> these writes form a script, from
  which follows what the lookups can return and which nodes a reader may still hold.
\<close>

subsection \<open>Histories form scripts\<close>

text \<open>The abstract table that a finite map from keys to nodes describes.\<close>

definition absOf :: "(loc \<Rightarrow> 'k) \<Rightarrow> ('k \<Rightarrow> u64) \<Rightarrow> ('k \<rightharpoonup> loc) \<Rightarrow> loc \<rightharpoonup> u64" where
  "absOf key hf M y = (if M (key y) = Some y then Some (hf (key y)) else None)"

definition coherent :: "(loc \<Rightarrow> 'k) \<Rightarrow> ('k \<rightharpoonup> loc) \<Rightarrow> bool" where
  "coherent key M \<longleftrightarrow> (\<forall>k x. M k = Some x \<longrightarrow> key x = k)"

lemma coherentD: "coherent key M \<Longrightarrow> M k = Some x \<Longrightarrow> key x = k"
  by (simp add: coherent_def)

lemma keyed_absOf:
  assumes "keyed key hf A M"
  shows "A = absOf key hf M" and "coherent key M"
proof -
  have k: "A y = Some g \<Longrightarrow> g = hf (key y)" "M k = Some y \<longleftrightarrow> y \<in> dom A \<and> key y = k" for y g k
    using assms by (simp_all add: keyed_def)
  show "A = absOf key hf M"
  proof
    fix y
    show "A y = absOf key hf M y"
      using k(1) [of y] k(2) [of "key y" y] by (cases "A y") (auto simp: absOf_def domIff)
  qed
  show "coherent key M" using k(2) by (simp add: coherent_def)
qed

lemma absOf_insert:
  assumes "M (key e) = None"
  shows "absOf key hf (M(key e \<mapsto> e)) = (absOf key hf M)(e \<mapsto> hf (key e))"
proof
  fix y
  show "absOf key hf (M(key e \<mapsto> e)) y = ((absOf key hf M)(e \<mapsto> hf (key e))) y"
    using assms by (cases "key y = key e") (auto simp: absOf_def)
qed

lemma absOf_detach:
  assumes "coherent key M" "M k = Some x"
  shows "absOf key hf (M(k := None)) = (absOf key hf M)(x := None)"
proof
  fix y
  show "absOf key hf (M(k := None)) y = ((absOf key hf M)(x := None)) y"
    using assms(2) coherentD [OF assms] by (cases "key y = k") (auto simp: absOf_def)
qed

lemma table_size_unique: "table m t j B \<Longrightarrow> table m t j' B' \<Longrightarrow> j = j'"
proof -
  assume "table m t j B" "table m t j' B'"
  then obtain k where "blocks m k = Some (2 ^ j)" "blocks m k = Some (2 ^ j')" "j < 31" "j' < 31"
    unfolding table_def buckets_at_def by auto
  then have "(2 :: nat) ^ j = 2 ^ j'"
    using unat_two_power [of j, where 'a = 64] unat_two_power [of j', where 'a = 64] by simp
  then show "j = j'" by simp
qed

text \<open>
  Two ways to watch the readers of a key \<open>k\<close>.  If the map at \<open>k\<close> never changes, the target is the
  node it names, and no other node the readers meet has the key.  Without any assumption on the
  history the target is the end of the list.
\<close>

definition target :: "bool \<Rightarrow> 'k \<Rightarrow> ('k \<rightharpoonup> loc) \<Rightarrow> ptr" where
  "target b k M = (if b then M k else None)"

definition others :: "bool \<Rightarrow> (loc \<Rightarrow> 'k) \<Rightarrow> 'k \<Rightarrow> loc set" where
  "others b key k = (if b then {p. isNode p \<longrightarrow> key p \<noteq> k} else UNIV)"

lemma aim_absOf:
  assumes "coherent key M"
  shows "aim (hf k) (target b k M) (others b key k) (absOf key hf M)"
proof (cases b)
  case True
  have "M (key y) = Some y \<Longrightarrow> Some y \<noteq> M k \<Longrightarrow> key y \<noteq> k" for y by auto
  moreover have "M k = Some x \<Longrightarrow> M (key x) = Some x \<and> key x = k" for x using coherentD [OF assms, of k x] by simp
  ultimately show ?thesis using True by (simp add: aim_def target_def others_def absOf_def isNode_def)
qed (simp add: aim_def target_def others_def)

fun mapAfter :: "('n \<Rightarrow> 'k) \<Rightarrow> ('k, 'n) request list \<Rightarrow> ('k \<rightharpoonup> 'n) \<Rightarrow> 'k \<rightharpoonup> 'n" where
  "mapAfter key [] M = M"
| "mapAfter key (r # rs) M = mapAfter key rs (snd (serve key r M))"

fun untouched :: "('n \<Rightarrow> 'k) \<Rightarrow> 'k \<Rightarrow> ('k, 'n) request list \<Rightarrow> ('k \<rightharpoonup> 'n) \<Rightarrow> bool" where
  "untouched key k [] M = True"
| "untouched key k (r # rs) M \<longleftrightarrow> snd (serve key r M) k = M k \<and> untouched key k rs (snd (serve key r M))"

abbreviation table_requests ::
    "RCUReaderThreadRegistry \<Rightarrow> (loc \<Rightarrow> 'k) \<Rightarrow> ('k \<Rightarrow> u64) \<Rightarrow> ('k, loc) request list \<Rightarrow> RTable \<times> mem
      \<Rightarrow> (loc reply list \<times> RTable \<times> mem) option" where
  "table_requests reg key hf \<equiv> requests (handle (findKey key hf) (insertNode reg key hf) (detachKey reg key hf))"

text \<open>What \<open>settled\<close> and \<open>holdsTable\<close> know of the same state.\<close>

lemma holds_settled:
  assumes h: "holdsTable reg key hf (Suc n) (T, m) M"
    and s: "settled g q G X (absOf key hf M) (core T) m j V"
  shows "j < 30" and "coherent key M" and "quiet reg (card (dom (absOf key hf M)) + Suc (Suc 0)) (rcuZone T)"
    and "quiet reg (Suc 0) (rcuZone T)"
proof -
  obtain j' B' where B': "table m (core T) j' B'" "j' < 30" "keyed key hf (absTable m B') M"
    "quiet reg (Suc n * 2 ^ 25) (rcuZone T)"
    "card (dom (absTable m B')) \<le> unat (tsize (core T))" "unat (tsize (core T)) + Suc n < 2 ^ 24"
    using h by (auto simp: holdsTable_def)
  obtain B where "table m (core T) j B" using s unfolding settled_def by blast
  then show "j < 30" using table_size_unique B'(1,2) by blast
  show "coherent key M" using keyed_absOf(2) [OF B'(3)] .
  have le: "card (dom (absOf key hf M)) + 2 \<le> 2 ^ 25" using B'(5,6) keyed_absOf(1) [OF B'(3)] by simp
  have "Suc n * 2 ^ 25 = card (dom (absOf key hf M)) + Suc (Suc 0) + (n * 2 ^ 25 + (2 ^ 25 - 2 - card (dom (absOf key hf M))))"
    using le by simp
  then show "quiet reg (card (dom (absOf key hf M)) + Suc (Suc 0)) (rcuZone T)" using B'(4) quiet_mono by metis
  have "Suc n * 2 ^ 25 = Suc 0 + (Suc n * 2 ^ 25 - 1)" by simp
  then show "quiet reg (Suc 0) (rcuZone T)" using B'(4) quiet_mono by metis
qed

lemma request_covered:
  assumes h: "holdsTable reg key hf (Suc n) (T, m) M"
    and s: "settled (hf k) (target b k M) (others b key k) {} (absOf key hf M) (core T) m j V"
    and lg: "legal key isNode [r] M" and un: "b \<Longrightarrow> snd (serve key r M) k = M k"
    and run: "handle (findKey key hf) (insertNode reg key hf) (detachKey reg key hf) r (T, m) = Some (a, T', m')"
  shows "\<exists>j' V'. covered_run (hf k) (target b k M) (others b key k) (V, pBucketsInfo (core T), m) (V', pBucketsInfo (core T'), m')
    \<and> settled (hf k) (target b k M) (others b key k) {} (absOf key hf (snd (serve key r M))) (core T') m' j' V'"
proof (cases r)
  case (Find k')
  then show ?thesis using run s by (auto simp: Find split: bind_splits intro!: exI [of _ V])
next
  case (Insert e)
  note hs = holds_settled [OF h s]
  have r1: "insertNode reg key hf e (T, m) = Some (M (key e) = None, T', m')"
    using run tableInsert_law [OF h, of e] lg by (auto simp: Insert)
  show ?thesis
  proof (cases "M (key e) = Some e")
    case True
    then have "T' = T" "m' = emit (EHash e (hf (key e))) m"
      using r1 tableInsert_again(1) [where key = key and hf = hf, OF h, of e] by auto
    moreover have "absOf key hf M e = Some (hf (key e))" using True by (simp add: absOf_def)
    ultimately show ?thesis using rehash_covered [OF s] True by (simp add: Insert)
  next
    case False
    then have A: "absOf key hf M e = None" by (simp add: absOf_def)
    obtain t' z' where x: "rTableCoreTryInsert (rcuSynchronize reg) (core T) e (hf (key e)) (\<lambda>x y. key x = key y) m (rcuZone T)
        = Some (M (key e) = None, t', m', z')" "core T' = t'"
      using r1 by (auto simp: insertNode_def rTableTryInsert_def split: bind_splits)
    have "e \<in> others b key k" if "M (key e) = None" using un that by (auto simp: others_def Insert split: if_splits)
    then obtain j' V' where "covered_run (hf k) (target b k M) (others b key k) (V, pBucketsInfo (core T), m) (V', pBucketsInfo t', m')"
      "settled (hf k) (target b k M) (others b key k) {}
        (if M (key e) = None then (absOf key hf M)(e \<mapsto> hf (key e)) else absOf key hf M) t' m' j' V'"
      using idle.tryInsert_covered [where R = "\<lambda>x y. key x = key y", OF s _ A _ hs(1,3) x(1)] lg by (auto simp: Insert)
    then show ?thesis using x(2) absOf_insert [of M key e hf] by (auto simp: Insert split: if_splits)
  qed
next
  case (Detach k')
  note hs = holds_settled [OF h s]
  have r1: "detachKey reg key hf k' (T, m) = Some (M k', T', m')"
    using run tableDetach_law [OF h, of k'] by (auto simp: Detach)
  then obtain t' z' where x: "rTableCoreTryDetachAndSynchronize (rcuSynchronize reg) (core T) (hf k') (\<lambda>x. key x = k') m (rcuZone T)
      = Some (M k', t', m', z')" "core T' = t'"
    by (auto simp: detachKey_def rTableTryDetachAndSynchronize_def split: bind_splits)
  have "M k' \<noteq> target b k M" if ne: "M k' \<noteq> None"
  proof
    assume e: "M k' = target b k M"
    then have b: b and "M k' = M k" using ne by (auto simp: target_def split: if_splits)
    then have "k = k'" using hs(2) ne unfolding coherent_def by (metis option.exhaust)
    then show False using un [OF b] ne by (simp add: Detach)
  qed
  then obtain j' V' where "covered_run (hf k) (target b k M) (others b key k) (V, pBucketsInfo (core T), m) (V', pBucketsInfo t', m')"
    "settled (hf k) (target b k M) (others b key k) {}
      (case M k' of None \<Rightarrow> absOf key hf M | Some x \<Rightarrow> (absOf key hf M)(x := None)) t' m' j' V'"
    using idle.tryDetachAndSynchronize_covered [OF s hs(4) x(1)] by auto
  moreover have "(case M k' of None \<Rightarrow> absOf key hf M | Some x \<Rightarrow> (absOf key hf M)(x := None)) = absOf key hf (M(k' := None))"
  proof (cases "M k'")
    case None
    then have "M(k' := None) = M" by auto
    then show ?thesis using None by simp
  next
    case (Some x)
    then show ?thesis using absOf_detach [OF hs(2) Some] by simp
  qed
  ultimately show ?thesis using x(2) by (auto simp: Detach)
qed

lemma history_covered:
  assumes "holdsTable reg key hf (length rs + n) (T, m) M"
    and "settled (hf k) (target b k M) (others b key k) {} (absOf key hf M) (core T) m j V"
    and "legal key isNode rs M" and "b \<Longrightarrow> untouched key k rs M"
    and "table_requests reg key hf rs (T, m) = Some (as, T', m')"
  shows "\<exists>j' V'. covered_run (hf k) (target b k M) (others b key k) (V, pBucketsInfo (core T), m) (V', pBucketsInfo (core T'), m')
    \<and> settled (hf k) (target b k M) (others b key k) {} (absOf key hf (mapAfter key rs M)) (core T') m' j' V'"
  using assms
proof (induction rs arbitrary: T m M j V as)
  case Nil
  then have "T' = T" "m' = m" by auto
  then show ?case using Nil(2) by (intro exI [of _ j] exI [of _ V]) simp
next
  case (Cons r rs)
  let ?M = "snd (serve key r M)"
  have lg: "legal key isNode [r] M" "legal key isNode rs ?M" using Cons.prems(3) by auto
  have h: "holdsTable reg key hf (Suc (length rs + n)) (T, m) M" using Cons.prems(1) by simp
  obtain s1 where s1: "handle (findKey key hf) (insertNode reg key hf) (detachKey reg key hf) r (T, m) = Some (fst (serve key r M), s1)"
    "holdsTable reg key hf (length rs + n) s1 ?M"
    using tableDict.request_served [OF h lg(1)] by blast
  obtain T1 m1 where s1': "s1 = (T1, m1)" by (cases s1)
  obtain as' where rest: "table_requests reg key hf rs (T1, m1) = Some (as', T', m')"
    using Cons.prems(5) s1(1) s1' by (auto split: bind_splits)
  have un: "b \<Longrightarrow> ?M k = M k" using Cons.prems(4) by simp
  then have tg: "target b k ?M = target b k M" by (simp add: target_def)
  obtain j1 V1 where V1: "covered_run (hf k) (target b k M) (others b key k) (V, pBucketsInfo (core T), m) (V1, pBucketsInfo (core T1), m1)"
    "settled (hf k) (target b k M) (others b key k) {} (absOf key hf ?M) (core T1) m1 j1 V1"
    using request_covered [OF h Cons.prems(2) lg(1) un s1(1) [unfolded s1']] by blast
  obtain j' V' where "covered_run (hf k) (target b k M) (others b key k) (V1, pBucketsInfo (core T1), m1) (V', pBucketsInfo (core T'), m')"
    "settled (hf k) (target b k M) (others b key k) {} (absOf key hf (mapAfter key rs ?M)) (core T') m' j' V'"
    using Cons.IH [OF s1(2) [unfolded s1'], of j1 V1] V1(2) lg(2) Cons.prems(4) rest unfolding tg by auto
  then show ?case using run_trans [OF V1(1)] by (intro exI [of _ j'] exI [of _ V']) simp
qed

subsection \<open>The system of a history\<close>

text \<open>
  A table in the state \<open>(T, m)\<close> serves the requests \<open>rs\<close>; \<open>es\<close> are the writes this takes.  They do not
  depend on the readers, who write nothing but the counts of the zone.
\<close>

definition serving :: "RCUReaderThreadRegistry \<Rightarrow> (loc \<Rightarrow> 'k) \<Rightarrow> ('k \<Rightarrow> u64) \<Rightarrow> ('k \<rightharpoonup> loc) \<Rightarrow> ('k, loc) request list
    \<Rightarrow> RTable \<times> mem \<Rightarrow> event list \<Rightarrow> bool" where
  "serving reg key hf M rs s es \<longleftrightarrow> holdsTable reg key hf (length rs) s M \<and> legal key isNode rs M
     \<and> (\<exists>as T' m'. table_requests reg key hf rs s = Some (as, T', m') \<and> trace m' = trace (snd s) @ es)"

lemma serving_exists:
  assumes "holdsTable reg key hf (length rs) (T, m) M" and "legal key isNode rs M"
  shows "\<exists>es. serving reg key hf M rs (T, m) es"
proof -
  obtain T' m' where r: "table_requests reg key hf rs (T, m) = Some (serveAll key rs M, T', m')"
    using tableDict.history_served [of reg key hf rs 0 "(T, m)" M] assms by auto
  have h0: "holdsTable reg key hf (length rs + 0) (T, m) M" using assms(1) by simp
  obtain j B where B: "table m (core T) j B" "keyed key hf (absTable m B) M" using assms(1) by (auto simp: holdsTable_def)
  note a = keyed_absOf [OF B(2)]
  obtain k :: 'a where True by simp
  obtain V where V: "settled (hf k) (target False k M) (others False key k) {} (absOf key hf M) (core T) m j V"
    using settled_start [OF B(1)] aim_absOf [where hf = hf and k = k and b = False, OF a(2)] a(1) by metis
  obtain V' where "covered_run (hf k) (target False k M) (others False key k) (V, pBucketsInfo (core T), m) (V', pBucketsInfo (core T'), m')"
    using history_covered [OF h0 V assms(2) _ r] by blast
  then obtain es where "wrote m es m'" unfolding covered_run_def using script_wrote by blast
  then show ?thesis using assms r wrote_trace unfolding serving_def by fastforce
qed

text \<open>The invariant of the system holds for both ways to watch a key.\<close>

lemma serving_inv:
  assumes "serving reg key hf M rs (T, m) es" and "b \<Longrightarrow> untouched key k rs M"
    and "sysstart reg (pBucketsInfo (core T)) m es s0" and "(sysstep reg key hf)\<^sup>*\<^sup>* s0 s"
  shows "\<exists>V' p' m' j' t'. sysinv reg key hf (target b k M) (others b key k) k (V', p', m') s
    \<and> settled (hf k) (target b k M) (others b key k) {} (absOf key hf (mapAfter key rs M)) t' m' j' V'"
proof -
  obtain as T' m' where r: "table_requests reg key hf rs (T, m) = Some (as, T', m')" "trace m' = trace m @ es"
    and h: "holdsTable reg key hf (length rs + 0) (T, m) M" and lg: "legal key isNode rs M"
    using assms(1) by (auto simp: serving_def)
  obtain j B where B: "table m (core T) j B" "keyed key hf (absTable m B) M" using h by (auto simp: holdsTable_def)
  note a = keyed_absOf [OF B(2)]
  obtain V where V: "settled (hf k) (target b k M) (others b key k) {} (absOf key hf M) (core T) m j V"
    using settled_start [OF B(1)] aim_absOf [where hf = hf and k = k and b = b, OF a(2)] a(1) by metis
  obtain j' V' where V': "covered_run (hf k) (target b k M) (others b key k) (V, pBucketsInfo (core T), m) (V', pBucketsInfo (core T'), m')"
    "settled (hf k) (target b k M) (others b key k) {} (absOf key hf (mapAfter key rs M)) (core T') m' j' V'"
    using history_covered [OF h V lg assms(2) r(1)] by blast
  obtain es' where es': "script (hf k) (target b k M) (others b key k) es' (V, pBucketsInfo (core T), m) (V', pBucketsInfo (core T'), m')"
    using V'(1) unfolding covered_run_def by blast
  have "es' = es" using wrote_trace [OF script_wrote [OF es']] r(2) by simp
  moreover have "cover (hf k) (target b k M) (others b key k) (pBucketsInfo (core T)) m V" using V unfolding settled_def by auto
  moreover have "\<forall>x. target b k M = Some x \<longrightarrow> key x = k" using coherentD [OF a(2)] by (simp add: target_def)
  ultimately have "scripted key hf (target b k M) (others b key k) k (V', pBucketsInfo (core T'), m') s0"
    using assms(3) es' unfolding scripted_def sysstart_def by auto
  then have "sysinv reg key hf (target b k M) (others b key k) k (V', pBucketsInfo (core T'), m') s"
    using concurrent.inv_reachable [OF _ assms(4)] assms(3) by blast
  then show ?thesis using V'(2) by blast
qed


text \<open>The nodes a reader of the key \<open>k\<close> may still use: where its lookup stands, and what it has returned.\<close>

definition refers :: "'k reader \<Rightarrow> 'k \<Rightarrow> loc \<Rightarrow> bool" where
  "refers r k y \<longleftrightarrow> search r \<in> {At k y, Visit k y, Hit k y} \<or> (k, y) \<in> set (got r)"

lemma reader_ok_refers:
  assumes "reader_ok key q k V r" and "refers r k y"
  shows "y \<in> V \<or> Some y = q"
  using assms unfolding reader_ok_def refers_def by auto

subsection \<open>A concrete system\<close>

text \<open>
  The table of \<open>exMem\<close>, with the nodes 1, 2 and 3 in one bucket.  The writer detaches the key 2, while
  the two threads of \<open>exState\<close> look up keys.
\<close>

definition exKey :: "loc \<Rightarrow> nat" where
  "exKey x = (case x of NodeHead n \<Rightarrow> n mod 10 | BucketHead k i \<Rightarrow> 0)"

definition exServed :: RTable where
  "exServed = \<lparr>core = exTable\<lparr>expandFactor := Fin 9227469 (-23)\<rparr>, rcuZone = exZone\<rparr>"

definition exMap :: "nat \<rightharpoonup> loc" where
  "exMap = [1 \<mapsto> NodeHead 1, 2 \<mapsto> NodeHead 2, 3 \<mapsto> NodeHead 3]"

definition exWrites :: "event list" where
  "exWrites = [EStore (NodeHead 1) (Some (NodeHead 3)), ESync]"

definition exSystem :: "nat system" where
  "exSystem = \<lparr>proto = exState, shared = exMem, published = Some 0, todo = exWrites, readers = (\<lambda>_. idleReader)\<rparr>"

lemma exServed_holds: "holdsTable exReg exKey (\<lambda>_. 0) (Suc 0) (exServed, exMem) exMap"
proof -
  have c: "concat exBuckets = [NodeHead 1, NodeHead 2, NodeHead 3]" by (simp add: exBuckets_def)
  have a: "absTable exMem exBuckets x = (if x \<in> {NodeHead 1, NodeHead 2, NodeHead 3} then Some 0 else None)" for x
    unfolding absTable_def c by (simp add: exMem_def)
  have d: "dom (absTable exMem exBuckets) = {NodeHead 1, NodeHead 2, NodeHead 3}" by (auto simp: a dom_def)
  have "keyed exKey (\<lambda>_. 0) (absTable exMem exBuckets) exMap"
    unfolding keyed_def d by (auto simp: a exMap_def exKey_def split: if_splits)
  moreover have "table exMem (core exServed) 0 exBuckets" using exMem_table by (simp add: table_def exServed_def)
  moreover have "quiet exReg (Suc 0 * 2 ^ 25) (rcuZone exServed)" by (simp add: exServed_def exZone_quiet)
  moreover have "unat (tsize (core exServed)) = 3" by (simp add: exServed_def exTable_def)
  ultimately show ?thesis unfolding holdsTable_def prod.case
    by (intro exI [of _ 0] exI [of _ exBuckets]) (simp add: d, simp add: exServed_def)
qed

lemma exDetach: "rTableTryDetachAndSynchronize exReg exServed 0 (\<lambda>x. exKey x = 2) exMem
  = Some (Some (NodeHead 2), exServed\<lparr>rcuZone := exZone\<lparr>epochLatest := 1, epochOldest := 1\<rparr>\<rparr>, fold emit exWrites exMem)"
proof -
  have b: "bucketFor (core exServed) 0 exMem = Some (BucketHead 0 0)" by code_simp
  have r: "rcuSlistRemoveIf (BucketHead 0 0) (\<lambda>x. exKey x = 2) exMem =
      Some (Some (NodeHead 2), storeNext (NodeHead 1) (Some (NodeHead 3)) exMem)"
    by (simp add: rcuSlistRemoveIf_def removeLoop.simps exMem_def exKey_def)
  have e: "epochLatest exZone = 0" by code_simp
  have "quiet exReg (Suc 0) exZone" by (rule exZone_quiet) simp
  then have z: "rcuSynchronize exReg exZone = Some (exZone\<lparr>epochLatest := 1, epochOldest := 1\<rparr>)"
    using quiet_sync(1) [of exReg 0 exZone] e by simp
  show ?thesis
    by (simp add: rTableTryDetachAndSynchronize_def rTableCoreTryDetachAndSynchronize_def rTableCoreTryDetachAutoShrink_def
      rTableCoreTryDetachNoShrink_def b r shrinkBucketsByFac2IfNecessary_def Let_def)
     (simp add: exServed_def exTable_def freshTable_def exMem_def z exWrites_def)
qed

lemma exServing: "serving exReg exKey (\<lambda>_. 0) exMap [Detach 2] (exServed, exMem) exWrites"
proof -
  have "trace (fold emit exWrites exMem) = trace exMem @ exWrites" by (rule wrote_trace) (simp add: wrote_def)
  then show ?thesis using exServed_holds by (simp add: serving_def detachKey_def exDetach)
qed

lemma exSystem_start: "sysstart exReg (pBucketsInfo (core exServed)) exMem exWrites exSystem"
proof -
  have "pstart exReg (proto exSystem)" using exState_start by (simp add: exSystem_def)
  then show ?thesis unfolding sysstart_def
    by (intro conjI exI [of _ "proto exSystem"]) (simp_all add: exSystem_def exServed_def exTable_def exState_def)
qed

text \<open>Thread 0 stands on the node 2 when it is unlinked, and goes on from there to the node 3.\<close>

definition exLookup :: "nat system option" where
  "exLookup = actions exReg exKey (\<lambda>_. 0)
     (replicate 4 (Protocol 0) @ Begin 0 3 # replicate 4 (Access 0) @ Write # replicate 3 (Access 0)) exSystem"

text \<open>
  Thread 0 finds the node 2 after it has been unlinked; thread 1 enters while the writer waits, and
  finds the node 3; thread 0 leaves; the writer's call returns, while thread 1 is still inside.
\<close>

definition exReclaim :: "nat system option" where
  "exReclaim = actions exReg exKey (\<lambda>_. 0)
     (replicate 4 (Protocol 0) @ Begin 0 2 # replicate 4 (Access 0) @ [Write, Write, Access 0]
      @ replicate 4 (Protocol 1) @ Begin 1 3 # replicate 5 (Access 1) @ Write # Protocol 0 # replicate 4 Write) exSystem"

text \<open>What the invariant says of every reachable state.\<close>

lemma exact_at:
  assumes "serving reg key hf M rs (T, m) es" and "untouched key k rs M"
    and "sysstart reg (pBucketsInfo (core T)) m es s0" and "(sysstep reg key hf)\<^sup>*\<^sup>* s0 s"
  shows "search (readers s i) \<noteq> Fault k \<and> (\<forall>r. search (readers s i) = outcome k r \<longrightarrow> r = M k)"
proof -
  obtain d where inv: "sysinv reg key hf (target True k M) (others True key k) k d s"
    using serving_inv [OF assms(1) assms(2) assms(3,4)] by blast
  obtain V where V: "cover (hf k) (target True k M) (others True key k) (published s) (shared s) V"
    and ok: "reader_ok key (target True k M) k V (readers s i)" using inv by (rule sysinv_reader)
  have "y \<in> V \<Longrightarrow> isNode y \<Longrightarrow> key y \<noteq> k" for y using coverD(1) [OF V] by (auto simp: others_def)
  then show ?thesis using ok by (auto simp: reader_ok_def target_def outcome_def split: option.splits)
qed

lemma reclaimed_at:
  assumes "serving reg key hf M rs (T, m) es"
    and "sysstart reg (pBucketsInfo (core T)) m es s0" and "(sysstep reg key hf)\<^sup>*\<^sup>* s0 s"
  shows "search (readers s i) \<noteq> Fault k
    \<and> (todo s = [] \<longrightarrow> refers (readers s i) k y \<longrightarrow> isNode y \<longrightarrow> mapAfter key rs M (key y) = Some y)"
proof -
  obtain V' p' m' j' t' where inv: "sysinv reg key hf (target False k M) (others False key k) k (V', p', m') s"
    and st: "settled (hf k) (target False k M) (others False key k) {} (absOf key hf (mapAfter key rs M)) t' m' j' V'"
    using serving_inv [OF assms(1) _ assms(2,3), of False k] by auto
  obtain V where "reader_ok key (target False k M) k V (readers s i)" using inv by (rule sysinv_reader)
  then have "search (readers s i) \<noteq> Fault k" by (auto simp: reader_ok_def)
  moreover have "mapAfter key rs M (key y) = Some y" if "todo s = []" "refers (readers s i) k y" "isNode y"
  proof -
    have "reader_ok key None k V' (readers s i)" using sysinv_end [OF inv that(1)] by (simp add: target_def)
    then have "y \<in> V'" using reader_ok_refers [OF _ that(2)] by blast
    then have "y \<in> sameBucket (hf k) j' (absOf key hf (mapAfter key rs M))"
      using settled_nodes [OF st, of y] that(3) by (cases y) (auto simp: isNode_def)
    then show ?thesis by (auto simp: sameBucket_def absOf_def split: if_splits)
  qed
  ultimately show ?thesis by blast
qed

subsection \<open>Properties\<close>

text \<open>
  C6.  Relativistic lookups are exact.  On every interleaving of reader threads with a writer that
  serves a history of insertions, removals and automatic resizes: if no request changes what the map
  holds under the key \<open>k\<close>, every lookup of \<open>k\<close> that returns has returned that node, or null if there
  is none; and no lookup touches null or freed memory.
\<close>

theorem lookups_exact:
  assumes "serving reg key hf M rs (T, m) es" and "untouched key k rs M"
    and "sysstart reg (pBucketsInfo (core T)) m es s0" and "(sysstep reg key hf)\<^sup>*\<^sup>* s0 s"
  shows "search (readers s i) \<noteq> Fault k \<and> (\<forall>r. search (readers s i) = outcome k r \<longrightarrow> r = M k)"
  by (rule exact_at [OF assms])

theorem lookups_exact_witness:
  "\<exists>s. exLookup = Some s \<and> search (readers s 0) = outcome 3 (Some (NodeHead 3)) \<and> exMap 3 = Some (NodeHead 3)"
proof -
  have "map_option (\<lambda>s. search (readers s 0)) exLookup = Some (outcome 3 (Some (NodeHead 3)))" by code_simp
  then obtain s where s: "exLookup = Some s" "search (readers s 0) = outcome 3 (Some (NodeHead 3))" by auto
  have un: "untouched exKey 3 [Detach 2] exMap" by (simp add: exMap_def)
  have "(sysstep exReg exKey (\<lambda>_. 0))\<^sup>*\<^sup>* exSystem s" using actions_reach s(1) unfolding exLookup_def by blast
  from lookups_exact [OF exServing un exSystem_start this, of 0] show ?thesis using s by auto
qed

text \<open>
  C7.  Safe reclamation.  On every interleaving, whatever the history: no lookup ever touches null or
  freed memory, and when the requests have been served every node that a reader stands on or has found
  in its critical section is in the table.  So a node that \<open>rTableTryDetachAndSynchronize\<close> returned
  can be freed or used again.
\<close>

theorem reclamation_safe:
  assumes "serving reg key hf M rs (T, m) es"
    and "sysstart reg (pBucketsInfo (core T)) m es s0" and "(sysstep reg key hf)\<^sup>*\<^sup>* s0 s"
  shows "search (readers s i) \<noteq> Fault k
    \<and> (todo s = [] \<longrightarrow> refers (readers s i) k y \<longrightarrow> isNode y \<longrightarrow> mapAfter key rs M (key y) = Some y)"
  by (rule reclaimed_at [OF assms])

theorem reclamation_safe_witness:
  "\<exists>s. exReclaim = Some s \<and> todo s = [] \<and> refers (readers s 1) 3 (NodeHead 3)
    \<and> mapAfter exKey [Detach 2] exMap (exKey (NodeHead 3)) = Some (NodeHead 3)"
proof -
  have "map_option (\<lambda>s. (todo s, got (readers s 1))) exReclaim = Some ([], [(3, NodeHead 3)])" by code_simp
  then obtain s where s: "exReclaim = Some s" "todo s = []" "got (readers s 1) = [(3, NodeHead 3)]" by auto
  have r: "refers (readers s 1) 3 (NodeHead 3)" using s(3) by (simp add: refers_def)
  have "(sysstep exReg exKey (\<lambda>_. 0))\<^sup>*\<^sup>* exSystem s" using actions_reach s(1) unfolding exReclaim_def by blast
  from reclamation_safe [OF exServing exSystem_start this, of 1 3 "NodeHead 3"]
  have "mapAfter exKey [Detach 2] exMap (exKey (NodeHead 3)) = Some (NodeHead 3)"
    using s(2) r by (simp only: isNode_def loc.case simp_thms)
  then show ?thesis using s(1,2) r by blast
qed

text \<open>
  C12.  A lookup never hangs: from every reachable state, however the writer was interrupted, a lookup
  that goes on by itself returns after finitely many accesses.
\<close>

theorem lookups_return:
  assumes "serving reg key hf M rs (T, m) es"
    and "sysstart reg (pBucketsInfo (core T)) m es s0" and "(sysstep reg key hf)\<^sup>*\<^sup>* s0 s"
  shows "\<exists>n. finished (searchSteps key hf (shared s) n (search (readers s i)))"
proof -
  have ends: "\<exists>n. finished (searchSteps key hf (shared s) n (search (readers s i)))"
    if st: "search (readers s i) \<in> {Loaded k b, At k x, Visit k x}" for k b x
  proof -
    obtain d where inv: "sysinv reg key hf None (others False key k) k d s"
      using serving_inv [OF assms(1) _ assms(2,3), of False k] by (auto simp: target_def)
    obtain V where V: "cover (hf k) None (others False key k) (published s) (shared s) V"
      "reader_ok key None k V (readers s i)" using inv by (rule sysinv_reader)
    show ?thesis by (rule search_ends [where hf = hf, OF V(1) _ st]) (use V(2) in \<open>simp add: reader_ok_def\<close>)
  qed
  have "search (readers s i) \<noteq> Fault k" for k
  proof -
    obtain d where inv: "sysinv reg key hf None (others False key k) k d s"
      using serving_inv [OF assms(1) _ assms(2,3), of False k] by (auto simp: target_def)
    obtain V where "reader_ok key None k V (readers s i)" using inv by (rule sysinv_reader)
    then show ?thesis by (auto simp: reader_ok_def)
  qed
  then show ?thesis using ends by (cases "search (readers s i)") (auto intro: exI [of _ 0])
qed

theorem lookups_return_witness:
  "\<exists>s n. exLookup = Some s \<and> finished (searchSteps exKey (\<lambda>_. 0) (shared s) n (search (readers s 0)))"
proof -
  have "map_option (\<lambda>s. search (readers s 0)) exLookup = Some (Hit 3 (NodeHead 3))" by code_simp
  then obtain s where s: "exLookup = Some s" by auto
  have "(sysstep exReg exKey (\<lambda>_. 0))\<^sup>*\<^sup>* exSystem s" using actions_reach s unfolding exLookup_def by blast
  from lookups_return [OF exServing exSystem_start this] show ?thesis using s by blast
qed

end
