(* ===== verification/ManualTable.thy ===== *)
theory ManualTable
  imports ConcurrentTable
begin

text \<open>
  The operations of the advanced interface on a table that serves as a dictionary: insertion without
  growth, explicit doubling and halving, removal without a grace period.  \<open>followed\<close> collects what
  readers see of any sequence of writing operations that leaves a key alone.
\<close>

subsection \<open>Laws of the other operations\<close>

text \<open>The keys of nodes outside the table do not matter.\<close>

lemma holdsTable_key:
  assumes "holdsTable reg key hf n s M" and "\<And>k x. M k = Some x \<Longrightarrow> key' x = key x" and "\<And>k. k \<in> dom M \<Longrightarrow> hf' k = hf k"
  shows "holdsTable reg key' hf' n s M"
proof -
  have "keyed key' hf' A M" if k: "keyed key hf A M" for A
  proof -
    have b: "M k = Some x \<longleftrightarrow> x \<in> dom A \<and> key x = k" for k x using k by (simp add: keyed_def)
    have d: "key' x = key x \<and> hf' (key x) = hf (key x)" if x: "x \<in> dom A" for x
    proof -
      have "M (key x) = Some x" using b [of "key x" x] x by simp
      then show ?thesis using assms(2) [of "key x" x] assms(3) [of "key x"] by (simp add: domIff)
    qed
    then have "M k = Some x \<longleftrightarrow> x \<in> dom A \<and> key' x = k" for k x
      using b [of k x] d [of x] by (cases "x \<in> dom A") (simp_all only: simp_thms)
    moreover have "h = hf' (key' x)" if "A x = Some h" for x h
      using k d [of x] that by (simp add: keyed_def domIff)
    ultimately show ?thesis by (simp add: keyed_def)
  qed
  then show ?thesis using assms(1) by (auto simp: holdsTable_def)
qed

lemma holdsTableE:
  assumes "holdsTable reg key hf n (T, m) M"
  obtains j B where "table m (core T) j B" "j < 30" "keyed key hf (absTable m B) M"
    "quiet reg (n * 2 ^ 25) (rcuZone T)" "expandFactor (core T) = Fin 9227469 (-23)"
    "card (dom (absTable m B)) \<le> unat (tsize (core T))" "unat (tsize (core T)) + n < 2 ^ 24"
  using assms by (auto simp: holdsTable_def)

lemma holdsTableI:
  assumes "table m (core T) j B" "j < 30" "keyed key hf (absTable m B) M"
    "quiet reg (n * 2 ^ 25) (rcuZone T)" "expandFactor (core T) = Fin 9227469 (-23)"
    "card (dom (absTable m B)) \<le> unat (tsize (core T))" "unat (tsize (core T)) + n < 2 ^ 24"
  shows "holdsTable reg key hf n (T, m) M"
  using assms unfolding holdsTable_def prod.case by blast

lemma quiet_less: "quiet reg (Suc n * 2 ^ 25) z \<Longrightarrow> quiet reg (Suc (n * 2 ^ 25)) z" "quiet reg (Suc n * 2 ^ 25) z \<Longrightarrow> quiet reg (n * 2 ^ 25) z"
  using quiet_mono [of reg "n * 2 ^ 25" "2 ^ 25"] quiet_mono [of reg "Suc (n * 2 ^ 25)" "2 ^ 25 - 1"]
  by (simp_all add: add.commute)

lemma holds_more: "holdsTable reg key hf (n + k) s M \<Longrightarrow> holdsTable reg key hf n s M"
  by (induction k) (auto dest: holds_less)

lemma tableDetachAuto_law:
  assumes h: "holdsTable reg key hf (Suc n) (T, m) M"
  shows "\<exists>b T' m'. rTableTryDetachAutoShrink reg T (hf k) (\<lambda>x. key x = k) m = Some (M k, b, T', m')
    \<and> holdsTable reg key hf n (T', m') (M(k := None))"
proof -
  obtain j B where B: "table m (core T) j B" "j < 30" "keyed key hf (absTable m B) M"
    "quiet reg (Suc n * 2 ^ 25) (rcuZone T)" "expandFactor (core T) = Fin 9227469 (-23)"
    "card (dom (absTable m B)) \<le> unat (tsize (core T))" "unat (tsize (core T)) + Suc n < 2 ^ 24"
    using h by (rule holdsTableE)
  note q = quiet_less [OF B(4)]
  obtain b t' m' z' j' B' pq where x: "rTableCoreTryDetachAutoShrink (rcuSynchronize reg) (core T) (hf k) (\<lambda>x. key x = k) m (rcuZone T)
      = Some (M k, b, t', m', z')" "table m' t' j' B'" "j' \<le> j" "t' = core T\<lparr>pBucketsInfo := pq\<rparr>"
    "if b then rcuSynchronize reg (rcuZone T) = Some z' \<and> quiet reg (n * 2 ^ 25) z' else z' = rcuZone T"
    "case M k of None \<Rightarrow> \<not> b \<and> absTable m' B' = absTable m B | Some x \<Rightarrow> absTable m' B' = (absTable m B)(x := None)"
    using idle.rTableCoreTryDetachAutoShrink_ok [OF B(1) q(1), of "hf k" "\<lambda>x. key x = k"]
    unfolding keyed_find [OF B(1,3)] by blast
  have run: "rTableTryDetachAutoShrink reg T (hf k) (\<lambda>x. key x = k) m = Some (M k, b, \<lparr>core = t', rcuZone = z'\<rparr>, m')"
    using x(1) by (simp add: rTableTryDetachAutoShrink_def)
  have "keyed key hf (absTable m' B') (M(k := None)) \<and> card (dom (absTable m' B')) \<le> unat (tsize t')"
  proof (cases "M k")
    case None
    then have "M(k := None) = M" by auto
    then show ?thesis using None x(4,6) B(3,6) by simp
  next
    case (Some y)
    have "card (dom (absTable m B) - {y}) \<le> card (dom (absTable m B))" by (rule card_Diff1_le)
    then show ?thesis using Some x(4,6) keyed_detach [OF B(3) Some] B(6) by auto
  qed
  moreover have "quiet reg (n * 2 ^ 25) z'" using x(5) q(2) by (cases b) auto
  ultimately have "holdsTable reg key hf n (\<lparr>core = t', rcuZone = z'\<rparr>, m') (M(k := None))"
    using x(2-4) B(2,5,7) by (intro holdsTableI [where j = j' and B = B']) auto
  then show ?thesis using run by blast
qed

definition tableSize :: "RTable \<times> mem \<Rightarrow> nat \<Rightarrow> bool" where
  "tableSize = (\<lambda>(T, m) j. \<exists>B. table m (core T) j B)"

lemma tableInsertNoExpand_law:
  assumes h: "holdsTable reg key hf (Suc n) (T, m) M" and sz: "tableSize (T, m) j" and e: "isNode e" "M (key e) \<noteq> Some e"
  shows "\<exists>T' m'. rTableTryInsertNoExpand T e (hf (key e)) (\<lambda>x y. key x = key y) m = Some (M (key e) = None, T', m')
    \<and> holdsTable reg key hf n (T', m') (if M (key e) = None then M(key e \<mapsto> e) else M) \<and> tableSize (T', m') j"
proof -
  obtain i B where B: "table m (core T) i B" "i < 30" "keyed key hf (absTable m B) M"
    "quiet reg (Suc n * 2 ^ 25) (rcuZone T)" "expandFactor (core T) = Fin 9227469 (-23)"
    "card (dom (absTable m B)) \<le> unat (tsize (core T))" "unat (tsize (core T)) + Suc n < 2 ^ 24"
    using h by (rule holdsTableE)
  have i: "i = j" using sz table_size_unique [OF B(1)] by (auto simp: tableSize_def)
  have ed: "e \<notin> dom (absTable m B)" using B(3) e(2) by (auto simp: keyed_def)
  then have "e \<notin> set (concat B)" by (simp only: dom_absTable not_False_eq_True)
  then obtain ins t' m' B' where x: "rTableCoreTryInsertNoExpand (core T) e (hf (key e)) (\<lambda>x y. key x = key y) m = Some (ins, t', m')"
    "ins = (\<not> (\<exists>x \<in> set (B ! (unat (hf (key e)) mod 2 ^ i)). key x = key e))" "table m' t' i B'"
    "absTable m' B' = (if ins then (absTable m B)(e \<mapsto> hf (key e)) else absTable m B)"
    "t' = core T\<lparr>tsize := tsize (core T) + (if ins then 1 else 0)\<rparr>"
    using rTableCoreTryInsertNoExpand_table [OF B(1) e(1), of "hf (key e)" "\<lambda>x y. key x = key y"] by blast
  have ins: "ins = (M (key e) = None)"
    unfolding x(2) keyed_find [OF B(1,3), of "key e", symmetric] find_None_iff by blast
  have sz1: "unat (tsize (core T) + 1) = unat (tsize (core T)) + 1" using B(7) by (intro unat_add_small [THEN trans]) simp_all
  have fin: "finite (dom (absTable m B))"
  proof -
    have "dom (absTable m B) = set (concat B)" using dom_absTable [of _ m B] by blast
    then show ?thesis by (simp only: List.finite_set)
  qed
  have "card (dom (absTable m' B')) \<le> unat (tsize t')"
    using x(4,5) B(6) sz1 fin by (auto simp: card_insert_if)
  moreover have "keyed key hf (absTable m' B') (if M (key e) = None then M(key e \<mapsto> e) else M)"
    using x(4) ins B(3) keyed_insert [OF B(3) _ ed] by simp
  ultimately have "holdsTable reg key hf n (T\<lparr>core := t'\<rparr>, m') (if M (key e) = None then M(key e \<mapsto> e) else M)"
    using x(3,5) B(2,5,7) sz1 quiet_less(2) [OF B(4)] by (intro holdsTableI [where j = i and B = B']) auto
  then show ?thesis using x(1,3) i ins by (auto simp: rTableTryInsertNoExpand_def tableSize_def)
qed

lemma tableExpand_law:
  assumes h: "holdsTable reg key hf (Suc n) (T, m) M" and sz: "tableSize (T, m) j" and j: "Suc j < 30"
  shows "\<exists>T' m'. rTableExpandBuckets2x reg T m = Some (T', m') \<and> holdsTable reg key hf n (T', m') M \<and> tableSize (T', m') (Suc j)"
proof -
  obtain i B where B: "table m (core T) i B" "i < 30" "keyed key hf (absTable m B) M"
    "quiet reg (Suc n * 2 ^ 25) (rcuZone T)" "expandFactor (core T) = Fin 9227469 (-23)"
    "card (dom (absTable m B)) \<le> unat (tsize (core T))" "unat (tsize (core T)) + Suc n < 2 ^ 24"
    using h by (rule holdsTableE)
  have i: "i = j" using sz table_size_unique [OF B(1)] by (auto simp: tableSize_def)
  have "card (dom (absTable m B)) + 2 \<le> 2 ^ 25" using B(6,7) by simp
  then have "Suc n * 2 ^ 25 = length (concat B) + Suc (n * 2 ^ 25) + Suc (2 ^ 25 - 2 - card (dom (absTable m B)))"
    using table_count [OF B(1)] by simp
  then have "quiet reg (length (concat B) + Suc (n * 2 ^ 25)) (rcuZone T)" using B(4) quiet_mono by metis
  then obtain t' m' z' where x: "rTableCoreExpandBuckets2x (rcuSynchronize reg) (core T) m (rcuZone T) = Some (t', m', z')"
    "quiet reg (n * 2 ^ 25) z'" "table m' t' (Suc j) (expandBuckets m j B)" "absTable m' (expandBuckets m j B) = absTable m B"
    "t' = core T\<lparr>pBucketsInfo := Some (freshBlock m)\<rparr>"
    using idle.expand_ok [OF B(1,2)] i by blast
  have "holdsTable reg key hf n (\<lparr>core = t', rcuZone = z'\<rparr>, m') M"
    by (rule holdsTableI [where j = "Suc j" and B = "expandBuckets m j B"]) (use B(3,5-7) x(2-5) j in simp_all)
  then show ?thesis using x(1,3) by (auto simp: rTableExpandBuckets2x_def tableSize_def)
qed

lemma tableShrink_law:
  assumes h: "holdsTable reg key hf (Suc n) (T, m) M" and sz: "tableSize (T, m) (Suc j)"
  shows "\<exists>T' m'. rTableShrinkBuckets2x reg T m = Some (True, T', m') \<and> holdsTable reg key hf n (T', m') M \<and> tableSize (T', m') j"
proof -
  obtain i B where B: "table m (core T) i B" "i < 30" "keyed key hf (absTable m B) M"
    "quiet reg (Suc n * 2 ^ 25) (rcuZone T)" "expandFactor (core T) = Fin 9227469 (-23)"
    "card (dom (absTable m B)) \<le> unat (tsize (core T))" "unat (tsize (core T)) + Suc n < 2 ^ 24"
    using h by (rule holdsTableE)
  have i: "i = Suc j" using sz table_size_unique [OF B(1)] by (auto simp: tableSize_def)
  then have j: "j < 30" using B(2) by simp
  obtain t' m' z' where x: "rTableCoreShrinkBuckets2x (rcuSynchronize reg) (core T) m (rcuZone T) = Some (True, t', m', z')"
    "quiet reg (n * 2 ^ 25) z'" "table m' t' j (shrinkBuckets j B)" "absTable m' (shrinkBuckets j B) = absTable m B"
    "t' = core T\<lparr>pBucketsInfo := Some (freshBlock m)\<rparr>"
    using idle.shrink_ok [OF B(1) [unfolded i] j quiet_less(1) [OF B(4)]] by blast
  have "holdsTable reg key hf n (\<lparr>core = t', rcuZone = z'\<rparr>, m') M"
    by (rule holdsTableI [where j = j and B = "shrinkBuckets j B"]) (use B(3,5-7) x(2-5) j in simp_all)
  then show ?thesis using x(1,3) by (auto simp: rTableShrinkBuckets2x_def tableSize_def)
qed

lemma tableSynchronize_law:
  assumes h: "holdsTable reg key hf (Suc n) (T, m) M"
  shows "\<exists>T' m'. rTableSynchronize reg T m = Some (T', m') \<and> holdsTable reg key hf n (T', m') M"
proof -
  obtain j B where B: "table m (core T) j B" "j < 30" "keyed key hf (absTable m B) M"
    "quiet reg (Suc n * 2 ^ 25) (rcuZone T)" "expandFactor (core T) = Fin 9227469 (-23)"
    "card (dom (absTable m B)) \<le> unat (tsize (core T))" "unat (tsize (core T)) + Suc n < 2 ^ 24"
    using h by (rule holdsTableE)
  obtain z where z: "rcuSynchronize reg (rcuZone T) = Some z" "quiet reg (n * 2 ^ 25) z"
    using idle.sync_law [OF quiet_less(1) [OF B(4)]] by blast
  have "holdsTable reg key hf n (T\<lparr>rcuZone := z\<rparr>, emit ESync m) M"
    by (rule holdsTableI [where j = j and B = B]) (use B z(2) table_sync in simp_all)
  then show ?thesis using z(1) by (simp add: rTableSynchronize_def)
qed

subsection \<open>What readers see of a sequence of operations\<close>

text \<open>
  From the table \<open>T0\<close> in the memory \<open>m0\<close>, writes that a reader of the key \<open>k\<close> may interleave with lead
  to \<open>T\<close> and \<open>m\<close>, where the table holds \<open>M\<close>.  With \<open>b\<close> the node of \<open>k\<close> stays \<open>q\<close> all along.
\<close>

definition followed :: "bool \<Rightarrow> (loc \<Rightarrow> 'k) \<Rightarrow> ('k \<Rightarrow> u64) \<Rightarrow> 'k \<Rightarrow> ptr \<Rightarrow> RTable \<times> mem \<Rightarrow> RTable \<times> mem \<Rightarrow> ('k \<rightharpoonup> loc) \<Rightarrow> bool" where
  "followed b key hf k q = (\<lambda>(T0, m0) (T, m) M. target b k M = q \<and> (\<exists>V0 V j. cover (hf k) q (others b key k) (pBucketsInfo (core T0)) m0 V0
     \<and> covered_run (hf k) q (others b key k) (V0, pBucketsInfo (core T0), m0) (V, pBucketsInfo (core T), m)
     \<and> settled (hf k) q (others b key k) {} (absOf key hf M) (core T) m j V))"

lemma followed_start:
  assumes "holdsTable reg key hf n s M"
  shows "followed b key hf k (target b k M) s s M"
proof -
  obtain T m where s: "s = (T, m)" by (cases s)
  obtain j B where B: "table m (core T) j B" "keyed key hf (absTable m B) M"
    using assms unfolding s by (rule holdsTableE)
  note a = keyed_absOf [OF B(2)]
  obtain V where V: "settled (hf k) (target b k M) (others b key k) {} (absOf key hf M) (core T) m j V"
    using settled_start [OF B(1)] aim_absOf [where hf = hf and k = k and b = b, OF a(2)] a(1) by metis
  then have "cover (hf k) (target b k M) (others b key k) (pBucketsInfo (core T)) m V" unfolding settled_def by auto
  then show ?thesis using V unfolding followed_def s prod.case
    by (intro conjI refl exI [of _ V] exI [of _ j]) simp_all
qed

lemma followed_step:
  assumes f: "followed b key hf k q c (T, m) M" and M': "target b k M' = target b k M"
    and st: "\<And>V j. settled (hf k) q (others b key k) {} (absOf key hf M) (core T) m j V \<Longrightarrow>
      \<exists>j' V'. covered_run (hf k) q (others b key k) (V, pBucketsInfo (core T), m) (V', pBucketsInfo (core T'), m')
        \<and> settled (hf k) q (others b key k) {} (absOf key hf M') (core T') m' j' V'"
  shows "followed b key hf k q c (T', m') M'"
proof -
  obtain T0 m0 where c: "c = (T0, m0)" by (cases c)
  obtain V0 V j where V: "cover (hf k) q (others b key k) (pBucketsInfo (core T0)) m0 V0"
    "covered_run (hf k) q (others b key k) (V0, pBucketsInfo (core T0), m0) (V, pBucketsInfo (core T), m)"
    "settled (hf k) q (others b key k) {} (absOf key hf M) (core T) m j V" and q: "target b k M = q"
    using f unfolding followed_def c by auto
  obtain j' V' where "covered_run (hf k) q (others b key k) (V, pBucketsInfo (core T), m) (V', pBucketsInfo (core T'), m')"
    "settled (hf k) q (others b key k) {} (absOf key hf M') (core T') m' j' V'" using st [OF V(3)] by blast
  then show ?thesis unfolding followed_def c prod.case using V(1) M' q run_trans [OF V(2)]
    by (intro conjI exI [of _ V0] exI [of _ V'] exI [of _ j']) simp_all
qed

lemma followed_request:
  assumes "holdsTable reg key hf (Suc n) (T, m) M" and "followed b key hf k q c (T, m) M"
    and "legal key isNode [r] M" and "b \<Longrightarrow> snd (serve key r M) k = M k"
    and "handle (findKey key hf) (insertNode reg key hf) (detachKey reg key hf) r (T, m) = Some (a, T', m')"
  shows "followed b key hf k q c (T', m') (snd (serve key r M))"
proof -
  have q: "target b k M = q" using assms(2) by (cases c) (simp add: followed_def)
  have "target b k (snd (serve key r M)) = target b k M" using assms(4) by (simp add: target_def)
  then show ?thesis
    using request_covered [where b = b and k = k, OF assms(1) _ assms(3) assms(4) assms(5)]
    by (intro followed_step [where M' = "snd (serve key r M)", OF assms(2)]) (simp_all add: q)
qed

lemma followed_expand:
  assumes h: "holdsTable reg key hf (Suc n) (T, m) M" and f: "followed b key hf k q c (T, m) M"
    and sz: "tableSize (T, m) j" and run: "rTableExpandBuckets2x reg T m = Some (T', m')"
  shows "followed b key hf k q c (T', m') M"
proof (rule followed_step [where M' = M, OF f refl])
  fix V i
  assume s: "settled (hf k) q (others b key k) {} (absOf key hf M) (core T) m i V"
  note hs = holds_settled [OF h s]
  have rd: "quiet reg (card (dom (absOf key hf M)) + Suc (Suc 0)) (rcuZone T)" by (rule hs(3))
  obtain t' m1 z' V' where x: "rTableCoreExpandBuckets2x (rcuSynchronize reg) (core T) m (rcuZone T) = Some (t', m1, z')"
    "covered_run (hf k) q (others b key k) (V, pBucketsInfo (core T), m) (V', pBucketsInfo t', m1)"
    "settled (hf k) q (others b key k) {} (absOf key hf M) t' m1 (Suc i) V'"
    using idle.expand_covered [OF s hs(1) rd] by blast
  have "core T' = t'" "m' = m1" using run x(1) by (auto simp: rTableExpandBuckets2x_def)
  then show "\<exists>j' V'. covered_run (hf k) q (others b key k) (V, pBucketsInfo (core T), m) (V', pBucketsInfo (core T'), m')
      \<and> settled (hf k) q (others b key k) {} (absOf key hf M) (core T') m' j' V'"
    using x(2,3) by (intro exI [of _ "Suc i"] exI [of _ V']) simp
qed

lemma followed_shrink:
  assumes h: "holdsTable reg key hf (Suc n) (T, m) M" and f: "followed b key hf k q c (T, m) M"
    and sz: "tableSize (T, m) (Suc j)" and run: "rTableShrinkBuckets2x reg T m = Some (shrunk, T', m')"
  shows "followed b key hf k q c (T', m') M"
proof (rule followed_step [where M' = M, OF f refl])
  fix V i
  assume s: "settled (hf k) q (others b key k) {} (absOf key hf M) (core T) m i V"
  obtain B where "table m (core T) i B" using s unfolding settled_def by blast
  then have i: "i = Suc j" using sz table_size_unique unfolding tableSize_def prod.case by blast
  note hs = holds_settled [OF h s]
  obtain t' m1 z' V' where x: "rTableCoreShrinkBuckets2x (rcuSynchronize reg) (core T) m (rcuZone T) = Some (True, t', m1, z')"
    "covered_run (hf k) q (others b key k) (V, pBucketsInfo (core T), m) (V', pBucketsInfo t', m1)"
    "settled (hf k) q (others b key k) {} (absOf key hf M) t' m1 j V'"
    using idle.shrink_covered [OF s [unfolded i] hs(4)] by blast
  have "core T' = t'" "m' = m1" using run x(1) by (auto simp: rTableShrinkBuckets2x_def)
  then show "\<exists>j' V'. covered_run (hf k) q (others b key k) (V, pBucketsInfo (core T), m) (V', pBucketsInfo (core T'), m')
      \<and> settled (hf k) q (others b key k) {} (absOf key hf M) (core T') m' j' V'"
    using x(2,3) by (intro exI [of _ "j"] exI [of _ V']) simp
qed

lemma followed_sync:
  assumes f: "followed b key hf k q c (T, m) M" and run: "rTableSynchronize reg T m = Some (T', m')"
  shows "followed b key hf k q c (T', m') M"
proof (rule followed_step [where M' = M, OF f refl])
  fix V i
  assume s: "settled (hf k) q (others b key k) {} (absOf key hf M) (core T) m i V"
  have "core T' = core T" "m' = emit ESync m" using run by (auto simp: rTableSynchronize_def split: bind_splits)
  then show "\<exists>j' V'. covered_run (hf k) q (others b key k) (V, pBucketsInfo (core T), m) (V', pBucketsInfo (core T'), m')
      \<and> settled (hf k) q (others b key k) {} (absOf key hf M) (core T') m' j' V'"
    using settled_sync [OF s] by auto
qed

text \<open>An insertion with any predicate, see \<open>tableInsert_any\<close>.\<close>

lemma followed_insert:
  assumes h: "holdsTable reg key hf (Suc n) (T, m) M" and f: "followed b key hf k q c (T, m) M"
    and e: "isNode e" "M (key e) \<noteq> Some e" and run: "rTableTryInsert reg T e (hf (key e)) R m = Some (ins, T', m')"
    and new: "ins \<Longrightarrow> M (key e) = None" and un: "b \<Longrightarrow> ins \<Longrightarrow> key e \<noteq> k"
  shows "followed b key hf k q c (T', m') (if ins then M(key e \<mapsto> e) else M)"
proof (rule followed_step [OF f])
  show "target b k (if ins then M(key e \<mapsto> e) else M) = target b k M" using un by (auto simp: target_def)
  fix V i
  assume s: "settled (hf k) q (others b key k) {} (absOf key hf M) (core T) m i V"
  note hs = holds_settled [OF h s]
  have A: "absOf key hf M e = None" using e(2) by (simp add: absOf_def)
  obtain t' z' where x: "rTableCoreTryInsert (rcuSynchronize reg) (core T) e (hf (key e)) R m (rcuZone T) = Some (ins, t', m', z')"
    "core T' = t'" using run by (auto simp: rTableTryInsert_def split: bind_splits)
  have "e \<in> others b key k" if ins using un that by (auto simp: others_def)
  then obtain j' V' where V': "covered_run (hf k) q (others b key k) (V, pBucketsInfo (core T), m) (V', pBucketsInfo t', m')"
    "settled (hf k) q (others b key k) {}
      (if ins then (absOf key hf M)(e \<mapsto> hf (key e)) else absOf key hf M) t' m' j' V'"
    using idle.tryInsert_covered [where R = R, OF s e(1) A _ hs(1,3) x(1)] by auto
  have "(if ins then (absOf key hf M)(e \<mapsto> hf (key e)) else absOf key hf M) = absOf key hf (if ins then M(key e \<mapsto> e) else M)"
    using absOf_insert [of M key e hf] new by auto
  then show "\<exists>j' V'. covered_run (hf k) q (others b key k) (V, pBucketsInfo (core T), m) (V', pBucketsInfo (core T'), m')
      \<and> settled (hf k) q (others b key k) {} (absOf key hf (if ins then M(key e \<mapsto> e) else M)) (core T') m' j' V'"
    using V' x(2) by (intro exI [of _ j'] exI [of _ V']) simp
qed

text \<open>Every lookup of \<open>k\<close> that interleaves with these writes returns what \<open>M\<close> holds.\<close>

lemma followed_trace: "followed b key hf k q (T0, m0) (T, m) M \<Longrightarrow> \<exists>es. trace m = trace m0 @ es"
  unfolding followed_def covered_run_def prod.case using script_wrote wrote_trace by metis

lemma followed_lookups:
  assumes f: "followed b key hf k q (T0, m0) (T, m) M" and co: "coherent key M" and es: "trace m = trace m0 @ es"
    and s0: "sysstart reg (pBucketsInfo (core T0)) m0 es s0" and s: "(sysstep reg key hf)\<^sup>*\<^sup>* s0 s"
  shows "search (readers s i) \<noteq> Fault k \<and> (b \<longrightarrow> (\<forall>r. search (readers s i) = outcome k r \<longrightarrow> r = M k))"
proof -
  let ?G = "others b key k"
  obtain V0 V es' where V: "cover (hf k) q ?G (pBucketsInfo (core T0)) m0 V0"
    "script (hf k) q ?G es' (V0, pBucketsInfo (core T0), m0) (V, pBucketsInfo (core T), m)" and q: "target b k M = q"
    using f unfolding followed_def covered_run_def by auto
  have "es' = es" using wrote_trace [OF script_wrote [OF V(2)]] es by simp
  moreover have t: "\<forall>x. q = Some x \<longrightarrow> key x = k" using coherentD [OF co, of k] q by (auto simp: target_def split: if_splits)
  ultimately have "scripted key hf q ?G k (V, pBucketsInfo (core T), m) s0"
    using s0 V unfolding scripted_def sysstart_def by auto
  then have inv: "sysinv reg key hf q ?G k (V, pBucketsInfo (core T), m) s"
    using concurrent.inv_reachable [OF _ s] s0 by blast
  obtain U where U: "cover (hf k) q ?G (published s) (shared s) U" and ok: "reader_ok key q k U (readers s i)"
    using inv by (rule sysinv_reader)
  have "r = M k" if b "search (readers s i) = outcome k r" for r
  proof (cases r)
    case None
    then show ?thesis using ok q that by (auto simp: reader_ok_def outcome_def target_def)
  next
    case (Some y)
    then have "key y = k \<and> (y \<in> U \<and> isNode y \<or> Some y = q)" using ok that(2) by (simp add: reader_ok_def outcome_def)
    moreover have "y \<in> U \<Longrightarrow> isNode y \<Longrightarrow> key y \<noteq> k" using coverD(1) [OF U] that(1) by (auto simp: others_def)
    ultimately show ?thesis using q that(1) Some by (auto simp: target_def)
  qed
  moreover have "search (readers s i) \<noteq> Fault k" using ok by (auto simp: reader_ok_def)
  ultimately show ?thesis by blast
qed

text \<open>
  A table under use: it started as \<open>s1\<close> holding \<open>M1\<close>, now is \<open>s\<close> and holds \<open>M\<close>; readers of any key may
  run beside it, and for the keys in \<open>K\<close> they find what \<open>M1\<close> holds.
\<close>

definition follows :: "RCUReaderThreadRegistry \<Rightarrow> (loc \<Rightarrow> 'k) \<Rightarrow> ('k \<Rightarrow> u64) \<Rightarrow> 'k set \<Rightarrow> nat \<Rightarrow> RTable \<times> mem
    \<Rightarrow> ('k \<rightharpoonup> loc) \<Rightarrow> RTable \<times> mem \<Rightarrow> ('k \<rightharpoonup> loc) \<Rightarrow> bool" where
  "follows reg key hf K n s1 M1 s M \<longleftrightarrow> holdsTable reg key hf n s M
     \<and> (\<forall>k b. (b \<longrightarrow> k \<in> K) \<longrightarrow> followed b key hf k (target b k M1) s1 s M)"

lemma follows_holds: "follows reg key hf K n s1 M1 s M \<Longrightarrow> holdsTable reg key hf n s M"
  by (simp add: follows_def)

lemma follows_key: "follows reg key hf K n s1 M1 s M \<Longrightarrow> (b \<Longrightarrow> k \<in> K) \<Longrightarrow> followed b key hf k (target b k M1) s1 s M"
  by (simp add: follows_def)

lemma followsI:
  assumes "holdsTable reg key hf n s M" and "\<And>b k. (b \<Longrightarrow> k \<in> K) \<Longrightarrow> followed b key hf k (target b k M1) s1 s M"
  shows "follows reg key hf K n s1 M1 s M"
  using assms by (simp add: follows_def)

lemma follows_start: "holdsTable reg key hf n s M \<Longrightarrow> follows reg key hf K n s M s M"
  by (rule followsI) (auto intro: followed_start)

lemma follows_less: "follows reg key hf K (Suc n) s1 M1 s M \<Longrightarrow> follows reg key hf K n s1 M1 s M"
  by (rule followsI) (auto intro: follows_key holds_less dest: follows_holds)

lemma follows_sync:
  assumes f: "follows reg key hf K (Suc n) s1 M1 (T, m) M"
  shows "\<exists>T' m'. rTableSynchronize reg T m = Some (T', m') \<and> follows reg key hf K n s1 M1 (T', m') M"
proof -
  obtain T' m' where x: "rTableSynchronize reg T m = Some (T', m')" "holdsTable reg key hf n (T', m') M"
    using tableSynchronize_law [OF follows_holds [OF f]] by (elim exE conjE)
  have "follows reg key hf K n s1 M1 (T', m') M"
    by (rule followsI [OF x(2)]) (rule followed_sync [OF follows_key [OF f] x(1)])
  then show ?thesis using x(1) by (intro exI conjI)
qed

lemma follows_insert:
  assumes f: "follows reg key hf K (Suc n) s1 M1 (T, m) M" and e: "isNode e" "M (key e) \<noteq> Some e" "key e \<notin> K"
    and R: "\<And>j. \<forall>x \<in> bucketMates j hf M (key e). \<not> R x e \<Longrightarrow> M (key e) = None"
  shows "\<exists>j b T' m'. rTableTryInsert reg T e (hf (key e)) R m = Some (b, T', m')
    \<and> (b \<longleftrightarrow> (\<forall>x \<in> bucketMates j hf M (key e). \<not> R x e))
    \<and> follows reg key hf K n s1 M1 (T', m') (if b then M(key e \<mapsto> e) else M)"
proof -
  have "\<exists>j b s'. rTableTryInsert reg T e (hf (key e)) R m = Some (b, s')
      \<and> (b \<longleftrightarrow> (\<forall>x \<in> bucketMates j hf M (key e). \<not> R x e)) \<and> holdsTable reg key hf n s' (if b then M(key e \<mapsto> e) else M)"
    by (rule tableInsert_any [where R = R, OF follows_holds [OF f] e(1,2)]) (rule R)
  then obtain j ins s' where s': "rTableTryInsert reg T e (hf (key e)) R m = Some (ins, s')"
    "ins \<longleftrightarrow> (\<forall>x \<in> bucketMates j hf M (key e). \<not> R x e)"
    "holdsTable reg key hf n s' (if ins then M(key e \<mapsto> e) else M)" by (elim exE conjE)
  obtain T' m' where T': "s' = (T', m')" by (cases s')
  have new: "ins \<Longrightarrow> M (key e) = None" using s'(2) R by simp
  have "follows reg key hf K n s1 M1 (T', m') (if ins then M(key e \<mapsto> e) else M)"
  proof (rule followsI [OF s'(3) [unfolded T']])
    fix b k
    assume b: "b \<Longrightarrow> k \<in> K"
    show "followed b key hf k (target b k M1) s1 (T', m') (if ins then M(key e \<mapsto> e) else M)"
      by (rule followed_insert [OF follows_holds [OF f] follows_key [OF f b] e(1,2) s'(1) [unfolded T'] new]) (use b e(3) in auto)
  qed
  then show ?thesis using s'(1,2) unfolding T' by (intro exI conjI)
qed

lemma follows_insert_new:
  assumes f: "follows reg key hf K (Suc n) s1 M1 (T, m) M" and e: "isNode e" "key e \<notin> K" "M (key e) = None"
    and R: "\<And>x. x \<in> ran M \<Longrightarrow> \<not> R x e"
  shows "\<exists>T' m'. rTableTryInsert reg T e (hf (key e)) R m = Some (True, T', m')
    \<and> follows reg key hf K n s1 M1 (T', m') (M(key e \<mapsto> e))"
proof -
  have all: "\<forall>x \<in> bucketMates j hf M (key e). \<not> R x e" for j using R by (auto simp: bucketMates_def ran_def)
  have ne: "M (key e) \<noteq> Some e" using e(3) by simp
  obtain j b T' m' where "rTableTryInsert reg T e (hf (key e)) R m = Some (b, T', m')"
    "b \<longleftrightarrow> (\<forall>x \<in> bucketMates j hf M (key e). \<not> R x e)"
    "follows reg key hf K n s1 M1 (T', m') (if b then M(key e \<mapsto> e) else M)"
    using follows_insert [where R = R, OF f e(1) ne e(2) e(3)] by (elim exE conjE)
  then show ?thesis using all [of j] by (intro exI [of _ T'] exI [of _ m']) simp
qed

lemma follows_detach:
  assumes f: "follows reg key hf K (Suc n) s1 M1 (T, m) M" and k': "k' \<notin> K"
  shows "\<exists>T' m'. rTableTryDetachAndSynchronize reg T (hf k') (\<lambda>x. key x = k') m = Some (M k', T', m')
    \<and> follows reg key hf K n s1 M1 (T', m') (M(k' := None))"
proof -
  obtain s' where s': "detachKey reg key hf k' (T, m) = Some (M k', s')" "holdsTable reg key hf n s' (M(k' := None))"
    using tableDetach_law [OF follows_holds [OF f], of k'] by (elim exE conjE)
  obtain T' m' where T': "s' = (T', m')" by (cases s')
  have run: "handle (findKey key hf) (insertNode reg key hf) (detachKey reg key hf) (Detach k') (T, m) = Some (Detached (M k'), T', m')"
    using s'(1) by (simp add: T')
  have "follows reg key hf K n s1 M1 (T', m') (M(k' := None))"
  proof (rule followsI [OF s'(2) [unfolded T']])
    fix b k
    assume b: "b \<Longrightarrow> k \<in> K"
    then have un: "b \<Longrightarrow> snd (serve key (Detach k') M) k = M k" using k' by auto
    have lg: "legal key isNode [Detach k'] M" by simp
    have eq: "M(k' := None) = snd (serve key (Detach k') M)" by simp
    show "followed b key hf k (target b k M1) s1 (T', m') (M(k' := None))"
      unfolding eq by (rule followed_request [OF follows_holds [OF f] follows_key [OF f b] lg un run])
  qed
  then show ?thesis using s'(1) unfolding T' by (intro exI conjI) (simp_all add: detachKey_def)
qed

lemma follows_lookups:
  assumes f: "follows reg key hf K n (T0, m0) M1 (T, m) M" and es: "trace m = trace m0 @ es"
    and s0: "sysstart reg (pBucketsInfo (core T0)) m0 es s0" and s: "(sysstep reg key hf)\<^sup>*\<^sup>* s0 s"
  shows "search (readers s i) \<noteq> Fault k" and "k \<in> K \<Longrightarrow> search (readers s i) = outcome k r \<Longrightarrow> r = M1 k"
proof -
  obtain j B where "keyed key hf (absTable m B) M" using follows_holds [OF f] by (rule holdsTableE)
  then have co: "coherent key M" by (rule keyed_absOf(2))
  have l: "search (readers s i) \<noteq> Fault k \<and> (b \<longrightarrow> (\<forall>r. search (readers s i) = outcome k r \<longrightarrow> r = M k))" if "b \<Longrightarrow> k \<in> K" for b
    by (rule followed_lookups [OF follows_key [OF f that] co es s0 s])
  show "search (readers s i) \<noteq> Fault k" using l [of False] by simp
  have "target True k M = target True k M1" if "k \<in> K" using follows_key [OF f, of True k] that by (simp add: followed_def)
  then show "k \<in> K \<Longrightarrow> search (readers s i) = outcome k r \<Longrightarrow> r = M1 k" using l [of True] by (simp add: target_def)
qed

lemma follows_trace:
  assumes "follows reg key hf K n (T0, m0) M1 (T, m) M"
  shows "\<exists>es. trace m = trace m0 @ es"
  by (rule followed_trace [OF follows_key [OF assms, of False]]) simp

text \<open>A system at its start.\<close>

definition freshSystem :: "pstate \<Rightarrow> nat option \<Rightarrow> mem \<Rightarrow> event list \<Rightarrow> 'k system" where
  "freshSystem p pub m es = \<lparr>proto = p, shared = m, published = pub, todo = es, readers = (\<lambda>_. idleReader)\<rparr>"

lemma freshSystem_start: "pstart reg p \<Longrightarrow> sysstart reg pub m es (freshSystem p pub m es)"
  unfolding sysstart_def freshSystem_def by (auto simp: pstart_def)

end
