(* ===== verification/Client.thy ===== *)
theory Client
  imports ManualTable
begin

text \<open>
  What the programs that use the table share: elements with an embedded \<open>RNode entry\<close>, assertions and
  exceptions, and the loops that fill a table.  An element is identified with its entry, so
  \<open>YJ_CONTAINER_OF(p, MyElement, entry)->value\<close> is \<open>val c p\<close>.  \<open>std::hash\<close> is a parameter of every program.
\<close>

subsection \<open>State\<close>

text \<open>Array elements are created with all fields zero.\<close>

record 'v client =
  tbl :: RTable
  cmem :: mem
  val :: "loc \<Rightarrow> 'v"
  valid :: "loc \<Rightarrow> bool"

definition entry :: "nat \<Rightarrow> loc" where
  "entry i = NodeHead i"

text \<open>\<open>assert(b)\<close>, or \<open>if (!b) throw\<close>: the program does not go on unless \<open>b\<close>.\<close>

definition require :: "bool \<Rightarrow> unit option" where
  "require b = (if b then Some () else None)"

lemma require_True [simp]: "require True = Some ()"
  by (simp add: require_def)

lemma entry_eq [simp]: "entry i = entry j \<longleftrightarrow> i = j"
  by (simp add: entry_def)

lemma isNode_entry [simp]: "isNode (entry i)"
  by (simp add: entry_def isNode_def)

subsection \<open>The map of a set of elements\<close>

definition entries :: "(nat \<Rightarrow> 'v) \<Rightarrow> nat list \<Rightarrow> 'v \<rightharpoonup> loc" where
  "entries v xs = map_of (map (\<lambda>i. (v i, entry i)) xs)"

lemma entries_Nil [simp]: "entries v [] = Map.empty"
  by (simp add: entries_def)

lemma entries_some: "entries v xs k = Some x \<Longrightarrow> \<exists>i \<in> set xs. v i = k \<and> x = entry i"
  unfolding entries_def by (drule map_of_SomeD) auto

lemma entries_none: "entries v xs k = None \<longleftrightarrow> k \<notin> v ` set xs"
  unfolding entries_def by (auto simp: map_of_eq_None_iff image_iff)

lemma entries_at: "inj_on v (set xs) \<Longrightarrow> i \<in> set xs \<Longrightarrow> entries v xs (v i) = Some (entry i)"
  using entries_some [of v xs "v i"] entries_none [of v xs "v i"]
  by (cases "entries v xs (v i)") (auto dest: inj_onD)

lemma entries_cong:
  assumes "inj_on v (set xs)" "set xs = set ys"
  shows "entries v xs = entries v ys"
proof
  fix k
  show "entries v xs k = entries v ys k"
  proof (cases "k \<in> v ` set xs")
    case True
    then obtain i where "i \<in> set xs" "k = v i" by auto
    then show ?thesis using entries_at assms by metis
  next
    case False
    then have "entries v xs k = None" "entries v ys k = None" using assms(2) by (simp_all add: entries_none)
    then show ?thesis by simp
  qed
qed

lemma entries_insert:
  assumes "inj_on v (set (i # xs))" and "i \<notin> set xs"
  shows "entries v xs (v i) = None" and "(entries v xs)(v i \<mapsto> entry i) = entries v (i # xs)"
  using assms by (auto simp: entries_none dest: inj_onD) (simp add: entries_def)

lemma entries_remove:
  assumes "inj_on v (set xs)" and "i \<in> set xs"
  shows "(entries v xs)(v i := None) = entries v (removeAll i xs)"
proof
  fix k
  have inj: "inj_on v (set (removeAll i xs))" using assms(1) by (rule inj_on_subset) auto
  show "((entries v xs)(v i := None)) k = entries v (removeAll i xs) k"
  proof (cases "entries v (removeAll i xs) k")
    case None
    then have "k = v i \<or> k \<notin> v ` set xs" by (auto simp: entries_none)
    then have "((entries v xs)(v i := None)) k = None" using entries_none [of v xs k] by auto
    then show ?thesis using None by simp
  next
    case (Some x)
    then obtain y where y: "y \<in> set xs" "y \<noteq> i" "v y = k" using entries_some by fastforce
    then have "v y \<noteq> v i" using assms by (auto dest: inj_onD)
    then show ?thesis using entries_at [OF assms(1) y(1)] entries_at [OF inj, of y] y by auto
  qed
qed

subsection \<open>Loops over the elements\<close>

text \<open>The table of a client, with a budget for further operations.\<close>

abbreviation stores_elements :: "RCUReaderThreadRegistry \<Rightarrow> ('v \<Rightarrow> u64) \<Rightarrow> nat \<Rightarrow> 'v client \<Rightarrow> ('v \<rightharpoonup> loc) \<Rightarrow> bool" where
  "stores_elements reg hash n c M \<equiv> holdsTable reg (val c) hash n (tbl c, cmem c) M"

lemma assign_keeps:
  assumes "holdsTable reg f hash n s (entries v xs)" and "i \<notin> set xs"
  shows "holdsTable reg (f(entry i := a)) hash n s (entries v xs)"
proof (rule holdsTable_key [OF assms(1)])
  fix k x
  assume "entries v xs k = Some x"
  then show "(f(entry i := a)) x = f x" using entries_some assms(2) by fastforce
qed simp

lemma inj_u64:
  assumes "set xs \<subseteq> {..< 2 ^ 64}"
  shows "inj_on (of_nat :: nat \<Rightarrow> u64) (set xs)"
proof -
  have "unat (of_nat x :: u64) = x" if "x \<in> set xs" for x
    using assms that by (auto simp: unsigned_of_nat take_bit_nat_eq_self)
  then show ?thesis by (rule inj_on_inverseI)
qed

text \<open>A table goes out of scope.\<close>

lemma destroy_fresh:
  assumes "holdsTable reg key hf n (T, m) M"
  shows "\<exists>m'. destroyTableCore (core T) m = Some m' \<and> fresh_blocks m'"
proof -
  obtain j B where "table m (core T) j B" using assms by (rule holdsTableE)
  then show ?thesis
    by (auto simp: table_def buckets_at_def destroyTableCore_def destroyAndFreeBuckets_def fresh_blocks_def)
qed

subsection \<open>Elements whose value is their index\<close>

text \<open>The elements below \<open>n\<close> have their values, the others are zero.\<close>

definition valuesTo :: "nat \<Rightarrow> loc \<Rightarrow> u64" where
  "valuesTo n x = (case x of NodeHead y \<Rightarrow> if y < n then of_nat y else 0 | _ \<Rightarrow> 0)"

abbreviation stored :: "nat list \<Rightarrow> u64 \<rightharpoonup> loc" where
  "stored \<equiv> entries of_nat"

lemma valuesTo_entry [simp]: "valuesTo n (entry y) = (if y < n then of_nat y else 0)"
  by (simp add: valuesTo_def entry_def)

lemma valuesTo_assign: "i \<le> n \<Longrightarrow> (valuesTo n)(entry i := of_nat i) = valuesTo (max n (Suc i))"
  by (rule ext) (auto simp: valuesTo_def entry_def max_def split: loc.split)

lemma valuesTo_0: "valuesTo 0 = (\<lambda>_. 0)"
  by (rule ext) (simp add: valuesTo_def split: loc.split)

lemma of_nat_eq: "i < 2 ^ 64 \<Longrightarrow> j < 2 ^ 64 \<Longrightarrow> (of_nat i :: u64) = of_nat j \<longleftrightarrow> i = j"
  using inj_onD [OF inj_u64 [of "[i, j]"]] by auto

lemma below_iff:
  assumes "i < 2 ^ 64" and "n \<le> 2 ^ 64"
  shows "(of_nat i :: u64) \<in> of_nat ` {..< n} \<longleftrightarrow> i < n"
proof
  assume "(of_nat i :: u64) \<in> of_nat ` {..< n}"
  then obtain y where y: "y < n" "(of_nat i :: u64) = of_nat y" by auto
  have "y < 2 ^ 64" using y(1) assms(2) by simp
  then have "i = y" using of_nat_eq [OF assms(1)] y(2) by blast
  then show "i < n" using y(1) by simp
qed simp

lemma stored_at: "i < n \<Longrightarrow> n \<le> 2 ^ 64 \<Longrightarrow> stored [0..<n] (of_nat i) = Some (entry i)"
  by (rule entries_at [OF inj_u64]) auto

text \<open>Inserting a new element, by a predicate that compares the values assigned so far.\<close>

lemma insert_element:
  assumes f: "follows reg (valuesTo N) hash K (Suc n) s1 M1 (tbl c, cmem c) (stored xs)"
    and xs: "set xs \<subseteq> {..< l}" "l \<le> N" "N \<le> 2 ^ 64" and i: "i < N" "i \<le> l" "i \<notin> set xs" "of_nat i \<notin> K"
  shows "\<exists>T m. rTableTryInsert reg (tbl c) (entry i) (hash (of_nat i))
      (\<lambda>p1 p2. ((valuesTo l)(entry i := of_nat i)) p1 = ((valuesTo l)(entry i := of_nat i)) p2) (cmem c) = Some (True, T, m)
    \<and> follows reg (valuesTo N) hash K n s1 M1 (T, m) (stored (i # xs))"
proof -
  let ?R = "\<lambda>p1 p2. ((valuesTo l)(entry i := of_nat i)) p1 = ((valuesTo l)(entry i := of_nat i)) p2"
  have k: "valuesTo N (entry i) = of_nat i" using i by simp
  have inj: "inj_on (of_nat :: nat \<Rightarrow> u64) (set (i # xs))" using i xs by (intro inj_u64) auto
  note M = entries_insert [OF inj i(3)]
  have R: "\<not> ?R x (entry i)" if x: "x \<in> ran (stored xs)" for x
  proof -
    obtain y where y: "y \<in> set xs" "x = entry y" using x entries_some by (fastforce simp: ran_def)
    then have "(of_nat y :: u64) \<noteq> of_nat i" using inj_onD [OF inj, of y i] i(3) by auto
    then show ?thesis using y xs i(3) by auto
  qed
  have "\<exists>T m. rTableTryInsert reg (tbl c) (entry i) (hash (valuesTo N (entry i))) ?R (cmem c) = Some (True, T, m)
      \<and> follows reg (valuesTo N) hash K n s1 M1 (T, m) ((stored xs)(valuesTo N (entry i) \<mapsto> entry i))"
    by (rule follows_insert_new [OF f]) (use i M(1) R k in simp_all)
  then show ?thesis unfolding k M(2) .
qed

end
