(* ===== verification/QuickExample.thy ===== *)
theory QuickExample
  imports Client
begin

text \<open>
  The quick example of \<open>main.cpp\<close>: 100000 elements are inserted, then a writer removes those that are
  no multiple of 8 while reader threads look all of them up.  The program's own assertions, in the
  writer and in the readers, are shown to hold on every interleaving.
\<close>

subsection \<open>The program\<close>

definition quickSize :: nat where
  "quickSize = 100000"

definition quickInsert :: "RCUReaderThreadRegistry \<Rightarrow> (int \<Rightarrow> u64) \<Rightarrow> nat \<Rightarrow> int client \<Rightarrow> int client option" where
  "quickInsert reg hash item c =
     do {
       let c = c\<lparr>val := (val c)(entry item := int item)\<rparr>;
       let c = c\<lparr>valid := (valid c)(entry item := True)\<rparr>;
       let hashVal = hash (int item);
       (inserted, T, m) \<leftarrow> rTableTryInsert reg (tbl c) (entry item) hashVal (\<lambda>p1 p2. val c p1 = val c p2) (cmem c);
       _ \<leftarrow> require inserted;
       Some (c\<lparr>tbl := T, cmem := m\<rparr>)
     }"

definition quickFill :: "RCUReaderThreadRegistry \<Rightarrow> u32 \<Rightarrow> (int \<Rightarrow> u64) \<Rightarrow> mem \<Rightarrow> int client option" where
  "quickFill reg hardware_concurrency hash m =
     do {
       (T, m) \<leftarrow> rTableInit reg hardware_concurrency freshRTable 64 m;
       for_range 0 quickSize (quickInsert reg hash)
         \<lparr>tbl = T, cmem = m, val = (\<lambda>_. 0), valid = (\<lambda>_. False)\<rparr>
     }"

definition quickErase :: "RCUReaderThreadRegistry \<Rightarrow> (int \<Rightarrow> u64) \<Rightarrow> nat \<Rightarrow> int client \<Rightarrow> int client option" where
  "quickErase reg hash i c =
     (if i mod 8 = 0 then Some c
      else do {
        let v = val c (entry i);
        let h = hash v;
        (pEntry, T, m) \<leftarrow> rTableTryDetachAndSynchronize reg (tbl c) h (\<lambda>p. val c p = v) (cmem c);
        _ \<leftarrow> require (pEntry \<noteq> None);
        p \<leftarrow> pEntry;
        Some (c\<lparr>tbl := T, cmem := m, valid := (valid c)(p := False)\<rparr>)
      })"

definition quickWriter :: "RCUReaderThreadRegistry \<Rightarrow> (int \<Rightarrow> u64) \<Rightarrow> int client \<Rightarrow> int client option" where
  "quickWriter reg hash = for_range 0 quickSize (quickErase reg hash)"

text \<open>What \<open>readerFunc\<close> asserts of the pointer it found for the element \<open>i\<close>.\<close>

definition quickReaderAsserts :: "nat \<Rightarrow> int client \<Rightarrow> ptr \<Rightarrow> bool" where
  "quickReaderAsserts i c pEntry \<longleftrightarrow> (i mod 8 = 0 \<longrightarrow> pEntry = Some (entry i) \<and> valid c (entry i))"

text \<open>The hash values that \<open>printRCUTable\<close> prints, bucket by bucket.\<close>

partial_function (option) printBucket :: "ptr \<Rightarrow> mem \<Rightarrow> u64 list option" where
  "printBucket p m =
     (case p of None \<Rightarrow> Some []
      | Some x \<Rightarrow> do { hs \<leftarrow> printBucket (nxt m x) m; Some (hashOf m x # hs) })"

definition printRCUTable :: "RTable \<Rightarrow> mem \<Rightarrow> u64 list list option" where
  "printRCUTable T m =
     do {
       pBucket \<leftarrow> pBucketsInfo (core T);
       n \<leftarrow> blocks m pBucket;
       for_range 0 (unat n) (\<lambda>iBucket out. do {
         pSrc \<leftarrow> bucketAt m pBucket iBucket;
         hs \<leftarrow> printBucket (nxt m pSrc) m;
         Some (out @ [hs])
       }) []
     }"

lemma printBucket_lst: "lst (nxt m) p xs \<Longrightarrow> printBucket p m = Some (map (hashOf m) xs)"
  by (induction xs arbitrary: p) (auto simp: printBucket.simps)

lemma printRCUTable_table:
  assumes "table m (core T) j B"
  shows "printRCUTable T m = Some (map (map (hashOf m)) B)"
proof -
  obtain k where k: "pBucketsInfo (core T) = Some k" "buckets_at m k j B" using assms by (rule tableE)
  have n: "blocks m k = Some (2 ^ j)" "unat ((2 :: u64) ^ j) = 2 ^ j" "length B = 2 ^ j"
    using buckets_atD [OF k(2)] by (auto simp: unat_two_power)
  let ?body = "\<lambda>iBucket out. do { pSrc \<leftarrow> bucketAt m k iBucket; hs \<leftarrow> printBucket (nxt m pSrc) m; Some (out @ [hs]) }"
  have "\<exists>out. for_range 0 (2 ^ j) ?body [] = Some out \<and> out = map (map (hashOf m)) (take (2 ^ j) B)"
  proof (rule for_range_rule)
    fix i out
    assume i: "i < 2 ^ j" and out: "out = map (map (hashOf m)) (take i B)"
    have "bucketAt m k i = Some (BucketHead k i)" using i n by (simp add: bucketAt_def)
    moreover have "lst (nxt m) (nxt m (BucketHead k i)) (B ! i)"
      using buckets_atD(5) [OF k(2) i] by (simp add: bucket_ok_def slist_def)
    ultimately show "\<exists>out'. ?body i out = Some out' \<and> out' = map (map (hashOf m)) (take (Suc i) B)"
      using out i n(3) by (simp add: printBucket_lst take_Suc_conv_app_nth)
  qed simp_all
  then show ?thesis using k(1) n by (simp add: printRCUTable_def)
qed

subsection \<open>The loops\<close>

lemma inj_int [simp]: "inj_on int A"
  by (simp add: inj_on_def)

definition filledTo :: "RCUReaderThreadRegistry \<Rightarrow> (int \<Rightarrow> u64) \<Rightarrow> nat \<Rightarrow> int client \<Rightarrow> bool" where
  "filledTo reg hash i c \<longleftrightarrow> stores_elements reg hash (300000 - i) c (entries int [0..<i])
     \<and> (\<forall>y < i. val c (entry y) = int y \<and> valid c (entry y))"

lemma quickInsert_ok:
  assumes "filledTo reg hash i c" and "i < quickSize"
  shows "\<exists>c'. quickInsert reg hash i c = Some c' \<and> filledTo reg hash (Suc i) c'"
proof -
  let ?f = "(val c)(entry i := int i)"
  have n: "300000 - i = Suc (300000 - Suc i)" using assms(2) by (simp add: quickSize_def)
  have h: "holdsTable reg ?f hash (Suc (300000 - Suc i)) (tbl c, cmem c) (entries int [0..<i])"
    unfolding n [symmetric] using assms(1) by (intro assign_keeps) (simp_all add: filledTo_def)
  have inj: "inj_on int (set (i # [0..<i]))" by (rule inj_int)
  have new: "entries int [0..<i] (int i) = None" using entries_insert(1) [OF inj] by simp
  have M: "(entries int [0..<i])(int i \<mapsto> entry i) = entries int [0..<Suc i]"
    using entries_insert(2) [OF inj] entries_cong [of int "i # [0..<i]" "[0..<Suc i]"] inj by (simp add: insert_commute atLeastLessThanSuc)
  obtain T m where x: "rTableTryInsert reg (tbl c) (entry i) (hash (int i)) (\<lambda>x y. ?f x = ?f y) (cmem c) = Some (True, T, m)"
    "holdsTable reg ?f hash (300000 - Suc i) (T, m) (entries int [0..<Suc i])"
    using tableInsert_law [OF h, of "entry i"] new M by (auto simp: insertNode_def)
  then show ?thesis using assms(1)
    by (auto simp: quickInsert_def Let_def filledTo_def less_Suc_eq)
qed

lemma quickFill_ok:
  assumes "unat hc \<le> 2 ^ 20" and "unat (nrNonOverlappingBucketCount reg) \<le> 2 ^ 29" and "fresh_blocks m"
  shows "\<exists>c. quickFill reg hc hash m = Some c \<and> filledTo reg hash quickSize c"
proof -
  have "unat (64 :: u32) \<le> 2 ^ 20" "(300000 :: nat) < 2 ^ 24" by simp_all
  then obtain T m' where T: "rTableInit reg hc freshRTable 64 m = Some (T, m')"
    "holdsTable reg (\<lambda>_. 0) hash 300000 (T, m') Map.empty"
    using rTableInit_holds [OF _ assms(1,2,3), of 64 300000 "\<lambda>_. 0" hash] by auto
  have "filledTo reg hash 0 \<lparr>tbl = T, cmem = m', val = (\<lambda>_. 0), valid = (\<lambda>_. False)\<rparr>"
    using T(2) by (simp add: filledTo_def)
  then have "\<exists>c. for_range 0 quickSize (quickInsert reg hash) \<lparr>tbl = T, cmem = m', val = (\<lambda>_. 0), valid = (\<lambda>_. False)\<rparr> = Some c
      \<and> filledTo reg hash quickSize c"
    by (intro for_range_rule quickInsert_ok) simp_all
  then show ?thesis using T(1) by (simp add: quickFill_def)
qed

text \<open>The elements the writer has not removed before its iteration \<open>i\<close>.\<close>

definition remaining :: "nat \<Rightarrow> nat list" where
  "remaining i = filter (\<lambda>y. i \<le> y \<or> y mod 8 = 0) [0..<quickSize]"

lemma set_remaining: "set (remaining i) = {y. y < quickSize \<and> (i \<le> y \<or> y mod 8 = 0)}"
  unfolding remaining_def by auto

text \<open>The values of the elements that stay.\<close>

definition kept :: "int set" where
  "kept = int ` {y. y < quickSize \<and> y mod 8 = 0}"

definition erasedTo :: "RCUReaderThreadRegistry \<Rightarrow> (int \<Rightarrow> u64) \<Rightarrow> int client \<Rightarrow> nat \<Rightarrow> int client \<Rightarrow> bool" where
  "erasedTo reg hash c1 i c \<longleftrightarrow> follows reg (val c1) hash kept (200000 - i) (tbl c1, cmem c1) (entries int (remaining 0))
        (tbl c, cmem c) (entries int (remaining i))
     \<and> val c = val c1 \<and> (\<forall>y < quickSize. val c1 (entry y) = int y \<and> (valid c (entry y) \<longleftrightarrow> i \<le> y \<or> y mod 8 = 0))"

lemma skipped: "i mod 8 = 0 \<Longrightarrow> i \<le> y \<or> y mod 8 = 0 \<longleftrightarrow> Suc i \<le> y \<or> y mod 8 = 0" for i y :: nat
  by (metis Suc_leI Suc_leD le_neq_implies_less)

lemma remaining_same: "i mod 8 = 0 \<Longrightarrow> entries int (remaining (Suc i)) = entries int (remaining i)"
  by (rule entries_cong [OF inj_int]) (simp only: set_remaining skipped)

lemma quickErase_ok:
  assumes e: "erasedTo reg hash c1 i c" and i: "i < quickSize"
  shows "\<exists>c'. quickErase reg hash i c = Some c' \<and> erasedTo reg hash c1 (Suc i) c'"
proof -
  have n: "200000 - i = Suc (200000 - Suc i)" using i by (simp add: quickSize_def)
  have f: "follows reg (val c1) hash kept (Suc (200000 - Suc i)) (tbl c1, cmem c1) (entries int (remaining 0))
      (tbl c, cmem c) (entries int (remaining i))" and v: "val c = val c1" "val c (entry i) = int i"
    using e i unfolding erasedTo_def n by simp_all
  show ?thesis
  proof (cases "i mod 8 = 0")
    case True
    have "erasedTo reg hash c1 (Suc i) c"
      unfolding erasedTo_def remaining_same [OF True] skipped [OF True, symmetric]
      using follows_less [OF f] e by (simp add: erasedTo_def)
    then show ?thesis using True by (simp add: quickErase_def)
  next
    case False
    have mem: "i \<in> set (remaining i)" using i by (simp add: set_remaining)
    have at: "entries int (remaining i) (int i) = Some (entry i)" by (rule entries_at [OF inj_int mem])
    have "set (removeAll i (remaining i)) = set (remaining (Suc i))" using False by (auto simp: set_remaining)
    then have M: "(entries int (remaining i))(int i := None) = entries int (remaining (Suc i))"
      using entries_remove [OF inj_int mem] entries_cong [OF inj_int] by metis
    have out: "int i \<notin> kept" using False by (auto simp: kept_def)
    obtain T m where x: "rTableTryDetachAndSynchronize reg (tbl c) (hash (int i)) (\<lambda>p. val c p = int i) (cmem c) = Some (Some (entry i), T, m)"
      "follows reg (val c1) hash kept (200000 - Suc i) (tbl c1, cmem c1) (entries int (remaining 0)) (T, m) (entries int (remaining (Suc i)))"
      using follows_detach [OF f out] unfolding at M v(1) by (elim exE conjE)
    have "Suc i \<le> y \<or> y mod 8 = 0 \<longleftrightarrow> (i \<le> y \<or> y mod 8 = 0) \<and> y \<noteq> i" for y using False by auto
    then show ?thesis using x e v unfolding erasedTo_def quickErase_def by (simp add: False Let_def)
  qed
qed

lemma erasedTo_start:
  assumes "filledTo reg hash quickSize c1"
  shows "erasedTo reg hash c1 0 c1"
proof -
  have "entries int [0..<quickSize] = entries int (remaining 0)"
    by (rule entries_cong [OF inj_int]) (auto simp: set_remaining)
  then have h: "holdsTable reg (val c1) hash 200000 (tbl c1, cmem c1) (entries int (remaining 0))"
    using assms by (simp add: filledTo_def quickSize_def)
  then show ?thesis using assms unfolding erasedTo_def filledTo_def
    by (intro conjI) (simp_all add: follows_start [OF h])
qed

lemma quickErase_upto:
  assumes "filledTo reg hash quickSize c1" and "n \<le> quickSize"
  shows "\<exists>c. for_range 0 n (quickErase reg hash) c1 = Some c \<and> erasedTo reg hash c1 n c"
  using erasedTo_start [OF assms(1)] assms(2) quickErase_ok by (intro for_range_rule) auto

lemma erasedTo_find:
  assumes "erasedTo reg hash c1 quickSize c" and "i < quickSize"
  shows "rTableFind (tbl c) (hash (int i)) (\<lambda>p. val c p = int i) (cmem c) = Some (if i mod 8 = 0 then Some (entry i) else None)"
proof -
  have h: "holdsTable reg (val c1) hash (200000 - quickSize) (tbl c, cmem c) (entries int (remaining quickSize))"
    using assms(1) [unfolded erasedTo_def, THEN conjunct1] by (rule follows_holds)
  have v: "val c = val c1" using assms(1) by (simp add: erasedTo_def)
  have "entries int (remaining quickSize) (int i) = (if i mod 8 = 0 then Some (entry i) else None)"
    using entries_at [of int "remaining quickSize" i] assms(2) by (auto simp: set_remaining entries_none)
  then show ?thesis using tableFind_law [OF h, of "int i"] v by (simp add: findKey_def)
qed

lemma quick_readers:
  assumes f: "filledTo reg hash quickSize c1" and w: "quickWriter reg hash c1 = Some c2"
    and es: "trace (cmem c2) = trace (cmem c1) @ es" and s0: "sysstart reg (pBucketsInfo (core (tbl c1))) (cmem c1) es s0"
    and s: "(sysstep reg (val c1) hash)\<^sup>*\<^sup>* s0 s" and i: "i < quickSize"
  shows "search (readers s t) \<noteq> Fault (int i)"
    and "search (readers s t) = outcome (int i) r \<Longrightarrow> n \<le> quickSize \<Longrightarrow> for_range 0 n (quickErase reg hash) c1 = Some c
      \<Longrightarrow> quickReaderAsserts i c r"
proof -
  have e: "erasedTo reg hash c1 quickSize c2" using quickErase_upto [OF f order_refl] w by (simp add: quickWriter_def)
  have f0: "follows reg (val c1) hash kept (200000 - quickSize) (tbl c1, cmem c1) (entries int (remaining 0))
      (tbl c2, cmem c2) (entries int (remaining quickSize))" using e by (simp add: erasedTo_def)
  note lk = follows_lookups [OF f0 es s0 s]
  show "search (readers s t) \<noteq> Fault (int i)" by (rule lk(1))
  assume r: "search (readers s t) = outcome (int i) r" and n: "n \<le> quickSize" "for_range 0 n (quickErase reg hash) c1 = Some c"
  have "valid c (entry i)" if "i mod 8 = 0" using quickErase_upto [OF f n(1)] n(2) i that by (simp add: erasedTo_def)
  moreover have "r = Some (entry i)" if "i mod 8 = 0"
    using lk(2) [OF _ r] that entries_at [of int "remaining 0" i] i by (simp add: set_remaining kept_def)
  ultimately show "quickReaderAsserts i c r" by (simp add: quickReaderAsserts_def)
qed

subsection \<open>Properties\<close>

text \<open>
  C15.  The quick example keeps its assertions, for every hash function.  Every insertion and removal
  succeeds, and the writer ends with exactly the multiples of 8 in the table.  On every interleaving
  of the readers with the writer, each lookup of a multiple of 8 that returns has found the element
  itself, which is still valid, and no lookup touches freed memory.
\<close>

theorem quick_example:
  assumes "unat hc \<le> 2 ^ 20" and "unat (nrNonOverlappingBucketCount reg) \<le> 2 ^ 29" and "fresh_blocks m"
  shows "\<exists>c1 c2 es. quickFill reg hc hash m = Some c1 \<and> quickWriter reg hash c1 = Some c2
    \<and> (\<forall>i < quickSize. rTableFind (tbl c2) (hash (int i)) (\<lambda>p. val c2 p = int i) (cmem c2)
          = Some (if i mod 8 = 0 then Some (entry i) else None))
    \<and> trace (cmem c2) = trace (cmem c1) @ es
    \<and> (\<forall>s0 s t i. sysstart reg (pBucketsInfo (core (tbl c1))) (cmem c1) es s0 \<longrightarrow> (sysstep reg (val c1) hash)\<^sup>*\<^sup>* s0 s
        \<longrightarrow> i < quickSize \<longrightarrow> search (readers s t) \<noteq> Fault (int i)
          \<and> (\<forall>r n c. search (readers s t) = outcome (int i) r \<longrightarrow> n \<le> quickSize
                \<longrightarrow> for_range 0 n (quickErase reg hash) c1 = Some c \<longrightarrow> quickReaderAsserts i c r))"
proof -
  obtain c1 where f: "quickFill reg hc hash m = Some c1" "filledTo reg hash quickSize c1"
    using quickFill_ok [OF assms] by blast
  obtain c2 where w: "quickWriter reg hash c1 = Some c2" "erasedTo reg hash c1 quickSize c2"
    using quickErase_upto [OF f(2) order_refl] unfolding quickWriter_def by blast
  obtain es where es: "trace (cmem c2) = trace (cmem c1) @ es"
    using w(2) follows_trace unfolding erasedTo_def by metis
  show ?thesis
    using f(1) w(1) es erasedTo_find [OF w(2)] quick_readers [OF f(2) w(1) es]
    by (intro exI [of _ c1] exI [of _ c2] exI [of _ es]) simp
qed

theorem quick_example_witness:
  "\<exists>c1 c2 es s0. quickFill exReg 4 of_int exMem = Some c1 \<and> quickWriter exReg of_int c1 = Some c2
    \<and> rTableFind (tbl c2) 16 (\<lambda>p. val c2 p = 16) (cmem c2) = Some (Some (entry 16))
    \<and> rTableFind (tbl c2) 17 (\<lambda>p. val c2 p = 17) (cmem c2) = Some None
    \<and> sysstart exReg (pBucketsInfo (core (tbl c1))) (cmem c1) es s0 \<and> search (readers s0 0) \<noteq> Fault (int 16)"
proof -
  have "unat (4 :: u32) \<le> 2 ^ 20" "unat (nrNonOverlappingBucketCount exReg) \<le> 2 ^ 29" "fresh_blocks exMem"
    by (simp_all add: exReg_def fresh_blocks_def exMem_def)
  from quick_example [OF this, of of_int] obtain c1 c2 es where c: "quickFill exReg 4 of_int exMem = Some c1"
    "quickWriter exReg of_int c1 = Some c2"
    "\<And>i. i < quickSize \<Longrightarrow> rTableFind (tbl c2) (of_int (int i)) (\<lambda>p. val c2 p = int i) (cmem c2)
      = Some (if i mod 8 = 0 then Some (entry i) else None)"
    "\<And>s0 s t i. sysstart exReg (pBucketsInfo (core (tbl c1))) (cmem c1) es s0 \<Longrightarrow> (sysstep exReg (val c1) of_int)\<^sup>*\<^sup>* s0 s
      \<Longrightarrow> i < quickSize \<Longrightarrow> search (readers s t) \<noteq> Fault (int i)" by blast
  let ?s0 = "freshSystem exState (pBucketsInfo (core (tbl c1))) (cmem c1) es :: int system"
  have s0: "sysstart exReg (pBucketsInfo (core (tbl c1))) (cmem c1) es ?s0"
    by (rule freshSystem_start [OF exState_start])
  have "search (readers ?s0 0) \<noteq> Fault (int 16)" by (rule c(4) [OF s0]) (simp_all add: quickSize_def)
  moreover have "rTableFind (tbl c2) 16 (\<lambda>p. val c2 p = 16) (cmem c2) = Some (Some (entry 16))"
    "rTableFind (tbl c2) 17 (\<lambda>p. val c2 p = 17) (cmem c2) = Some None"
    using c(3) [of 16] c(3) [of 17] by (simp_all add: quickSize_def)
  ultimately show ?thesis using c(1,2) s0 by blast
qed

end
