(* ===== verification/TableTests.thy ===== *)
theory TableTests
  imports Client
begin

text \<open>
  The table tests of \<open>RCUTableTests.cpp\<close>: the single-threaded test, and the stress test that doubles and
  halves the table by hand under readers.  The tests throw when the table misbehaves; the properties
  say that they never do.
\<close>

subsection \<open>The single-threaded test\<close>

definition singleInsert :: "RCUReaderThreadRegistry \<Rightarrow> (u64 \<Rightarrow> u64) \<Rightarrow> nat \<Rightarrow> u64 client \<Rightarrow> u64 client option" where
  "singleInsert reg hash i c =
     do {
       (inserted, T, m) \<leftarrow> rTableTryInsert reg (tbl c) (entry i) (hash (of_nat i)) (\<lambda>p0 p1. val c p0 = val c p1) (cmem c);
       _ \<leftarrow> require inserted;
       (insertedSecondTime, T, m) \<leftarrow> rTableTryInsert reg T (entry i) (hash (of_nat i)) (\<lambda>p0 p1. val c p0 = val c p1) m;
       _ \<leftarrow> require (\<not> insertedSecondTime);
       Some (c\<lparr>tbl := T, cmem := m\<rparr>)
     }"

definition singleAbsent :: "(u64 \<Rightarrow> u64) \<Rightarrow> u64 client \<Rightarrow> u64 client option" where
  "singleAbsent hash c =
     do {
       foundNotInElement \<leftarrow> rTableFind (tbl c) (hash 1000) (\<lambda>p. val c p = 1000) (cmem c);
       _ \<leftarrow> require (foundNotInElement = None);
       Some c
     }"

definition singleDetach :: "RCUReaderThreadRegistry \<Rightarrow> (u64 \<Rightarrow> u64) \<Rightarrow> nat \<Rightarrow> u64 client \<Rightarrow> u64 client option" where
  "singleDetach reg hash i c =
     do {
       (detached, _, T, m) \<leftarrow> rTableTryDetachAutoShrink reg (tbl c) (hash (of_nat i)) (\<lambda>p. val c p = of_nat i) (cmem c);
       _ \<leftarrow> require (detached \<noteq> None);
       Some (c\<lparr>tbl := T, cmem := m\<rparr>)
     }"

definition RCUTableTestSingleThreadTest :: "RCUReaderThreadRegistry \<Rightarrow> u32 \<Rightarrow> (u64 \<Rightarrow> u64) \<Rightarrow> mem \<Rightarrow> u64 client option" where
  "RCUTableTestSingleThreadTest reg hardware_concurrency hash m =
     do {
       (T, m) \<leftarrow> rTableInit reg hardware_concurrency freshRTable 64 m;
       let c = \<lparr>tbl = T, cmem = m, val = (\<lambda>_. 0), valid = (\<lambda>_. False)\<rparr>;
       c \<leftarrow> for_range 0 1000 (\<lambda>i c. Some (c\<lparr>val := (val c)(entry i := of_nat i)\<rparr>)) c;
       c \<leftarrow> for_range 0 1000 (singleInsert reg hash) c;
       c \<leftarrow> singleAbsent hash c;
       c \<leftarrow> for_range 0 1000 (singleDetach reg hash) c;
       for_range 0 1000 (\<lambda>_. singleAbsent hash) c
     }"

definition single :: "RCUReaderThreadRegistry \<Rightarrow> (u64 \<Rightarrow> u64) \<Rightarrow> nat \<Rightarrow> nat list \<Rightarrow> u64 client \<Rightarrow> bool" where
  "single reg hash n xs c \<longleftrightarrow> stores_elements reg hash n c (entries of_nat xs) \<and> (\<forall>i < 1000. val c (entry i) = of_nat i)"

lemma below_1000: "set xs \<subseteq> {..< 1000} \<Longrightarrow> inj_on (of_nat :: nat \<Rightarrow> u64) (set xs)"
  by (rule inj_u64) auto

lemma singleInsert_ok:
  assumes s: "single reg hash (Suc (Suc n)) [0..<i] c" and i: "i < 1000"
  shows "\<exists>c'. singleInsert reg hash i c = Some c' \<and> single reg hash n [0..<Suc i] c'"
proof -
  let ?M = "entries (of_nat :: nat \<Rightarrow> u64)"
  have h: "holdsTable reg (val c) hash (Suc (Suc n)) (tbl c, cmem c) (?M [0..<i])" and v: "val c (entry i) = of_nat i"
    using s i by (simp_all add: single_def)
  have inj: "inj_on (of_nat :: nat \<Rightarrow> u64) (set (i # [0..<i]))" using i by (intro below_1000) auto
  have new: "?M [0..<i] (of_nat i) = None" using entries_insert(1) [OF inj] by simp
  have M: "(?M [0..<i])(of_nat i \<mapsto> entry i) = ?M [0..<Suc i]"
    using entries_insert(2) [OF inj] entries_cong [of "of_nat :: nat \<Rightarrow> u64" "i # [0..<i]" "[0..<Suc i]"] inj
    by (simp add: insert_commute atLeastLessThanSuc)
  obtain T m where x: "rTableTryInsert reg (tbl c) (entry i) (hash (of_nat i)) (\<lambda>x y. val c x = val c y) (cmem c) = Some (True, T, m)"
    "holdsTable reg (val c) hash (Suc n) (T, m) (?M [0..<Suc i])"
    using tableInsert_law [OF h, of "entry i"] new M v by (auto simp: insertNode_def)
  have again: "?M [0..<Suc i] (of_nat i) = Some (entry i)" using M [symmetric] by simp
  obtain m' where y: "rTableTryInsert reg T (entry i) (hash (of_nat i)) (\<lambda>x y. val c x = val c y) m = Some (False, T, m')"
    "holdsTable reg (val c) hash n (T, m') (?M [0..<Suc i])"
    using tableInsert_again [where key = "val c" and hf = hash and e = "entry i", OF x(2)] again v by (auto simp: insertNode_def)
  show ?thesis using x(1) y s by (simp add: singleInsert_def single_def)
qed

lemma singleAbsent_ok:
  assumes "single reg hash n xs c" and "set xs \<subseteq> {..< 1000}"
  shows "singleAbsent hash c = Some c"
proof -
  have "inj_on (of_nat :: nat \<Rightarrow> u64) (set (1000 # xs))" using assms(2) by (intro inj_u64) auto
  then have "(of_nat 1000 :: u64) \<notin> of_nat ` set xs" using assms(2) inj_on_image_mem_iff [of of_nat "set (1000 # xs)" 1000 "set xs"] by auto
  then have "(1000 :: u64) \<notin> of_nat ` set xs" by simp
  then have "entries of_nat xs (1000 :: u64) = None" by (simp add: entries_none)
  then show ?thesis using assms(1) tableFind_law [of reg "val c" hash n "(tbl c, cmem c)" "entries of_nat xs" 1000]
    by (simp add: singleAbsent_def single_def findKey_def)
qed

lemma singleDetach_ok:
  assumes s: "single reg hash (Suc n) [i..<1000] c" and i: "i < 1000"
  shows "\<exists>c'. singleDetach reg hash i c = Some c' \<and> single reg hash n [Suc i..<1000] c'"
proof -
  let ?M = "entries (of_nat :: nat \<Rightarrow> u64)"
  have h: "holdsTable reg (val c) hash (Suc n) (tbl c, cmem c) (?M [i..<1000])" using s by (simp add: single_def)
  have inj: "inj_on (of_nat :: nat \<Rightarrow> u64) (set [i..<1000])" by (rule below_1000) auto
  have mem: "i \<in> set [i..<1000]" using i by simp
  have "removeAll i [i..<1000] = [Suc i..<1000]" using i by (simp add: upt_conv_Cons)
  then have M: "(?M [i..<1000])(of_nat i := None) = ?M [Suc i..<1000]" using entries_remove [OF inj mem] by simp
  obtain b T m where "rTableTryDetachAutoShrink reg (tbl c) (hash (of_nat i)) (\<lambda>x. val c x = of_nat i) (cmem c) = Some (Some (entry i), b, T, m)"
    "holdsTable reg (val c) hash n (T, m) (?M [Suc i..<1000])"
    using tableDetachAuto_law [OF h, of "of_nat i"] entries_at [OF inj mem] M by auto
  then show ?thesis using s by (simp add: singleDetach_def single_def)
qed

lemma assign_values:
  "\<exists>c'. for_range 0 n (\<lambda>i c. Some (c\<lparr>val := (val c)(entry i := of_nat i)\<rparr>)) c = Some c'
    \<and> tbl c' = tbl c \<and> cmem c' = cmem c \<and> (\<forall>i < n. val c' (entry i) = of_nat i)" for c :: "u64 client"
  by (rule for_range_rule) (auto simp: less_Suc_eq)

lemma single_thread_run:
  assumes "unat hc \<le> 2 ^ 20" and "unat (nrNonOverlappingBucketCount reg) \<le> 2 ^ 29" and "fresh_blocks m"
  shows "\<exists>c. RCUTableTestSingleThreadTest reg hc hash m = Some c \<and> single reg hash 1000 [] c"
proof -
  let ?init = "\<lambda>T m. \<lparr>tbl = T, cmem = m, val = (\<lambda>_. 0), valid = (\<lambda>_. False)\<rparr> :: u64 client"
  have "unat (64 :: u32) \<le> 2 ^ 20" "(4000 :: nat) < 2 ^ 24" by simp_all
  then obtain T m' where T: "rTableInit reg hc freshRTable 64 m = Some (T, m')"
    "holdsTable reg (\<lambda>_. 0 :: u64) hash 4000 (T, m') Map.empty"
    using rTableInit_holds [OF _ assms(1,2,3), of 64 4000 "\<lambda>_. 0" hash] by auto
  obtain c0 where c0: "for_range 0 1000 (\<lambda>i c. Some (c\<lparr>val := (val c)(entry i := of_nat i)\<rparr>)) (?init T m') = Some c0"
    "tbl c0 = T" "cmem c0 = m'" "\<forall>i < 1000. val c0 (entry i) = of_nat i"
    using assign_values [of 1000 "?init T m'"] by auto
  have "holdsTable reg (val c0) hash 4000 (T, m') Map.empty" by (rule holdsTable_key [OF T(2)]) simp_all
  then have "single reg hash (4000 - 2 * 0) [0..<0] c0" using c0 by (simp add: single_def)
  then have "\<exists>c. for_range 0 1000 (singleInsert reg hash) c0 = Some c \<and> single reg hash (4000 - 2 * 1000) [0..<1000] c"
  proof (intro for_range_rule)
    fix i c
    assume i: "i < 1000" and s: "single reg hash (4000 - 2 * i) [0..<i] c"
    have n: "4000 - 2 * i = Suc (Suc (4000 - 2 * Suc i))" using i by simp
    show "\<exists>c'. singleInsert reg hash i c = Some c' \<and> single reg hash (4000 - 2 * Suc i) [0..<Suc i] c'"
      by (rule singleInsert_ok [OF s [unfolded n] i])
  qed simp_all
  then obtain c1 where c1: "for_range 0 1000 (singleInsert reg hash) c0 = Some c1" "single reg hash 2000 [0..<1000] c1"
    by auto
  have a1: "singleAbsent hash c1 = Some c1" by (rule singleAbsent_ok [OF c1(2)]) auto
  have "\<exists>c. for_range 0 1000 (singleDetach reg hash) c1 = Some c \<and> single reg hash (2000 - 1000) [1000..<1000] c"
  proof (rule for_range_rule [where I = "\<lambda>i. single reg hash (2000 - i) [i..<1000]"])
    fix i c
    assume i: "i < 1000" and s: "single reg hash (2000 - i) [i..<1000] c"
    have n: "2000 - i = Suc (2000 - Suc i)" using i by simp
    show "\<exists>c'. singleDetach reg hash i c = Some c' \<and> single reg hash (2000 - Suc i) [Suc i..<1000] c'"
      by (rule singleDetach_ok [OF s [unfolded n] i])
  qed (use c1(2) in simp_all)
  then obtain c2 where c2: "for_range 0 1000 (singleDetach reg hash) c1 = Some c2" "single reg hash 1000 [] c2" by auto
  have a2: "singleAbsent hash c2 = Some c2" by (rule singleAbsent_ok [OF c2(2)]) simp
  have "\<exists>c. for_range 0 1000 (\<lambda>_. singleAbsent hash) c2 = Some c \<and> c = c2"
    by (rule for_range_rule [where I = "\<lambda>_ c. c = c2"]) (use a2 in auto)
  then show ?thesis using T(1) c0(1) c1(1) a1 c2 by (simp add: RCUTableTestSingleThreadTest_def)
qed

subsection \<open>The stress test of manual resizing\<close>

definition stressSize :: nat where
  "stressSize = 8888"

definition stressConfig :: "u32 \<Rightarrow> RTableConfig" where
  "stressConfig hardware_concurrency =
     defaultConfig\<lparr>nrBuckets := 4, nrRcuBucketsForUnregisteredThreads := 64 * hardware_concurrency\<rparr>"

definition myHash :: "(u64 \<Rightarrow> u64) \<Rightarrow> u64 \<Rightarrow> u64 \<Rightarrow> u64" where
  "myHash hash v seed = hash (v + seed)"

definition stressInsert :: "(u64 \<Rightarrow> u64) \<Rightarrow> nat \<Rightarrow> nat \<Rightarrow> u64 client \<Rightarrow> u64 client option" where
  "stressInsert hash j i c =
     do {
       let c = c\<lparr>val := (val c)(entry i := of_nat i)\<rparr>;
       let h = myHash hash (of_nat i) (of_nat j);
       (inserted, T, m) \<leftarrow> rTableTryInsertNoExpand (tbl c) (entry i) h (\<lambda>p1 p2. val c p1 = val c p2) (cmem c);
       _ \<leftarrow> require inserted;
       Some (c\<lparr>tbl := T, cmem := m\<rparr>)
     }"

definition stressFill :: "RCUReaderThreadRegistry \<Rightarrow> u32 \<Rightarrow> (u64 \<Rightarrow> u64) \<Rightarrow> nat \<Rightarrow> mem \<Rightarrow> u64 client option" where
  "stressFill reg hardware_concurrency hash j m =
     do {
       (T, m) \<leftarrow> rTableInitDetailed reg freshRTable (stressConfig hardware_concurrency) m;
       for_range 0 stressSize (stressInsert hash j) \<lparr>tbl = T, cmem = m, val = (\<lambda>_. 0), valid = (\<lambda>_. False)\<rparr>
     }"

definition stressResize :: "RCUReaderThreadRegistry \<Rightarrow> u64 client \<Rightarrow> u64 client option" where
  "stressResize reg c =
     do {
       (T, m) \<leftarrow> rTableExpandBuckets2x reg (tbl c) (cmem c);
       (T, m) \<leftarrow> rTableExpandBuckets2x reg T m;
       (T, m) \<leftarrow> rTableExpandBuckets2x reg T m;
       (_, T, m) \<leftarrow> rTableShrinkBuckets2x reg T m;
       (_, T, m) \<leftarrow> rTableShrinkBuckets2x reg T m;
       (_, T, m) \<leftarrow> rTableShrinkBuckets2x reg T m;
       Some (c\<lparr>tbl := T, cmem := m\<rparr>)
     }"

definition stressWriter :: "RCUReaderThreadRegistry \<Rightarrow> u64 client \<Rightarrow> u64 client option" where
  "stressWriter reg = for_range 0 30 (\<lambda>_. stressResize reg)"

text \<open>The readers of the seed \<open>j\<close> throw unless they find the element.\<close>

definition stressReaderAsserts :: "ptr \<Rightarrow> bool" where
  "stressReaderAsserts found \<longleftrightarrow> found \<noteq> None"

text \<open>Each seed has its own table, which is destroyed at the end of the iteration.\<close>

definition manualStress :: "RCUReaderThreadRegistry \<Rightarrow> u32 \<Rightarrow> (u64 \<Rightarrow> u64) \<Rightarrow> mem \<Rightarrow> mem option" where
  "manualStress reg hardware_concurrency hash =
     for_range 1 100 (\<lambda>j m. do {
       c \<leftarrow> stressFill reg hardware_concurrency hash j m;
       c \<leftarrow> stressWriter reg c;
       destroyTableCore (core (tbl c)) (cmem c)
     })"

text \<open>The table of a seed: its elements, the logarithm of its size, and what the readers see.\<close>

abbreviation seeded :: "(u64 \<Rightarrow> u64) \<Rightarrow> nat \<Rightarrow> u64 \<Rightarrow> u64" where
  "seeded hash j v \<equiv> myHash hash v (of_nat j)"

definition stressed :: "RCUReaderThreadRegistry \<Rightarrow> (u64 \<Rightarrow> u64) \<Rightarrow> nat \<Rightarrow> nat \<Rightarrow> nat list \<Rightarrow> u64 client \<Rightarrow> bool" where
  "stressed reg hf n lg xs c \<longleftrightarrow> holdsTable reg (val c) hf n (tbl c, cmem c) (entries of_nat xs)
     \<and> tableSize (tbl c, cmem c) lg \<and> (\<forall>i \<in> set xs. val c (entry i) = of_nat i)"

lemma stressInsert_ok:
  assumes s: "stressed reg (seeded hash j) (Suc n) lg [0..<i] c" and i: "i < stressSize"
  shows "\<exists>c'. stressInsert hash j i c = Some c' \<and> stressed reg (seeded hash j) n lg [0..<Suc i] c'"
proof -
  let ?M = "entries (of_nat :: nat \<Rightarrow> u64)" and ?f = "(val c)(entry i := of_nat i)"
  have h: "holdsTable reg ?f (seeded hash j) (Suc n) (tbl c, cmem c) (?M [0..<i])"
    using s by (intro assign_keeps) (simp_all add: stressed_def)
  have inj: "inj_on (of_nat :: nat \<Rightarrow> u64) (set (i # [0..<i]))"
    using i by (intro inj_u64) (auto simp: stressSize_def)
  have new: "?M [0..<i] (of_nat i) = None" using entries_insert(1) [OF inj] by simp
  have M: "(?M [0..<i])(of_nat i \<mapsto> entry i) = ?M [0..<Suc i]"
    using entries_insert(2) [OF inj] entries_cong [of "of_nat :: nat \<Rightarrow> u64" "i # [0..<i]" "[0..<Suc i]"] inj
    by (simp add: insert_commute atLeastLessThanSuc)
  obtain T m where "rTableTryInsertNoExpand (tbl c) (entry i) (seeded hash j (of_nat i)) (\<lambda>x y. ?f x = ?f y) (cmem c) = Some (True, T, m)"
    "holdsTable reg ?f (seeded hash j) n (T, m) (?M [0..<Suc i])" "tableSize (T, m) lg"
    using tableInsertNoExpand_law [OF h, of lg "entry i"] s new M by (auto simp: stressed_def)
  then show ?thesis using s by (auto simp: stressInsert_def stressed_def Let_def)
qed

lemma init_holds:
  assumes "unat hc \<le> 2 ^ 20" and "unat (nrNonOverlappingBucketCount reg) \<le> 2 ^ 29" and "fresh_blocks m" and "n < 2 ^ 24"
  shows "\<exists>T m' lg. rTableInitDetailed reg freshRTable (stressConfig hc) m = Some (T, m')
    \<and> holdsTable reg key hf n (T, m') Map.empty \<and> tableSize (T, m') lg \<and> lg \<le> 2"
proof -
  have "rTableInitDetailed reg freshRTable (stressConfig hc) m = rTableInit reg hc freshRTable 4 m"
    by (simp add: rTableInit_def stressConfig_def mult.commute)
  moreover have "unat (4 :: u32) \<le> 2 ^ 20" "unat (4 :: u32) \<le> 2 ^ 2" by simp_all
  ultimately show ?thesis
    using rTableInit_holds [OF _ assms, of 4 key hf] unfolding tableSize_def by fastforce
qed

lemma stressFill_ok:
  assumes "unat hc \<le> 2 ^ 20" and "unat (nrNonOverlappingBucketCount reg) \<le> 2 ^ 29" and "fresh_blocks m"
  shows "\<exists>c lg. stressFill reg hc hash j m = Some c \<and> lg \<le> 2
    \<and> stressed reg (seeded hash j) 1000 lg [0..<stressSize] c"
proof -
  let ?init = "\<lambda>T m. \<lparr>tbl = T, cmem = m, val = (\<lambda>_. 0), valid = (\<lambda>_. False)\<rparr> :: u64 client"
  obtain T m' lg where T: "rTableInitDetailed reg freshRTable (stressConfig hc) m = Some (T, m')"
    "holdsTable reg (\<lambda>_. 0) (seeded hash j) (1000 + stressSize) (T, m') Map.empty" "tableSize (T, m') lg" "lg \<le> 2"
    using init_holds [OF assms, of "1000 + stressSize" "\<lambda>_. 0" "seeded hash j"] by (auto simp: stressSize_def)
  have "stressed reg (seeded hash j) (1000 + stressSize - 0) lg [0..<0] (?init T m')" using T(2,3) by (simp add: stressed_def)
  then have "\<exists>c. for_range 0 stressSize (stressInsert hash j) (?init T m') = Some c
      \<and> stressed reg (seeded hash j) (1000 + stressSize - stressSize) lg [0..<stressSize] c"
  proof (intro for_range_rule [where I = "\<lambda>i. stressed reg (seeded hash j) (1000 + stressSize - i) lg [0..<i]"])
    fix i c
    assume i: "i < stressSize" and s: "stressed reg (seeded hash j) (1000 + stressSize - i) lg [0..<i] c"
    have n: "1000 + stressSize - i = Suc (1000 + stressSize - Suc i)" using i by simp
    show "\<exists>c'. stressInsert hash j i c = Some c' \<and> stressed reg (seeded hash j) (1000 + stressSize - Suc i) lg [0..<Suc i] c'"
      by (rule stressInsert_ok [OF s [unfolded n] i])
  qed simp_all
  then show ?thesis using T(1,4) by (auto simp: stressFill_def)
qed

definition watched :: "RCUReaderThreadRegistry \<Rightarrow> (u64 \<Rightarrow> u64) \<Rightarrow> (u64 \<rightharpoonup> loc) \<Rightarrow> u64 client \<Rightarrow> nat \<Rightarrow> nat \<Rightarrow> RTable \<times> mem \<Rightarrow> bool" where
  "watched reg hf M c1 n lg s \<longleftrightarrow> holdsTable reg (val c1) hf n s M \<and> tableSize s lg
     \<and> (\<forall>k. followed True (val c1) hf k (M k) (tbl c1, cmem c1) s M)"

lemma watched_expand:
  assumes w: "watched reg hf M c1 (Suc n) lg (T, m)" and j: "Suc lg < 30"
  shows "\<exists>T' m'. rTableExpandBuckets2x reg T m = Some (T', m') \<and> watched reg hf M c1 n (Suc lg) (T', m')"
proof -
  have h: "holdsTable reg (val c1) hf (Suc n) (T, m) M" "tableSize (T, m) lg" using w by (simp_all add: watched_def)
  obtain T' m' where x: "rTableExpandBuckets2x reg T m = Some (T', m')" "holdsTable reg (val c1) hf n (T', m') M"
    "tableSize (T', m') (Suc lg)" using tableExpand_law [OF h j] by blast
  have "followed True (val c1) hf k (M k) (tbl c1, cmem c1) (T', m') M" for k
    using followed_expand [where k = k and q = "M k" and b = True, OF h(1) _ h(2) x(1)] w by (simp add: watched_def)
  then show ?thesis using x by (simp add: watched_def)
qed

lemma watched_shrink:
  assumes w: "watched reg hf M c1 (Suc n) (Suc lg) (T, m)"
  shows "\<exists>T' m'. rTableShrinkBuckets2x reg T m = Some (True, T', m') \<and> watched reg hf M c1 n lg (T', m')"
proof -
  have h: "holdsTable reg (val c1) hf (Suc n) (T, m) M" "tableSize (T, m) (Suc lg)" using w by (simp_all add: watched_def)
  obtain T' m' where x: "rTableShrinkBuckets2x reg T m = Some (True, T', m')" "holdsTable reg (val c1) hf n (T', m') M"
    "tableSize (T', m') lg" using tableShrink_law [OF h] by blast
  have "followed True (val c1) hf k (M k) (tbl c1, cmem c1) (T', m') M" for k
    using followed_shrink [where k = k and q = "M k" and b = True, OF h(1) _ h(2) x(1)] w by (simp add: watched_def)
  then show ?thesis using x by (simp add: watched_def)
qed

lemma stressResize_ok:
  assumes w: "watched reg hf M c1 (6 + n) lg (tbl c, cmem c)" and j: "lg < 25"
  shows "\<exists>c'. stressResize reg c = Some c' \<and> val c' = val c \<and> watched reg hf M c1 n lg (tbl c', cmem c')"
proof -
  have n: "6 + n = Suc (Suc (Suc (Suc (Suc (Suc n)))))" by simp
  obtain T1 m1 where x1: "rTableExpandBuckets2x reg (tbl c) (cmem c) = Some (T1, m1)"
    "watched reg hf M c1 (Suc (Suc (Suc (Suc (Suc n))))) (Suc lg) (T1, m1)" using watched_expand [OF w [unfolded n]] j by auto
  obtain T2 m2 where x2: "rTableExpandBuckets2x reg T1 m1 = Some (T2, m2)"
    "watched reg hf M c1 (Suc (Suc (Suc (Suc n)))) (Suc (Suc lg)) (T2, m2)" using watched_expand [OF x1(2)] j by auto
  obtain T3 m3 where x3: "rTableExpandBuckets2x reg T2 m2 = Some (T3, m3)"
    "watched reg hf M c1 (Suc (Suc (Suc n))) (Suc (Suc (Suc lg))) (T3, m3)" using watched_expand [OF x2(2)] j by auto
  obtain T4 m4 where x4: "rTableShrinkBuckets2x reg T3 m3 = Some (True, T4, m4)"
    "watched reg hf M c1 (Suc (Suc n)) (Suc (Suc lg)) (T4, m4)" using watched_shrink [OF x3(2)] by auto
  obtain T5 m5 where x5: "rTableShrinkBuckets2x reg T4 m4 = Some (True, T5, m5)"
    "watched reg hf M c1 (Suc n) (Suc lg) (T5, m5)" using watched_shrink [OF x4(2)] by auto
  obtain T6 m6 where x6: "rTableShrinkBuckets2x reg T5 m5 = Some (True, T6, m6)"
    "watched reg hf M c1 n lg (T6, m6)" using watched_shrink [OF x5(2)] by auto
  show ?thesis using x1(1) x2(1) x3(1) x4(1) x5(1) x6 by (simp add: stressResize_def)
qed

lemma stressWriter_ok:
  assumes s: "stressed reg hf 1000 lg [0..<stressSize] c1" and lg: "lg \<le> 2"
  shows "\<exists>c. stressWriter reg c1 = Some c \<and> watched reg hf (entries of_nat [0..<stressSize]) c1 100 lg (tbl c, cmem c)"
proof -
  let ?M = "entries (of_nat :: nat \<Rightarrow> u64) [0..<stressSize]"
  have h: "holdsTable reg (val c1) hf 1000 (tbl c1, cmem c1) ?M" "tableSize (tbl c1, cmem c1) lg"
    using s by (simp_all add: stressed_def)
  have "followed True (val c1) hf k (?M k) (tbl c1, cmem c1) (tbl c1, cmem c1) ?M" for k
    using followed_start [OF h(1), of True k] by (simp add: target_def)
  then have w0: "watched reg hf ?M c1 1000 lg (tbl c1, cmem c1)" using h by (simp add: watched_def)
  have "\<exists>c. for_range 0 30 (\<lambda>_. stressResize reg) c1 = Some c \<and> watched reg hf ?M c1 (1000 - 6 * 30) lg (tbl c, cmem c)"
  proof (rule for_range_rule [where I = "\<lambda>i c. watched reg hf ?M c1 (1000 - 6 * i) lg (tbl c, cmem c)"])
    fix i and c :: "u64 client"
    assume i: "i < 30" and w: "watched reg hf ?M c1 (1000 - 6 * i) lg (tbl c, cmem c)"
    have n: "1000 - 6 * i = 6 + (1000 - 6 * Suc i)" using i by simp
    show "\<exists>c'. stressResize reg c = Some c' \<and> watched reg hf ?M c1 (1000 - 6 * Suc i) lg (tbl c', cmem c')"
      using stressResize_ok [OF w [unfolded n]] lg by auto
  qed (use w0 in simp_all)
  then obtain c where c: "stressWriter reg c1 = Some c" "watched reg hf ?M c1 820 lg (tbl c, cmem c)"
    by (auto simp: stressWriter_def)
  have "holdsTable reg (val c1) hf 100 (tbl c, cmem c) ?M"
    using c(2) holds_more [of reg "val c1" hf 100 720] by (simp add: watched_def)
  then show ?thesis using c by (auto simp: watched_def)
qed

lemma stress_coherent:
  assumes "stressed reg hf n lg [0..<stressSize] c"
  shows "coherent (val c) (entries of_nat [0..<stressSize])"
proof -
  have "val c x = k" if e: "entries of_nat [0..<stressSize] k = Some x" for k x
    using entries_some [OF e] assms by (auto simp: stressed_def)
  then show ?thesis by (simp add: coherent_def)
qed

lemma stress_seed:
  assumes "unat hc \<le> 2 ^ 20" and "unat (nrNonOverlappingBucketCount reg) \<le> 2 ^ 29" and "fresh_blocks m"
  obtains c1 c2 lg m' where "stressFill reg hc hash j m = Some c1" "stressWriter reg c1 = Some c2"
    "stressed reg (seeded hash j) 1000 lg [0..<stressSize] c1"
    "watched reg (seeded hash j) (entries of_nat [0..<stressSize]) c1 100 lg (tbl c2, cmem c2)"
    "destroyTableCore (core (tbl c2)) (cmem c2) = Some m'" "fresh_blocks m'"
proof -
  obtain c1 lg where 1: "stressFill reg hc hash j m = Some c1" "lg \<le> 2" "stressed reg (seeded hash j) 1000 lg [0..<stressSize] c1"
    using stressFill_ok [OF assms, of hash j] by blast
  obtain c2 where 2: "stressWriter reg c1 = Some c2"
    "watched reg (seeded hash j) (entries of_nat [0..<stressSize]) c1 100 lg (tbl c2, cmem c2)"
    using stressWriter_ok [OF 1(3,2)] by blast
  obtain m' where "destroyTableCore (core (tbl c2)) (cmem c2) = Some m'" "fresh_blocks m'"
    using destroy_fresh 2(2) unfolding watched_def by blast
  then show ?thesis using that 1 2 by blast
qed

lemma manualStress_ok:
  assumes "unat hc \<le> 2 ^ 20" and "unat (nrNonOverlappingBucketCount reg) \<le> 2 ^ 29" and "fresh_blocks m"
  shows "\<exists>m'. manualStress reg hc hash m = Some m' \<and> fresh_blocks m'"
  unfolding manualStress_def
proof (rule for_range_rule [where I = "\<lambda>_. fresh_blocks"])
  fix j m
  assume "fresh_blocks m"
  from stress_seed [OF assms(1,2) this, of hash j]
  show "\<exists>m'. do { c \<leftarrow> stressFill reg hc hash j m; c \<leftarrow> stressWriter reg c; destroyTableCore (core (tbl c)) (cmem c) } = Some m'
      \<and> fresh_blocks m'" by (metis (no_types, lifting) bind.bind_lunit)
qed (use assms(3) in simp_all)

subsection \<open>Properties\<close>

text \<open>
  The single-threaded test never throws, for every hash function: each element is inserted the
  first time and refused the second time, an absent value is never found, and every element is
  removed again.
\<close>

theorem single_thread_test:
  assumes "unat hc \<le> 2 ^ 20" and "unat (nrNonOverlappingBucketCount reg) \<le> 2 ^ 29" and "fresh_blocks m"
  shows "\<exists>c. RCUTableTestSingleThreadTest reg hc hash m = Some c
    \<and> (\<forall>v. rTableFind (tbl c) (hash v) (\<lambda>p. val c p = v) (cmem c) = Some None)"
proof -
  obtain c where c: "RCUTableTestSingleThreadTest reg hc hash m = Some c" "single reg hash 1000 [] c"
    using single_thread_run [OF assms] by blast
  have "rTableFind (tbl c) (hash v) (\<lambda>p. val c p = v) (cmem c) = Some None" for v
    using tableFind_law [of reg "val c" hash 1000 "(tbl c, cmem c)" "Map.empty" v] c(2) by (simp add: single_def findKey_def)
  then show ?thesis using c(1) by blast
qed

theorem single_thread_test_witness:
  "\<exists>c. RCUTableTestSingleThreadTest exReg 4 (\<lambda>v. v * 31) exMem = Some c
    \<and> rTableFind (tbl c) 31 (\<lambda>p. val c p = 1) (cmem c) = Some None"
proof -
  have "unat (4 :: u32) \<le> 2 ^ 20" "unat (nrNonOverlappingBucketCount exReg) \<le> 2 ^ 29" "fresh_blocks exMem"
    by (simp_all add: exReg_def fresh_blocks_def exMem_def)
  from single_thread_test [OF this, of "\<lambda>v. v * 31"] obtain c where
    "RCUTableTestSingleThreadTest exReg 4 (\<lambda>v. v * 31) exMem = Some c"
    "rTableFind (tbl c) (1 * 31) (\<lambda>p. val c p = 1) (cmem c) = Some None" by blast
  then show ?thesis by (intro exI [of _ c]) simp
qed

text \<open>
  C16.  The stress test of manual resizing never throws, for every hash function and seed: the writer
  fills each table, doubles and halves it thirty times three, and destroys it; on every interleaving
  of the readers with these doublings and halvings each lookup that returns has found its element.
\<close>

theorem manual_stress:
  assumes "unat hc \<le> 2 ^ 20" and "unat (nrNonOverlappingBucketCount reg) \<le> 2 ^ 29" and "fresh_blocks m"
  shows "(\<exists>m'. manualStress reg hc hash m = Some m')
    \<and> (\<exists>c1 c2 es. stressFill reg hc hash j m = Some c1 \<and> stressWriter reg c1 = Some c2
        \<and> trace (cmem c2) = trace (cmem c1) @ es
        \<and> (\<forall>s0 s t i. sysstart reg (pBucketsInfo (core (tbl c1))) (cmem c1) es s0
            \<longrightarrow> (sysstep reg (val c1) (\<lambda>v. myHash hash v (of_nat j)))\<^sup>*\<^sup>* s0 s \<longrightarrow> i < stressSize
            \<longrightarrow> search (readers s t) \<noteq> Fault (of_nat i)
              \<and> (\<forall>r. search (readers s t) = outcome (of_nat i) r \<longrightarrow> stressReaderAsserts r \<and> r = Some (entry i))))"
proof -
  let ?M = "entries (of_nat :: nat \<Rightarrow> u64) [0..<stressSize]"
  obtain c1 c2 lg where c: "stressFill reg hc hash j m = Some c1" "stressWriter reg c1 = Some c2"
    "stressed reg (seeded hash j) 1000 lg [0..<stressSize] c1" "watched reg (seeded hash j) ?M c1 100 lg (tbl c2, cmem c2)"
    by (rule stress_seed [OF assms, of hash j])
  have f: "followed True (val c1) (seeded hash j) k (?M k) (tbl c1, cmem c1) (tbl c2, cmem c2) ?M" for k
    using c(4) by (simp add: watched_def)
  obtain es where es: "trace (cmem c2) = trace (cmem c1) @ es" using followed_trace [OF f] by blast
  have inj: "inj_on (of_nat :: nat \<Rightarrow> u64) (set [0..<stressSize])" by (rule inj_u64) (auto simp: stressSize_def)
  have "search (readers s t) \<noteq> Fault (of_nat i)
      \<and> (\<forall>r. search (readers s t) = outcome (of_nat i) r \<longrightarrow> stressReaderAsserts r \<and> r = Some (entry i))"
    if s: "sysstart reg (pBucketsInfo (core (tbl c1))) (cmem c1) es s0" "(sysstep reg (val c1) (seeded hash j))\<^sup>*\<^sup>* s0 s"
      and i: "i < stressSize" for s0 s t i
    using followed_lookups [OF f stress_coherent [OF c(3)] es s, of t "of_nat i"] entries_at [OF inj, of i] i
    by (auto simp: stressReaderAsserts_def)
  moreover have "\<exists>m'. manualStress reg hc hash m = Some m'" using manualStress_ok [OF assms, of hash] by blast
  ultimately show ?thesis using c(1,2) es by simp
qed

theorem manual_stress_witness:
  "(\<exists>m'. manualStress exReg 4 (\<lambda>v. v * 31) exMem = Some m')
    \<and> (\<exists>c1 c2 es s0. stressFill exReg 4 (\<lambda>v. v * 31) 1 exMem = Some c1 \<and> stressWriter exReg c1 = Some c2
        \<and> sysstart exReg (pBucketsInfo (core (tbl c1))) (cmem c1) es s0 \<and> search (readers s0 0) \<noteq> Fault (of_nat 5 :: u64))"
proof -
  have "unat (4 :: u32) \<le> 2 ^ 20" "unat (nrNonOverlappingBucketCount exReg) \<le> 2 ^ 29" "fresh_blocks exMem"
    by (simp_all add: exReg_def fresh_blocks_def exMem_def)
  note r = manual_stress [OF this, of "\<lambda>v. v * 31" 1]
  then obtain c1 c2 es where c: "stressFill exReg 4 (\<lambda>v. v * 31) 1 exMem = Some c1" "stressWriter exReg c1 = Some c2"
    "\<And>s0 s t i. sysstart exReg (pBucketsInfo (core (tbl c1))) (cmem c1) es s0
      \<Longrightarrow> (sysstep exReg (val c1) (\<lambda>v. myHash (\<lambda>v. v * 31) v (of_nat 1)))\<^sup>*\<^sup>* s0 s \<Longrightarrow> i < stressSize
      \<Longrightarrow> search (readers s t) \<noteq> Fault (of_nat i)" by blast
  let ?s0 = "freshSystem exState (pBucketsInfo (core (tbl c1))) (cmem c1) es :: u64 system"
  have s0: "sysstart exReg (pBucketsInfo (core (tbl c1))) (cmem c1) es ?s0" by (rule freshSystem_start [OF exState_start])
  have "search (readers ?s0 0) \<noteq> Fault (of_nat 5)" by (rule c(3) [OF s0]) (simp_all add: stressSize_def)
  then show ?thesis using r c(1,2) s0 by blast
qed

end
