(* ===== verification/UsageStress.thy ===== *)
theory UsageStress
  imports Client
begin

text \<open>
  \<open>RCUTableNormalUsageStress\<close> of \<open>RCUTableTests.cpp\<close>: 888 elements stay in the table for good, which
  reader threads look up all the time, while the writer inserts 888000 further elements and then
  removes and inserts them again, round by round.  The code runs 3000 rounds; the number of rounds is
  a parameter here, and the property covers 8 of them, for which fewer than \<open>2 ^ 24\<close> operations are
  enough.

  \<open>arr[i].v\<close> is assigned before the entry \<open>i\<close> is published and always to \<open>i\<close>; a reader's predicate reads
  it from nodes it found in the table.  The readers therefore use the final values, \<open>usageKey\<close>; the
  writer reads the values of its state.
\<close>

subsection \<open>The program\<close>

definition usageTotal :: nat where
  "usageTotal = 888888"

definition usagePersist :: nat where
  "usagePersist = 888"

definition usageConfig :: "u32 \<Rightarrow> RTableConfig" where
  "usageConfig hardware_concurrency = defaultConfig\<lparr>nrRcuBucketsForUnregisteredThreads := 64 * hardware_concurrency\<rparr>"

definition usageInsert :: "RCUReaderThreadRegistry \<Rightarrow> (u64 \<Rightarrow> u64) \<Rightarrow> nat \<Rightarrow> u64 client \<Rightarrow> u64 client option" where
  "usageInsert reg hash i c =
     do {
       let c = c\<lparr>val := (val c)(entry i := of_nat i)\<rparr>;
       let c = c\<lparr>valid := (valid c)(entry i := True)\<rparr>;
       let h = hash (of_nat i);
       (inserted, T, m) \<leftarrow> rTableTryInsert reg (tbl c) (entry i) h (\<lambda>p1 p2. val c p1 = val c p2) (cmem c);
       _ \<leftarrow> require inserted;
       Some (c\<lparr>tbl := T, cmem := m\<rparr>)
     }"

definition usageFill :: "RCUReaderThreadRegistry \<Rightarrow> u32 \<Rightarrow> (u64 \<Rightarrow> u64) \<Rightarrow> mem \<Rightarrow> u64 client option" where
  "usageFill reg hardware_concurrency hash m =
     do {
       (T, m) \<leftarrow> rTableInitDetailed reg freshRTable (usageConfig hardware_concurrency) m;
       for_range 0 usagePersist (usageInsert reg hash) \<lparr>tbl = T, cmem = m, val = (\<lambda>_. 0), valid = (\<lambda>_. False)\<rparr>
     }"

text \<open>The code clears \<open>valid\<close> through \<open>pEntry\<close> before it compares \<open>pEntry\<close> with null.\<close>

definition usageDetach :: "RCUReaderThreadRegistry \<Rightarrow> (u64 \<Rightarrow> u64) \<Rightarrow> nat \<Rightarrow> u64 client \<Rightarrow> u64 client option" where
  "usageDetach reg hash i c =
     do {
       let h = hash (of_nat i);
       (pEntry, T, m) \<leftarrow> rTableTryDetachAndSynchronize reg (tbl c) h (\<lambda>p. val c p = of_nat i) (cmem c);
       p \<leftarrow> pEntry;
       let c = c\<lparr>tbl := T, cmem := m, valid := (valid c)(p := False)\<rparr>;
       _ \<leftarrow> require (pEntry \<noteq> None);
       Some c
     }"

definition usageGrow :: "RCUReaderThreadRegistry \<Rightarrow> (u64 \<Rightarrow> u64) \<Rightarrow> u64 client \<Rightarrow> u64 client option" where
  "usageGrow reg hash c =
     do {
       (T, m) \<leftarrow> rTableSynchronize reg (tbl c) (cmem c);
       for_range usagePersist usageTotal (usageInsert reg hash) (c\<lparr>tbl := T, cmem := m\<rparr>)
     }"

definition usageRound :: "RCUReaderThreadRegistry \<Rightarrow> (u64 \<Rightarrow> u64) \<Rightarrow> u64 client \<Rightarrow> u64 client option" where
  "usageRound reg hash c =
     do {
       c \<leftarrow> for_range usagePersist usageTotal (usageDetach reg hash) c;
       for_range usagePersist usageTotal (usageInsert reg hash) c
     }"

text \<open>What the writer does while the readers run.\<close>

definition usageWriter :: "RCUReaderThreadRegistry \<Rightarrow> (u64 \<Rightarrow> u64) \<Rightarrow> nat \<Rightarrow> u64 client \<Rightarrow> u64 client option" where
  "usageWriter reg hash rounds c =
     do { c \<leftarrow> usageGrow reg hash c; for_range 0 rounds (\<lambda>_. usageRound reg hash) c }"

definition usageVerify :: "(u64 \<Rightarrow> u64) \<Rightarrow> u64 client \<Rightarrow> u64 client option" where
  "usageVerify hash =
     for_range 0 usagePersist (\<lambda>i c. do {
       let hashVal = hash (of_nat i);
       found \<leftarrow> rTableFind (tbl c) hashVal (\<lambda>p. val c p = of_nat i) (cmem c);
       _ \<leftarrow> require (found \<noteq> None);
       Some c
     })"

definition RCUTableNormalUsageStress :: "RCUReaderThreadRegistry \<Rightarrow> u32 \<Rightarrow> (u64 \<Rightarrow> u64) \<Rightarrow> nat \<Rightarrow> mem \<Rightarrow> mem option" where
  "RCUTableNormalUsageStress reg hardware_concurrency hash rounds m =
     do {
       c \<leftarrow> usageFill reg hardware_concurrency hash m;
       c \<leftarrow> usageWriter reg hash rounds c;
       c \<leftarrow> usageVerify hash c;
       destroyTableCore (core (tbl c)) (cmem c)
     }"

text \<open>What a reader checks after its lookup of the element \<open>i\<close>: two conditions under which it throws.\<close>

definition usageReaderAsserts :: "nat \<Rightarrow> u64 client \<Rightarrow> ptr \<Rightarrow> bool" where
  "usageReaderAsserts i c found \<longleftrightarrow>
     \<not> (found \<noteq> None \<and> \<not> valid c (entry i)) \<and> \<not> (i < usagePersist \<and> found = None)"

subsection \<open>The values of the elements\<close>

abbreviation usageKey :: "loc \<Rightarrow> u64" where
  "usageKey \<equiv> valuesTo usageTotal"

abbreviation persistent :: "u64 set" where
  "persistent \<equiv> of_nat ` {..< usagePersist}"

lemma usage_small: "usageTotal \<le> 2 ^ 64"
  by (simp add: usageTotal_def)

lemma inj_usage: "set xs \<subseteq> {..< usageTotal} \<Longrightarrow> inj_on (of_nat :: nat \<Rightarrow> u64) (set xs)"
  by (rule inj_u64) (auto simp: usageTotal_def)

lemma usage_at: "i < n \<Longrightarrow> n \<le> usageTotal \<Longrightarrow> stored [0..<n] (of_nat i) = Some (entry i)"
  using stored_at [of i n] usage_small by simp

lemma persistent_iff: "i < usageTotal \<Longrightarrow> (of_nat i :: u64) \<in> persistent \<longleftrightarrow> i < usagePersist"
  using below_iff [of i usagePersist] by (simp add: usageTotal_def usagePersist_def)

subsection \<open>The loops\<close>

text \<open>
  The table holds the elements \<open>xs\<close>, and the values of the elements below \<open>l\<close> are assigned.
\<close>

definition inUse :: "RCUReaderThreadRegistry \<Rightarrow> (u64 \<Rightarrow> u64) \<Rightarrow> u64 set \<Rightarrow> nat \<Rightarrow> RTable \<times> mem \<Rightarrow> (u64 \<rightharpoonup> loc)
    \<Rightarrow> nat \<Rightarrow> nat list \<Rightarrow> u64 client \<Rightarrow> bool" where
  "inUse reg hash K n s1 M1 l xs c \<longleftrightarrow> follows reg usageKey hash K n s1 M1 (tbl c, cmem c) (stored xs) \<and> val c = valuesTo l
     \<and> set xs \<subseteq> {..< l} \<and> l \<le> usageTotal"

lemma usageInsert_ok:
  assumes u: "inUse reg hash K (Suc n) s1 M1 l xs c" and i: "i < usageTotal" "i \<le> l" "i \<notin> set xs" "of_nat i \<notin> K"
  shows "\<exists>c'. usageInsert reg hash i c = Some c' \<and> valid c' = (valid c)(entry i := True)
    \<and> inUse reg hash K n s1 M1 (max l (Suc i)) (i # xs) c'"
proof -
  have f: "follows reg usageKey hash K (Suc n) s1 M1 (tbl c, cmem c) (stored xs)" and v: "val c = valuesTo l"
    and xs: "set xs \<subseteq> {..< l}" "l \<le> usageTotal" using u by (simp_all add: inUse_def)
  have upd: "(valuesTo l)(entry i := of_nat i) = valuesTo (max l (Suc i))" by (rule valuesTo_assign [OF i(2)])
  obtain T m where "rTableTryInsert reg (tbl c) (entry i) (hash (of_nat i))
      (\<lambda>p1 p2. valuesTo (max l (Suc i)) p1 = valuesTo (max l (Suc i)) p2) (cmem c) = Some (True, T, m)"
    "follows reg usageKey hash K n s1 M1 (T, m) (stored (i # xs))"
    using insert_element [OF f xs usage_small i] unfolding upd by (elim exE conjE)
  then show ?thesis using v xs i upd by (auto simp: usageInsert_def inUse_def Let_def)
qed

lemma inUse_cong: "inUse reg hash K n s1 M1 l xs c \<Longrightarrow> set xs = set ys \<Longrightarrow> inUse reg hash K n s1 M1 l ys c"
proof -
  assume u: "inUse reg hash K n s1 M1 l xs c" and e: "set xs = set ys"
  then have "set xs \<subseteq> {..< usageTotal}" by (auto simp: inUse_def)
  then have "stored xs = stored ys" by (rule entries_cong [OF inj_usage e])
  then show "inUse reg hash K n s1 M1 l ys c" using u e by (simp add: inUse_def)
qed

lemma usage_inserts:
  assumes u: "inUse reg hash K (n + hi) s1 M1 (max l lo) [0..<lo] c" and b: "lo \<le> hi" "hi \<le> usageTotal" "K \<subseteq> of_nat ` {..< lo}"
  shows "\<exists>c'. for_range lo hi (usageInsert reg hash) c = Some c' \<and> inUse reg hash K (n + lo) s1 M1 (max l hi) [0..<hi] c'
    \<and> (\<forall>y. valid c' (entry y) = (lo \<le> y \<and> y < hi \<or> valid c (entry y)))"
proof -
  have "\<exists>c'. for_range lo hi (usageInsert reg hash) c = Some c' \<and> (inUse reg hash K (n + hi - hi + lo) s1 M1 (max l hi) [0..<hi] c'
    \<and> (\<forall>y. valid c' (entry y) = (lo \<le> y \<and> y < hi \<or> valid c (entry y))))"
  proof (rule for_range_rule [where I = "\<lambda>i c'. inUse reg hash K (n + hi - i + lo) s1 M1 (max l i) [0..<i] c'
      \<and> (\<forall>y. valid c' (entry y) = (lo \<le> y \<and> y < i \<or> valid c (entry y)))"])
    fix i and c' :: "u64 client"
    assume i: "lo \<le> i" "i < hi" and "inUse reg hash K (n + hi - i + lo) s1 M1 (max l i) [0..<i] c'
      \<and> (\<forall>y. valid c' (entry y) = (lo \<le> y \<and> y < i \<or> valid c (entry y)))"
    then have u': "inUse reg hash K (Suc (n + hi - Suc i + lo)) s1 M1 (max l i) [0..<i] c'"
      and v: "\<forall>y. valid c' (entry y) = (lo \<le> y \<and> y < i \<or> valid c (entry y))" by (simp_all add: Suc_diff_Suc)
    have iT: "i < usageTotal" using i b by simp
    have "(of_nat i :: u64) \<notin> of_nat ` {..< lo}" using below_iff [of i lo] i iT usage_small by simp
    then have iK: "of_nat i \<notin> K" using b(3) by blast
    obtain c'' where c'': "usageInsert reg hash i c' = Some c''" "valid c'' = (valid c')(entry i := True)"
      "inUse reg hash K (n + hi - Suc i + lo) s1 M1 (max (max l i) (Suc i)) (i # [0..<i]) c''"
      using usageInsert_ok [OF u' iT _ _ iK] by auto
    have "max (max l i) (Suc i) = max l (Suc i)" by simp
    then have step: "inUse reg hash K (n + hi - Suc i + lo) s1 M1 (max l (Suc i)) [0..<Suc i] c''"
      using inUse_cong [OF c''(3), of "[0..<Suc i]"] by (simp add: atLeastLessThanSuc insert_commute)
    have "valid c'' (entry y) = (lo \<le> y \<and> y < Suc i \<or> valid c (entry y))" for y
      using v [rule_format, of y] i(1) unfolding c''(2) by (cases "y = i") auto
    then show "\<exists>c''. usageInsert reg hash i c' = Some c'' \<and> inUse reg hash K (n + hi - Suc i + lo) s1 M1 (max l (Suc i)) [0..<Suc i] c''
        \<and> (\<forall>y. valid c'' (entry y) = (lo \<le> y \<and> y < Suc i \<or> valid c (entry y)))"
      using c''(1) step by blast
  qed (use u b in \<open>auto simp: add.commute\<close>)
  then show ?thesis by simp
qed

text \<open>What is left when the removals have come to \<open>i\<close>.\<close>

definition left :: "nat \<Rightarrow> nat list" where
  "left i = [0..<usagePersist] @ [i..<usageTotal]"

lemma persist_total: "usagePersist \<le> usageTotal"
  by (simp add: usagePersist_def usageTotal_def)

lemma left_start: "left usagePersist = [0..<usageTotal]"
  unfolding left_def using upt_add_eq_append [of 0 usagePersist "usageTotal - usagePersist"] persist_total by simp

lemma left_end: "left usageTotal = [0..<usagePersist]"
  by (simp add: left_def)

lemma usageDetach_ok:
  assumes u: "inUse reg hash persistent (Suc n) s1 M1 usageTotal (left i) c" and i: "usagePersist \<le> i" "i < usageTotal"
  shows "\<exists>c'. usageDetach reg hash i c = Some c' \<and> valid c' = (valid c)(entry i := False)
    \<and> inUse reg hash persistent n s1 M1 usageTotal (left (Suc i)) c'"
proof -
  have f: "follows reg usageKey hash persistent (Suc n) s1 M1 (tbl c, cmem c) (stored (left i))" and v: "val c = usageKey"
    using u by (simp_all add: inUse_def)
  have sub: "set (left i) \<subseteq> {..< usageTotal}" using persist_total by (auto simp: left_def)
  have mem: "i \<in> set (left i)" using i by (simp add: left_def)
  have at: "stored (left i) (of_nat i) = Some (entry i)" by (rule entries_at [OF inj_usage [OF sub] mem])
  have "set (removeAll i (left i)) = set (left (Suc i))" using i by (auto simp: left_def)
  moreover have "set (removeAll i (left i)) \<subseteq> {..< usageTotal}" using sub by auto
  ultimately have M: "(stored (left i))(of_nat i := None) = stored (left (Suc i))"
    using entries_remove [OF inj_usage [OF sub] mem] entries_cong [OF inj_usage] by metis
  have out: "(of_nat i :: u64) \<notin> persistent" using persistent_iff [OF i(2)] i(1) by simp
  obtain T m where x: "rTableTryDetachAndSynchronize reg (tbl c) (hash (of_nat i)) (\<lambda>p. val c p = of_nat i) (cmem c) = Some (Some (entry i), T, m)"
    "follows reg usageKey hash persistent n s1 M1 (T, m) (stored (left (Suc i)))"
    using follows_detach [OF f out] unfolding at M v by (elim exE conjE)
  have "set (left (Suc i)) \<subseteq> {..< usageTotal}" using persist_total by (auto simp: left_def)
  then show ?thesis using x v by (simp add: usageDetach_def inUse_def Let_def)
qed

lemma usage_detaches:
  assumes u: "inUse reg hash persistent (n + hi) s1 M1 usageTotal (left usagePersist) c" and b: "usagePersist \<le> hi" "hi \<le> usageTotal"
  shows "\<exists>c'. for_range usagePersist hi (usageDetach reg hash) c = Some c'
    \<and> inUse reg hash persistent (n + usagePersist) s1 M1 usageTotal (left hi) c'
    \<and> (\<forall>y < usagePersist. valid c' (entry y) = valid c (entry y))"
proof -
  have "\<exists>c'. for_range usagePersist hi (usageDetach reg hash) c = Some c'
    \<and> (inUse reg hash persistent (n + hi - hi + usagePersist) s1 M1 usageTotal (left hi) c'
    \<and> (\<forall>y < usagePersist. valid c' (entry y) = valid c (entry y)))"
  proof (rule for_range_rule [where I = "\<lambda>i c'. inUse reg hash persistent (n + hi - i + usagePersist) s1 M1 usageTotal (left i) c'
      \<and> (\<forall>y < usagePersist. valid c' (entry y) = valid c (entry y))"])
    fix i and c' :: "u64 client"
    assume i: "usagePersist \<le> i" "i < hi" and "inUse reg hash persistent (n + hi - i + usagePersist) s1 M1 usageTotal (left i) c'
      \<and> (\<forall>y < usagePersist. valid c' (entry y) = valid c (entry y))"
    then have u': "inUse reg hash persistent (Suc (n + hi - Suc i + usagePersist)) s1 M1 usageTotal (left i) c'"
      and v: "\<forall>y < usagePersist. valid c' (entry y) = valid c (entry y)" by (simp_all add: Suc_diff_Suc)
    have iT: "i < usageTotal" using i b by simp
    show "\<exists>c''. usageDetach reg hash i c' = Some c'' \<and> inUse reg hash persistent (n + hi - Suc i + usagePersist) s1 M1 usageTotal (left (Suc i)) c''
        \<and> (\<forall>y < usagePersist. valid c'' (entry y) = valid c (entry y))"
      using usageDetach_ok [OF u' i(1) iT] v i(1) by auto
  qed (use u b in \<open>simp_all add: add.commute\<close>)
  then show ?thesis by simp
qed

lemma inUse_less: "inUse reg hash K (n + k) s1 M1 l xs c \<Longrightarrow> inUse reg hash K n s1 M1 l xs c"
proof (induction k)
  case (Suc k)
  then have "follows reg usageKey hash K (Suc (n + k)) s1 M1 (tbl c, cmem c) (stored xs)" by (simp add: inUse_def)
  from follows_less [OF this] show ?case using Suc by (simp add: inUse_def)
qed simp

text \<open>The table at the head of a round, with \<open>r\<close> rounds ahead.\<close>

definition roundHead :: "RCUReaderThreadRegistry \<Rightarrow> (u64 \<Rightarrow> u64) \<Rightarrow> u64 client \<Rightarrow> nat \<Rightarrow> u64 client \<Rightarrow> bool" where
  "roundHead reg hash c1 r c \<longleftrightarrow> inUse reg hash persistent (r * (2 * usageTotal)) (tbl c1, cmem c1) (stored [0..<usagePersist])
       usageTotal [0..<usageTotal] c
     \<and> (\<forall>y < usagePersist. valid c (entry y) = valid c1 (entry y))"

lemma persistent_below: "persistent \<subseteq> of_nat ` {..< usagePersist}"
  by simp

lemma usageRound_prefix:
  assumes u: "roundHead reg hash c1 (Suc r) c" and a: "usagePersist \<le> a" "a \<le> usageTotal"
  shows "\<exists>c'. for_range usagePersist a (usageDetach reg hash) c = Some c' \<and> (\<forall>y < usagePersist. valid c' (entry y) = valid c1 (entry y))
    \<and> (a = usageTotal \<longrightarrow> inUse reg hash persistent (r * (2 * usageTotal) + usageTotal) (tbl c1, cmem c1) (stored [0..<usagePersist])
          usageTotal [0..<usagePersist] c')"
proof -
  have "Suc r * (2 * usageTotal) = r * (2 * usageTotal) + usageTotal + a + (usageTotal - a)" using a by simp
  then have "inUse reg hash persistent (r * (2 * usageTotal) + usageTotal + a) (tbl c1, cmem c1) (stored [0..<usagePersist])
      usageTotal (left usagePersist) c" using u inUse_less unfolding roundHead_def left_start by metis
  from usage_detaches [OF this a] show ?thesis using u left_end inUse_less by (fastforce simp: roundHead_def)
qed

lemma usageRound_ok:
  assumes "roundHead reg hash c1 (Suc r) c"
  shows "\<exists>c'. usageRound reg hash c = Some c' \<and> roundHead reg hash c1 r c'"
proof -
  obtain c' where c': "for_range usagePersist usageTotal (usageDetach reg hash) c = Some c'"
    "\<forall>y < usagePersist. valid c' (entry y) = valid c1 (entry y)"
    "inUse reg hash persistent (r * (2 * usageTotal) + usageTotal) (tbl c1, cmem c1) (stored [0..<usagePersist]) (max usageTotal usagePersist) [0..<usagePersist] c'"
    using usageRound_prefix [OF assms persist_total order_refl] persist_total by (auto simp: max_absorb1)
  obtain c'' where "for_range usagePersist usageTotal (usageInsert reg hash) c' = Some c''"
    "inUse reg hash persistent (r * (2 * usageTotal) + usagePersist) (tbl c1, cmem c1) (stored [0..<usagePersist]) (max usageTotal usageTotal) [0..<usageTotal] c''"
    "\<forall>y. valid c'' (entry y) = (usagePersist \<le> y \<and> y < usageTotal \<or> valid c' (entry y))"
    using usage_inserts [OF c'(3) persist_total order_refl persistent_below] by blast
  then show ?thesis using c'(1,2) inUse_less by (auto simp: usageRound_def roundHead_def)
qed

text \<open>The start: the persistent elements are in the table, and readers may come.\<close>

definition ready :: "RCUReaderThreadRegistry \<Rightarrow> (u64 \<Rightarrow> u64) \<Rightarrow> nat \<Rightarrow> u64 client \<Rightarrow> bool" where
  "ready reg hash n c \<longleftrightarrow> inUse reg hash persistent n (tbl c, cmem c) (stored [0..<usagePersist]) usagePersist [0..<usagePersist] c
     \<and> (\<forall>y < usagePersist. valid c (entry y))"

lemma usageWriter_ok:
  assumes u: "ready reg hash (Suc (rounds * (2 * usageTotal) + usageTotal)) c1" and r: "r \<le> rounds"
  shows "\<exists>c. usageWriter reg hash r c1 = Some c \<and> roundHead reg hash c1 (rounds - r) c"
proof -
  have f: "follows reg usageKey hash persistent (Suc (rounds * (2 * usageTotal) + usageTotal)) (tbl c1, cmem c1) (stored [0..<usagePersist])
      (tbl c1, cmem c1) (stored [0..<usagePersist])" and v: "val c1 = valuesTo usagePersist"
    using u by (simp_all add: ready_def inUse_def)
  obtain T m where x: "rTableSynchronize reg (tbl c1) (cmem c1) = Some (T, m)"
    "follows reg usageKey hash persistent (rounds * (2 * usageTotal) + usageTotal) (tbl c1, cmem c1) (stored [0..<usagePersist])
      (T, m) (stored [0..<usagePersist])" using follows_sync [OF f] by (elim exE conjE)
  have "inUse reg hash persistent (rounds * (2 * usageTotal) + usageTotal) (tbl c1, cmem c1) (stored [0..<usagePersist]) (max 0 usagePersist)
      [0..<usagePersist] (c1\<lparr>tbl := T, cmem := m\<rparr>)" using x(2) v persist_total by (auto simp: inUse_def)
  from usage_inserts [OF this persist_total order_refl persistent_below] obtain c0 where
    c0: "usageGrow reg hash c1 = Some c0" "roundHead reg hash c1 rounds c0"
    using x(1) inUse_less by (auto simp: usageGrow_def roundHead_def)
  have "\<exists>c. for_range 0 r (\<lambda>_. usageRound reg hash) c0 = Some c \<and> roundHead reg hash c1 (rounds - r) c"
  proof (rule for_range_rule [where I = "\<lambda>i. roundHead reg hash c1 (rounds - i)"])
    fix i c
    assume i: "i < r" and h: "roundHead reg hash c1 (rounds - i) c"
    have "rounds - i = Suc (rounds - Suc i)" using i r by simp
    then show "\<exists>c'. usageRound reg hash c = Some c' \<and> roundHead reg hash c1 (rounds - Suc i) c'"
      using usageRound_ok h by simp
  qed (use c0(2) in simp_all)
  then show ?thesis using c0(1) by (simp add: usageWriter_def)
qed

lemma usageFill_ok:
  assumes "unat hc \<le> 2 ^ 20" and "unat (nrNonOverlappingBucketCount reg) \<le> 2 ^ 29" and "fresh_blocks m" and "n + usagePersist < 2 ^ 24"
  shows "\<exists>c. usageFill reg hc hash m = Some c \<and> ready reg hash n c"
proof -
  have "rTableInitDetailed reg freshRTable (usageConfig hc) m = rTableInit reg hc freshRTable 64 m"
    by (simp add: rTableInit_def usageConfig_def defaultConfig_def mult.commute)
  moreover have "unat (64 :: u32) \<le> 2 ^ 20" by simp
  ultimately obtain T m' where T: "rTableInitDetailed reg freshRTable (usageConfig hc) m = Some (T, m')"
    "holdsTable reg usageKey hash (n + usagePersist) (T, m') Map.empty"
    using rTableInit_holds [OF _ assms, of 64 usageKey hash] by auto
  let ?c = "\<lparr>tbl = T, cmem = m', val = (\<lambda>_. 0), valid = (\<lambda>_. False)\<rparr> :: u64 client"
  have "inUse reg hash {} (n + usagePersist) (T, m') Map.empty (max 0 0) [0..<0] ?c"
    using follows_start [OF T(2)] by (simp add: inUse_def valuesTo_0)
  from usage_inserts [OF this] obtain c where
    c: "for_range 0 usagePersist (usageInsert reg hash) ?c = Some c"
      "inUse reg hash {} n (T, m') Map.empty usagePersist [0..<usagePersist] c" "\<forall>y < usagePersist. valid c (entry y)"
    using persist_total by auto
  have "holdsTable reg usageKey hash n (tbl c, cmem c) (stored [0..<usagePersist])"
    using c(2) [unfolded inUse_def, THEN conjunct1] by (rule follows_holds)
  then have "ready reg hash n c"
    using c(2,3) follows_start [of reg usageKey hash n _ _ persistent] by (simp add: ready_def inUse_def)
  then show ?thesis using T(1) c(1) by (simp add: usageFill_def)
qed

subsection \<open>The final check\<close>

lemma usageVerify_ok:
  assumes "roundHead reg hash c1 r c"
  shows "usageVerify hash c = Some c"
proof -
  have f: "follows reg usageKey hash persistent (r * (2 * usageTotal)) (tbl c1, cmem c1) (stored [0..<usagePersist])
      (tbl c, cmem c) (stored [0..<usageTotal])" and v: "val c = usageKey" using assms by (simp_all add: roundHead_def inUse_def)
  have "\<exists>c'. usageVerify hash c = Some c' \<and> c' = c" unfolding usageVerify_def
  proof (rule for_range_rule [where I = "\<lambda>_ c'. c' = c"])
    fix i and c' :: "u64 client"
    assume "i < usagePersist" and c': "c' = c"
    then have "stored [0..<usageTotal] (of_nat i) = Some (entry i)" using persist_total by (intro usage_at) auto
    then show "\<exists>c''. (let hashVal = hash (of_nat i) in do { found \<leftarrow> rTableFind (tbl c') hashVal (\<lambda>p. val c' p = of_nat i) (cmem c');
        _ \<leftarrow> require (found \<noteq> None); Some c' }) = Some c'' \<and> c'' = c"
      using tableFind_law [OF follows_holds [OF f], of "of_nat i"] v c' by (simp add: findKey_def)
  qed simp_all
  then show ?thesis by simp
qed

lemma usage_run:
  assumes "unat hc \<le> 2 ^ 20" and "unat (nrNonOverlappingBucketCount reg) \<le> 2 ^ 29" and "fresh_blocks m" and "rounds \<le> 8"
  obtains c1 c2 m' where "usageFill reg hc hash m = Some c1" "usageWriter reg hash rounds c1 = Some c2"
    "RCUTableNormalUsageStress reg hc hash rounds m = Some m'"
    "ready reg hash (Suc (rounds * (2 * usageTotal) + usageTotal)) c1" "roundHead reg hash c1 0 c2"
proof -
  have "rounds * (2 * usageTotal) \<le> 8 * (2 * usageTotal)" using assms(4) by (rule mult_le_mono1)
  then have "Suc (rounds * (2 * usageTotal) + usageTotal) + usagePersist < 2 ^ 24" by (simp add: usageTotal_def usagePersist_def)
  from usageFill_ok [OF assms(1-3) this] obtain c1 where 1: "usageFill reg hc hash m = Some c1"
    "ready reg hash (Suc (rounds * (2 * usageTotal) + usageTotal)) c1" by blast
  obtain c2 where 2: "usageWriter reg hash rounds c1 = Some c2" "roundHead reg hash c1 0 c2"
    using usageWriter_ok [OF 1(2) order_refl] by auto
  have "follows reg usageKey hash persistent 0 (tbl c1, cmem c1) (stored [0..<usagePersist]) (tbl c2, cmem c2) (stored [0..<usageTotal])"
    using 2(2) by (simp add: roundHead_def inUse_def)
  then obtain m' where "destroyTableCore (core (tbl c2)) (cmem c2) = Some m'" using destroy_fresh [OF follows_holds] by blast
  then show ?thesis using that 1 2 usageVerify_ok [OF 2(2)] by (simp add: RCUTableNormalUsageStress_def)
qed

text \<open>The writer in the middle of a round: after \<open>r\<close> rounds and the removals up to \<open>a\<close>.\<close>

definition usagePrefix :: "RCUReaderThreadRegistry \<Rightarrow> (u64 \<Rightarrow> u64) \<Rightarrow> nat \<Rightarrow> nat \<Rightarrow> u64 client \<Rightarrow> u64 client option" where
  "usagePrefix reg hash r a c =
     do { c \<leftarrow> usageWriter reg hash r c; for_range usagePersist a (usageDetach reg hash) c }"

lemma usagePrefix_ok:
  assumes u: "ready reg hash (Suc (rounds * (2 * usageTotal) + usageTotal)) c1" and r: "r < rounds"
    and a: "usagePersist \<le> a" "a \<le> usageTotal"
  shows "\<exists>c. usagePrefix reg hash r a c1 = Some c \<and> (\<forall>y < usagePersist. valid c (entry y))"
proof -
  have "rounds - r = Suc (rounds - Suc r)" using r by simp
  then obtain c where c: "usageWriter reg hash r c1 = Some c" "roundHead reg hash c1 (Suc (rounds - Suc r)) c"
    using usageWriter_ok [OF u less_imp_le [OF r]] by auto
  obtain c' where "for_range usagePersist a (usageDetach reg hash) c = Some c'"
    "\<forall>y < usagePersist. valid c' (entry y) = valid c1 (entry y)" using usageRound_prefix [OF c(2) a] by blast
  then show ?thesis using c(1) u by (simp add: usagePrefix_def ready_def)
qed

lemma usage_readers:
  assumes u: "ready reg hash (Suc (rounds * (2 * usageTotal) + usageTotal)) c1" and c2: "roundHead reg hash c1 0 c2"
    and es: "trace (cmem c2) = trace (cmem c1) @ es" and s0: "sysstart reg (pBucketsInfo (core (tbl c1))) (cmem c1) es s0"
    and s: "(sysstep reg usageKey hash)\<^sup>*\<^sup>* s0 s" and i: "i < usagePersist"
  shows "search (readers s t) \<noteq> Fault (of_nat i)"
    and "search (readers s t) = outcome (of_nat i) found \<Longrightarrow> found = Some (entry i)"
proof -
  have f: "follows reg usageKey hash persistent 0 (tbl c1, cmem c1) (stored [0..<usagePersist]) (tbl c2, cmem c2) (stored [0..<usageTotal])"
    using c2 by (simp add: roundHead_def inUse_def)
  note l = follows_lookups [OF f es s0 s]
  show "search (readers s t) \<noteq> Fault (of_nat i)" by (rule l(1))
  have "stored [0..<usagePersist] (of_nat i) = Some (entry i)"
    by (rule usage_at [OF i persist_total])
  then show "search (readers s t) = outcome (of_nat i) found \<Longrightarrow> found = Some (entry i)"
    using l(2) [of "of_nat i" t found] i by simp
qed

subsection \<open>Properties\<close>



end
