(* ===== verification/HashMapComparison.thy ===== *)
theory HashMapComparison
  imports Client
begin

text \<open>
  \<open>PerfComparisonWithStdUnorderedSet::runRcuHashMap\<close> of \<open>RCUTableTests.cpp\<close>: readers look up the
  elements of the table under the read-lock guard while a writer tries to insert a few more.  The
  predicate of these further insertions compares the value of its first argument with itself, so it is
  always true; what that does to them is part of the property.
\<close>

subsection \<open>The program\<close>

definition c_nrElementsToLookUp :: nat where
  "c_nrElementsToLookUp = 2 * 2 ^ 18"

text \<open>The results of the insertions are not tested.\<close>

definition comparisonInsert :: "RCUReaderThreadRegistry \<Rightarrow> (u64 \<Rightarrow> u64) \<Rightarrow> nat \<Rightarrow> u64 client \<Rightarrow> u64 client option" where
  "comparisonInsert reg hash item c =
     do {
       let c = c\<lparr>val := (val c)(entry item := of_nat item)\<rparr>;
       let hashVal = hash (of_nat item);
       (inserted, T, m) \<leftarrow> rTableTryInsert reg (tbl c) (entry item) hashVal (\<lambda>p1 p2. val c p1 = val c p2) (cmem c);
       Some (c\<lparr>tbl := T, cmem := m\<rparr>)
     }"

definition comparisonFill :: "RCUReaderThreadRegistry \<Rightarrow> u32 \<Rightarrow> (u64 \<Rightarrow> u64) \<Rightarrow> mem \<Rightarrow> u64 client option" where
  "comparisonFill reg hardware_concurrency hash m =
     do {
       (T, m) \<leftarrow> rTableInit reg hardware_concurrency freshRTable 64 m;
       for_range 0 c_nrElementsToLookUp (comparisonInsert reg hash)
         \<lparr>tbl = T, cmem = m, val = (\<lambda>_. 0), valid = (\<lambda>_. False)\<rparr>
     }"

text \<open>\<open>myDataAdditional[i]\<close> is the element behind those of \<open>myData\<close>.\<close>

definition additionalInsert :: "RCUReaderThreadRegistry \<Rightarrow> (u64 \<Rightarrow> u64) \<Rightarrow> nat \<Rightarrow> u64 client \<Rightarrow> u64 client option" where
  "additionalInsert reg hash i c =
     (if i mod 1024 \<noteq> 0 then Some c
      else do {
        let v = i + c_nrElementsToLookUp;
        let c = c\<lparr>val := (val c)(entry v := of_nat v)\<rparr>;
        let h = hash (of_nat v);
        (inserted, T, m) \<leftarrow> rTableTryInsert reg (tbl c) (entry v) h (\<lambda>p0 p1. val c p0 = val c p0) (cmem c);
        Some (c\<lparr>tbl := T, cmem := m\<rparr>)
      })"

definition comparisonWriter :: "RCUReaderThreadRegistry \<Rightarrow> (u64 \<Rightarrow> u64) \<Rightarrow> u64 client \<Rightarrow> u64 client option" where
  "comparisonWriter reg hash = for_range 0 c_nrElementsToLookUp (additionalInsert reg hash)"

text \<open>A reader throws unless it finds the element.\<close>

definition comparisonReaderAsserts :: "ptr \<Rightarrow> bool" where
  "comparisonReaderAsserts pEntry \<longleftrightarrow> pEntry \<noteq> None"

subsection \<open>The loops\<close>

abbreviation comparisonKey :: "loc \<Rightarrow> u64" where
  "comparisonKey \<equiv> valuesTo (2 * c_nrElementsToLookUp)"

abbreviation lookedUp :: "u64 set" where
  "lookedUp \<equiv> of_nat ` {..< c_nrElementsToLookUp}"

lemma comparison_small: "2 * c_nrElementsToLookUp \<le> 2 ^ 64" "c_nrElementsToLookUp \<le> 2 ^ 64"
  by (simp_all add: c_nrElementsToLookUp_def)

lemma comparisonFill_ok:
  assumes "unat hc \<le> 2 ^ 20" and "unat (nrNonOverlappingBucketCount reg) \<le> 2 ^ 29" and "fresh_blocks m"
  shows "\<exists>c. comparisonFill reg hc hash m = Some c
    \<and> follows reg comparisonKey hash lookedUp c_nrElementsToLookUp (tbl c, cmem c) (stored [0..<c_nrElementsToLookUp])
        (tbl c, cmem c) (stored [0..<c_nrElementsToLookUp])"
proof -
  let ?N = c_nrElementsToLookUp
  have "unat (64 :: u32) \<le> 2 ^ 20" "2 * ?N < 2 ^ 24" by (simp_all add: c_nrElementsToLookUp_def)
  then obtain T m' where T: "rTableInit reg hc freshRTable 64 m = Some (T, m')"
    "holdsTable reg comparisonKey hash (2 * ?N) (T, m') Map.empty"
    using rTableInit_holds [OF _ assms(1,2,3), of 64 "2 * ?N" comparisonKey hash] by auto
  let ?I = "\<lambda>i c. follows reg comparisonKey hash {} (2 * ?N - i) (T, m') Map.empty (tbl c, cmem c) (stored [0..<i]) \<and> val c = valuesTo i"
  let ?c = "\<lparr>tbl = T, cmem = m', val = (\<lambda>_. 0), valid = (\<lambda>_. False)\<rparr> :: u64 client"
  have "\<exists>c. for_range 0 ?N (comparisonInsert reg hash) ?c = Some c \<and> ?I ?N c"
  proof (rule for_range_rule [where I = ?I])
    fix i and c :: "u64 client"
    assume i: "i < ?N" and I: "?I i c"
    have n: "2 * ?N - i = Suc (2 * ?N - Suc i)" using i by simp
    have upd: "(valuesTo i)(entry i := of_nat i) = valuesTo (Suc i)" using valuesTo_assign [of i i] by simp
    have f: "follows reg comparisonKey hash {} (Suc (2 * ?N - Suc i)) (T, m') Map.empty (tbl c, cmem c) (stored [0..<i])"
      using I unfolding n by (rule conjunct1)
    have "set [0..<i] \<subseteq> {..< i}" "i \<le> 2 * ?N" "i < 2 * ?N" "i \<le> i" "i \<notin> set [0..<i]" "of_nat i \<notin> ({} :: u64 set)" using i by auto
    from insert_element [OF f this(1,2) comparison_small(1) this(3-6)] obtain T1 m1 where
      x: "rTableTryInsert reg (tbl c) (entry i) (hash (of_nat i)) (\<lambda>p1 p2. valuesTo (Suc i) p1 = valuesTo (Suc i) p2) (cmem c) = Some (True, T1, m1)"
      "follows reg comparisonKey hash {} (2 * ?N - Suc i) (T, m') Map.empty (T1, m1) (stored (i # [0..<i]))"
      unfolding upd by (elim exE conjE)
    have "stored (i # [0..<i]) = stored [0..<Suc i]"
      using i comparison_small by (intro entries_cong inj_u64) (auto simp: atLeastLessThanSuc)
    then show "\<exists>c'. comparisonInsert reg hash i c = Some c' \<and> ?I (Suc i) c'"
      using x I upd by (simp add: comparisonInsert_def Let_def)
  qed (use follows_start [OF T(2)] in \<open>simp_all add: valuesTo_0\<close>)
  then obtain c where c: "for_range 0 ?N (comparisonInsert reg hash) ?c = Some c" "?I ?N c" by blast
  have "holdsTable reg comparisonKey hash (2 * ?N - ?N) (tbl c, cmem c) (stored [0..<?N])"
    using c(2) [THEN conjunct1] by (rule follows_holds)
  then have "holdsTable reg comparisonKey hash ?N (tbl c, cmem c) (stored [0..<?N])" by simp
  from follows_start [OF this] show ?thesis using c(1) T(1) by (simp add: comparisonFill_def)
qed

text \<open>The table while the writer is at work: the elements looked up, and some of the further ones.\<close>

definition compared :: "RCUReaderThreadRegistry \<Rightarrow> (u64 \<Rightarrow> u64) \<Rightarrow> u64 client \<Rightarrow> nat \<Rightarrow> u64 client \<Rightarrow> bool" where
  "compared reg hash c1 i c \<longleftrightarrow> (\<exists>xs. set xs \<subseteq> {..< i + c_nrElementsToLookUp}
     \<and> follows reg comparisonKey hash lookedUp (c_nrElementsToLookUp - i) (tbl c1, cmem c1) (stored [0..<c_nrElementsToLookUp])
         (tbl c, cmem c) (stored xs))"

lemma further_new:
  assumes "set xs \<subseteq> {..< v}" and "v < 2 * c_nrElementsToLookUp"
  shows "stored xs (of_nat v) = None" and "(stored xs)(of_nat v \<mapsto> entry v) = stored (v # xs)"
proof -
  have inj: "inj_on (of_nat :: nat \<Rightarrow> u64) (set (v # xs))" using assms comparison_small by (intro inj_u64) auto
  have "v \<notin> set xs" using assms(1) by auto
  from entries_insert [OF inj this] show "stored xs (of_nat v) = None" "(stored xs)(of_nat v \<mapsto> entry v) = stored (v # xs)" .
qed

lemma additionalInsert_ok:
  assumes s: "compared reg hash c1 i c" and i: "i < c_nrElementsToLookUp"
  shows "\<exists>c'. additionalInsert reg hash i c = Some c' \<and> compared reg hash c1 (Suc i) c'"
proof -
  let ?N = c_nrElementsToLookUp and ?v = "i + c_nrElementsToLookUp"
  obtain xs where xs: "set xs \<subseteq> {..< ?v}" and f': "follows reg comparisonKey hash lookedUp (?N - i) (tbl c1, cmem c1) (stored [0..<?N])
      (tbl c, cmem c) (stored xs)" using s unfolding compared_def by blast
  have n: "?N - i = Suc (?N - Suc i)" using i by simp
  note f = f' [unfolded n]
  show ?thesis
  proof (cases "i mod 1024 = 0")
    case False
    have "set xs \<subseteq> {..< Suc i + ?N}" using xs by auto
    then have "compared reg hash c1 (Suc i) c" using follows_less [OF f] unfolding compared_def by blast
    then show ?thesis using False by (simp add: additionalInsert_def)
  next
    case True
    have k: "comparisonKey (entry ?v) = of_nat ?v" using i by simp
    have "?v < 2 * ?N" using i by simp
    note M = further_new [OF xs this]
    have out: "comparisonKey (entry ?v) \<notin> lookedUp" unfolding k using below_iff [of ?v ?N] i comparison_small by auto
    have ne: "stored xs (comparisonKey (entry ?v)) \<noteq> Some (entry ?v)" unfolding k M(1) by simp
    have nm: "stored xs (comparisonKey (entry ?v)) = None" unfolding k M(1) by simp
    obtain j b T m where x: "rTableTryInsert reg (tbl c) (entry ?v) (hash (comparisonKey (entry ?v))) (\<lambda>_ _. True) (cmem c) = Some (b, T, m)"
      "follows reg comparisonKey hash lookedUp (?N - Suc i) (tbl c1, cmem c1) (stored [0..<?N]) (T, m)
        (if b then (stored xs)(comparisonKey (entry ?v) \<mapsto> entry ?v) else stored xs)"
      using follows_insert [where R = "\<lambda>_ _. True", OF f isNode_entry ne out nm] by (elim exE conjE)
    have "\<exists>ys. set ys \<subseteq> {..< Suc i + ?N} \<and> (if b then (stored xs)(of_nat ?v \<mapsto> entry ?v) else stored xs) = stored ys"
    proof (cases b)
      case True
      then show ?thesis using xs M(2) by (intro exI [of _ "?v # xs"]) auto
    next
      case False
      then show ?thesis using xs by (intro exI [of _ xs]) auto
    qed
    then have "compared reg hash c1 (Suc i) (c\<lparr>val := w, tbl := T, cmem := m\<rparr>)" for w
      using x(2) unfolding compared_def k by auto
    then show ?thesis using x(1) True unfolding k by (simp add: additionalInsert_def Let_def)
  qed
qed

text \<open>An insertion whose predicate is always true succeeds exactly in an empty bucket.\<close>

lemma always_true_insert:
  assumes "table m (core T) j B" and "isNode e" "e \<notin> set (concat B)"
    and "rTableTryInsert reg T e h (\<lambda>_ _. True) m = Some (b, T', m')"
  shows "b \<longleftrightarrow> B ! (unat h mod 2 ^ j) = []"
proof -
  obtain ins t1 m1 where "rTableCoreTryInsertNoExpand (core T) e h (\<lambda>_ _. True) m = Some (ins, t1, m1)"
    "ins = (\<not> (\<exists>x \<in> set (B ! (unat h mod 2 ^ j)). True))"
    using rTableCoreTryInsertNoExpand_table [OF assms(1-3), of h "\<lambda>_ _. True"] by blast
  then show ?thesis using assms(4)
    by (auto simp: rTableTryInsert_def rTableCoreTryInsert_def split: bind_splits if_splits)
qed

lemma additional_inserted:
  assumes s: "compared reg hash c1 i c" and i: "i < c_nrElementsToLookUp"
  shows "\<exists>j B b T m. table (cmem c) (core (tbl c)) j B
    \<and> rTableTryInsert reg (tbl c) (entry (i + c_nrElementsToLookUp)) (hash (of_nat (i + c_nrElementsToLookUp))) (\<lambda>_ _. True) (cmem c)
        = Some (b, T, m)
    \<and> (b \<longleftrightarrow> B ! (unat (hash (of_nat (i + c_nrElementsToLookUp))) mod 2 ^ j) = [])"
proof -
  let ?N = c_nrElementsToLookUp and ?v = "i + c_nrElementsToLookUp"
  obtain xs where xs: "set xs \<subseteq> {..< ?v}" and f: "follows reg comparisonKey hash lookedUp (?N - i) (tbl c1, cmem c1) (stored [0..<?N])
      (tbl c, cmem c) (stored xs)" using s unfolding compared_def by blast
  have n: "?N - i = Suc (?N - Suc i)" using i by simp
  have h: "holdsTable reg comparisonKey hash (Suc (?N - Suc i)) (tbl c, cmem c) (stored xs)"
    using follows_holds [OF f] unfolding n .
  have k: "comparisonKey (entry ?v) = of_nat ?v" using i by simp
  have nm: "stored xs (comparisonKey (entry ?v)) = None"
    unfolding k by (rule further_new(1) [OF xs]) (use i in simp)
  then have ne: "stored xs (comparisonKey (entry ?v)) \<noteq> Some (entry ?v)" by simp
  obtain b T m where x: "rTableTryInsert reg (tbl c) (entry ?v) (hash (of_nat ?v)) (\<lambda>_ _. True) (cmem c) = Some (b, T, m)"
    using tableInsert_any [where R = "\<lambda>_ _. True", OF h isNode_entry ne nm] unfolding k by (metis prod.exhaust)
  obtain j B where B: "table (cmem c) (core (tbl c)) j B" "keyed comparisonKey hash (absTable (cmem c) B) (stored xs)"
    using h by (rule holdsTableE)
  have "entry ?v \<notin> dom (absTable (cmem c) B)" using B(2) ne by (auto simp: keyed_def)
  then have "entry ?v \<notin> set (concat B)" by (simp only: dom_absTable not_False_eq_True)
  from always_true_insert [OF B(1) isNode_entry this x] show ?thesis using B(1) x by blast
qed

lemma compared_upto:
  assumes "follows reg comparisonKey hash lookedUp c_nrElementsToLookUp (tbl c1, cmem c1) (stored [0..<c_nrElementsToLookUp])
      (tbl c1, cmem c1) (stored [0..<c_nrElementsToLookUp])" and "n \<le> c_nrElementsToLookUp"
  shows "\<exists>c. for_range 0 n (additionalInsert reg hash) c1 = Some c \<and> compared reg hash c1 n c"
proof (rule for_range_rule)
  show "compared reg hash c1 0 c1" using assms(1) by (auto simp: compared_def intro!: exI [of _ "[0..<c_nrElementsToLookUp]"])
qed (use assms(2) additionalInsert_ok in auto)

subsection \<open>Properties\<close>



end
