(* ===== verification/Dlist.thy ===== *)
theory Dlist
  imports Prelude
begin

text \<open>
  The RCU doubly linked list of \<open>RcuDoublyLinkedListApi.h\<close>: a ring through the list's own head.  Heads
  are addresses of a type \<open>'a\<close>; a pointer is an optional address.  The stores are logged in \<open>dtrace\<close> in
  program order, because concurrent readers see the states between them; dereferencing a null
  pointer is \<open>None\<close>.  The four kinds of iterators are records with the operations of the source.
\<close>

subsection \<open>Memory\<close>

datatype 'a devent = DNext 'a "'a option" | DPrev 'a "'a option"

record 'a dmem =
  dnext :: "'a \<Rightarrow> 'a option"
  dprev :: "'a \<Rightarrow> 'a option"
  dtrace :: "'a devent list"

fun store :: "'a devent \<Rightarrow> 'a dmem \<Rightarrow> 'a dmem" where
  "store (DNext a p) m = m\<lparr>dnext := (dnext m)(a := p), dtrace := dtrace m @ [DNext a p]\<rparr>"
| "store (DPrev a p) m = m\<lparr>dprev := (dprev m)(a := p), dtrace := dtrace m @ [DPrev a p]\<rparr>"

subsection \<open>Operations\<close>

definition rcuDlistInit :: "'a \<Rightarrow> 'a dmem \<Rightarrow> 'a dmem" where
  "rcuDlistInit l m = store (DNext l (Some l)) (store (DPrev l (Some l)) m)"

definition rcuDlistRest :: "'a \<Rightarrow> 'a dmem \<Rightarrow> 'a dmem" where
  "rcuDlistRest l m = store (DNext l (Some l)) (store (DPrev l (Some l)) m)"

definition rcuDlistEmpty :: "'a \<Rightarrow> 'a dmem \<Rightarrow> bool" where
  "rcuDlistEmpty l m \<longleftrightarrow> dnext m l = Some l"

definition rcuDlistAddBetween :: "'a option \<Rightarrow> 'a option \<Rightarrow> 'a \<Rightarrow> 'a dmem \<Rightarrow> 'a dmem option" where
  "rcuDlistAddBetween prev next newElem m =
     do {
       let m = store (DNext newElem next) m;
       let m = store (DPrev newElem prev) m;
       p \<leftarrow> prev;
       let m = store (DNext p (Some newElem)) m;
       n \<leftarrow> next;
       Some (store (DPrev n (Some newElem)) m)
     }"

definition rcuDlistRemoveBetween :: "'a option \<Rightarrow> 'a option \<Rightarrow> 'a dmem \<Rightarrow> 'a dmem option" where
  "rcuDlistRemoveBetween prev next m =
     do {
       p \<leftarrow> prev;
       let m = store (DNext p next) m;
       n \<leftarrow> next;
       Some (store (DPrev n prev) m)
     }"

definition rcuDlistInsertAfter :: "'a \<Rightarrow> 'a \<Rightarrow> 'a dmem \<Rightarrow> 'a dmem option" where
  "rcuDlistInsertAfter pos newElem m = rcuDlistAddBetween (Some pos) (dnext m pos) newElem m"

definition rcuDlistInsertBefore :: "'a \<Rightarrow> 'a \<Rightarrow> 'a dmem \<Rightarrow> 'a dmem option" where
  "rcuDlistInsertBefore pos newElem m = rcuDlistAddBetween (dprev m pos) (Some pos) newElem m"

definition rcuDlistAppend :: "'a \<Rightarrow> 'a \<Rightarrow> 'a dmem \<Rightarrow> 'a dmem option" where
  "rcuDlistAppend l newElem m = rcuDlistInsertBefore l newElem m"

definition rcuDlistPrepend :: "'a \<Rightarrow> 'a \<Rightarrow> 'a dmem \<Rightarrow> 'a dmem option" where
  "rcuDlistPrepend l newElem m = rcuDlistInsertAfter l newElem m"

definition rcuDlistRemove :: "'a \<Rightarrow> 'a dmem \<Rightarrow> 'a dmem option" where
  "rcuDlistRemove elem m = rcuDlistRemoveBetween (dprev m elem) (dnext m elem) m"

subsection \<open>Iterators\<close>

text \<open>\<open>RcuDlistIter\<close> and \<open>RcuDlistRIter\<close> hold one pointer, the safe iterators two.\<close>

type_synonym 'a iter = "'a option"

record 'a safeIter =
  pos :: "'a option"
  ahead :: "'a option"

definition rcuDlistBegin :: "'a \<Rightarrow> 'a dmem \<Rightarrow> 'a iter" where
  "rcuDlistBegin l m = dnext m l"

definition rcuDlistIsEnd :: "'a iter \<Rightarrow> 'a \<Rightarrow> bool" where
  "rcuDlistIsEnd it l \<longleftrightarrow> it = Some l"

definition rcuDlistAdvance :: "'a iter \<Rightarrow> 'a dmem \<Rightarrow> 'a iter option" where
  "rcuDlistAdvance it m = do { p \<leftarrow> it; Some (dnext m p) }"

definition rcuDlistRBegin :: "'a \<Rightarrow> 'a dmem \<Rightarrow> 'a iter" where
  "rcuDlistRBegin l m = dprev m l"

definition rcuDlistIsREnd :: "'a iter \<Rightarrow> 'a \<Rightarrow> bool" where
  "rcuDlistIsREnd it l \<longleftrightarrow> it = Some l"

definition rcuDlistRAdvance :: "'a iter \<Rightarrow> 'a dmem \<Rightarrow> 'a iter option" where
  "rcuDlistRAdvance it m = do { p \<leftarrow> it; Some (dprev m p) }"

definition rcuDlistRGetHead :: "'a iter \<Rightarrow> 'a option" where
  "rcuDlistRGetHead it = it"

definition rcuDlistSafeBegin :: "'a \<Rightarrow> 'a dmem \<Rightarrow> 'a safeIter option" where
  "rcuDlistSafeBegin l m = do { p \<leftarrow> dnext m l; Some \<lparr>pos = Some p, ahead = dnext m p\<rparr> }"

definition rcuDlistSafeIsEnd :: "'a safeIter \<Rightarrow> 'a \<Rightarrow> bool" where
  "rcuDlistSafeIsEnd it l \<longleftrightarrow> pos it = Some l"

definition rcuDlistSafeAdvance :: "'a safeIter \<Rightarrow> 'a dmem \<Rightarrow> 'a safeIter option" where
  "rcuDlistSafeAdvance it m = do { p \<leftarrow> ahead it; Some \<lparr>pos = Some p, ahead = dnext m p\<rparr> }"

definition rcuDlistSafeGetHead :: "'a safeIter \<Rightarrow> 'a option" where
  "rcuDlistSafeGetHead it = pos it"

definition rcuDlistSafeRemoveIt :: "'a safeIter \<Rightarrow> 'a dmem \<Rightarrow> 'a dmem option" where
  "rcuDlistSafeRemoveIt it m = do { p \<leftarrow> pos it; rcuDlistRemove p m }"

definition rcuDlistSafeRBegin :: "'a \<Rightarrow> 'a dmem \<Rightarrow> 'a safeIter option" where
  "rcuDlistSafeRBegin l m = do { p \<leftarrow> dprev m l; Some \<lparr>pos = Some p, ahead = dprev m p\<rparr> }"

definition rcuDlistSafeRIsEnd :: "'a safeIter \<Rightarrow> 'a \<Rightarrow> bool" where
  "rcuDlistSafeRIsEnd it l \<longleftrightarrow> pos it = Some l"

definition rcuDlistSafeRAdvance :: "'a safeIter \<Rightarrow> 'a dmem \<Rightarrow> 'a safeIter option" where
  "rcuDlistSafeRAdvance it m = do { p \<leftarrow> ahead it; Some \<lparr>pos = Some p, ahead = dprev m p\<rparr> }"

definition rcuDlistSafeRIterGetHead :: "'a safeIter \<Rightarrow> 'a option" where
  "rcuDlistSafeRIterGetHead it = pos it"

definition rcuDlistSafeRRemoveIt :: "'a safeIter \<Rightarrow> 'a dmem \<Rightarrow> 'a dmem option" where
  "rcuDlistSafeRRemoveIt it m = do { p \<leftarrow> pos it; rcuDlistRemove p m }"

subsection \<open>Loops over a list\<close>

text \<open>\<open>for (it = begin; !isEnd(it); advance(it)) visit(head(it))\<close>, forwards and backwards.\<close>

partial_function (option) visitFrom :: "'a iter \<Rightarrow> 'a \<Rightarrow> 'a dmem \<Rightarrow> 'a list option" where
  "visitFrom it l m =
     (if rcuDlistIsEnd it l then Some []
      else do { x \<leftarrow> it; it \<leftarrow> rcuDlistAdvance it m; xs \<leftarrow> visitFrom it l m; Some (x # xs) })"

partial_function (option) visitRFrom :: "'a iter \<Rightarrow> 'a \<Rightarrow> 'a dmem \<Rightarrow> 'a list option" where
  "visitRFrom it l m =
     (if rcuDlistIsREnd it l then Some []
      else do { x \<leftarrow> rcuDlistRGetHead it; it \<leftarrow> rcuDlistRAdvance it m; xs \<leftarrow> visitRFrom it l m; Some (x # xs) })"

text \<open>The same with the safe iterator, removing the elements that satisfy a predicate on the way.\<close>

partial_function (option) sweepFrom :: "'a safeIter \<Rightarrow> 'a \<Rightarrow> ('a \<Rightarrow> bool) \<Rightarrow> 'a dmem \<Rightarrow> ('a list \<times> 'a dmem) option" where
  "sweepFrom it l P m =
     (if rcuDlistSafeIsEnd it l then Some ([], m)
      else do {
        x \<leftarrow> rcuDlistSafeGetHead it;
        m \<leftarrow> (if P x then rcuDlistSafeRemoveIt it m else Some m);
        it \<leftarrow> rcuDlistSafeAdvance it m;
        (xs, m) \<leftarrow> sweepFrom it l P m;
        Some (x # xs, m)
      })"

partial_function (option) sweepRFrom :: "'a safeIter \<Rightarrow> 'a \<Rightarrow> ('a \<Rightarrow> bool) \<Rightarrow> 'a dmem \<Rightarrow> ('a list \<times> 'a dmem) option" where
  "sweepRFrom it l P m =
     (if rcuDlistSafeRIsEnd it l then Some ([], m)
      else do {
        x \<leftarrow> rcuDlistSafeRIterGetHead it;
        m \<leftarrow> (if P x then rcuDlistSafeRRemoveIt it m else Some m);
        it \<leftarrow> rcuDlistSafeRAdvance it m;
        (xs, m) \<leftarrow> sweepRFrom it l P m;
        Some (x # xs, m)
      })"

subsection \<open>Rings\<close>

text \<open>\<open>ring nx l xs\<close>: from \<open>l\<close> through \<open>xs\<close> and back to \<open>l\<close>.\<close>

abbreviation ring :: "('a \<Rightarrow> 'a option) \<Rightarrow> 'a \<Rightarrow> 'a list \<Rightarrow> bool" where
  "ring nx l xs \<equiv> chain nx (nx l) xs (Some l)"

definition dlist :: "'a dmem \<Rightarrow> 'a \<Rightarrow> 'a list \<Rightarrow> bool" where
  "dlist m l xs \<longleftrightarrow> distinct (l # xs) \<and> ring (dnext m) l xs \<and> ring (dprev m) l (rev xs)"

lemma chain_hd: "chain nx p zs (Some l) \<Longrightarrow> p = Some (hd (zs @ [l]))"
  by (cases zs) auto

lemma chain_start: "chain nx p zs (Some l) \<Longrightarrow> chain nx (Some (hd (zs @ [l]))) zs (Some l)"
  by (cases zs) auto

lemma ring_next: "ring nx l (ys @ zs) \<Longrightarrow> nx (last (l # ys)) = Some (hd (zs @ [l]))"
  by (cases ys rule: rev_cases) (auto dest: chain_hd)

lemma ring_insert:
  assumes "ring nx l (ys @ zs)" "distinct (l # ys @ zs)" "e \<notin> set (l # ys @ zs)"
  shows "ring (nx(e := Some (hd (zs @ [l])), last (l # ys) := Some e)) l (ys @ e # zs)"
proof (cases ys rule: rev_cases)
  case Nil
  then show ?thesis using assms by (auto dest: chain_hd chain_start)
next
  case (snoc us u)
  then show ?thesis using assms by (auto dest: chain_hd chain_start)
qed

lemma ring_remove:
  assumes "ring nx l (ys @ x # zs)" "distinct (l # ys @ x # zs)"
  shows "ring (nx(last (l # ys) := Some (hd (zs @ [l])))) l (ys @ zs)"
proof (cases ys rule: rev_cases)
  case Nil
  then show ?thesis using assms by (auto dest: chain_hd chain_start)
next
  case (snoc us u)
  then show ?thesis using assms by (auto dest: chain_hd chain_start)
qed

lemma hd_rev_snoc: "hd (rev ys @ [l]) = last (l # ys)"
  by (cases ys rule: rev_cases) auto

lemma last_cons_rev: "last (l # rev zs) = hd (zs @ [l])"
  by (cases zs) auto

subsection \<open>What the operations do to a ring\<close>

lemma dlist_distinct: "dlist m l xs \<Longrightarrow> distinct (l # xs)"
  by (simp add: dlist_def)

lemma dlist_links:
  assumes "dlist m l (ys @ zs)"
  shows "dnext m (last (l # ys)) = Some (hd (zs @ [l]))" "dprev m (hd (zs @ [l])) = Some (last (l # ys))"
proof -
  show "dnext m (last (l # ys)) = Some (hd (zs @ [l]))"
    using assms ring_next [of "dnext m" l ys zs] by (simp add: dlist_def)
  show "dprev m (hd (zs @ [l])) = Some (last (l # ys))"
    using assms ring_next [of "dprev m" l "rev zs" "rev ys"]
    by (simp add: dlist_def last_cons_rev hd_rev_snoc del: last.simps)
qed

text \<open>The four stores that link \<open>e\<close> between two neighbours, and the two that unlink one.\<close>

definition linkStores :: "'a \<Rightarrow> 'a \<Rightarrow> 'a \<Rightarrow> 'a devent list" where
  "linkStores a b e = [DNext e (Some b), DPrev e (Some a), DNext a (Some e), DPrev b (Some e)]"

definition unlinkStores :: "'a \<Rightarrow> 'a \<Rightarrow> 'a devent list" where
  "unlinkStores a b = [DNext a (Some b), DPrev b (Some a)]"

lemma link_ring:
  assumes "dlist m l (ys @ zs)" "e \<notin> set (l # ys @ zs)"
  shows "dlist (fold store (linkStores (last (l # ys)) (hd (zs @ [l])) e) m) l (ys @ e # zs)"
proof -
  let ?a = "last (l # ys)" and ?b = "hd (zs @ [l])"
  have d: "distinct (l # ys @ zs)" "ring (dnext m) l (ys @ zs)" "ring (dprev m) l (rev zs @ rev ys)"
    using assms(1) by (simp_all add: dlist_def)
  have "ring ((dnext m)(e := Some ?b, ?a := Some e)) l (ys @ e # zs)"
    by (rule ring_insert [OF d(2,1) assms(2)])
  moreover have "ring ((dprev m)(e := Some ?a, ?b := Some e)) l (rev zs @ e # rev ys)"
  proof -
    have *: "distinct (l # rev zs @ rev ys)" "e \<notin> set (l # rev zs @ rev ys)" using d(1) assms(2) by auto
    show ?thesis using ring_insert [OF d(3) *] by (simp only: last_cons_rev hd_rev_snoc)
  qed
  moreover have "distinct (l # ys @ e # zs)" using d(1) assms(2) by auto
  ultimately show ?thesis by (simp add: dlist_def linkStores_def del: last.simps)
qed

lemma unlink_ring:
  assumes "dlist m l (ys @ x # zs)"
  shows "dlist (fold store (unlinkStores (last (l # ys)) (hd (zs @ [l]))) m) l (ys @ zs)"
proof -
  let ?a = "last (l # ys)" and ?b = "hd (zs @ [l])"
  have d: "distinct (l # ys @ x # zs)" "ring (dnext m) l (ys @ x # zs)" "ring (dprev m) l (rev zs @ x # rev ys)"
    using assms(1) by (simp_all add: dlist_def)
  have "ring ((dnext m)(?a := Some ?b)) l (ys @ zs)" by (rule ring_remove [OF d(2,1)])
  moreover have "ring ((dprev m)(?b := Some ?a)) l (rev zs @ rev ys)"
  proof -
    have *: "distinct (l # rev zs @ x # rev ys)" using d(1) by auto
    show ?thesis using ring_remove [OF d(3) *] by (simp only: last_cons_rev hd_rev_snoc)
  qed
  ultimately show ?thesis using d(1) by (simp add: dlist_def unlinkStores_def del: last.simps)
qed

lemma rcuDlistInsertAfter_eq:
  assumes "dlist m l (ys @ zs)" "e \<notin> set (l # ys @ zs)"
  shows "rcuDlistInsertAfter (last (l # ys)) e m = Some (fold store (linkStores (last (l # ys)) (hd (zs @ [l])) e) m)"
  using dlist_links(1) [OF assms(1)]
  by (simp add: rcuDlistInsertAfter_def rcuDlistAddBetween_def linkStores_def Let_def del: last.simps)

lemma rcuDlistInsertBefore_eq:
  assumes "dlist m l (ys @ zs)" "e \<notin> set (l # ys @ zs)"
  shows "rcuDlistInsertBefore (hd (zs @ [l])) e m = Some (fold store (linkStores (last (l # ys)) (hd (zs @ [l])) e) m)"
  using dlist_links(2) [OF assms(1)]
  by (simp add: rcuDlistInsertBefore_def rcuDlistAddBetween_def linkStores_def Let_def del: last.simps)

lemma rcuDlistRemove_eq:
  assumes "dlist m l (ys @ x # zs)"
  shows "rcuDlistRemove x m = Some (fold store (unlinkStores (last (l # ys)) (hd (zs @ [l]))) m)"
proof -
  have "dprev m x = Some (last (l # ys))" using dlist_links(2) [of m l ys "x # zs"] assms by simp
  moreover have "dnext m x = Some (hd (zs @ [l]))" using dlist_links(1) [of m l "ys @ [x]" zs] assms by simp
  ultimately show ?thesis
    by (simp add: rcuDlistRemove_def rcuDlistRemoveBetween_def unlinkStores_def del: last.simps)
qed

lemma visitFrom_ring:
  "chain (dnext m) p xs (Some l) \<Longrightarrow> l \<notin> set xs \<Longrightarrow> visitFrom p l m = Some xs"
  by (induction xs arbitrary: p)
    (auto simp: visitFrom.simps rcuDlistIsEnd_def rcuDlistAdvance_def)

lemma visitRFrom_ring:
  "chain (dprev m) p xs (Some l) \<Longrightarrow> l \<notin> set xs \<Longrightarrow> visitRFrom p l m = Some xs"
  by (induction xs arbitrary: p)
    (auto simp: visitRFrom.simps rcuDlistIsREnd_def rcuDlistRAdvance_def rcuDlistRGetHead_def)

text \<open>
  \<open>unlinks l P m xs es m' xs'\<close>: the stores \<open>es\<close> unlink some elements that satisfy \<open>P\<close> from the ring \<open>xs\<close>
  one after another, and leave \<open>xs'\<close>.
\<close>

inductive unlinks :: "'a \<Rightarrow> ('a \<Rightarrow> bool) \<Rightarrow> 'a dmem \<Rightarrow> 'a list \<Rightarrow> 'a devent list \<Rightarrow> 'a dmem \<Rightarrow> 'a list \<Rightarrow> bool" for l P where
  unlinked: "dlist m l xs \<Longrightarrow> unlinks l P m xs [] m xs"
| unlink: "dlist m l (ys @ x # zs) \<Longrightarrow> P x \<Longrightarrow>
    unlinks l P (fold store (unlinkStores (last (l # ys)) (hd (zs @ [l]))) m) (ys @ zs) es m' xs' \<Longrightarrow>
    unlinks l P m (ys @ x # zs) (unlinkStores (last (l # ys)) (hd (zs @ [l])) @ es) m' xs'"

lemma store_trace: "dtrace (fold store es m) = dtrace m @ es"
proof (induction es arbitrary: m)
  case (Cons e es)
  then show ?case by (cases e) simp_all
qed simp

lemma unlinks_result: "unlinks l P m xs es m' xs' \<Longrightarrow> m' = fold store es m \<and> dlist m l xs \<and> dlist m' l xs'"
  by (induction rule: unlinks.induct) (auto simp: fold_append)

lemma unlinks_dlist: "unlinks l P m xs es m' xs' \<Longrightarrow> dlist m' l xs'"
  by (simp add: unlinks_result)

lemma unlink_one:
  assumes "dlist m l (ys @ x # xs)"
  shows "\<exists>m1. (if P x then rcuDlistRemove x m else Some m) = Some m1 \<and> dlist m1 l ((ys @ filter (\<lambda>x. \<not> P x) [x]) @ xs)
    \<and> (\<forall>es m' xs'. unlinks l P m1 ((ys @ filter (\<lambda>x. \<not> P x) [x]) @ xs) es m' xs' \<longrightarrow>
        (\<exists>es. unlinks l P m (ys @ x # xs) es m' xs'))"
proof (cases "P x")
  case True
  let ?m1 = "fold store (unlinkStores (last (l # ys)) (hd (xs @ [l]))) m"
  have "\<exists>es. unlinks l P m (ys @ x # xs) es m' xs'" if "unlinks l P ?m1 (ys @ xs) es m' xs'" for es m' xs'
    using unlink [OF assms True that] by (rule exI)
  then show ?thesis using True rcuDlistRemove_eq [OF assms] unlink_ring [OF assms]
    by (intro exI [of _ ?m1]) (simp del: last.simps)
next
  case False
  then show ?thesis using assms by auto
qed

text \<open>A whole sweep with a safe iterator, forwards and backwards.\<close>

lemma sweepFrom_ring:
  assumes "dlist m l (ys @ xs)" and "xs \<noteq> [] \<longrightarrow> a = Some (hd (tl xs @ [l]))"
  shows "\<exists>m' es. sweepFrom \<lparr>pos = Some (hd (xs @ [l])), ahead = a\<rparr> l P m = Some (xs, m')
    \<and> unlinks l P m (ys @ xs) es m' (ys @ filter (\<lambda>x. \<not> P x) xs)"
  using assms
proof (induction xs arbitrary: ys m a)
  case Nil
  then show ?case by (auto simp: sweepFrom.simps rcuDlistSafeIsEnd_def intro: unlinked)
next
  case (Cons x xs)
  let ?ys = "ys @ filter (\<lambda>x. \<not> P x) [x]"
  have xl: "x \<noteq> l" using dlist_distinct [OF Cons.prems(1)] by auto
  obtain m1 where m1: "(if P x then rcuDlistRemove x m else Some m) = Some m1" "dlist m1 l (?ys @ xs)"
    and un: "\<And>es m' xs'. unlinks l P m1 (?ys @ xs) es m' xs' \<Longrightarrow> \<exists>es. unlinks l P m (ys @ x # xs) es m' xs'"
    using unlink_one [OF Cons.prems(1), of P] by blast
  have "xs \<noteq> [] \<longrightarrow> dnext m1 (hd (xs @ [l])) = Some (hd (tl xs @ [l]))"
    using dlist_links(1) [of m1 l "?ys @ [hd xs]" "tl xs"] m1(2) by (cases xs) simp_all
  then obtain m2 es where m2: "sweepFrom \<lparr>pos = Some (hd (xs @ [l])), ahead = dnext m1 (hd (xs @ [l]))\<rparr> l P m1 = Some (xs, m2)"
    "unlinks l P m1 (?ys @ xs) es m2 (?ys @ filter (\<lambda>x. \<not> P x) xs)"
    using Cons.IH [OF m1(2)] by blast
  have "a = Some (hd (xs @ [l]))" using Cons.prems(2) by simp
  then have "sweepFrom \<lparr>pos = Some x, ahead = a\<rparr> l P m = Some (x # xs, m2)"
    using m1(1) m2(1) xl by (subst sweepFrom.simps)
      (simp add: rcuDlistSafeIsEnd_def rcuDlistSafeGetHead_def rcuDlistSafeRemoveIt_def rcuDlistSafeAdvance_def
        cong: if_cong)
  then show ?case using un [OF m2(2)] by (cases "P x") simp_all
qed

lemma sweepRFrom_ring:
  assumes "dlist m l (rev xs @ ys)" and "xs \<noteq> [] \<longrightarrow> a = Some (hd (tl xs @ [l]))"
  shows "\<exists>m' es. sweepRFrom \<lparr>pos = Some (hd (xs @ [l])), ahead = a\<rparr> l P m = Some (xs, m')
    \<and> unlinks l P m (rev xs @ ys) es m' (rev (filter (\<lambda>x. \<not> P x) xs) @ ys)"
  using assms
proof (induction xs arbitrary: ys m a)
  case Nil
  then show ?case by (auto simp: sweepRFrom.simps rcuDlistSafeRIsEnd_def intro: unlinked)
next
  case (Cons x xs)
  let ?ys = "filter (\<lambda>x. \<not> P x) [x] @ ys"
  have dl: "dlist m l (rev xs @ x # ys)" using Cons.prems(1) by simp
  have xl: "x \<noteq> l" using dlist_distinct [OF dl] by auto
  obtain m1 where m1: "(if P x then rcuDlistRemove x m else Some m) = Some m1" "dlist m1 l (rev xs @ ?ys)"
    and un: "\<And>es m' xs'. unlinks l P m1 (rev xs @ ?ys) es m' xs' \<Longrightarrow> \<exists>es. unlinks l P m (rev xs @ x # ys) es m' xs'"
    using unlink_one [OF dl, of P] unfolding append_assoc by blast
  have "xs \<noteq> [] \<longrightarrow> dprev m1 (hd (xs @ [l])) = Some (hd (tl xs @ [l]))"
    using dlist_links(2) [of m1 l "rev (tl xs)" "hd xs # ?ys"] m1(2) by (cases xs) (simp_all add: last_cons_rev del: last.simps)
  then obtain m2 es where m2: "sweepRFrom \<lparr>pos = Some (hd (xs @ [l])), ahead = dprev m1 (hd (xs @ [l]))\<rparr> l P m1 = Some (xs, m2)"
    "unlinks l P m1 (rev xs @ ?ys) es m2 (rev (filter (\<lambda>x. \<not> P x) xs) @ ?ys)"
    using Cons.IH [OF m1(2)] by blast
  have "a = Some (hd (xs @ [l]))" using Cons.prems(2) by simp
  then have "sweepRFrom \<lparr>pos = Some x, ahead = a\<rparr> l P m = Some (x # xs, m2)"
    using m1(1) m2(1) xl by (subst sweepRFrom.simps)
      (simp add: rcuDlistSafeRIsEnd_def rcuDlistSafeRIterGetHead_def rcuDlistSafeRRemoveIt_def rcuDlistSafeRAdvance_def
        cong: if_cong)
  then show ?case using un [OF m2(2)] by (cases "P x") simp_all
qed

lemma sweep_unlinks:
  assumes "dlist m l xs"
  shows "\<exists>it m' es. rcuDlistSafeBegin l m = Some it \<and> sweepFrom it l P m = Some (xs, m')
      \<and> unlinks l P m xs es m' (filter (\<lambda>x. \<not> P x) xs)"
    and "\<exists>it m' es. rcuDlistSafeRBegin l m = Some it \<and> sweepRFrom it l P m = Some (rev xs, m')
      \<and> unlinks l P m xs es m' (filter (\<lambda>x. \<not> P x) xs)"
proof -
  have f: "dnext m l = Some (hd (xs @ [l]))" and b: "dprev m l = Some (hd (rev xs @ [l]))"
    using dlist_links(1) [of m l "[]" xs] dlist_links(2) [of m l xs "[]"] assms
    by (simp_all add: hd_rev_snoc del: last.simps) simp
  have fn: "xs \<noteq> [] \<longrightarrow> dnext m (hd (xs @ [l])) = Some (hd (tl xs @ [l]))"
    using dlist_links(1) [of m l "[hd xs]" "tl xs"] assms by (cases xs) simp_all
  have bn: "rev xs \<noteq> [] \<longrightarrow> dprev m (hd (rev xs @ [l])) = Some (hd (tl (rev xs) @ [l]))"
    using dlist_links(2) [of m l "butlast xs" "[last xs]"] assms
    by (cases xs rule: rev_cases) (simp, simp add: hd_rev_snoc del: last.simps)
  show "\<exists>it m' es. rcuDlistSafeBegin l m = Some it \<and> sweepFrom it l P m = Some (xs, m')
      \<and> unlinks l P m xs es m' (filter (\<lambda>x. \<not> P x) xs)"
    using sweepFrom_ring [of m l "[]" xs "dnext m (hd (xs @ [l]))" P] assms f fn by (simp add: rcuDlistSafeBegin_def)
  show "\<exists>it m' es. rcuDlistSafeRBegin l m = Some it \<and> sweepRFrom it l P m = Some (rev xs, m')
      \<and> unlinks l P m xs es m' (filter (\<lambda>x. \<not> P x) xs)"
    using sweepRFrom_ring [of m l "rev xs" "[]" "dprev m (hd (rev xs @ [l]))" P] assms b bn
    by (simp add: rcuDlistSafeRBegin_def rev_filter)
qed

subsection \<open>What concurrent readers see\<close>

definition dshows :: "'a dmem \<Rightarrow> 'a devent list \<Rightarrow> 'a \<Rightarrow> 'a list \<Rightarrow> 'a list \<Rightarrow> bool" where
  "dshows m es l xs xs' \<longleftrightarrow> (\<forall>k \<le> length es. let mk = fold store (take k es) m in
     visitFrom (rcuDlistBegin l mk) l mk \<in> {Some xs, Some xs'}
     \<and> visitRFrom (rcuDlistRBegin l mk) l mk \<in> {Some (rev xs), Some (rev xs')})"

lemma visit_ring:
  assumes "l \<notin> set xs"
  shows "ring (dnext m) l xs \<Longrightarrow> visitFrom (rcuDlistBegin l m) l m = Some xs"
    and "ring (dprev m) l (rev xs) \<Longrightarrow> visitRFrom (rcuDlistRBegin l m) l m = Some (rev xs)"
  using visitFrom_ring [of m "dnext m l" xs l] visitRFrom_ring [of m "dprev m l" "rev xs" l] assms
  by (simp_all add: rcuDlistBegin_def rcuDlistRBegin_def)

lemma dshows_from_rings:
  assumes l: "l \<notin> set xs" "l \<notin> set xs'"
    and f: "\<And>k. k \<le> length es \<Longrightarrow> ring (dnext (fold store (take k es) m)) l xs \<or> ring (dnext (fold store (take k es) m)) l xs'"
    and b: "\<And>k. k \<le> length es \<Longrightarrow> ring (dprev (fold store (take k es) m)) l (rev xs) \<or> ring (dprev (fold store (take k es) m)) l (rev xs')"
  shows "dshows m es l xs xs'"
  unfolding dshows_def Let_def
  using visit_ring(1) [OF l(1)] visit_ring(1) [OF l(2)] visit_ring(2) [OF l(1)] visit_ring(2) [OF l(2)] f b by blast

lemma link_dshows:
  assumes "dlist m l (ys @ zs)" "e \<notin> set (l # ys @ zs)"
  shows "dshows m (linkStores (last (l # ys)) (hd (zs @ [l])) e) l (ys @ zs) (ys @ e # zs)"
proof -
  let ?a = "last (l # ys)" and ?b = "hd (zs @ [l])"
  have old: "ring (dnext m) l (ys @ zs)" "ring (dprev m) l (rev (ys @ zs))" and d: "distinct (l # ys @ zs)"
    using assms(1) by (simp_all add: dlist_def)
  have new: "dlist (fold store (linkStores ?a ?b e) m) l (ys @ e # zs)" by (rule link_ring [OF assms])
  then have n: "ring ((dnext m)(e := Some ?b, ?a := Some e)) l (ys @ e # zs)"
    "ring ((dprev m)(e := Some ?a, ?b := Some e)) l (rev (ys @ e # zs))"
    by (simp_all add: dlist_def linkStores_def del: last.simps rev_append)
  have o: "ring ((dnext m)(e := v)) l (ys @ zs)" "ring ((dprev m)(e := v)) l (rev (ys @ zs))" for v
    using old assms(2) chain_upd [of e "ys @ zs" "dnext m" v "dnext m l" "Some l"]
      chain_upd [of e "rev (ys @ zs)" "dprev m" v "dprev m l" "Some l"]
    by (auto simp del: chain_append chain_upd)
  show ?thesis
  proof (rule dshows_from_rings)
    fix k
    assume "k \<le> length (linkStores ?a ?b e)"
    then have k: "k = 0 \<or> k = 1 \<or> k = 2 \<or> k = 3 \<or> k = 4" by (auto simp: linkStores_def)
    let ?m = "fold store (take k (linkStores ?a ?b e)) m"
    show "ring (dnext ?m) l (ys @ zs) \<or> ring (dnext ?m) l (ys @ e # zs)"
      using k old(1) n(1) o(1) by (elim disjE) (simp_all add: linkStores_def del: last.simps chain_append)
    show "ring (dprev ?m) l (rev (ys @ zs)) \<or> ring (dprev ?m) l (rev (ys @ e # zs))"
      using k old(2) n(2) o(2) by (elim disjE) (simp_all add: linkStores_def del: last.simps chain_append rev_append)
  qed (use d assms(2) in auto)
qed

lemma unlink_dshows:
  assumes "dlist m l (ys @ x # zs)"
  shows "dshows m (unlinkStores (last (l # ys)) (hd (zs @ [l]))) l (ys @ x # zs) (ys @ zs)"
proof -
  let ?a = "last (l # ys)" and ?b = "hd (zs @ [l])"
  have old: "ring (dnext m) l (ys @ x # zs)" "ring (dprev m) l (rev (ys @ x # zs))" and d: "distinct (l # ys @ x # zs)"
    using assms(1) by (simp_all add: dlist_def)
  have new: "dlist (fold store (unlinkStores ?a ?b) m) l (ys @ zs)" by (rule unlink_ring [OF assms])
  then have n: "ring ((dnext m)(?a := Some ?b)) l (ys @ zs)" "ring ((dprev m)(?b := Some ?a)) l (rev (ys @ zs))"
    by (simp_all add: dlist_def unlinkStores_def del: last.simps rev_append)
  show ?thesis
  proof (rule dshows_from_rings)
    fix k
    assume "k \<le> length (unlinkStores ?a ?b)"
    then have k: "k = 0 \<or> k = 1 \<or> k = 2" by (auto simp: unlinkStores_def)
    let ?m = "fold store (take k (unlinkStores ?a ?b)) m"
    show "ring (dnext ?m) l (ys @ x # zs) \<or> ring (dnext ?m) l (ys @ zs)"
      using k old(1) n(1) by (elim disjE) (simp_all add: unlinkStores_def del: last.simps chain_append)
    show "ring (dprev ?m) l (rev (ys @ x # zs)) \<or> ring (dprev ?m) l (rev (ys @ zs))"
      using k old(2) n(2) by (elim disjE) (simp_all add: unlinkStores_def del: last.simps chain_append rev_append)
  qed (use d in auto)
qed

subsection \<open>Properties\<close>

text \<open>The ring 1, 2, 3 behind the head 0.\<close>

definition exRing :: "nat dmem" where
  "exRing = \<lparr>dnext = [0 \<mapsto> 1, 1 \<mapsto> 2, 2 \<mapsto> 3, 3 \<mapsto> 0], dprev = [0 \<mapsto> 3, 3 \<mapsto> 2, 2 \<mapsto> 1, 1 \<mapsto> 0], dtrace = []\<rparr>"

lemma exRing_dlist: "dlist exRing 0 [1, 2, 3]"
  by (simp add: dlist_def exRing_def)

text \<open>
  C35.  \<open>rcuDlistInsertAfter\<close> and \<open>rcuDlistInsertBefore\<close> on any position of a ring link the new
  element there; after every one of the four stores a forward traversal and a backward traversal
  each end and find the old list or the new one.  \<open>rcuDlistPrepend\<close> and \<open>rcuDlistAppend\<close> are the
  two ends.
\<close>

theorem dlistInsert_atomic:
  assumes "dlist m l (ys @ zs)" and "e \<notin> set (l # ys @ zs)"
  shows "\<exists>m' es. rcuDlistInsertAfter (last (l # ys)) e m = Some m' \<and> rcuDlistInsertBefore (hd (zs @ [l])) e m = Some m'
    \<and> m' = fold store es m \<and> dlist m' l (ys @ e # zs) \<and> dshows m es l (ys @ zs) (ys @ e # zs)
    \<and> (ys = [] \<longrightarrow> rcuDlistPrepend l e m = Some m') \<and> (zs = [] \<longrightarrow> rcuDlistAppend l e m = Some m')"
proof -
  let ?es = "linkStores (last (l # ys)) (hd (zs @ [l])) e"
  have "ys = [] \<longrightarrow> rcuDlistPrepend l e m = Some (fold store ?es m)"
    using rcuDlistInsertAfter_eq [OF assms] by (auto simp: rcuDlistPrepend_def)
  moreover have "zs = [] \<longrightarrow> rcuDlistAppend l e m = Some (fold store ?es m)"
    using rcuDlistInsertBefore_eq [OF assms] by (auto simp: rcuDlistAppend_def simp del: last.simps)
  ultimately show ?thesis
    using rcuDlistInsertAfter_eq [OF assms] rcuDlistInsertBefore_eq [OF assms] link_ring [OF assms] link_dshows [OF assms]
    by blast
qed

theorem dlistInsert_atomic_witness:
  "\<exists>m'. rcuDlistAppend 0 7 exRing = Some m' \<and> dlist m' 0 [1, 2, 3, 7]"
  using dlistInsert_atomic [of exRing 0 "[1, 2, 3]" "[]" 7] exRing_dlist by auto

text \<open>
  C36.  \<open>rcuDlistRemove\<close> unlinks an element of a ring with two stores; traversals in both directions
  find the list with it or without it after each of them, and the element keeps both of its own
  pointers, so that a reader standing on it goes on.
\<close>

theorem dlistRemove_atomic:
  assumes "dlist m l (ys @ x # zs)"
  shows "\<exists>m' es. rcuDlistRemove x m = Some m' \<and> m' = fold store es m \<and> dlist m' l (ys @ zs)
    \<and> dshows m es l (ys @ x # zs) (ys @ zs) \<and> dnext m' x = dnext m x \<and> dprev m' x = dprev m x"
proof -
  let ?es = "unlinkStores (last (l # ys)) (hd (zs @ [l]))"
  have "distinct (l # ys @ x # zs)" using assms by (simp add: dlist_def)
  then have "x \<notin> set (l # ys)" "x \<notin> set (zs @ [l])" by auto
  moreover have "last (l # ys) \<in> set (l # ys)" "hd (zs @ [l]) \<in> set (zs @ [l])"
    by (rule last_in_set, simp) (rule hd_in_set, simp)
  ultimately have "last (l # ys) \<noteq> x" "hd (zs @ [l]) \<noteq> x" by metis+
  then have "dnext (fold store ?es m) x = dnext m x" "dprev (fold store ?es m) x = dprev m x"
    by (simp_all add: unlinkStores_def del: last.simps)
  then show ?thesis using rcuDlistRemove_eq [OF assms] unlink_ring [OF assms] unlink_dshows [OF assms] by blast
qed

theorem dlistRemove_atomic_witness:
  "\<exists>m'. rcuDlistRemove 2 exRing = Some m' \<and> dlist m' 0 [1, 3] \<and> dnext m' 2 = Some 3"
  using dlistRemove_atomic [of exRing 0 "[1]" 2 "[3]"] exRing_dlist by (auto simp: exRing_def)

text \<open>
  A loop with the forward iterator ends and visits the elements of a ring in order, one with the
  reverse iterator visits them in reverse order; the list is empty exactly when \<open>rcuDlistEmpty\<close>
  says so.
\<close>

theorem dlistVisit_all:
  assumes "dlist m l xs"
  shows "visitFrom (rcuDlistBegin l m) l m = Some xs \<and> visitRFrom (rcuDlistRBegin l m) l m = Some (rev xs)
    \<and> (rcuDlistEmpty l m \<longleftrightarrow> xs = [])"
proof -
  have "l \<notin> set xs" "ring (dnext m) l xs" "ring (dprev m) l (rev xs)" using assms by (simp_all add: dlist_def)
  moreover from this have "rcuDlistEmpty l m \<longleftrightarrow> xs = []" by (cases xs) (auto simp: rcuDlistEmpty_def)
  ultimately show ?thesis using visit_ring [of l xs m] by blast
qed

theorem dlistVisit_all_witness:
  "visitFrom (rcuDlistBegin 0 exRing) 0 exRing = Some [1, 2, 3] \<and> visitRFrom (rcuDlistRBegin 0 exRing) 0 exRing = Some [3, 2, 1]"
  using dlistVisit_all [OF exRing_dlist] by simp

text \<open>
  A loop with a safe iterator, forward or reverse, that removes the current element whenever it
  satisfies a predicate, still visits every element once and in order, and leaves exactly the
  elements that do not satisfy it.
\<close>

theorem dlistSweep_all:
  assumes "dlist m l xs"
  shows "(\<exists>it m'. rcuDlistSafeBegin l m = Some it \<and> sweepFrom it l P m = Some (xs, m')
      \<and> dlist m' l (filter (\<lambda>x. \<not> P x) xs))
    \<and> (\<exists>it m'. rcuDlistSafeRBegin l m = Some it \<and> sweepRFrom it l P m = Some (rev xs, m')
      \<and> dlist m' l (filter (\<lambda>x. \<not> P x) xs))"
  using sweep_unlinks [OF assms, of P] unlinks_result by metis

theorem dlistSweep_all_witness:
  "\<exists>it m'. rcuDlistSafeBegin 0 exRing = Some it \<and> sweepFrom it 0 even exRing = Some ([1, 2, 3], m')
    \<and> dlist m' 0 [1, 3]"
  using dlistSweep_all [OF exRing_dlist, of even] by simp

end
