(* ===== verification/DlistTest.thy ===== *)
theory DlistTest
  imports Dlist
begin

text \<open>
  The test of the doubly linked list in \<open>RCUTableTests.cpp\<close> (\<open>RcuDlistTest\<close>): elements \<open>0 .. n - 1\<close> are
  appended or prepended, a writer removes the values that are 0 or 1 modulo 8 while readers traverse
  the list and check its values, and the rest is cleared.  The exceptions of the test, in the writer
  and in the readers, are shown never to be thrown.
\<close>

subsection \<open>The writer\<close>

text \<open>\<open>Elem i\<close> is the entry of \<open>myData[i]\<close>, whose \<open>value\<close> is \<open>i\<close>; \<open>Head\<close> is the head of \<open>dlist\<close>.\<close>

datatype dloc = Head | Elem nat

fun elemValue :: "dloc \<Rightarrow> int" where
  "elemValue (Elem i) = int i"
| "elemValue Head = 0"

definition throwUnless :: "bool \<Rightarrow> unit option" where
  "throwUnless b = (if b then Some () else None)"

definition clearAndVerify :: "bool \<Rightarrow> dloc dmem \<Rightarrow> dloc dmem option" where
  "clearAndVerify reversely m =
     do {
       m \<leftarrow> (if \<not> reversely then do {
               it \<leftarrow> rcuDlistSafeBegin Head m;
               (_, m) \<leftarrow> sweepFrom it Head (\<lambda>_. True) m;
               Some m
             } else do {
               it \<leftarrow> rcuDlistSafeRBegin Head m;
               (_, m) \<leftarrow> sweepRFrom it Head (\<lambda>_. True) m;
               Some m
             });
       _ \<leftarrow> throwUnless (rcuDlistEmpty Head m);
       Some m
     }"

definition removable :: "dloc \<Rightarrow> bool" where
  "removable p \<longleftrightarrow> elemValue p mod 8 = 0 \<or> elemValue p mod 8 = 1"

text \<open>The removals that run beside the readers, in \<open>verify\<close> and in \<open>verifyReversed\<close>.\<close>

definition verifyWriter :: "dloc dmem \<Rightarrow> dloc dmem option" where
  "verifyWriter m =
     do { it \<leftarrow> rcuDlistSafeBegin Head m; (_, m) \<leftarrow> sweepFrom it Head removable m; Some m }"

definition verifyReversedWriter :: "dloc dmem \<Rightarrow> dloc dmem option" where
  "verifyReversedWriter m =
     do { it \<leftarrow> rcuDlistSafeRBegin Head m; (_, m) \<leftarrow> sweepRFrom it Head removable m; Some m }"

definition verify :: "bool \<Rightarrow> dloc dmem \<Rightarrow> dloc dmem option" where
  "verify reverseClear m = do { m \<leftarrow> verifyWriter m; clearAndVerify reverseClear m }"

definition verifyReversed :: "bool \<Rightarrow> dloc dmem \<Rightarrow> dloc dmem option" where
  "verifyReversed reverseClear m = do { m \<leftarrow> verifyReversedWriter m; clearAndVerify reverseClear m }"

definition appendAll :: "nat \<Rightarrow> dloc dmem \<Rightarrow> dloc dmem option" where
  "appendAll n = for_range 0 n (\<lambda>i. rcuDlistAppend Head (Elem i))"

definition prependAll :: "nat \<Rightarrow> dloc dmem \<Rightarrow> dloc dmem option" where
  "prependAll n = for_range 0 n (\<lambda>i. rcuDlistPrepend Head (Elem i))"

definition runAppendTest :: "nat \<Rightarrow> dloc dmem \<Rightarrow> dloc dmem option" where
  "runAppendTest n m =
     do { m \<leftarrow> appendAll n m; m \<leftarrow> verify True m; m \<leftarrow> appendAll n m; verify False m }"

definition runPrependTest :: "nat \<Rightarrow> dloc dmem \<Rightarrow> dloc dmem option" where
  "runPrependTest n m =
     do { m \<leftarrow> prependAll n m; m \<leftarrow> verifyReversed True m; m \<leftarrow> prependAll n m; verifyReversed False m }"

definition dlistRun :: "nat \<Rightarrow> dloc dmem \<Rightarrow> dloc dmem option" where
  "dlistRun n m = do { let m = rcuDlistInit Head m; m \<leftarrow> runAppendTest n m; runPrependTest n m }"

subsection \<open>The readers\<close>

text \<open>\<open>verifyElement\<close> returns the new value of \<open>expected\<close>, or throws.\<close>

definition verifyElement :: "int \<Rightarrow> int \<Rightarrow> int option" where
  "verifyElement v expected =
     (let expected = (if expected mod 8 = 0 \<and> v \<noteq> expected then expected + 1 else expected);
          expected = (if expected mod 8 = 1 \<and> v \<noteq> expected then expected + 1 else expected)
      in if v \<noteq> expected then None else Some (expected + 1))"

text \<open>
  A reader stands on the list's head or on an element it has checked, is at the end of a round, has
  thrown, or has dereferenced null.  A step loads the next pointer in its direction and checks the
  element there; after a round it starts again.
\<close>

datatype visitor = Walking dloc int | Ended | Thrown | Crashed

fun visitStep :: "bool \<Rightarrow> dloc dmem \<Rightarrow> visitor \<Rightarrow> visitor" where
  "visitStep forward m (Walking p expected) =
     (case (if forward then dnext m p else dprev m p) of
        None \<Rightarrow> Crashed
      | Some q \<Rightarrow>
          if q = Head then Ended
          else (case verifyElement (elemValue q) expected of None \<Rightarrow> Thrown | Some e \<Rightarrow> Walking q e))"
| "visitStep forward m Ended = Walking Head 0"
| "visitStep forward m v = v"

record dsystem =
  dshared :: "dloc dmem"
  dtodo :: "dloc devent list"
  visitors :: "nat \<Rightarrow> visitor"

datatype daction = DStore | DVisit nat

fun dact :: "bool \<Rightarrow> daction \<Rightarrow> dsystem \<Rightarrow> dsystem option" where
  "dact forward DStore s =
     (case dtodo s of [] \<Rightarrow> None | e # es \<Rightarrow> Some (s\<lparr>dshared := store e (dshared s), dtodo := es\<rparr>))"
| "dact forward (DVisit i) s =
     Some (s\<lparr>visitors := (visitors s)(i := visitStep forward (dshared s) (visitors s i))\<rparr>)"

definition dsysstep :: "bool \<Rightarrow> dsystem \<Rightarrow> dsystem \<Rightarrow> bool" where
  "dsysstep forward s s' \<longleftrightarrow> (\<exists>a. dact forward a s = Some s')"

definition dstart :: "dloc dmem \<Rightarrow> dloc devent list \<Rightarrow> dsystem \<Rightarrow> bool" where
  "dstart m es s \<longleftrightarrow> dshared s = m \<and> dtodo s = es \<and> (\<forall>i. visitors s i = Walking Head 0)"

subsection \<open>The writer never throws\<close>

lemma clearAndVerify_ok:
  assumes "dlist m Head xs"
  shows "\<exists>m'. clearAndVerify r m = Some m' \<and> dlist m' Head []"
proof -
  have e: "dlist m' Head [] \<Longrightarrow> rcuDlistEmpty Head m'" for m' :: "dloc dmem"
    by (simp add: dlist_def rcuDlistEmpty_def)
  obtain it m1 es where f: "rcuDlistSafeBegin Head m = Some it" "sweepFrom it Head (\<lambda>_. True) m = Some (xs, m1)"
    "unlinks Head (\<lambda>_. True) m xs es m1 []" using sweep_unlinks(1) [OF assms, of "\<lambda>_. True"] by auto
  obtain it' m2 es' where b: "rcuDlistSafeRBegin Head m = Some it'" "sweepRFrom it' Head (\<lambda>_. True) m = Some (rev xs, m2)"
    "unlinks Head (\<lambda>_. True) m xs es' m2 []" using sweep_unlinks(2) [OF assms, of "\<lambda>_. True"] by auto
  show ?thesis
    using f(1,2) b(1,2) e unlinks_dlist [OF f(3)] unlinks_dlist [OF b(3)]
    by (cases r) (simp_all add: clearAndVerify_def throwUnless_def)
qed

lemma writer_unlinks:
  assumes "dlist m Head xs"
  shows "\<exists>m' es. verifyWriter m = Some m' \<and> unlinks Head removable m xs es m' (filter (\<lambda>x. \<not> removable x) xs)"
    and "\<exists>m' es. verifyReversedWriter m = Some m' \<and> unlinks Head removable m xs es m' (filter (\<lambda>x. \<not> removable x) xs)"
  using sweep_unlinks [OF assms, of removable] by (auto simp: verifyWriter_def verifyReversedWriter_def)

lemma verify_ok:
  assumes "dlist m Head xs"
  shows "\<exists>m'. verify r m = Some m' \<and> dlist m' Head []" and "\<exists>m'. verifyReversed r m = Some m' \<and> dlist m' Head []"
proof -
  have c: "unlinks Head removable m xs es m' ys \<Longrightarrow> \<exists>m''. clearAndVerify r m' = Some m'' \<and> dlist m'' Head []" for m' es ys
    using unlinks_dlist clearAndVerify_ok by metis
  obtain m1 es1 where w: "verifyWriter m = Some m1" "unlinks Head removable m xs es1 m1 (filter (\<lambda>x. \<not> removable x) xs)"
    using writer_unlinks(1) [OF assms] by blast
  obtain m2 es2 where v: "verifyReversedWriter m = Some m2" "unlinks Head removable m xs es2 m2 (filter (\<lambda>x. \<not> removable x) xs)"
    using writer_unlinks(2) [OF assms] by blast
  show "\<exists>m'. verify r m = Some m' \<and> dlist m' Head []" using c [OF w(2)] w(1) by (simp add: verify_def)
  show "\<exists>m'. verifyReversed r m = Some m' \<and> dlist m' Head []" using c [OF v(2)] v(1) by (simp add: verifyReversed_def)
qed

abbreviation elems :: "nat \<Rightarrow> dloc list" where
  "elems n \<equiv> map Elem [0..<n]"

lemma appendAll_ok:
  assumes "dlist m Head []"
  shows "\<exists>m'. appendAll n m = Some m' \<and> dlist m' Head (elems n)"
  unfolding appendAll_def
proof (rule for_range_rule [where I = "\<lambda>i m. dlist m Head (elems i)"])
  fix i and m :: "dloc dmem"
  assume "dlist m Head (elems i)"
  then have d: "dlist m Head (elems i @ [])" "Elem i \<notin> set (Head # elems i @ [])" by auto
  show "\<exists>m'. rcuDlistAppend Head (Elem i) m = Some m' \<and> dlist m' Head (elems (Suc i))"
    using rcuDlistInsertBefore_eq [OF d] link_ring [OF d] by (simp add: rcuDlistAppend_def del: last.simps)
qed (use assms in simp_all)

lemma prependAll_ok:
  assumes "dlist m Head []"
  shows "\<exists>m'. prependAll n m = Some m' \<and> dlist m' Head (rev (elems n))"
  unfolding prependAll_def
proof (rule for_range_rule [where I = "\<lambda>i m. dlist m Head (rev (elems i))"])
  fix i and m :: "dloc dmem"
  assume "dlist m Head (rev (elems i))"
  then have d: "dlist m Head ([] @ rev (elems i))" "Elem i \<notin> set (Head # [] @ rev (elems i))" by auto
  show "\<exists>m'. rcuDlistPrepend Head (Elem i) m = Some m' \<and> dlist m' Head (rev (elems (Suc i)))"
    using rcuDlistInsertAfter_eq [OF d] link_ring [OF d] by (simp add: rcuDlistPrepend_def)
qed (use assms in simp_all)

lemma dlistRun_ok: "\<exists>m'. dlistRun n m = Some m' \<and> dlist m' Head []"
proof -
  have i: "dlist (rcuDlistInit Head m) Head []" by (simp add: dlist_def rcuDlistInit_def)
  obtain m1 where m1: "appendAll n (rcuDlistInit Head m) = Some m1" "dlist m1 Head (elems n)" using appendAll_ok [OF i] by blast
  obtain m2 where m2: "verify True m1 = Some m2" "dlist m2 Head []" using verify_ok(1) [OF m1(2)] by blast
  obtain m3 where m3: "appendAll n m2 = Some m3" "dlist m3 Head (elems n)" using appendAll_ok [OF m2(2)] by blast
  obtain m4 where m4: "verify False m3 = Some m4" "dlist m4 Head []" using verify_ok(1) [OF m3(2)] by blast
  obtain m5 where m5: "prependAll n m4 = Some m5" "dlist m5 Head (rev (elems n))" using prependAll_ok [OF m4(2)] by blast
  obtain m6 where m6: "verifyReversed True m5 = Some m6" "dlist m6 Head []" using verify_ok(2) [OF m5(2)] by blast
  obtain m7 where m7: "prependAll n m6 = Some m7" "dlist m7 Head (rev (elems n))" using prependAll_ok [OF m6(2)] by blast
  obtain m8 where m8: "verifyReversed False m7 = Some m8" "dlist m8 Head []" using verify_ok(2) [OF m7(2)] by blast
  show ?thesis using m1(1) m2(1) m3(1) m4(1) m5(1) m6(1) m7(1) m8
    by (simp add: dlistRun_def runAppendTest_def runPrependTest_def)
qed

subsection \<open>What the readers meet\<close>

text \<open>\<open>skips P xs l a b\<close>: in the ring \<open>xs\<close> behind \<open>l\<close>, only elements that satisfy \<open>P\<close> lie between \<open>a\<close> and \<open>b\<close>.\<close>

definition skips :: "('a \<Rightarrow> bool) \<Rightarrow> 'a list \<Rightarrow> 'a \<Rightarrow> 'a \<Rightarrow> 'a \<Rightarrow> bool" where
  "skips P xs l a b \<longleftrightarrow> (\<exists>us vs ws. l # xs @ [l] = us @ a # vs @ b # ws \<and> (\<forall>v \<in> set vs. P v))"

lemma skips_rev: "skips P (rev xs) l b a \<longleftrightarrow> skips P xs l a b"
proof -
  have "skips P (rev xs) l b a" if sk: "skips P xs l a b" for xs :: "'a list" and a b
  proof -
    obtain us vs ws where s: "l # xs @ [l] = us @ a # vs @ b # ws" "\<forall>v \<in> set vs. P v"
      using sk unfolding skips_def by blast
    have "l # rev xs @ [l] = rev (l # xs @ [l])" by simp
    also have "\<dots> = rev ws @ b # rev vs @ a # rev us" by (simp only: s(1)) simp
    finally show ?thesis using s(2) unfolding skips_def by fastforce
  qed
  from this [of xs a b] this [of "rev xs" b a] show ?thesis by auto
qed

lemma filter_split:
  "filter Q xs = ys @ zs \<Longrightarrow> \<exists>xs1 xs2. xs = xs1 @ xs2 \<and> ys = filter Q xs1 \<and> zs = filter Q xs2"
proof (induction ys arbitrary: xs)
  case Nil
  then show ?case by (intro exI [of _ "[]"] exI [of _ xs]) simp
next
  case (Cons y ys)
  then obtain us vs where u: "xs = us @ y # vs" "\<forall>u \<in> set us. \<not> Q u" "Q y" "filter Q vs = ys @ zs"
    by (auto dest: filter_eq_ConsD)
  obtain vs1 vs2 where "vs = vs1 @ vs2" "ys = filter Q vs1" "zs = filter Q vs2" using Cons.IH [OF u(4)] by blast
  then show ?case using u by (intro exI [of _ "us @ y # vs1"] exI [of _ vs2]) simp
qed

lemma last_filter: "\<exists>us vs. l # xs = us @ last (l # filter Q xs) # vs \<and> (\<forall>v \<in> set vs. v \<in> set xs \<and> \<not> Q v)"
proof (induction xs rule: rev_induct)
  case Nil
  show ?case by (rule exI [of _ "[]"]) simp
next
  case (snoc x xs)
  then obtain us vs where IH: "l # xs = us @ last (l # filter Q xs) # vs" "\<forall>v \<in> set vs. v \<in> set xs \<and> \<not> Q v" by blast
  show ?case
  proof (cases "Q x")
    case True
    then show ?thesis by (intro exI [of _ "l # xs"] exI [of _ "[]"]) simp
  next
    case False
    have "l # xs @ [x] = us @ last (l # filter Q (xs @ [x])) # vs @ [x]" using IH(1) False by simp
    then show ?thesis using IH(2) False by (intro exI [of _ us] exI [of _ "vs @ [x]"]) auto
  qed
qed

lemma hd_filter: "\<exists>vs ws. xs @ [l] = vs @ hd (filter Q xs @ [l]) # ws \<and> (\<forall>v \<in> set vs. v \<in> set xs \<and> \<not> Q v)"
proof (induction xs)
  case Nil
  show ?case by (rule exI [of _ "[]"]) simp
next
  case (Cons x xs)
  then obtain vs ws where IH: "xs @ [l] = vs @ hd (filter Q xs @ [l]) # ws" "\<forall>v \<in> set vs. v \<in> set xs \<and> \<not> Q v" by blast
  show ?case
  proof (cases "Q x")
    case True
    then show ?thesis by (intro exI [of _ "[]"] exI [of _ "xs @ [l]"]) simp
  next
    case False
    then show ?thesis using IH by (intro exI [of _ "x # vs"] exI [of _ ws]) simp
  qed
qed

lemma filter_skips:
  assumes "filter Q xs = ys @ zs" and "\<And>x. x \<in> set xs \<Longrightarrow> \<not> Q x \<Longrightarrow> P x"
  shows "skips P xs l (last (l # ys)) (hd (zs @ [l]))"
proof -
  obtain xs1 xs2 where xs: "xs = xs1 @ xs2" "ys = filter Q xs1" "zs = filter Q xs2"
    using filter_split [OF assms(1)] by blast
  obtain us vs where 1: "l # xs1 = us @ last (l # ys) # vs" "\<forall>v \<in> set vs. v \<in> set xs1 \<and> \<not> Q v"
    using last_filter [of l xs1 Q] unfolding xs(2) [symmetric] by (elim exE conjE)
  obtain vs' ws where 2: "xs2 @ [l] = vs' @ hd (zs @ [l]) # ws" "\<forall>v \<in> set vs'. v \<in> set xs2 \<and> \<not> Q v"
    using hd_filter [of xs2 l Q] unfolding xs(3) [symmetric] by (elim exE conjE)
  have "l # xs @ [l] = (l # xs1) @ xs2 @ [l]" by (simp add: xs(1))
  also have "\<dots> = us @ last (l # ys) # (vs @ vs') @ hd (zs @ [l]) # ws" by (simp only: 1(1) 2(1)) simp
  finally have eq: "l # xs @ [l] = us @ last (l # ys) # (vs @ vs') @ hd (zs @ [l]) # ws" .
  have "\<forall>v \<in> set (vs @ vs'). P v" using 1(2) 2(2) assms(2) xs(1) by auto
  then show ?thesis using eq unfolding skips_def by blast
qed

text \<open>Every pointer of a ring skips at most elements that satisfy \<open>P\<close>, and every store keeps that.\<close>

definition ring_ok :: "('a \<Rightarrow> bool) \<Rightarrow> 'a list \<Rightarrow> 'a \<Rightarrow> ('a \<Rightarrow> 'a option) \<Rightarrow> bool" where
  "ring_ok P xs l nx \<longleftrightarrow> (\<forall>p \<in> insert l (set xs). \<exists>q. nx p = Some q \<and> skips P xs l p q)"

definition links :: "bool \<Rightarrow> 'a dmem \<Rightarrow> 'a \<Rightarrow> 'a option" where
  "links forward m = (if forward then dnext m else dprev m)"

fun event_ok :: "bool \<Rightarrow> ('a \<Rightarrow> bool) \<Rightarrow> 'a list \<Rightarrow> 'a \<Rightarrow> 'a devent \<Rightarrow> bool" where
  "event_ok forward P xs l (DNext a p) \<longleftrightarrow> (forward \<longrightarrow> (\<exists>q. p = Some q \<and> skips P xs l a q))"
| "event_ok forward P xs l (DPrev a p) \<longleftrightarrow> (\<not> forward \<longrightarrow> (\<exists>q. p = Some q \<and> skips P xs l a q))"

lemma ring_ok_store:
  "ring_ok P xs l (links forward m) \<Longrightarrow> event_ok forward P xs l e \<Longrightarrow> ring_ok P xs l (links forward (store e m))"
  by (cases e; cases forward) (auto simp: ring_ok_def links_def)

text \<open>\<open>inOrder forward xs\<close>: the list that a traversal in that direction meets as \<open>xs\<close>.\<close>

definition inOrder :: "bool \<Rightarrow> 'a list \<Rightarrow> 'a list" where
  "inOrder forward xs = (if forward then xs else rev xs)"

lemma ring_ok_start:
  assumes d: "dlist m l (inOrder forward xs)"
  shows "ring_ok P xs l (links forward m)"
  unfolding ring_ok_def
proof
  fix p
  assume "p \<in> insert l (set xs)"
  then obtain us ws where s: "xs = us @ ws" "last (l # us) = p"
  proof (cases "p = l")
    case True
    then show ?thesis using that [of "[]" xs] by simp
  next
    case False
    then obtain us ws where "xs = us @ p # ws" using \<open>p \<in> insert l (set xs)\<close> by (meson insertE split_list)
    then show ?thesis using that [of "us @ [p]" ws] by simp
  qed
  have "filter (\<lambda>_. True) xs = us @ ws" using s(1) by simp
  then have sk: "skips P xs l p (hd (ws @ [l]))" using filter_skips [of "\<lambda>_. True" xs us ws P l] s(2) by simp
  have "links forward m p = Some (hd (ws @ [l]))"
  proof (cases forward)
    case True
    then show ?thesis using dlist_links(1) [of m l us ws] d s by (simp add: links_def inOrder_def del: last.simps)
  next
    case False
    then have "dlist m l (rev ws @ rev us)" using d s(1) by (simp add: inOrder_def)
    from dlist_links(2) [OF this] show ?thesis using False s(2)
      by (simp add: links_def hd_rev_snoc last_cons_rev del: last.simps)
  qed
  then show "\<exists>q. links forward m p = Some q \<and> skips P xs l p q" using sk by blast
qed

lemma unlinks_events:
  assumes "unlinks l P m ys es m' ys'" and "ys = filter Q (inOrder forward xs)" and "distinct xs"
    and "\<And>x. x \<in> set xs \<Longrightarrow> \<not> Q x \<Longrightarrow> P x"
  shows "\<forall>e \<in> set es. event_ok forward P xs l e"
  using assms
proof (induction arbitrary: Q rule: unlinks.induct)
  case (unlinked m ys)
  then show ?case by simp
next
  case (unlink m ys x zs es m' xs')
  let ?L = "inOrder forward xs" and ?Q = "\<lambda>y. Q y \<and> y \<noteq> x" and ?a = "last (l # ys)" and ?b = "hd (zs @ [l])"
  have L: "set ?L = set xs" "distinct ?L" using unlink.prems(2) by (simp_all add: inOrder_def)
  have "distinct (ys @ x # zs)" using unlink.prems(1) L(2) by (metis distinct_filter)
  then have "filter (\<lambda>y. y \<noteq> x) ys = ys" "filter (\<lambda>y. y \<noteq> x) zs = zs" by (auto intro!: filter_True)
  then have "filter (\<lambda>y. y \<noteq> x) (ys @ x # zs) = ys @ zs" by simp
  moreover have "filter (\<lambda>y. y \<noteq> x) (filter Q ?L) = filter ?Q ?L" by simp
  ultimately have f: "filter ?Q ?L = ys @ zs" by (simp only: unlink.prems(1) [symmetric])
  have Q: "x' \<in> set xs \<Longrightarrow> \<not> ?Q x' \<Longrightarrow> P x'" for x' using unlink.prems(3) unlink.hyps(2) by blast
  have "skips P ?L l ?a ?b" by (rule filter_skips [OF f]) (use Q L(1) in blast)
  then have "event_ok forward P xs l (DNext ?a (Some ?b))" "event_ok forward P xs l (DPrev ?b (Some ?a))"
    by (auto simp: inOrder_def skips_rev split: if_splits)
  moreover have "\<forall>e \<in> set es. event_ok forward P xs l e" by (rule unlink.IH [OF f [symmetric] unlink.prems(2) Q])
  ultimately show ?case by (auto simp: unlinkStores_def)
qed

text \<open>What a reader expects after the element it stands on.\<close>

fun expectedAt :: "dloc \<Rightarrow> int" where
  "expectedAt Head = 0"
| "expectedAt (Elem i) = int i + 1"

lemma mod8: "t mod 8 \<in> {0, 1} \<Longrightarrow> (t + 1) mod 8 \<in> {0, 1} \<Longrightarrow> t mod 8 = 0 \<and> (t + 1) mod 8 = 1 \<and> (t + 2) mod 8 \<notin> {0, 1}"
  for t :: int
proof -
  assume t: "t mod 8 \<in> {0, 1}" "(t + 1) mod 8 \<in> {0, 1}"
  have "(t + 1) mod 8 = (t mod 8 + 1) mod 8" "(t + 2) mod 8 = (t mod 8 + 2) mod 8" by (simp_all only: mod_add_left_eq)
  then show "t mod 8 = 0 \<and> (t + 1) mod 8 = 1 \<and> (t + 2) mod 8 \<notin> {0, 1}" using t by (cases "t mod 8 = 0") simp_all
qed

lemma verifyElement_skips:
  assumes "skips removable (elems n) Head p (Elem j)"
  shows "verifyElement (int j) (expectedAt p) = Some (int j + 1)"
proof -
  obtain us vs ws where s: "Head # elems n @ [Head] = us @ p # vs @ Elem j # ws" and P: "\<forall>v \<in> set vs. removable v"
    using assms unfolding skips_def by blast
  let ?R = "Head # elems n @ [Head]" and ?t = "length us"
  have R: "?R ! k = (if k = 0 \<or> k = Suc n then Head else Elem (k - 1))" if "k < Suc (Suc n)" for k
    using that by (cases k) (auto simp: nth_append)
  have len: "?t + length vs + 2 \<le> Suc (Suc n)" using arg_cong [OF s, of length] by simp
  have "?R ! (?t + Suc (length vs)) = Elem j" by (simp only: s) (simp add: nth_append)
  then have j: "j = ?t + length vs" using R [of "?t + Suc (length vs)"] len by (auto split: if_splits)
  have "p = ?R ! ?t" by (simp only: s) simp
  also have "\<dots> = (if ?t = 0 \<or> ?t = Suc n then Head else Elem (?t - 1))" by (rule R) (use len in simp)
  finally have e: "expectedAt p = int ?t" using len by (cases us) (simp_all split: if_splits)
  have rm: "(int ?t + int k) mod 8 \<in> {0, 1}" if k: "k < length vs" for k
  proof -
    have "?R ! (?t + Suc k) = vs ! k" using k by (simp only: s) (simp add: nth_append)
    then have "vs ! k = Elem (?t + k)" using R [of "?t + Suc k"] k len by (auto split: if_splits)
    then show ?thesis using P nth_mem [OF k] by (auto simp: removable_def)
  qed
  have "length vs \<le> 2"
  proof (rule ccontr)
    assume "\<not> length vs \<le> 2"
    then have l: "0 < length vs" "1 < length vs" "2 < length vs" by linarith+
    have "int ?t mod 8 \<in> {0, 1}" "(int ?t + 1) mod 8 \<in> {0, 1}" "(int ?t + 2) mod 8 \<in> {0, 1}"
      using rm [OF l(1)] rm [OF l(2)] rm [OF l(3)] by simp_all
    from mod8 [OF this(1,2)] this(3) show False by simp
  qed
  then consider "length vs = 0" | "length vs = 1" | "length vs = 2" by linarith
  then show ?thesis
  proof cases
    case 1
    then show ?thesis by (simp add: verifyElement_def e j)
  next
    case 2
    then have "int ?t mod 8 = 0 \<or> int ?t mod 8 = 1" using rm [of 0] by simp
    then show ?thesis using 2 by (auto simp: verifyElement_def e j Let_def)
  next
    case 3
    then have l: "0 < length vs" "1 < length vs" by linarith+
    have "int ?t mod 8 \<in> {0, 1}" "(int ?t + 1) mod 8 \<in> {0, 1}"
      using rm [OF l(1)] rm [OF l(2)] by simp_all
    from mod8 [OF this] have "int ?t mod 8 = 0" "(int ?t + 1) mod 8 = 1" by simp_all
    then show ?thesis using 3 by (simp add: verifyElement_def e j Let_def)
  qed
qed

subsection \<open>The invariant of the whole test\<close>

definition visitor_ok :: "nat \<Rightarrow> visitor \<Rightarrow> bool" where
  "visitor_ok n v \<longleftrightarrow> v = Ended \<or> (\<exists>p \<in> insert Head (set (elems n)). v = Walking p (expectedAt p))"

definition dinv :: "nat \<Rightarrow> bool \<Rightarrow> dsystem \<Rightarrow> bool" where
  "dinv n forward s \<longleftrightarrow> ring_ok removable (elems n) Head (links forward (dshared s))
     \<and> (\<forall>e \<in> set (dtodo s). event_ok forward removable (elems n) Head e) \<and> (\<forall>i. visitor_ok n (visitors s i))"

definition dready :: "nat \<Rightarrow> bool \<Rightarrow> dsystem \<Rightarrow> bool" where
  "dready n forward s \<longleftrightarrow> ring_ok removable (elems n) Head (links forward (dshared s))
     \<and> (\<forall>e \<in> set (dtodo s). event_ok forward removable (elems n) Head e) \<and> (\<forall>i. visitors s i = Walking Head 0)"

lemma visitStep_ok:
  assumes "ring_ok removable (elems n) Head (links forward m)" and "visitor_ok n v"
  shows "visitor_ok n (visitStep forward m v)"
proof (cases "v = Ended")
  case True
  then show ?thesis by (simp add: visitor_ok_def)
next
  case False
  then obtain p where p: "p \<in> insert Head (set (elems n))" "v = Walking p (expectedAt p)"
    using assms(2) unfolding visitor_ok_def by blast
  obtain q where q: "links forward m p = Some q" "skips removable (elems n) Head p q"
    using assms(1) p(1) unfolding ring_ok_def by blast
  have v: "visitStep forward m v = (if q = Head then Ended
      else case verifyElement (elemValue q) (expectedAt p) of None \<Rightarrow> Thrown | Some e \<Rightarrow> Walking q e)"
    using q(1) by (cases forward) (simp_all add: p(2) links_def)
  show ?thesis
  proof (cases q)
    case Head
    then show ?thesis using v by (simp add: visitor_ok_def)
  next
    case (Elem j)
    have "q \<in> set (Head # elems n @ [Head])" using q(2) unfolding skips_def by (metis in_set_conv_decomp set_ConsD list.set_intros(2) Un_iff set_append)
    then have "q \<in> set (elems n)" using Elem by auto
    then show ?thesis using v verifyElement_skips [of n p j] q(2) Elem by (auto simp: visitor_ok_def)
  qed
qed

lemma dinv_step:
  assumes "dinv n forward s" and "dsysstep forward s s'"
  shows "dinv n forward s'"
proof -
  obtain a where a: "dact forward a s = Some s'" using assms(2) unfolding dsysstep_def by blast
  show ?thesis
  proof (cases a)
    case DStore
    then show ?thesis using a assms(1) by (auto simp: dinv_def intro: ring_ok_store split: list.splits)
  next
    case (DVisit i)
    then show ?thesis using a assms(1) visitStep_ok by (auto simp: dinv_def)
  qed
qed

interpretation visits: invariant_system "dready n forward" "dsysstep forward" "dinv n forward" for n forward
proof unfold_locales
  show "dinv n forward s" if "dready n forward s" for s
  proof -
    have "visitor_ok n (Walking Head 0)" by (auto simp: visitor_ok_def intro: bexI [of _ Head])
    then show ?thesis using that by (simp add: dready_def dinv_def)
  qed
qed (rule dinv_step)

lemma writer_events:
  assumes d: "dlist m Head (inOrder forward (elems n))"
    and w: "(if forward then verifyWriter m else verifyReversedWriter m) = Some m'" and es: "dtrace m' = dtrace m @ es"
  shows "\<forall>e \<in> set es. event_ok forward removable (elems n) Head e"
proof -
  let ?L = "inOrder forward (elems n)"
  obtain es' where u: "unlinks Head removable m ?L es' m' (filter (\<lambda>x. \<not> removable x) ?L)"
    using writer_unlinks [OF d] w by (cases forward) auto
  have "m' = fold store es' m" using unlinks_result [OF u] by blast
  then have "es' = es" using es store_trace [of es' m] by simp
  moreover have "?L = filter (\<lambda>_. True) ?L" by simp
  moreover have "distinct (elems n)" by (simp add: distinct_map inj_on_def)
  ultimately show ?thesis using unlinks_events [OF u, of "\<lambda>_. True" forward "elems n"] by blast
qed

subsection \<open>Properties\<close>

text \<open>
  The writer of the list test never throws, for any number of elements: every loop ends, and
  after each round the list is empty.
\<close>

theorem dlist_test: "\<exists>m'. dlistRun n m = Some m' \<and> rcuDlistEmpty Head m'"
  using dlistRun_ok [of n m] by (auto simp: dlist_def rcuDlistEmpty_def)

text \<open>
  C21.  The readers of the list test never throw.  On every interleaving of their traversals with the
  writer's removals, store by store, in the direction in which the list ascends: every element a
  reader meets has a value it may expect, and no reader dereferences null.
\<close>

theorem dlist_readers:
  assumes "dlist m Head (if forward then elems n else rev (elems n))"
    and "(if forward then verifyWriter m else verifyReversedWriter m) = Some m'" and "dtrace m' = dtrace m @ es"
    and "dstart m es s0" and "(dsysstep forward)\<^sup>*\<^sup>* s0 s"
  shows "visitors s i \<noteq> Thrown \<and> visitors s i \<noteq> Crashed"
proof -
  have d: "dlist m Head (inOrder forward (elems n))" using assms(1) by (simp add: inOrder_def)
  have "dready n forward s0"
    using ring_ok_start [OF d, of removable] writer_events [OF d assms(2,3)] assms(4) by (simp add: dready_def dstart_def)
  then have "dinv n forward s" using visits.inv_reachable [OF _ assms(5)] by blast
  then have "visitor_ok n (visitors s i)" by (simp add: dinv_def)
  then show ?thesis by (auto simp: visitor_ok_def)
qed

text \<open>
  Three elements: the values 0 and 1 are removed.  Reader 0 stands on the value 0 when it is unlinked
  and goes on through 1 to 2; reader 1 starts later and meets 2 at once.
\<close>

definition exElems :: "dloc dmem" where
  "exElems = \<lparr>dnext = [Head \<mapsto> Elem 0, Elem 0 \<mapsto> Elem 1, Elem 1 \<mapsto> Elem 2, Elem 2 \<mapsto> Head],
     dprev = [Head \<mapsto> Elem 2, Elem 2 \<mapsto> Elem 1, Elem 1 \<mapsto> Elem 0, Elem 0 \<mapsto> Head], dtrace = []\<rparr>"

definition exUnlinks :: "dloc devent list" where
  "exUnlinks = unlinkStores Head (Elem 1) @ unlinkStores Head (Elem 2)"

abbreviation dacts :: "bool \<Rightarrow> daction list \<Rightarrow> dsystem \<Rightarrow> dsystem option" where
  "dacts forward \<equiv> for_list (dact forward)"

lemma dacts_reach: "dacts forward as s = Some s' \<Longrightarrow> (dsysstep forward)\<^sup>*\<^sup>* s s'"
  by (erule for_list_reach) (unfold dsysstep_def, blast)

theorem dlist_readers_witness:
  "\<exists>s. dacts True (DVisit 0 # replicate 4 DStore @ [DVisit 1, DVisit 0, DVisit 0])
      \<lparr>dshared = exElems, dtodo = exUnlinks, visitors = (\<lambda>_. Walking Head 0)\<rparr> = Some s
    \<and> visitors s 0 = Walking (Elem 2) 3 \<and> visitors s 1 = Walking (Elem 2) 3 \<and> visitors s 0 \<noteq> Thrown"
proof -
  let ?s0 = "\<lparr>dshared = exElems, dtodo = exUnlinks, visitors = (\<lambda>_. Walking Head 0)\<rparr>"
  let ?as = "DVisit 0 # replicate 4 DStore @ [DVisit 1, DVisit 0, DVisit 0]"
  have d: "dlist exElems Head (elems 3)" by (simp add: dlist_def exElems_def numeral_3_eq_3)
  have w: "verifyWriter exElems = Some (fold store exUnlinks exElems)"
    by (simp add: verifyWriter_def sweepFrom.simps rcuDlistSafeBegin_def rcuDlistSafeIsEnd_def rcuDlistSafeGetHead_def
      rcuDlistSafeRemoveIt_def rcuDlistSafeAdvance_def rcuDlistRemove_def rcuDlistRemoveBetween_def removable_def
      exElems_def exUnlinks_def unlinkStores_def)
  have t: "dtrace (fold store exUnlinks exElems) = dtrace exElems @ exUnlinks" by (rule store_trace)
  have s0: "dstart exElems exUnlinks ?s0" by (simp add: dstart_def)
  have "map_option (\<lambda>s. (visitors s 0, visitors s 1)) (dacts True ?as ?s0) = Some (Walking (Elem 2) 3, Walking (Elem 2) 3)"
    by code_simp
  then obtain s where s: "dacts True ?as ?s0 = Some s" "visitors s 0 = Walking (Elem 2) 3" "visitors s 1 = Walking (Elem 2) 3"
    by auto
  have "visitors s 0 \<noteq> Thrown"
    using dlist_readers [of exElems True 3, OF _ _ t s0 dacts_reach [OF s(1)], of 0] d w by simp
  then show ?thesis using s by blast
qed

end
