(* ===== verification/Ownership.thy ===== *)
theory Ownership
  imports TableApi
begin

text \<open>
  Who owns the bucket arrays.  A table owns the block its \<open>pBucketsInfo\<close> points to and nothing else;
  every operation hands back the memory with at most that block exchanged for a new one, and the
  destructor frees it.  These facts need no invariant: they hold whenever an operation returns, so each
  is a few lines along the code, and the programs that use tables inherit them.
\<close>

subsection \<open>Operations that leave the blocks alone\<close>

definition same_blocks :: "mem \<Rightarrow> mem \<Rightarrow> bool" where
  "same_blocks m m' \<longleftrightarrow> blocks m' = blocks m \<and> freshBlock m' = freshBlock m"

lemma same_blocks_simps [simp]:
  "same_blocks m m" "same_blocks m (emit (EStore a p) m') = same_blocks m m'"
  "same_blocks m (emit (EHash a h) m') = same_blocks m m'" "same_blocks m (emit (EPublish q) m') = same_blocks m m'"
  "same_blocks m (emit ESync m') = same_blocks m m'"
  by (simp_all add: same_blocks_def)

lemma same_blocks_after [simp]:
  "same_blocks (emit (EStore a p) m) m' = same_blocks m m'" "same_blocks (emit (EHash a h) m) m' = same_blocks m m'"
  "same_blocks (emit (EPublish q) m) m' = same_blocks m m'" "same_blocks (emit ESync m) m' = same_blocks m m'"
  by (simp_all add: same_blocks_def)

lemma same_blocks_trans [trans]: "same_blocks m m' \<Longrightarrow> same_blocks m' m'' \<Longrightarrow> same_blocks m m''"
  by (simp add: same_blocks_def)

lemma removeLoop_frame:
  assumes "removeLoop p m P pLast = Some r"
  shows "same_blocks m (snd r)"
proof -
  have "(\<lambda>(((p, m), P), pLast) r. same_blocks m (snd r)) (((p, m), P), pLast) r"
    by (rule removeLoop.raw_induct [OF _ assms]) (auto split: option.splits if_splits)
  then show ?thesis by simp
qed

lemma insert_frame: "rTableCoreTryInsertNoExpand t e h P m = Some (b, t', m') \<Longrightarrow>
    same_blocks m m' \<and> pBucketsInfo t' = pBucketsInfo t"
  by (auto simp: rTableCoreTryInsertNoExpand_def rcuSlistPrependIfNoMatch_def Let_def split: bind_splits if_splits)

lemma detach_frame: "rTableCoreTryDetachNoShrink t h P m = Some (p, m') \<Longrightarrow> same_blocks m m'"
  by (auto simp: rTableCoreTryDetachNoShrink_def rcuSlistRemoveIf_def dest!: removeLoop_frame split: bind_splits)

lemma shrinkLoop_frame:
  assumes "shrinkLoop old new n m = Some m'"
  shows "same_blocks m m'"
  by (rule for_range_keeps [OF assms [unfolded shrinkLoop_def]])
    (auto simp: shrinkTwoBucketsToOne_def Let_def split: bind_splits option.splits)

lemma twinsLoop_frame:
  assumes "twinsLoop old new n msk m = Some m'"
  shows "same_blocks m m'"
  by (rule for_range_keeps [OF assms [unfolded twinsLoop_def]])
    (auto simp: initTwinDstBuckets_def Let_def split: bind_splits)

lemma findFirstUnzipStarts_frame:
  assumes "findFirstUnzipStarts old msk m = Some r"
  shows "same_blocks m (snd r)"
proof -
  obtain n where "for_range 0 n (\<lambda>iHalf (allFinished, m). do {
         pSrc \<leftarrow> bucketAt m old iHalf;
         if nxt m pSrc \<noteq> None then do {
           (needUnzip, m) \<leftarrow> findFirstUnzipPoint pSrc msk m;
           Some (if needUnzip then False else allFinished, m)
         } else Some (allFinished, m)
       }) (True, m) = Some r"
    using assms unfolding findFirstUnzipStarts_def by (auto split: bind_splits)
  then show ?thesis
    by (rule for_range_keeps [where P = "\<lambda>s. same_blocks m (snd s)"])
      (auto simp: findFirstUnzipPoint_def Let_def split: bind_splits if_splits)
qed

lemma unzipRound_frame:
  assumes "unzipRound old msk m = Some r"
  shows "same_blocks m (snd r)"
proof -
  obtain n where "for_range 0 n (\<lambda>iHalf (allFinished, m). do {
         pSrc \<leftarrow> bucketAt m old iHalf;
         if nxt m pSrc \<noteq> None then do {
           m \<leftarrow> unzipOneSegment pSrc msk m;
           Some (False, m)
         } else Some (allFinished, m)
       }) (True, m) = Some r"
    using assms unfolding unzipRound_def by (auto split: bind_splits)
  then show ?thesis
    by (rule for_range_keeps [where P = "\<lambda>s. same_blocks m (snd s)"])
      (auto simp: unzipOneSegment_def Let_def split: bind_splits if_splits)
qed

lemma unzip_frame:
  assumes "unzip sync old msk m z = Some r"
  shows "same_blocks m (fst r)"
proof (rule unzip.raw_induct [where P = "\<lambda>sync old msk m z r. same_blocks m (fst r)", OF _ assms])
  fix f :: "('z \<Rightarrow> 'z option) \<Rightarrow> nat \<Rightarrow> u64 \<Rightarrow> mem \<Rightarrow> 'z \<Rightarrow> (mem \<times> 'z) option"
  fix sync old msk m z r
  assume IH: "\<And>sync old msk m z r. f sync old msk m z = Some r \<Longrightarrow> same_blocks m (fst r)"
    and eq: "do {
       (allFinished, m) \<leftarrow> unzipRound old msk m;
       if allFinished then Some (m, z) else do { z \<leftarrow> sync z; f sync old msk (emit ESync m) z }
     } = Some r"
  then obtain b m1 where 1: "unzipRound old msk m = Some (b, m1)" by (auto split: bind_splits)
  then have "same_blocks m m1" using unzipRound_frame by fastforce
  moreover have "same_blocks m1 (fst r)" using eq 1 IH [of sync old msk "emit ESync m1" _ r] by (auto split: bind_splits if_splits)
  ultimately show "same_blocks m (fst r)" by (rule same_blocks_trans)
qed

subsection \<open>Ownership\<close>

text \<open>The table \<open>t\<close>, made in the memory \<open>m0\<close>, owns its current block in \<open>m\<close>; the rest is as in \<open>m0\<close>.\<close>

definition owns :: "mem \<Rightarrow> RTableCore \<Rightarrow> mem \<Rightarrow> bool" where
  "owns m0 t m \<longleftrightarrow> fresh_blocks m0 \<and> (\<exists>k n. pBucketsInfo t = Some k \<and> freshBlock m0 \<le> k \<and> k < freshBlock m \<and> blocks m = (blocks m0)(k \<mapsto> n))"

named_theorems owned "what keeps the ownership of a table"

lemma owns_same [owned]: "owns m0 t m \<Longrightarrow> same_blocks m m' \<Longrightarrow> pBucketsInfo t' = pBucketsInfo t \<Longrightarrow> owns m0 t' m'"
  by (auto simp: owns_def same_blocks_def)

lemma owns_emit [simp]:
  "owns m0 t (emit (EStore a p) m) = owns m0 t m" "owns m0 t (emit ESync m) = owns m0 t m"
  by (simp_all add: owns_def)

lemma owns_tsize [simp]: "owns m0 (t\<lparr>tsize := n\<rparr>) m = owns m0 t m"
  by (simp add: owns_def)

lemma allocate_blocks:
  assumes "allocateAndInitBuckets n m = Some (k, m')"
  shows "k = freshBlock m" and "same_blocks (emit (EAlloc k n) m) m'"
proof -
  from assms have k: "k = freshBlock m"
    and l: "for_range 0 (unat n) (\<lambda>iBucket m. Some (storeNext (BucketHead k iBucket) None m)) (emit (EAlloc k n) m) = Some m'"
    by (auto simp: allocateAndInitBuckets_def Let_def split: if_splits bind_splits)
  show "k = freshBlock m" by (rule k)
  show "same_blocks (emit (EAlloc k n) m) m'" by (rule for_range_keeps [OF l]) auto
qed

text \<open>A new block is published, and the old one freed, or none of both.\<close>

lemma owns_exchange:
  assumes "owns m0 t m" and "pBucketsInfo t = Some old" and "same_blocks (emit (EAlloc (freshBlock m) n) m) m1"
    and "pBucketsInfo t' = Some (freshBlock m)" and "destroyAndFreeBuckets old m1 = Some m'"
  shows "owns m0 t' m'"
proof -
  have "m' = emit (EFree old) m1" using assms(5) by (auto simp: destroyAndFreeBuckets_def split: bind_splits)
  then show ?thesis using assms(1-4) by (auto simp: owns_def same_blocks_def fresh_blocks_def fun_upd_twist fun_upd_idem)
qed

lemma expand_owned [owned]:
  assumes o: "owns m0 t m" and r: "rTableCoreExpandBuckets2x sync t m z = Some (t', m', z')"
  shows "owns m0 t' m'"
proof -
  obtain old t1 m1 z1 where e: "expandBucketsByFac2ReturnOld sync t m z = Some (old, t1, m1, z1)"
    "destroyAndFreeBuckets old m1 = Some m'" "t' = t1"
    using r by (auto simp: rTableCoreExpandBuckets2x_def split: bind_splits)
  obtain n new m2 m3 where a: "pBucketsInfo t = Some old" "allocateAndInitBuckets n m = Some (new, m2)" "same_blocks m2 m3"
    and b: "t1 = t\<lparr>pBucketsInfo := Some new\<rparr>" "same_blocks m3 m1"
    using e(1) by (force simp: expandBucketsByFac2ReturnOld_def Let_def split: bind_splits if_splits
        dest!: twinsLoop_frame findFirstUnzipStarts_frame unzip_frame intro: same_blocks_trans)
  note al = allocate_blocks [OF a(2)]
  have "same_blocks (emit (EAlloc (freshBlock m) n) m) m1"
    using al a(3) b(2) by (blast intro: same_blocks_trans)
  then show ?thesis using owns_exchange [OF o a(1) _ _ e(2)] al(1) b(1) e(3) by simp
qed

lemma shrink_owned [owned]:
  assumes o: "owns m0 t m" and r: "rTableCoreShrinkBuckets2x sync t m z = Some (b, t', m', z')"
  shows "owns m0 t' m'"
proof -
  obtain old t1 m1 z1 where e: "shrinkBucketsByFac2ReturnOld sync t m z = Some (old, t1, m1, z1)"
    using r by (auto simp: rTableCoreShrinkBuckets2x_def split: bind_splits)
  show ?thesis
  proof (cases old)
    case None
    then have "t1 = t" "m1 = m" using e by (auto simp: shrinkBucketsByFac2ReturnOld_def Let_def split: bind_splits if_splits)
    then show ?thesis using o r e None by (auto simp: rTableCoreShrinkBuckets2x_def)
  next
    case (Some k)
    then have d: "destroyAndFreeBuckets k m1 = Some m'" "t' = t1"
      using r e by (auto simp: rTableCoreShrinkBuckets2x_def split: bind_splits)
    obtain n new m2 where a: "pBucketsInfo t = Some k" "allocateAndInitBuckets n m = Some (new, m2)" "same_blocks m2 m1"
      and b: "t1 = t\<lparr>pBucketsInfo := Some new\<rparr>"
      using e Some by (auto simp: shrinkBucketsByFac2ReturnOld_def Let_def split: bind_splits if_splits dest!: shrinkLoop_frame)
    note al = allocate_blocks [OF a(2)]
    have "same_blocks (emit (EAlloc (freshBlock m) n) m) m1" using al a(3) by (blast intro: same_blocks_trans)
    then show ?thesis using owns_exchange [OF o a(1) _ _ d(1)] al(1) b d(2) by simp
  qed
qed

lemma expandIf_owned [owned]:
  "owns m0 t m \<Longrightarrow> expandBucketsByFac2IfNecessary sync n nb t m z = Some (t', m', z') \<Longrightarrow> owns m0 t' m'"
  by (auto simp: expandBucketsByFac2IfNecessary_def split: if_splits intro: expand_owned)

lemma shrinkIf_owned [owned]:
  "owns m0 t m \<Longrightarrow> shrinkBucketsByFac2IfNecessary sync n nb t m z = Some (b, t', m', z') \<Longrightarrow> owns m0 t' m'"
  by (auto simp: shrinkBucketsByFac2IfNecessary_def split: if_splits intro: shrink_owned)

subsection \<open>The operations of the table\<close>

lemma init_owned:
  assumes "rTableInitDetailed reg T conf m0 = Some (T', m)" and "fresh_blocks m0"
  shows "owns m0 (core T') m"
proof -
  obtain n k m1 where a: "allocateAndInitBuckets n m0 = Some (k, m1)" "pBucketsInfo (core T') = Some k" "m = emit (EPublish (Some k)) m1"
    using assms(1) by (auto simp: rTableInitDetailed_def rTableCoreInitDetailed_def Let_def split: bind_splits)
  show ?thesis using allocate_blocks [OF a(1)] a(2,3) assms(2) by (auto simp: owns_def same_blocks_def)
qed

lemma insertNoExpand_owned [owned]:
  "owns m0 (core T) m \<Longrightarrow> rTableTryInsertNoExpand T e h P m = Some (b, T', m') \<Longrightarrow> owns m0 (core T') m'"
  by (auto simp: rTableTryInsertNoExpand_def split: bind_splits dest!: insert_frame intro: owns_same)

lemma insert_owned [owned]:
  assumes "owns m0 (core T) m" and "rTableTryInsert reg T e h P m = Some (b, T', m')"
  shows "owns m0 (core T') m'"
proof -
  obtain b1 t1 m1 where 1: "rTableCoreTryInsertNoExpand (core T) e h P m = Some (b1, t1, m1)"
    using assms(2) by (auto simp: rTableTryInsert_def rTableCoreTryInsert_def split: bind_splits)
  then have "owns m0 t1 m1" using assms(1) insert_frame owns_same by blast
  then show ?thesis using assms(2) 1
    by (auto simp: rTableTryInsert_def rTableCoreTryInsert_def Let_def split: bind_splits if_splits intro: expandIf_owned)
qed

lemma coreDetach_owned [owned]:
  assumes "owns m0 t m" and "rTableCoreTryDetachAutoShrink sync t h P m z = Some (p, b, t', m', z')"
  shows "owns m0 t' m'"
proof -
  obtain p1 m1 where 1: "rTableCoreTryDetachNoShrink t h P m = Some (p1, m1)"
    using assms(2) by (auto simp: rTableCoreTryDetachAutoShrink_def split: bind_splits)
  then have "owns m0 t m1" using assms(1) detach_frame owns_same by blast
  then show ?thesis using assms(2) 1
    by (auto simp: rTableCoreTryDetachAutoShrink_def Let_def split: bind_splits if_splits intro: shrinkIf_owned)
qed

lemma detachAuto_owned [owned]:
  "owns m0 (core T) m \<Longrightarrow> rTableTryDetachAutoShrink reg T h P m = Some (p, b, T', m') \<Longrightarrow> owns m0 (core T') m'"
  by (auto simp: rTableTryDetachAutoShrink_def split: bind_splits intro: coreDetach_owned)

lemma detachSync_owned [owned]:
  assumes "owns m0 (core T) m" and "rTableTryDetachAndSynchronize reg T h P m = Some (p, T', m')"
  shows "owns m0 (core T') m'"
  using assms(2) coreDetach_owned [OF assms(1)]
  by (auto simp: rTableTryDetachAndSynchronize_def rTableCoreTryDetachAndSynchronize_def split: bind_splits if_splits)

lemma sync_owned [owned]:
  "owns m0 (core T) m \<Longrightarrow> rTableSynchronize reg T m = Some (T', m') \<Longrightarrow> owns m0 (core T') m'"
  by (auto simp: rTableSynchronize_def split: bind_splits)

lemma expand2x_owned [owned]:
  "owns m0 (core T) m \<Longrightarrow> rTableExpandBuckets2x reg T m = Some (T', m') \<Longrightarrow> owns m0 (core T') m'"
  by (auto simp: rTableExpandBuckets2x_def split: bind_splits intro: expand_owned)

lemma shrink2x_owned [owned]:
  "owns m0 (core T) m \<Longrightarrow> rTableShrinkBuckets2x reg T m = Some (b, T', m') \<Longrightarrow> owns m0 (core T') m'"
  by (auto simp: rTableShrinkBuckets2x_def split: bind_splits intro: shrink_owned)

lemma destroy_owned:
  assumes "owns m0 t m"
  shows "\<exists>m'. destroyTableCore t m = Some m' \<and> blocks m' = blocks m0 \<and> fresh_blocks m'"
  using assms by (auto simp: owns_def destroyTableCore_def destroyAndFreeBuckets_def fresh_blocks_def fun_upd_idem)

subsection \<open>Property\<close>

text \<open>
  C20.  No operation leaks or frees a block that is not its own.  A table that owns its bucket array
  owns exactly its current one after any writing operation that returns, all other blocks being as
  they were when the table was made; and the destructor gives back the memory it was made in.
\<close>

theorem bucket_arrays_owned:
  assumes "owns m0 (core T) m"
  shows "(\<forall>b T' m'. rTableTryInsert reg T e h E m = Some (b, T', m') \<longrightarrow> owns m0 (core T') m')
    \<and> (\<forall>b T' m'. rTableTryInsertNoExpand T e h E m = Some (b, T', m') \<longrightarrow> owns m0 (core T') m')
    \<and> (\<forall>p T' m'. rTableTryDetachAndSynchronize reg T h P m = Some (p, T', m') \<longrightarrow> owns m0 (core T') m')
    \<and> (\<forall>p b T' m'. rTableTryDetachAutoShrink reg T h P m = Some (p, b, T', m') \<longrightarrow> owns m0 (core T') m')
    \<and> (\<forall>T' m'. rTableSynchronize reg T m = Some (T', m') \<longrightarrow> owns m0 (core T') m')
    \<and> (\<forall>T' m'. rTableExpandBuckets2x reg T m = Some (T', m') \<longrightarrow> owns m0 (core T') m')
    \<and> (\<forall>b T' m'. rTableShrinkBuckets2x reg T m = Some (b, T', m') \<longrightarrow> owns m0 (core T') m')
    \<and> (\<exists>m'. destroyTableCore (core T) m = Some m' \<and> blocks m' = blocks m0)"
  using destroy_owned [OF assms]
  by (intro conjI allI impI) (erule owned [OF assms] | blast)+

text \<open>The table of two buckets is halved: block 0 is gone, block 1 is its new array.\<close>

theorem bucket_arrays_owned_witness:
  "\<exists>T m. rTableShrinkBuckets2x exReg exRTable exMem2 = Some (True, T, m) \<and> (\<exists>n. blocks m = [1 \<mapsto> n])"
proof -
  let ?m0 = "exMem2\<lparr>blocks := Map.empty, freshBlock := 0\<rparr>"
  have o: "owns ?m0 (core exRTable) exMem2"
    by (auto simp: owns_def fresh_blocks_def exRTable_def exTable_def exMem2_def)
  have "quiet exReg (Suc 0) (rcuZone exRTable)" by (simp add: exRTable_def exZone_quiet)
  from idle.shrink_ok [OF exMem2_table [unfolded One_nat_def] _ this] obtain t m z where
    r: "rTableCoreShrinkBuckets2x (rcuSynchronize exReg) (core exRTable) exMem2 (rcuZone exRTable) = Some (True, t, m, z)"
      "t = core exRTable\<lparr>pBucketsInfo := Some (freshBlock exMem2)\<rparr>" by auto
  then have s: "rTableShrinkBuckets2x exReg exRTable exMem2 = Some (True, \<lparr>core = t, rcuZone = z\<rparr>, m)"
    by (simp add: rTableShrinkBuckets2x_def)
  then have "owns ?m0 t m" using bucket_arrays_owned [OF o] by fastforce
  then show ?thesis using s r(2) by (auto simp: owns_def exMem2_def)
qed

end
