(* ===== verification/TestProgram.thy ===== *)
theory TestProgram
  imports QuickExample TableTests UsageStress HashMapComparison DlistTest Ownership
begin

text \<open>
  The writer thread of the whole program: \<open>main\<close> runs the quick example and then the tests of
  \<open>rTableTests\<close>, each of which makes a table, uses it, and destroys it.  Shown: they end one after the
  other, and after them no bucket array is left.
\<close>

subsection \<open>The program\<close>

definition rcuHashTableQuickExample :: "RCUReaderThreadRegistry \<Rightarrow> u32 \<Rightarrow> (int \<Rightarrow> u64) \<Rightarrow> mem \<Rightarrow> mem option" where
  "rcuHashTableQuickExample reg hardware_concurrency hash m =
     do {
       c \<leftarrow> quickFill reg hardware_concurrency hash m;
       c \<leftarrow> quickWriter reg hash c;
       destroyTableCore (core (tbl c)) (cmem c)
     }"

definition singleThreadTest :: "RCUReaderThreadRegistry \<Rightarrow> u32 \<Rightarrow> (u64 \<Rightarrow> u64) \<Rightarrow> mem \<Rightarrow> mem option" where
  "singleThreadTest reg hardware_concurrency hash m =
     do {
       c \<leftarrow> RCUTableTestSingleThreadTest reg hardware_concurrency hash m;
       destroyTableCore (core (tbl c)) (cmem c)
     }"

definition runRcuHashMap :: "RCUReaderThreadRegistry \<Rightarrow> u32 \<Rightarrow> (u64 \<Rightarrow> u64) \<Rightarrow> mem \<Rightarrow> mem option" where
  "runRcuHashMap reg hardware_concurrency hash m =
     do {
       c \<leftarrow> comparisonFill reg hardware_concurrency hash m;
       c \<leftarrow> comparisonWriter reg hash c;
       destroyTableCore (core (tbl c)) (cmem c)
     }"

text \<open>The number of elements of the list test is \<open>myData.size()\<close>.\<close>

definition dlistSize :: nat where
  "dlistSize = 10000000"

text \<open>Of the comparison, \<open>comp.run()\<close>, only the part that uses the table touches its memory; the rest is
  in \<open>ComparisonRun\<close>.\<close>

definition rTableTests :: "RCUReaderThreadRegistry \<Rightarrow> u32 \<Rightarrow> (u64 \<Rightarrow> u64) \<Rightarrow> nat \<Rightarrow> dloc dmem \<times> mem \<Rightarrow> (dloc dmem \<times> mem) option" where
  "rTableTests reg hardware_concurrency hash rounds = (\<lambda>(d, m).
     do {
       d \<leftarrow> dlistRun dlistSize d;
       m \<leftarrow> manualStress reg hardware_concurrency hash m;
       m \<leftarrow> singleThreadTest reg hardware_concurrency hash m;
       m \<leftarrow> runRcuHashMap reg hardware_concurrency hash m;
       m \<leftarrow> RCUTableNormalUsageStress reg hardware_concurrency hash rounds m;
       Some (d, m)
     })"

subsection \<open>Every program owns its table to the end\<close>

abbreviation owner :: "mem \<Rightarrow> 'v client \<Rightarrow> bool" where
  "owner m0 c \<equiv> owns m0 (core (tbl c)) (cmem c)"

lemma init_default_owned: "rTableInit reg hc T n m = Some (T', m') \<Longrightarrow> fresh_blocks m \<Longrightarrow> owns m (core T') m'"
  unfolding rTableInit_def by (rule init_owned)

lemma client_destroyed: "owner m c \<Longrightarrow> destroyTableCore (core (tbl c)) (cmem c) = Some m' \<Longrightarrow> blocks m' = blocks m \<and> fresh_blocks m'"
  using destroy_owned by fastforce

text \<open>The bodies of the loops.\<close>

lemmas client_steps = quickInsert_def quickErase_def singleInsert_def singleAbsent_def singleDetach_def comparisonInsert_def
  additionalInsert_def stressInsert_def stressResize_def usageInsert_def usageDetach_def Let_def

lemma body_owner:
  "owner m0 c \<Longrightarrow> quickInsert reg hash i c = Some c' \<Longrightarrow> owner m0 c'"
  "owner m0 c \<Longrightarrow> quickErase reg hash i c = Some c' \<Longrightarrow> owner m0 c'"
  "owner m0 d \<Longrightarrow> singleInsert reg hash' i d = Some d' \<Longrightarrow> owner m0 d'"
  "owner m0 d \<Longrightarrow> singleAbsent hash' d = Some d' \<Longrightarrow> owner m0 d'"
  "owner m0 d \<Longrightarrow> singleDetach reg hash' i d = Some d' \<Longrightarrow> owner m0 d'"
  "owner m0 d \<Longrightarrow> comparisonInsert reg hash' i d = Some d' \<Longrightarrow> owner m0 d'"
  "owner m0 d \<Longrightarrow> additionalInsert reg hash' i d = Some d' \<Longrightarrow> owner m0 d'"
  "owner m0 d \<Longrightarrow> stressInsert hash' j i d = Some d' \<Longrightarrow> owner m0 d'"
  "owner m0 d \<Longrightarrow> stressResize reg d = Some d' \<Longrightarrow> owner m0 d'"
  "owner m0 d \<Longrightarrow> usageInsert reg hash' i d = Some d' \<Longrightarrow> owner m0 d'"
  "owner m0 d \<Longrightarrow> usageDetach reg hash' i d = Some d' \<Longrightarrow> owner m0 d'"
  by (auto simp: client_steps split: bind_splits if_splits) (meson insert_owned insertNoExpand_owned detachSync_owned detachAuto_owned expand2x_owned shrink2x_owned)+

text \<open>A loop of such bodies.\<close>

lemma loop_owner:
  assumes "owner m0 c" and "for_range lo hi body c = Some c'"
    and "\<And>i c c'. owner m0 c \<Longrightarrow> body i c = Some c' \<Longrightarrow> owner m0 c'"
  shows "owner m0 c'"
  using for_range_keeps [where P = "owner m0", OF assms(2,1)] assms(3) by blast

subsection \<open>The programs clean up\<close>

definition cleans :: "(mem \<Rightarrow> mem option) \<Rightarrow> bool" where
  "cleans f \<longleftrightarrow> (\<forall>m m'. f m = Some m' \<longrightarrow> fresh_blocks m \<longrightarrow> blocks m' = blocks m \<and> fresh_blocks m')"

lemma cleans_bind: "cleans f \<Longrightarrow> cleans g \<Longrightarrow> cleans (\<lambda>m. do { m \<leftarrow> f m; g m })"
  by (fastforce simp: cleans_def split: bind_splits)

lemma cleans_loop:
  assumes "\<And>i. cleans (body i)"
  shows "cleans (for_range lo hi body)"
  unfolding cleans_def
proof (intro allI impI)
  fix m m' assume "for_range lo hi body m = Some m'" "fresh_blocks m"
  then show "blocks m' = blocks m \<and> fresh_blocks m'"
    using for_range_keeps [of lo hi body m m' "\<lambda>m'. blocks m' = blocks m \<and> fresh_blocks m'"] assms by (auto simp: cleans_def)
qed

text \<open>A program that makes a table, uses it, and destroys it.\<close>

lemma cleans_client:
  assumes "\<And>m c. fresh_blocks m \<Longrightarrow> use m = Some c \<Longrightarrow> owner m c"
  shows "cleans (\<lambda>m. do { c \<leftarrow> use m; destroyTableCore (core (tbl c)) (cmem c) })"
  unfolding cleans_def
proof (intro allI impI)
  fix m m'
  assume r: "do { c \<leftarrow> use m; destroyTableCore (core (tbl c)) (cmem c) } = Some m'" and f: "fresh_blocks m"
  then obtain c where "use m = Some c" "destroyTableCore (core (tbl c)) (cmem c) = Some m'" by (auto split: bind_splits)
  then show "blocks m' = blocks m \<and> fresh_blocks m'" using assms [OF f] destroy_owned by fastforce
qed

lemma start_owner:
  assumes "rTableInitDetailed reg freshRTable conf m = Some (T, m1)" and "fresh_blocks m"
  shows "owner m \<lparr>tbl = T, cmem = m1, val = v, valid = b\<rparr>"
  using init_owned [OF assms] by simp

lemma fill_owner:
  assumes "do { (T, m1) \<leftarrow> rTableInitDetailed reg freshRTable conf m;
      for_range lo hi body \<lparr>tbl = T, cmem = m1, val = v, valid = b\<rparr> } = Some c"
    and "fresh_blocks m" and "\<And>i c c'. owner m c \<Longrightarrow> body i c = Some c' \<Longrightarrow> owner m c'"
  shows "owner m c"
proof -
  obtain T m1 where 1: "rTableInitDetailed reg freshRTable conf m = Some (T, m1)"
    and 2: "for_range lo hi body \<lparr>tbl = T, cmem = m1, val = v, valid = b\<rparr> = Some c" using assms(1) by (auto split: bind_splits)
  show ?thesis by (rule loop_owner [OF start_owner [OF 1 assms(2)] 2]) (rule assms(3))
qed

lemma quick_cleans: "cleans (rcuHashTableQuickExample reg hc hash)"
proof -
  have "owner m c" if f: "fresh_blocks m" and r: "do { c \<leftarrow> quickFill reg hc hash m; quickWriter reg hash c } = Some c" for m c
  proof -
    obtain c1 where 1: "quickFill reg hc hash m = Some c1" "quickWriter reg hash c1 = Some c" using r by (auto split: bind_splits)
    have "owner m c1" by (rule fill_owner [OF 1(1) [unfolded quickFill_def rTableInit_def] f]) (rule body_owner)
    then show "owner m c" by (rule loop_owner [OF _ 1(2) [unfolded quickWriter_def]]) (rule body_owner)
  qed
  from cleans_client [where use = "\<lambda>m. do { c \<leftarrow> quickFill reg hc hash m; quickWriter reg hash c }", OF this] show ?thesis by (simp add: cleans_def rcuHashTableQuickExample_def)
qed

lemma single_cleans: "cleans (singleThreadTest reg hc hash)"
proof -
  have "owner m c" if f: "fresh_blocks m" and r: "RCUTableTestSingleThreadTest reg hc hash m = Some c" for m c
  proof -
    obtain T m1 c1 c2 c3 c4 where
      1: "rTableInit reg hc freshRTable 64 m = Some (T, m1)"
      and 2: "for_range 0 1000 (\<lambda>i c. Some (c\<lparr>val := (val c)(entry i := of_nat i)\<rparr>)) \<lparr>tbl = T, cmem = m1, val = (\<lambda>_. 0), valid = (\<lambda>_. False)\<rparr> = Some c1"
      and 3: "for_range 0 1000 (singleInsert reg hash) c1 = Some c2" and 4: "singleAbsent hash c2 = Some c3"
      and 5: "for_range 0 1000 (singleDetach reg hash) c3 = Some c4" and 6: "for_range 0 1000 (\<lambda>_. singleAbsent hash) c4 = Some c"
      using r by (auto simp: RCUTableTestSingleThreadTest_def Let_def split: bind_splits)
    have "owner m c1" by (rule loop_owner [OF start_owner [OF 1 [unfolded rTableInit_def] f] 2]) auto
    then have "owner m c2" by (rule loop_owner [OF _ 3]) (rule body_owner)
    then have "owner m c3" using 4 by (rule body_owner)
    then have "owner m c4" by (rule loop_owner [OF _ 5]) (rule body_owner)
    then show "owner m c" by (rule loop_owner [OF _ 6]) (rule body_owner)
  qed
  from cleans_client [where use = "\<lambda>m. RCUTableTestSingleThreadTest reg hc hash m", OF this] show ?thesis by (simp add: cleans_def singleThreadTest_def)
qed

lemma hashMap_cleans: "cleans (runRcuHashMap reg hc hash)"
proof -
  have "owner m c" if f: "fresh_blocks m" and r: "do { c \<leftarrow> comparisonFill reg hc hash m; comparisonWriter reg hash c } = Some c" for m c
  proof -
    obtain c1 where 1: "comparisonFill reg hc hash m = Some c1" "comparisonWriter reg hash c1 = Some c" using r by (auto split: bind_splits)
    have "owner m c1" by (rule fill_owner [OF 1(1) [unfolded comparisonFill_def rTableInit_def] f]) (rule body_owner)
    then show "owner m c" by (rule loop_owner [OF _ 1(2) [unfolded comparisonWriter_def]]) (rule body_owner)
  qed
  from cleans_client [where use = "\<lambda>m. do { c \<leftarrow> comparisonFill reg hc hash m; comparisonWriter reg hash c }", OF this] show ?thesis by (simp add: cleans_def runRcuHashMap_def)
qed

lemma stress_cleans: "cleans (manualStress reg hc hash)"
proof -
  have "owner m c" if f: "fresh_blocks m" and r: "do { c \<leftarrow> stressFill reg hc hash j m; stressWriter reg c } = Some c" for j m c
  proof -
    obtain c1 where 1: "stressFill reg hc hash j m = Some c1" "stressWriter reg c1 = Some c" using r by (auto split: bind_splits)
    have "owner m c1" by (rule fill_owner [OF 1(1) [unfolded stressFill_def] f]) (rule body_owner)
    then show "owner m c" by (rule loop_owner [OF _ 1(2) [unfolded stressWriter_def]]) (rule body_owner)
  qed
  note seed = cleans_client [where use = "\<lambda>m. do { c \<leftarrow> stressFill reg hc hash j m; stressWriter reg c }" for j, OF this]
  show ?thesis unfolding manualStress_def by (rule cleans_loop) (use seed in \<open>simp add: cleans_def\<close>)
qed

lemma usage_cleans: "cleans (RCUTableNormalUsageStress reg hc hash rounds)"
proof -
  have inserts: "owner m c'" if "owner m c" "for_range lo hi (usageInsert reg hash) c = Some c'" for m lo hi c c'
    by (rule loop_owner [OF that]) (rule body_owner)
  have round: "owner m c'" if o: "owner m c" and r: "usageRound reg hash c = Some c'" for m c c'
  proof -
    obtain c1 where 1: "for_range usagePersist usageTotal (usageDetach reg hash) c = Some c1"
      "for_range usagePersist usageTotal (usageInsert reg hash) c1 = Some c'" using r by (auto simp: usageRound_def split: bind_splits)
    have "owner m c1" by (rule loop_owner [OF o 1(1)]) (rule body_owner)
    then show ?thesis using inserts 1(2) by blast
  qed
  have "owner m c" if f: "fresh_blocks m"
    and r: "do { c \<leftarrow> usageFill reg hc hash m; c \<leftarrow> usageWriter reg hash rounds c; usageVerify hash c } = Some c" for m c
  proof -
    obtain c1 c2 where 1: "usageFill reg hc hash m = Some c1" "usageWriter reg hash rounds c1 = Some c2" "usageVerify hash c2 = Some c"
      using r by (auto split: bind_splits)
    obtain c3 where 2: "usageGrow reg hash c1 = Some c3" "for_range 0 rounds (\<lambda>_. usageRound reg hash) c3 = Some c2"
      using 1(2) by (auto simp: usageWriter_def split: bind_splits)
    obtain T m1 where 3: "rTableSynchronize reg (tbl c1) (cmem c1) = Some (T, m1)"
      "for_range usagePersist usageTotal (usageInsert reg hash) (c1\<lparr>tbl := T, cmem := m1\<rparr>) = Some c3"
      using 2(1) by (auto simp: usageGrow_def split: bind_splits)
    have "owner m c1" by (rule fill_owner [OF 1(1) [unfolded usageFill_def] f]) (rule body_owner)
    then have "owner m (c1\<lparr>tbl := T, cmem := m1\<rparr>)" using sync_owned 3(1) by auto
    then have "owner m c3" using inserts 3(2) by blast
    then have "owner m c2" by (rule loop_owner [OF _ 2(2)]) (rule round)
    then show "owner m c" by (rule loop_owner [OF _ 1(3) [unfolded usageVerify_def]])
      (auto simp: Let_def split: bind_splits if_splits)
  qed
  from cleans_client [where use = "\<lambda>m. do { c \<leftarrow> usageFill reg hc hash m; c \<leftarrow> usageWriter reg hash rounds c; usageVerify hash c }", OF this] show ?thesis by (simp add: cleans_def RCUTableNormalUsageStress_def)
qed

subsection \<open>The programs return\<close>

lemma destroys: "holdsTable reg key hf n (tbl c, cmem c) M \<Longrightarrow> \<exists>m'. destroyTableCore (core (tbl c)) (cmem c) = Some m'"
  using destroy_fresh by blast

lemma quick_returns:
  assumes "unat hc \<le> 2 ^ 20" and "unat (nrNonOverlappingBucketCount reg) \<le> 2 ^ 29" and "fresh_blocks m"
  shows "\<exists>m'. rcuHashTableQuickExample reg hc hash m = Some m'"
proof -
  obtain c1 where 1: "quickFill reg hc hash m = Some c1" "filledTo reg hash quickSize c1"
    using quickFill_ok [OF assms] by blast
  obtain c2 where 2: "quickWriter reg hash c1 = Some c2" "erasedTo reg hash c1 quickSize c2"
    using quickErase_upto [OF 1(2) order_refl] unfolding quickWriter_def by blast
  have "\<exists>m'. destroyTableCore (core (tbl c2)) (cmem c2) = Some m'"
    using destroys [OF follows_holds [OF 2(2) [unfolded erasedTo_def, THEN conjunct1]]] .
  then show ?thesis using 1 2 by (simp add: rcuHashTableQuickExample_def)
qed

lemma single_returns:
  assumes "unat hc \<le> 2 ^ 20" and "unat (nrNonOverlappingBucketCount reg) \<le> 2 ^ 29" and "fresh_blocks m"
  shows "\<exists>m'. singleThreadTest reg hc hash m = Some m'"
proof -
  obtain c where c: "RCUTableTestSingleThreadTest reg hc hash m = Some c" "single reg hash 1000 [] c"
    using single_thread_run [OF assms] by blast
  have "\<exists>m'. destroyTableCore (core (tbl c)) (cmem c) = Some m'" using c(2) destroys unfolding single_def by blast
  then show ?thesis using c(1) by (simp add: singleThreadTest_def)
qed

lemma hashMap_returns:
  assumes "unat hc \<le> 2 ^ 20" and "unat (nrNonOverlappingBucketCount reg) \<le> 2 ^ 29" and "fresh_blocks m"
  shows "\<exists>m'. runRcuHashMap reg hc hash m = Some m'"
proof -
  obtain c1 where 1: "comparisonFill reg hc hash m = Some c1"
    "follows reg comparisonKey hash lookedUp c_nrElementsToLookUp (tbl c1, cmem c1) (stored [0..<c_nrElementsToLookUp])
      (tbl c1, cmem c1) (stored [0..<c_nrElementsToLookUp])"
    using comparisonFill_ok [OF assms] by blast
  obtain c2 xs where 2: "comparisonWriter reg hash c1 = Some c2"
    "follows reg comparisonKey hash lookedUp (c_nrElementsToLookUp - c_nrElementsToLookUp) (tbl c1, cmem c1)
      (stored [0..<c_nrElementsToLookUp]) (tbl c2, cmem c2) (stored xs)"
    using compared_upto [OF 1(2) order_refl] unfolding comparisonWriter_def compared_def by blast
  have "\<exists>m'. destroyTableCore (core (tbl c2)) (cmem c2) = Some m'" by (rule destroys [OF follows_holds [OF 2(2)]])
  then show ?thesis using 1 2 by (simp add: runRcuHashMap_def)
qed

subsection \<open>Property\<close>

text \<open>
  The programs of \<open>main\<close> that use tables run to their end one after the other, for every hash function:
  no assertion fails, nothing throws and no loop runs forever.  After each of them exactly the blocks
  are live that were live before; the list test leaves an empty list.
\<close>

theorem programs_end:
  assumes "unat hc \<le> 2 ^ 20" and "unat (nrNonOverlappingBucketCount reg) \<le> 2 ^ 29" and "fresh_blocks m" and "rounds \<le> 8"
  shows "\<exists>m1 d' m2. rcuHashTableQuickExample reg hc intHash m = Some m1 \<and> blocks m1 = blocks m
    \<and> rTableTests reg hc hash rounds (d, m1) = Some (d', m2) \<and> blocks m2 = blocks m \<and> rcuDlistEmpty Head d'"
proof -
  have step: "\<exists>m'. f m = Some m' \<and> blocks m' = blocks m \<and> fresh_blocks m'"
    if "fresh_blocks m" "cleans f" "fresh_blocks m \<Longrightarrow> \<exists>m'. f m = Some m'" for f m
    using that unfolding cleans_def by blast
  obtain m1 where 1: "rcuHashTableQuickExample reg hc intHash m = Some m1" "blocks m1 = blocks m" "fresh_blocks m1"
    using step [OF assms(3) quick_cleans quick_returns [OF assms(1,2)]] by blast
  obtain d' where d: "dlistRun dlistSize d = Some d'" "dlist d' Head []" using dlistRun_ok by blast
  have "\<exists>m'. manualStress reg hc hash m = Some m'" if "fresh_blocks m" for m using manualStress_ok [OF assms(1,2) that] by blast
  then obtain m2 where 2: "manualStress reg hc hash m1 = Some m2" "blocks m2 = blocks m1" "fresh_blocks m2"
    using step [OF 1(3) stress_cleans] by blast
  obtain m3 where 3: "singleThreadTest reg hc hash m2 = Some m3" "blocks m3 = blocks m2" "fresh_blocks m3"
    using step [OF 2(3) single_cleans single_returns [OF assms(1,2)]] by blast
  obtain m4 where 4: "runRcuHashMap reg hc hash m3 = Some m4" "blocks m4 = blocks m3" "fresh_blocks m4"
    using step [OF 3(3) hashMap_cleans hashMap_returns [OF assms(1,2)]] by blast
  have "\<exists>m'. RCUTableNormalUsageStress reg hc hash rounds m4 = Some m'"
    using usage_run [OF assms(1,2) 4(3) assms(4)] by blast
  then obtain m5 where 5: "RCUTableNormalUsageStress reg hc hash rounds m4 = Some m5" "blocks m5 = blocks m4"
    using step [OF 4(3) usage_cleans] by blast
  have "rcuDlistEmpty Head d'" using d(2) by (auto simp: dlist_def rcuDlistEmpty_def)
  then show ?thesis using 1 d(1) 2 3 4 5 by (simp add: rTableTests_def)
qed

theorem programs_end_witness:
  "\<exists>m1 d m2. rcuHashTableQuickExample exReg 4 of_int exMem = Some m1 \<and> blocks m1 = blocks exMem
    \<and> rTableTests exReg 4 (\<lambda>v. v) 2 (\<lparr>dnext = (\<lambda>_. None), dprev = (\<lambda>_. None), dtrace = []\<rparr>, m1) = Some (d, m2) \<and> blocks m2 = blocks exMem"
proof -
  have "unat (4 :: u32) \<le> 2 ^ 20" "unat (nrNonOverlappingBucketCount exReg) \<le> 2 ^ 29" "fresh_blocks exMem" "(2 :: nat) \<le> 8"
    by (simp_all add: exReg_def fresh_blocks_def exMem_def)
  from programs_end [OF this, of of_int "\<lambda>v. v" "\<lparr>dnext = (\<lambda>_. None), dprev = (\<lambda>_. None), dtrace = []\<rparr>"] show ?thesis by blast
qed

end
