(* ===== verification/Benchmark.thy ===== *)
theory Benchmark
  imports Concurrent
begin

text \<open>
  The RCU benchmark of \<open>RCUTests.cpp\<close> (\<open>fRCU\<close> and \<open>fRCURegister\<close>): readers dereference \<open>pCurrent\<close> inside
  their critical sections while a writer replaces it, waits in \<open>rcuSynchronize\<close>, and deletes the old
  value.  Shown: no reader ever dereferences a deleted value, and the writer leaks none.
\<close>

subsection \<open>The program\<close>

text \<open>
  Heap cells of type \<open>int64_t\<close> have numbers; \<open>fresh\<close> is the next one.  \<open>draw k\<close> is the value of
  \<open>distrib(gen)\<close> in the iteration \<open>k\<close>.  The writer's program counter: at the top of its loop, after
  the load of \<open>pOld\<close>, in \<open>rcuSynchronize\<close>, and before \<open>delete pOld\<close>.
\<close>

datatype bwriter = BLoop int | BLoaded int nat | BStored int nat | BSynced int nat

text \<open>
  A reader has not loaded \<open>pCurrent\<close> in this section, holds it, has passed its value to \<open>func\<close>, has
  dereferenced a dead cell, or has thrown.
\<close>

datatype breader = BFresh | BHolds nat | BUsed | BFault | BThrew

record bench =
  bproto :: pstate
  cells :: "nat \<rightharpoonup> int"
  fresh :: nat
  pCurrent :: nat
  bwriter :: bwriter
  breaders :: "nat \<Rightarrow> breader"

definition c_nrLoops :: int where
  "c_nrLoops = 2 * 2 ^ 21"

definition c_writeInterval :: int where
  "c_writeInterval = 10000"

text \<open>\<open>func\<close> throws for a negative value; what it computes besides is discarded.\<close>

definition funcThrows :: "int \<Rightarrow> bool" where
  "funcThrows v \<longleftrightarrow> v < 0"

text \<open>One step of the writer thread (\<open>futureModify\<close>), with \<open>rcuSynchronize\<close> step by step.\<close>

fun modifyStep :: "RCUReaderThreadRegistry \<Rightarrow> (int \<Rightarrow> int) \<Rightarrow> bench \<Rightarrow> bench option" where
  "modifyStep reg draw s =
     (case bwriter s of
        BLoop k \<Rightarrow>
          if \<not> k < c_nrLoops then None
          else if k mod c_writeInterval = 0 then Some (s\<lparr>bwriter := BLoaded k (pCurrent s)\<rparr>)
          else Some (s\<lparr>bwriter := BLoop (k + 1)\<rparr>)
      | BLoaded k pOld \<Rightarrow>
          Some (s\<lparr>cells := (cells s)(fresh s \<mapsto> draw k), fresh := Suc (fresh s), pCurrent := fresh s,
                  bwriter := BStored k pOld\<rparr>)
      | BStored k pOld \<Rightarrow> do {
          p \<leftarrow> writerStep reg (bproto s);
          Some (s\<lparr>bproto := p, bwriter := (if writer p = WOut then BSynced k pOld else BStored k pOld)\<rparr>)
        }
      | BSynced k pOld \<Rightarrow> Some (s\<lparr>cells := (cells s)(pOld := None), bwriter := BLoop (k + 1)\<rparr>))"

text \<open>
  One step of a reader thread: a step of the locking protocol, which leaves the section only after
  the value was used; the load of \<open>pCurrent\<close>; the dereference and the call of \<open>func\<close>.
\<close>

fun readStep :: "RCUReaderThreadRegistry \<Rightarrow> nat \<Rightarrow> bench \<Rightarrow> bench option" where
  "readStep reg i s =
     (if reading (bproto s) i then
        (case breaders s i of
           BFresh \<Rightarrow> Some (s\<lparr>breaders := (breaders s)(i := BHolds (pCurrent s))\<rparr>)
         | BHolds a \<Rightarrow>
             Some (s\<lparr>breaders := (breaders s)(i :=
               (case cells s a of None \<Rightarrow> BFault | Some v \<Rightarrow> if funcThrows v then BThrew else BUsed))\<rparr>)
         | BUsed \<Rightarrow> do { p \<leftarrow> threadStep reg i (bproto s);
                       Some (s\<lparr>bproto := p, breaders := (breaders s)(i := BFresh)\<rparr>) }
         | _ \<Rightarrow> None)
      else do { p \<leftarrow> threadStep reg i (bproto s); Some (s\<lparr>bproto := p\<rparr>) })"

definition bstep :: "RCUReaderThreadRegistry \<Rightarrow> (int \<Rightarrow> int) \<Rightarrow> bench \<Rightarrow> bench \<Rightarrow> bool" where
  "bstep reg draw s s' \<longleftrightarrow> modifyStep reg draw s = Some s' \<or> (\<exists>i. readStep reg i s = Some s')"

text \<open>\<open>pCurrent\<close> points to a drawn value, and no thread has started.\<close>

definition bstart :: "RCUReaderThreadRegistry \<Rightarrow> bench \<Rightarrow> bool" where
  "bstart reg s \<longleftrightarrow> (\<exists>p0. pstart reg p0 \<and> (pstep reg)\<^sup>*\<^sup>* p0 (bproto s)) \<and> writer (bproto s) = WOut
     \<and> (\<exists>v > 0. cells s = [pCurrent s \<mapsto> v]) \<and> pCurrent s < fresh s
     \<and> bwriter s = BLoop 0 \<and> breaders s = (\<lambda>_. BFresh)"

subsection \<open>The invariant\<close>

text \<open>The cells a reader may hold, and the cells that are live, where the writer stands.\<close>

definition mayHold :: "bench \<Rightarrow> nat \<Rightarrow> nat set" where
  "mayHold s i =
     (case bwriter s of
        BStored k pOld \<Rightarrow>
          if writer (bproto s) \<noteq> WOut \<and> inNewEpoch (bproto s) i then {pCurrent s} else {pOld, pCurrent s}
      | _ \<Rightarrow> {pCurrent s})"

definition liveCells :: "bench \<Rightarrow> nat set" where
  "liveCells s =
     (case bwriter s of BStored k pOld \<Rightarrow> {pOld, pCurrent s} | BSynced k pOld \<Rightarrow> {pOld, pCurrent s} | _ \<Rightarrow> {pCurrent s})"

definition bwriter_ok :: "bench \<Rightarrow> bool" where
  "bwriter_ok s \<longleftrightarrow>
     (case bwriter s of
        BLoop k \<Rightarrow> writer (bproto s) = WOut
      | BLoaded k pOld \<Rightarrow> writer (bproto s) = WOut \<and> pOld = pCurrent s
      | BStored k pOld \<Rightarrow> pOld \<noteq> pCurrent s
      | BSynced k pOld \<Rightarrow> writer (bproto s) = WOut \<and> pOld \<noteq> pCurrent s)"

definition breader_ok :: "bench \<Rightarrow> nat \<Rightarrow> bool" where
  "breader_ok s i \<longleftrightarrow> (\<forall>a. breaders s i = BHolds a \<longrightarrow> a \<in> mayHold s i) \<and> breaders s i \<noteq> BFault \<and> breaders s i \<noteq> BThrew
     \<and> (\<not> reading (bproto s) i \<longrightarrow> breaders s i = BFresh)"

definition binv :: "RCUReaderThreadRegistry \<Rightarrow> bench \<Rightarrow> bool" where
  "binv reg s \<longleftrightarrow> pinv reg (bproto s) \<and> bwriter_ok s \<and> dom (cells s) = liveCells s
     \<and> (\<forall>a \<in> liveCells s. a < fresh s) \<and> (\<forall>v \<in> ran (cells s). 0 < v) \<and> (\<forall>i. breader_ok s i)"

lemma mayHold_live: "mayHold s i \<subseteq> liveCells s"
  by (auto simp: mayHold_def liveCells_def split: bwriter.split)

lemma reader_updates [simp]:
  "mayHold (s\<lparr>breaders := r\<rparr>) i = mayHold s i" "liveCells (s\<lparr>breaders := r\<rparr>) = liveCells s"
  "bwriter_ok (s\<lparr>breaders := r\<rparr>) = bwriter_ok s" "liveCells (s\<lparr>bproto := p\<rparr>) = liveCells s"
  by (cases "bwriter s"; simp add: mayHold_def liveCells_def bwriter_ok_def)+

lemma mayHold_pCurrent [simp]: "pCurrent s \<in> mayHold s i"
  by (auto simp: mayHold_def split: bwriter.split)

lemma binvD:
  assumes "binv reg s"
  shows "pinv reg (bproto s)" "bwriter_ok s" "dom (cells s) = liveCells s" "a \<in> liveCells s \<Longrightarrow> a < fresh s"
    "cells s a = Some v \<Longrightarrow> 0 < v" "breader_ok s i"
  using assms unfolding binv_def by (auto simp: ran_def)

lemma bstart_inv: "bstart reg s \<Longrightarrow> binv reg s"
  unfolding bstart_def binv_def breader_ok_def using protocol.inv_reachable
  by (auto simp: liveCells_def bwriter_ok_def ran_def split: if_splits)

text \<open>A reader's step.\<close>

lemma readStep_inv:
  assumes inv: "binv reg s" and st: "readStep reg i s = Some s'"
  shows "binv reg s'"
proof (cases "reading (bproto s) i \<and> breaders s i \<noteq> BUsed")
  case True
  have ok: "breader_ok s i" using binvD(6) [OF inv] .
  obtain r where s': "s' = s\<lparr>breaders := (breaders s)(i := r)\<rparr>" and r: "breader_ok (s\<lparr>breaders := (breaders s)(i := r)\<rparr>) i"
  proof (cases "breaders s i")
    case BFresh
    then have "s' = s\<lparr>breaders := (breaders s)(i := BHolds (pCurrent s))\<rparr>" using st True by simp
    then show ?thesis using that True by (auto simp: breader_ok_def)
  next
    case (BHolds a)
    then have "a \<in> dom (cells s)" using ok mayHold_live binvD(3) [OF inv] by (auto simp: breader_ok_def)
    then obtain v where "cells s a = Some v" by blast
    then have "s' = s\<lparr>breaders := (breaders s)(i := BUsed)\<rparr>"
      using st True BHolds binvD(5) [OF inv, of a v] by (simp add: funcThrows_def)
    then show ?thesis using that True by (auto simp: breader_ok_def)
  qed (use st True ok in \<open>auto simp: breader_ok_def\<close>)
  have "breader_ok s' i'" for i'
    using s' r binvD(6) [OF inv, of i'] by (cases "i' = i") (auto simp: breader_ok_def)
  then show ?thesis using inv s'(1) by (simp add: binv_def)
next
  case False
  then obtain p where p: "threadStep reg i (bproto s) = Some p"
    "s' = (if reading (bproto s) i then s\<lparr>bproto := p, breaders := (breaders s)(i := BFresh)\<rparr> else s\<lparr>bproto := p\<rparr>)"
    using st by (auto split: if_splits bind_splits simp del: threadStep.simps)
  note f = threadStep_frame [OF p(1)]
  have i: "breaders s' i = BFresh" using p(2) binvD(6) [OF inv, of i] by (simp add: breader_ok_def)
  have "breader_ok s' i'" for i'
  proof (cases "i' = i")
    case True
    then show ?thesis using i by (simp add: breader_ok_def)
  next
    case False
    then have "threads p ! i' = threads (bproto s) ! i'" using f(4) by simp
    then have "reading p i' = reading (bproto s) i'" "inNewEpoch p i' = inNewEpoch (bproto s) i'"
      using f(2,3) by (simp_all add: reading_def inNewEpoch_def)
    then show ?thesis using binvD(6) [OF inv, of i'] p(2) f(1) False
      by (auto simp: breader_ok_def mayHold_def split: bwriter.splits)
  qed
  moreover have "pinv reg p" using pstep_pinv [OF threadStep_sound [OF p(1)] binvD(1) [OF inv]] .
  ultimately show ?thesis using inv p(2) f(1) by (auto simp: binv_def bwriter_ok_def split: bwriter.splits)
qed

text \<open>A step of the writer inside \<open>rcuSynchronize\<close>: the readers that may hold the old value leave one by one.\<close>

lemma graceStep_inv:
  assumes inv: "binv reg s" and st: "modifyStep reg draw s = Some s'" and BStored: "bwriter s = BStored k pOld"
  shows "binv reg s'"
proof -
  obtain p where p: "writerStep reg (bproto s) = Some p"
    "s' = s\<lparr>bproto := p, bwriter := (if writer p = WOut then BSynced k pOld else BStored k pOld)\<rparr>"
    using st BStored by (auto simp del: writerStep.simps split: bind_splits)
  have pinv: "pinv reg p" using pstep_pinv [OF writerStep_sound [OF p(1)] binvD(1) [OF inv]] .
  note th = writerStep_threads [OF p(1)]
  have rd: "reading p i = reading (bproto s) i" for i using th by (simp add: reading_def)
  have "a \<in> mayHold s' i" if a: "breaders s i = BHolds a" for a i
  proof -
    have ok: "a \<in> mayHold s i" "reading (bproto s) i" using binvD(6) [OF inv, of i] a by (auto simp: breader_ok_def)
    show ?thesis
    proof (cases "writer p = WOut")
      case True
      then have w: "writer (bproto s) \<noteq> WOut" using p(1) by auto
      have "inNewEpoch p i" using ok(2) rd [of i] pinv_old_epoch [OF pinv True, of i] by (auto simp: inNewEpoch_def reading_RIn)
      then have "inNewEpoch (bproto s) i" using th writerStep_latest [OF p(1) w] by (simp add: inNewEpoch_def)
      then show ?thesis using ok(1) w True p(2) by (simp add: mayHold_def BStored)
    next
      case False
      show ?thesis
      proof (cases "writer (bproto s) = WOut")
        case True
        then have pe: "p = (bproto s)\<lparr>zone := (zone (bproto s))\<lparr>epochLatest := epochLatest (zone (bproto s)) + 1\<rparr>,
            writer := WOuter (epochLatest (zone (bproto s)))\<rparr>" using p(1) by simp
        have "\<not> inNewEpoch p i"
          using pinv_old_epoch [OF binvD(1) [OF inv] True, of i] by (auto simp: inNewEpoch_def pe)
        then show ?thesis using ok(1) True False p(2) by (simp add: mayHold_def BStored)
      next
        case w: False
        then have "inNewEpoch p i = inNewEpoch (bproto s) i" using th writerStep_latest [OF p(1) w] by (simp add: inNewEpoch_def)
        then show ?thesis using ok(1) w False p(2) by (simp add: mayHold_def BStored split: if_splits)
      qed
    qed
  qed
  then have "breader_ok s' i" for i
    using binvD(6) [OF inv, of i] p(2) rd [of i] unfolding breader_ok_def by simp
  moreover have "bwriter_ok s'" using binvD(2) [OF inv] p(2) BStored by (auto simp: bwriter_ok_def)
  moreover have "liveCells s' = liveCells s" using p(2) BStored by (auto simp: liveCells_def)
  ultimately show ?thesis using inv pinv p(2) by (simp add: binv_def)
qed

text \<open>A step of the writer.\<close>

lemma modifyStep_inv:
  assumes inv: "binv reg s" and st: "modifyStep reg draw s = Some s'" and pos: "\<And>k. 0 < draw k"
  shows "binv reg s'"
proof (cases "bwriter s")
  case (BLoop k)
  then obtain w where s': "s' = s\<lparr>bwriter := w\<rparr>" "w = BLoaded k (pCurrent s) \<or> w = BLoop (k + 1)"
    using st by (auto split: if_splits)
  have "liveCells s' = liveCells s" using s' BLoop by (auto simp: liveCells_def)
  moreover have "breader_ok s' i" for i using binvD(6) [OF inv, of i] s' BLoop by (auto simp: breader_ok_def mayHold_def)
  moreover have "bwriter_ok s'" using binvD(2) [OF inv] s' BLoop by (auto simp: bwriter_ok_def)
  ultimately show ?thesis using inv s'(1) by (simp add: binv_def)
next
  case (BLoaded k pOld)
  then have s': "s' = s\<lparr>cells := (cells s)(fresh s \<mapsto> draw k), fresh := Suc (fresh s), pCurrent := fresh s, bwriter := BStored k pOld\<rparr>"
    using st by simp
  have c: "dom (cells s) = {pCurrent s}" "pCurrent s < fresh s" "pOld = pCurrent s" "writer (bproto s) = WOut"
    using binvD(2,3,4) [OF inv] BLoaded by (auto simp: bwriter_ok_def liveCells_def)
  have "breader_ok s' i" for i
    using binvD(6) [OF inv, of i] c s' by (auto simp: breader_ok_def mayHold_def BLoaded)
  moreover have "\<forall>v \<in> ran (cells s'). 0 < v" using inv pos s' by (auto simp: binv_def ran_def)
  ultimately show ?thesis using c s' binvD(1) [OF inv] by (auto simp: binv_def bwriter_ok_def liveCells_def)
next
  case (BStored k pOld)
  then show ?thesis by (rule graceStep_inv [OF inv st])
next
  case (BSynced k pOld)
  then have s': "s' = s\<lparr>cells := (cells s)(pOld := None), bwriter := BLoop (k + 1)\<rparr>" using st by simp
  have c: "dom (cells s) = {pOld, pCurrent s}" "pOld \<noteq> pCurrent s" "writer (bproto s) = WOut" "pCurrent s < fresh s"
    using binvD(2,3,4) [OF inv] BSynced by (auto simp: bwriter_ok_def liveCells_def)
  have "breader_ok s' i" for i using binvD(6) [OF inv, of i] s' by (auto simp: breader_ok_def mayHold_def BSynced)
  moreover have "\<forall>v \<in> ran (cells s'). 0 < v" using inv s' by (auto simp: binv_def ran_def split: if_splits)
  ultimately show ?thesis using c s' binvD(1) [OF inv] by (auto simp: binv_def bwriter_ok_def liveCells_def)
qed

text \<open>The draws are positive, as the distribution's range says.\<close>

definition bmove :: "RCUReaderThreadRegistry \<Rightarrow> (int \<Rightarrow> int) \<Rightarrow> bench \<Rightarrow> bench \<Rightarrow> bool" where
  "bmove reg draw s s' \<longleftrightarrow> (\<forall>k. 0 < draw k) \<and> bstep reg draw s s'"

interpretation benchmark: invariant_system "bstart reg" "bmove reg draw" "binv reg" for reg draw
  by unfold_locales (auto simp: bmove_def bstep_def simp del: modifyStep.simps readStep.simps
    intro: bstart_inv modifyStep_inv readStep_inv)

lemma bmoves: "(\<And>k. 0 < draw k) \<Longrightarrow> (bstep reg draw)\<^sup>*\<^sup>* s s' \<Longrightarrow> (bmove reg draw)\<^sup>*\<^sup>* s s'"
  by (erule rtranclp_mono [THEN predicate2D, rotated]) (auto simp: bmove_def)

subsection \<open>Properties\<close>

text \<open>
  The benchmark is safe.  On every interleaving of the readers with the writer: no reader
  dereferences a deleted value, \<open>func\<close> never throws, and between two replacements exactly the current
  value is allocated.
\<close>

theorem benchmark_safe:
  assumes "bstart reg s0" and "(bstep reg draw)\<^sup>*\<^sup>* s0 s" and "\<And>k. 1 \<le> draw k \<and> draw k \<le> 100000000"
  shows "breaders s i \<noteq> BFault \<and> breaders s i \<noteq> BThrew \<and> (\<forall>k. bwriter s = BLoop k \<longrightarrow> dom (cells s) = {pCurrent s})"
proof -
  have "0 < draw k" for k using assms(3) [of k] by simp
  then have "binv reg s" using benchmark.inv_reachable [OF assms(1) bmoves] assms(2) by blast
  then show ?thesis using binvD(3,6) [of reg s] by (auto simp: breader_ok_def liveCells_def)
qed

text \<open>
  A run of \<open>exState\<close>: reader 0 loads the first value, the writer replaces it and starts to wait, the
  reader dereferences it and leaves, and the writer goes on and deletes it.
\<close>

abbreviation brun :: "RCUReaderThreadRegistry \<Rightarrow> (int \<Rightarrow> int) \<Rightarrow> nat option list \<Rightarrow> bench \<Rightarrow> bench option" where
  "brun reg draw \<equiv> for_list (actor (modifyStep reg draw) (readStep reg))"

lemma brun_reach: "brun reg draw as s = Some s' \<Longrightarrow> (bstep reg draw)\<^sup>*\<^sup>* s s'"
  by (erule actors_reach) (unfold bstep_def, blast+)

definition exBench :: bench where
  "exBench = \<lparr>bproto = exState, cells = [0 \<mapsto> 42], fresh = 1, pCurrent = 0, bwriter = BLoop 0, breaders = (\<lambda>_. BFresh)\<rparr>"

definition exBenchRun :: "bench option" where
  "exBenchRun = brun exReg (\<lambda>_. 7)
     (replicate 5 (Some 0) @ replicate 5 None @ [Some 0, Some 0] @ replicate 4 None) exBench"

theorem benchmark_safe_witness:
  "\<exists>s. exBenchRun = Some s \<and> bwriter s = BLoop 1 \<and> dom (cells s) = {pCurrent s} \<and> breaders s 0 \<noteq> BFault"
proof -
  have "map_option bwriter exBenchRun = Some (BLoop 1)" by code_simp
  then obtain s where s: "exBenchRun = Some s" "bwriter s = BLoop 1" by auto
  have "writer (bproto exBench) = WOut" by (simp add: exBench_def exState_def)
  moreover have "pstart exReg (bproto exBench)" using exState_start by (simp add: exBench_def)
  ultimately have b: "bstart exReg exBench"
    unfolding bstart_def by (intro conjI exI [of _ "42 :: int"] exI [of _ "bproto exBench"]) (simp_all add: exBench_def)
  have "(bstep exReg (\<lambda>_. 7))\<^sup>*\<^sup>* exBench s" using s(1) brun_reach unfolding exBenchRun_def by blast
  from benchmark_safe [OF b this, of 0] show ?thesis using s by (intro exI [of _ s]) simp
qed

end
