(* ===== verification/RegisterBenchmark.thy ===== *)
theory RegisterBenchmark
  imports Benchmark
begin

text \<open>
  The start of \<open>fRCURegister\<close> in \<open>RCUTests.cpp\<close>, in front of the loops of \<open>Benchmark\<close>: eight reader threads
  register themselves, count themselves at a latch, and spin until all eight have.  The registry is
  shared and changes while the benchmark runs, so this is where \<open>rcuRegisterReaderThread\<close> meets the
  protocol.  Shown: every reader that gets past the latch has an id of its own if there are enough of
  them, all eight have registered by then, the spinning ends, and the benchmark stays safe.
\<close>

subsection \<open>The program\<close>

text \<open>A reader is about to register, to count itself, is spinning at the latch, or is in its loop.\<close>

datatype rphase = AtRegister | AtLatch | Spinning | Looping

record rbench =
  registry :: RCUReaderThreadRegistry
  inner :: bench
  latch :: int
  rphase :: "nat \<Rightarrow> rphase"

definition setTls :: "nat \<Rightarrow> u32 \<Rightarrow> bench \<Rightarrow> bench" where
  "setTls i b s = s\<lparr>bproto := (bproto s)\<lparr>threads := (threads (bproto s))[i := (threads (bproto s) ! i)\<lparr>tls := b\<rparr>]\<rparr>\<rparr>"

fun registerStep :: "nat \<Rightarrow> rbench \<Rightarrow> rbench option" where
  "registerStep i s =
     (if \<not> i < length (threads (bproto (inner s))) then None
      else case rphase s i of
        AtRegister \<Rightarrow>
          let (_, reg, b) = rcuRegisterReaderThread (registry s) (tls (threads (bproto (inner s)) ! i))
          in Some (s\<lparr>registry := reg, inner := setTls i b (inner s), rphase := (rphase s)(i := AtLatch)\<rparr>)
      | AtLatch \<Rightarrow> Some (s\<lparr>latch := latch s + 1, rphase := (rphase s)(i := Spinning)\<rparr>)
      | Spinning \<Rightarrow> Some (if latch s < 8 then s else s\<lparr>rphase := (rphase s)(i := Looping)\<rparr>)
      | Looping \<Rightarrow> do { b \<leftarrow> readStep (registry s) i (inner s); Some (s\<lparr>inner := b\<rparr>) })"

definition registerModify :: "(int \<Rightarrow> int) \<Rightarrow> rbench \<Rightarrow> rbench option" where
  "registerModify draw s = do { b \<leftarrow> modifyStep (registry s) draw (inner s); Some (s\<lparr>inner := b\<rparr>) }"

definition fRCURegister :: "(int \<Rightarrow> int) \<Rightarrow> rbench \<Rightarrow> rbench \<Rightarrow> bool" where
  "fRCURegister draw s s' \<longleftrightarrow> registerModify draw s = Some s' \<or> (\<exists>i. registerStep i s = Some s')"

text \<open>Nobody has registered yet in this process; the eight threads are about to start.\<close>

definition registerStart :: "u32 \<Rightarrow> rbench \<Rightarrow> bool" where
  "registerStart hardware_concurrency s \<longleftrightarrow> registry s = staticRegistry hardware_concurrency
     \<and> pstart (registry s) (bproto (inner s)) \<and> bstart (registry s) (inner s)
     \<and> length (threads (bproto (inner s))) = 8 \<and> (\<forall>t \<in> set (threads (bproto (inner s))). tls t = -1)
     \<and> latch s = 0 \<and> rphase s = (\<lambda>_. AtRegister)"

subsection \<open>A thread outside may change its id\<close>

lemma registry_simps [simp]:
  "nbuckets (reg\<lparr>nextBucketId := x\<rparr>) z = nbuckets reg z" "wf_zone (reg\<lparr>nextBucketId := x\<rparr>) z = wf_zone reg z"
  "thread_ok (reg\<lparr>nextBucketId := x\<rparr>) b = thread_ok reg b" "bucketOf (reg\<lparr>nextBucketId := x\<rparr>) z t = bucketOf reg z t"
  "countAt (reg\<lparr>nextBucketId := x\<rparr>) z r c = countAt reg z r c"
proof -
  show n: "nbuckets (reg\<lparr>nextBucketId := x\<rparr>) z = nbuckets reg z" by (simp add: nbuckets_def)
  show "wf_zone (reg\<lparr>nextBucketId := x\<rparr>) z = wf_zone reg z" "countAt (reg\<lparr>nextBucketId := x\<rparr>) z r c = countAt reg z r c"
    by (simp_all add: wf_zone_def countAt_def n cong: option.case_cong)
qed (simp_all add: thread_ok_def bucketOf_def fetchThreadBucketId_def)

lemma pinv_registry [simp]: "pinv (reg\<lparr>nextBucketId := x\<rparr>) p = pinv reg p"
  by (simp add: pinv_def counts_inv_def nheld_def held_def [abs_def] reader_inv_def)

lemma pinv_setTls:
  assumes inv: "pinv reg p" and i: "i < length (threads p)" "pcOf p i = ROut" and b: "thread_ok reg b"
  shows "pinv reg (p\<lparr>threads := (threads p)[i := (threads p ! i)\<lparr>tls := b\<rparr>]\<rparr>)"
proof -
  let ?t = "(threads p ! i)\<lparr>tls := b\<rparr>"
  have out: "\<not> held reg (zone p) r c t" if "pc t = ROut" for r c t using that by (simp add: held_def)
  have "nheld reg (zone p) ((threads p)[i := ?t]) r c = nheld reg (zone p) (threads p) r c" for r c
    using length_filter_update [OF i(1), of "held reg (zone p) r c" ?t] i(2) out by (simp add: nheld_def)
  moreover have "\<forall>t \<in> set ((threads p)[i := ?t]). thread_ok reg (tls t)"
    using inv b by (intro all_set_update) (auto simp: pinv_def)
  moreover have "\<forall>t \<in> set ((threads p)[i := ?t]). reader_inv reg (zone p) (writer p) t"
    using inv i(2) by (intro all_set_update) (auto simp: pinv_def reader_inv_def)
  ultimately show ?thesis using inv by (simp add: pinv_def counts_inv_def)
qed

lemma setTls_reading:
  "reading (bproto (setTls i b s)) j = reading (bproto s) j" "inNewEpoch (bproto (setTls i b s)) j = inNewEpoch (bproto s) j"
  by (cases "i < length (threads (bproto s))"; cases "j = i"; simp add: setTls_def reading_def inNewEpoch_def)+

lemma setTls_sel [simp]:
  "cells (setTls i b s) = cells s" "fresh (setTls i b s) = fresh s" "pCurrent (setTls i b s) = pCurrent s"
  "bwriter (setTls i b s) = bwriter s" "breaders (setTls i b s) = breaders s"
  "writer (bproto (setTls i b s)) = writer (bproto s)" "length (threads (bproto (setTls i b s))) = length (threads (bproto s))"
  by (simp_all add: setTls_def)

lemma binv_setTls:
  assumes inv: "binv reg s" and i: "i < length (threads (bproto s))" "pcOf (bproto s) i = ROut" and b: "thread_ok reg b"
  shows "binv (reg\<lparr>nextBucketId := x\<rparr>) (setTls i b s)"
proof -
  have "pinv reg (bproto (setTls i b s))" using pinv_setTls [OF binvD(1) [OF inv] i b] by (simp add: setTls_def)
  moreover have "mayHold (setTls i b s) j = mayHold s j" for j by (simp add: mayHold_def setTls_reading split: bwriter.split)
  moreover have "liveCells (setTls i b s) = liveCells s" by (simp add: liveCells_def split: bwriter.split)
  moreover have "bwriter_ok (setTls i b s) = bwriter_ok s" by (simp add: bwriter_ok_def split: bwriter.split)
  ultimately show ?thesis using inv by (simp add: binv_def breader_ok_def setTls_reading)
qed

subsection \<open>The invariant\<close>

definition tlsOf :: "rbench \<Rightarrow> nat \<Rightarrow> u32" where
  "tlsOf s i = (if i < 8 then tls (threads (bproto (inner s)) ! i) else -1)"

definition registered :: "rbench \<Rightarrow> nat set" where
  "registered s = {i. i < 8 \<and> rphase s i \<noteq> AtRegister}"

definition counted :: "rbench \<Rightarrow> nat set" where
  "counted s = {i. i < 8 \<and> (rphase s i = Spinning \<or> rphase s i = Looping)}"

definition rinv :: "rbench \<Rightarrow> bool" where
  "rinv s \<longleftrightarrow> binv (registry s) (inner s) \<and> length (threads (bproto (inner s))) = 8
     \<and> registry_inv (registry s) (tlsOf s) \<and> unat (nextBucketId (registry s)) = card (registered s)
     \<and> latch s = int (card (counted s))
     \<and> (\<forall>i < 8. rphase s i = AtRegister \<longrightarrow> tlsOf s i = -1)
     \<and> (\<forall>i < 8. rphase s i \<noteq> AtRegister \<longrightarrow> 8 \<le> unat (nrNonOverlappingBucketCount (registry s)) \<longrightarrow> tlsOf s i \<noteq> -1)
     \<and> (\<forall>i < 8. rphase s i \<noteq> Looping \<longrightarrow> pcOf (bproto (inner s)) i = ROut)
     \<and> (\<forall>i < 8. rphase s i = Looping \<longrightarrow> card (counted s) = 8)"

lemma rinvD:
  assumes "rinv s"
  shows "binv (registry s) (inner s)" "length (threads (bproto (inner s))) = 8" "registry_inv (registry s) (tlsOf s)"
    "unat (nextBucketId (registry s)) = card (registered s)" "latch s = int (card (counted s))"
    "i < 8 \<Longrightarrow> rphase s i = AtRegister \<Longrightarrow> tlsOf s i = -1" "i < 8 \<Longrightarrow> rphase s i = Looping \<Longrightarrow> card (counted s) = 8"
    "i < 8 \<Longrightarrow> rphase s i \<noteq> Looping \<Longrightarrow> pcOf (bproto (inner s)) i = ROut"
    "i < 8 \<Longrightarrow> rphase s i \<noteq> AtRegister \<Longrightarrow> 8 \<le> unat (nrNonOverlappingBucketCount (registry s)) \<Longrightarrow> tlsOf s i \<noteq> -1"
  using assms unfolding rinv_def by auto

lemma rinv_bound:
  assumes "rinv s"
  shows "unat (nrNonOverlappingBucketCount (registry s)) < 2 ^ 31"
  using pinvD(1) [OF binvD(1) [OF rinvD(1) [OF assms]]] by (auto simp: wf_zone_def nbuckets_def)

text \<open>A step of the benchmark itself: the ids stay, and threads that are not in their loop stay outside.\<close>

lemma threadStep_tls: "threadStep reg i p = Some p' \<Longrightarrow> tls (threads p' ! j) = tls (threads p ! j)"
  by (cases "j = i") (auto simp: Let_def fetchAddCount_def setPc_def split: if_splits rpc.splits bind_splits)

lemma readStep_frame:
  assumes "readStep reg i b = Some b'"
  shows "length (threads (bproto b')) = length (threads (bproto b))" "tls (threads (bproto b') ! j) = tls (threads (bproto b) ! j)"
    "j \<noteq> i \<Longrightarrow> threads (bproto b') ! j = threads (bproto b) ! j"
  using assms threadStep_tls [of reg i "bproto b" _ j] threadStep_frame(3,4) [of reg i "bproto b"]
  by (auto simp del: threadStep.simps split: if_splits breader.splits bind_splits)

lemma modifyStep_frame: "modifyStep reg draw b = Some b' \<Longrightarrow> threads (bproto b') = threads (bproto b)"
  by (auto simp del: writerStep.simps dest: writerStep_threads split: bwriter.splits if_splits bind_splits)

lemma rinv_inner:
  assumes inv: "rinv s" and b: "binv (registry s) b" "length (threads (bproto b)) = 8"
    and t: "\<And>j. tls (threads (bproto b) ! j) = tls (threads (bproto (inner s)) ! j)"
    and p: "\<And>j. j < 8 \<Longrightarrow> rphase s j \<noteq> Looping \<Longrightarrow> pcOf (bproto b) j = ROut"
  shows "rinv (s\<lparr>inner := b\<rparr>)"
proof -
  have e: "tlsOf (s\<lparr>inner := b\<rparr>) = tlsOf s" by (rule ext) (simp add: tlsOf_def t)
  show ?thesis using inv b p unfolding rinv_def e by (simp add: registered_def counted_def)
qed

lemma rinv_modify:
  assumes inv: "rinv s" and st: "registerModify draw s = Some s'" and pos: "\<And>k. 0 < draw k"
  shows "rinv s'"
proof -
  obtain b where b: "modifyStep (registry s) draw (inner s) = Some b" "s' = s\<lparr>inner := b\<rparr>"
    using st by (auto simp: registerModify_def simp del: modifyStep.simps split: bind_splits)
  show ?thesis unfolding b(2)
    using rinv_inner [OF inv modifyStep_inv [OF rinvD(1) [OF inv] b(1) pos]] modifyStep_frame [OF b(1)] rinvD(2,8) [OF inv] by simp
qed

lemma rinv_read:
  assumes inv: "rinv s" and i: "i < 8" "rphase s i = Looping" and st: "readStep (registry s) i (inner s) = Some b"
  shows "rinv (s\<lparr>inner := b\<rparr>)"
proof (rule rinv_inner [OF inv readStep_inv [OF rinvD(1) [OF inv] st]])
  fix j assume "j < 8" "rphase s j \<noteq> Looping"
  moreover from this have "j \<noteq> i" using i(2) by auto
  ultimately show "pcOf (bproto b) j = ROut" using readStep_frame(3) [OF st] rinvD(8) [OF inv] by simp
qed (simp_all add: readStep_frame [OF st] rinvD(2) [OF inv])

text \<open>Registering.\<close>

lemma register_result:
  assumes "rcuRegisterReaderThread reg (-1) = (ok, reg', b)" and "unat (nextBucketId reg) < 2 ^ 31 - 1"
    and "unat (nrNonOverlappingBucketCount reg) < 2 ^ 31"
  shows "reg' = reg\<lparr>nextBucketId := nextBucketId reg + 1\<rparr>" "unat (nextBucketId reg + 1) = Suc (unat (nextBucketId reg))"
    "unat (nextBucketId reg) < unat (nrNonOverlappingBucketCount reg) \<Longrightarrow> b = nextBucketId reg"
proof -
  show "reg' = reg\<lparr>nextBucketId := nextBucketId reg + 1\<rparr>"
    using assms(1) by (auto simp: rcuRegisterReaderThread_def Let_def split: if_splits)
  show "unat (nextBucketId reg + 1) = Suc (unat (nextBucketId reg))" using assms(2) unat_add_small [of "nextBucketId reg" 1] by simp
  have "sint (nextBucketId reg) = int (unat (nextBucketId reg))"
    "sint (nrNonOverlappingBucketCount reg) = int (unat (nrNonOverlappingBucketCount reg))"
    using assms(2,3) by (intro sint_small; simp)+
  then have "sint (nrNonOverlappingBucketCount reg) \<le> sint (nextBucketId reg)
      \<longleftrightarrow> unat (nrNonOverlappingBucketCount reg) \<le> unat (nextBucketId reg)" by (simp only: of_nat_le_iff)
  then show "b = nextBucketId reg" if "unat (nextBucketId reg) < unat (nrNonOverlappingBucketCount reg)"
    using assms(1) that by (simp add: rcuRegisterReaderThread_def Let_def)
qed

lemma finite_readers [simp]: "finite (registered s)" "finite (counted s)"
  by (simp_all add: registered_def counted_def)

lemma rinv_register:
  assumes inv: "rinv s" and i: "i < 8" "rphase s i = AtRegister"
    and r: "rcuRegisterReaderThread (registry s) (tls (threads (bproto (inner s)) ! i)) = (ok, reg, b)"
  shows "rinv (s\<lparr>registry := reg, inner := setTls i b (inner s), rphase := (rphase s)(i := AtLatch)\<rparr>)" (is "rinv ?s")
proof -
  have t: "tlsOf s i = -1" "tls (threads (bproto (inner s)) ! i) = -1"
    using rinvD(6) [OF inv i] i(1) by (simp_all add: tlsOf_def)
  have "card (registered s) \<le> card {..< 8 :: nat}" by (rule card_mono) (auto simp: registered_def)
  then have n: "unat (nextBucketId (registry s)) < 2 ^ 31 - 1" using rinvD(4) [OF inv] by simp
  note res = register_result [OF r [unfolded t(2)] n rinv_bound [OF inv]]
  have st: "rcuRegisterReaderThread (registry s) (tlsOf s i) = (ok, reg, b)" using r t by simp
  note step = register_step [OF rinvD(3) [OF inv] n rinv_bound [OF inv] st]
  have tls': "tlsOf ?s = (tlsOf s)(i := b)"
    using i(1) rinvD(2) [OF inv] by (auto simp: fun_eq_iff tlsOf_def setTls_def nth_list_update)
  have reg': "registered ?s = insert i (registered s)" "i \<notin> registered s" "counted ?s = counted s"
    using i by (auto simp: registered_def counted_def)
  have "thread_ok (registry s) b" 
    using step(1) [unfolded registry_inv_def, THEN conjunct1, THEN spec [of _ i]] step(3) unfolding thread_ok_def by auto
  then have "binv reg (setTls i b (inner s))"
    unfolding res(1) using rinvD(1,2) [OF inv] rinvD(8) [OF inv i(1)] i by (intro binv_setTls) simp_all
  moreover have "b \<noteq> -1" if "8 \<le> unat (nrNonOverlappingBucketCount (registry s))"
  proof -
    have "card (registered s) < card {..< 8 :: nat}" using reg'(2) i(1) by (intro psubset_card_mono) (auto simp: registered_def)
    then have "b = nextBucketId (registry s)" using res(3) that rinvD(4) [OF inv] by simp
    then show ?thesis using n by (auto simp: unsigned_minus_1_eq_mask mask_eq_exp_minus_1)
  qed
  moreover have "pcOf (bproto (setTls i b (inner s))) j = pcOf (bproto (inner s)) j" for j
    using i(1) rinvD(2) [OF inv] by (cases "j = i") (simp_all add: setTls_def)
  ultimately show ?thesis
    using inv step(1,3) res(2) reg' i unfolding rinv_def tls' by (simp add: res(1))
qed

text \<open>The latch.\<close>

lemma counted_le: "card (counted s) \<le> 8"
proof -
  have "card (counted s) \<le> card {..< 8 :: nat}" by (rule card_mono) (auto simp: counted_def)
  then show ?thesis by simp
qed

lemma all_counted:
  assumes "card (counted s) = 8" and "j < 8"
  shows "rphase s j = Spinning \<or> rphase s j = Looping"
proof -
  have "counted s = {..< 8}" by (rule card_subset_eq) (use assms(1) in \<open>auto simp: counted_def\<close>)
  then show ?thesis using assms(2) by (auto simp: counted_def)
qed

lemma rinv_latch:
  assumes inv: "rinv s" and i: "i < 8" "rphase s i = AtLatch"
  shows "rinv (s\<lparr>latch := latch s + 1, rphase := (rphase s)(i := Spinning)\<rparr>)" (is "rinv ?s")
proof -
  have none: "rphase s j \<noteq> Looping" if "j < 8" for j
    using all_counted [of s i] rinvD(7) [OF inv that] i by auto
  have c: "counted ?s = insert i (counted s)" "i \<notin> counted s" "registered ?s = registered s"
    using i by (auto simp: registered_def counted_def)
  have e: "tlsOf ?s = tlsOf s" by (rule ext) (simp add: tlsOf_def)
  show ?thesis using inv none i c(2) unfolding rinv_def e c(1,3) by simp
qed

lemma rinv_spin:
  assumes inv: "rinv s" and i: "i < 8" "rphase s i = Spinning" and l: "\<not> latch s < 8"
  shows "rinv (s\<lparr>rphase := (rphase s)(i := Looping)\<rparr>)" (is "rinv ?s")
proof -
  have c: "counted ?s = counted s" "registered ?s = registered s" using i by (auto simp: registered_def counted_def)
  have e: "tlsOf ?s = tlsOf s" by (rule ext) (simp add: tlsOf_def)
  have "card (counted s) = 8" using l counted_le [of s] rinvD(5) [OF inv] by simp
  then show ?thesis using inv i unfolding rinv_def e c by simp
qed

lemma rinv_step:
  assumes inv: "rinv s" and st: "registerStep i s = Some s'"
  shows "rinv s'"
proof -
  have i: "i < 8" using st rinvD(2) [OF inv] by (auto split: if_splits)
  show ?thesis
  proof (cases "rphase s i")
    case AtRegister
    obtain ok reg b where r: "rcuRegisterReaderThread (registry s) (tls (threads (bproto (inner s)) ! i)) = (ok, reg, b)"
      by (cases "rcuRegisterReaderThread (registry s) (tls (threads (bproto (inner s)) ! i))")
    then show ?thesis using rinv_register [OF inv i AtRegister r] st AtRegister i rinvD(2) [OF inv] by simp
  next
    case AtLatch
    then show ?thesis using rinv_latch [OF inv i AtLatch] st i rinvD(2) [OF inv] by simp
  next
    case Spinning
    then show ?thesis using rinv_spin [OF inv i Spinning] inv st i rinvD(2) [OF inv] by (simp split: if_splits)
  next
    case Looping
    then obtain b where "readStep (registry s) i (inner s) = Some b" "s' = s\<lparr>inner := b\<rparr>"
      using st i rinvD(2) [OF inv] by (auto simp del: readStep.simps split: bind_splits)
    then show ?thesis using rinv_read [OF inv i Looping] by simp
  qed
qed

lemma rinv_start:
  assumes "registerStart hc s"
  shows "rinv s"
proof -
  have a: "registered s = {}" "counted s = {}" using assms by (simp_all add: registerStart_def registered_def counted_def)
  have n: "length (threads (bproto (inner s))) = 8" and t: "tlsOf s i = -1" for i
    using assms nth_mem [of i "threads (bproto (inner s))"] by (auto simp: registerStart_def tlsOf_def)
  have p: "pcOf (bproto (inner s)) i = ROut" if "i < 8" for i
    using assms nth_mem [of i "threads (bproto (inner s))"] that n by (auto simp: registerStart_def pstart_def)
  have "bstart (registry s) (inner s)" using assms unfolding registerStart_def by (elim conjE)
  then have "binv (registry s) (inner s)" by (rule bstart_inv)
  then show ?thesis using assms a n t p by (auto simp: rinv_def registry_inv_def registerStart_def staticRegistry_def)
qed

definition rmove :: "(int \<Rightarrow> int) \<Rightarrow> rbench \<Rightarrow> rbench \<Rightarrow> bool" where
  "rmove draw s s' \<longleftrightarrow> (\<forall>k. 0 < draw k) \<and> fRCURegister draw s s'"

interpretation registering: invariant_system "registerStart hc" "rmove draw" rinv for hc draw
  by unfold_locales (auto simp: rmove_def fRCURegister_def simp del: registerStep.simps intro: rinv_start rinv_modify rinv_step)

lemma rmoves: "(\<And>k. 0 < draw k) \<Longrightarrow> (fRCURegister draw)\<^sup>*\<^sup>* s s' \<Longrightarrow> (rmove draw)\<^sup>*\<^sup>* s s'"
  by (erule rtranclp_mono [THEN predicate2D, rotated]) (auto simp: rmove_def)

subsection \<open>Property\<close>

text \<open>While a reader spins in vain, another one has not counted itself yet, and it can go on.\<close>

lemma somebody_late:
  assumes inv: "rinv s" and l: "latch s < 8"
  shows "\<exists>j < 8. (rphase s j = AtRegister \<or> rphase s j = AtLatch) \<and> registerStep j s \<noteq> None"
proof -
  have "card (counted s) < 8" using l unfolding rinvD(5) [OF inv] by simp
  then have "counted s \<noteq> {..< 8}" by (intro notI) simp
  then obtain j where j: "j < 8" "j \<notin> counted s" by (auto simp: counted_def)
  then have "rphase s j = AtRegister \<or> rphase s j = AtLatch" by (cases "rphase s j") (auto simp: counted_def)
  moreover from this have "registerStep j s \<noteq> None" using j(1) rinvD(2) [OF inv] by (auto split: prod.split)
  ultimately show ?thesis using j(1) by blast
qed

text \<open>
  C18.  \<open>fRCURegister\<close>, from the first registration on, on every interleaving: no reader dereferences a
  deleted value and none throws.  When a reader is past the latch, all eight have registered.  Two
  readers never have the same bucket id, and every registered one has an id if there are at least
  eight.  As long as the latch is closed some reader that has not counted itself can go on: the
  readers never all spin in vain.
\<close>

theorem register_benchmark:
  assumes "registerStart hc s0" and "(fRCURegister draw)\<^sup>*\<^sup>* s0 s" and "\<And>k. 1 \<le> draw k \<and> draw k \<le> 100000000"
  shows "(\<forall>i. breaders (inner s) i \<noteq> BFault \<and> breaders (inner s) i \<noteq> BThrew)
    \<and> (\<forall>i < 8. \<forall>j < 8. rphase s i = Looping \<longrightarrow> rphase s j \<noteq> AtRegister)
    \<and> (\<forall>i < 8. \<forall>j < 8. tlsOf s i \<noteq> -1 \<longrightarrow> tlsOf s i = tlsOf s j \<longrightarrow> i = j)
    \<and> (\<forall>i < 8. rphase s i \<noteq> AtRegister \<longrightarrow> 8 \<le> unat (nrNonOverlappingBucketCount (registry s)) \<longrightarrow> tlsOf s i \<noteq> -1)
    \<and> (latch s < 8 \<longrightarrow> (\<exists>j < 8. (rphase s j = AtRegister \<or> rphase s j = AtLatch) \<and> registerStep j s \<noteq> None))"
proof -
  have "0 < draw k" for k using assms(3) [of k] by simp
  then have inv: "rinv s" using registering.inv_reachable [OF assms(1) rmoves] assms(2) by blast
  have "rphase s j \<noteq> AtRegister" if "i < 8" "j < 8" "rphase s i = Looping" for i j
    using all_counted [OF rinvD(7) [OF inv that(1,3)] that(2)] by auto
  moreover have "breaders (inner s) i \<noteq> BFault \<and> breaders (inner s) i \<noteq> BThrew" for i
    using binvD(6) [OF rinvD(1) [OF inv], of i] by (simp add: breader_ok_def)
  ultimately show ?thesis
    using rinvD(3,9) [OF inv] somebody_late [OF inv] by (auto simp: registry_inv_def)
qed

text \<open>Eight readers register, count themselves and pass the latch; reader 0 goes through a section.\<close>

abbreviation rrun :: "(int \<Rightarrow> int) \<Rightarrow> nat option list \<Rightarrow> rbench \<Rightarrow> rbench option" where
  "rrun draw \<equiv> for_list (actor (registerModify draw) registerStep)"

lemma rrun_reach: "rrun draw as s = Some s' \<Longrightarrow> (fRCURegister draw)\<^sup>*\<^sup>* s s'"
  by (erule actors_reach) (unfold fRCURegister_def, blast+)

definition exRegister :: rbench where
  "exRegister = \<lparr>registry = staticRegistry 8,
     inner = \<lparr>bproto = \<lparr>zone = \<lparr>nrHashThreadBuckets = 1, counts = Some (replicate 18 0), epochsRing = [Some 0, Some 9],
         epochLatest = 0, epochOldest = 0\<rparr>, threads = replicate 8 \<lparr>tls = -1, tidHash = 5, pc = ROut\<rparr>, writer = WOut\<rparr>,
       cells = [0 \<mapsto> 42], fresh = 1, pCurrent = 0, bwriter = BLoop 0, breaders = (\<lambda>_. BFresh)\<rparr>,
     latch = 0, rphase = (\<lambda>_. AtRegister)\<rparr>"

definition exRegisterRun :: "rbench option" where
  "exRegisterRun = rrun (\<lambda>_. 7) (map Some ([0..<8] @ [0..<8] @ [0..<8] @ replicate 6 0) @ replicate 3 None) exRegister"

lemma exRegister_start: "registerStart 8 exRegister"
proof -
  have n: "nrNonOverlappingBucketCount (staticRegistry 8) = 8" by code_simp
  have p: "pstart (staticRegistry 8) (bproto (inner exRegister))"
    by (simp add: pstart_def exRegister_def wf_zone_def nbuckets_def n thread_ok_def)
  then have "bstart (staticRegistry 8) (inner exRegister)"
    unfolding bstart_def by (intro conjI exI [of _ "42 :: int"] exI [of _ "bproto (inner exRegister)"])
      (simp_all add: exRegister_def)
  then show ?thesis using p by (simp add: registerStart_def) (simp add: exRegister_def)
qed

theorem register_benchmark_witness:
  "\<exists>s. exRegisterRun = Some s \<and> rphase s 7 = Looping \<and> breaders (inner s) 0 \<noteq> BFault \<and> tlsOf s 0 \<noteq> tlsOf s 7"
proof -
  have "map_option (\<lambda>s. (rphase s 7, nrNonOverlappingBucketCount (registry s), rphase s 0)) exRegisterRun = Some (Looping, 8, Looping)"
    by code_simp
  then obtain s where s: "exRegisterRun = Some s" "rphase s 7 = Looping" "nrNonOverlappingBucketCount (registry s) = 8"
    "rphase s 0 = Looping" by auto
  have "(fRCURegister (\<lambda>_. 7))\<^sup>*\<^sup>* exRegister s" using s(1) rrun_reach unfolding exRegisterRun_def by blast
  moreover have "1 \<le> (7 :: int) \<and> (7 :: int) \<le> 100000000" by simp
  ultimately have "(\<forall>i. breaders (inner s) i \<noteq> BFault \<and> breaders (inner s) i \<noteq> BThrew)"
    "\<forall>i < 8. \<forall>j < 8. tlsOf s i \<noteq> -1 \<longrightarrow> tlsOf s i = tlsOf s j \<longrightarrow> i = j"
    "\<forall>i < 8. rphase s i \<noteq> AtRegister \<longrightarrow> 8 \<le> unat (nrNonOverlappingBucketCount (registry s)) \<longrightarrow> tlsOf s i \<noteq> -1"
    using register_benchmark [OF exRegister_start] by blast+
  note r = this(1) this(2) [rule_format, of 0 7] this(3) [rule_format, of 0]
  have "tlsOf s 0 \<noteq> tlsOf s 7" using r(2,3) s(3,4) by auto
  moreover have "breaders (inner s) 0 \<noteq> BFault" using r(1) by blast
  ultimately show ?thesis using s by blast
qed

end
