(* ===== verification/BenchmarkRun.thy ===== *)
theory BenchmarkRun
  imports RegisterBenchmark
begin

text \<open>
  The part of \<open>RCUBenchmark::run\<close> that uses the zone: \<open>fRCURegister\<close>, then \<open>fRCU\<close> with new threads on the
  zone and the value the first phase has left, then the release of the zone.  A phase begins where the
  one before has joined all its threads.
\<close>

subsection \<open>The program\<close>

text \<open>All futures of a phase have been joined: the writer's loop is over and every reader is outside.\<close>

definition joined :: "bench \<Rightarrow> bool" where
  "joined b \<longleftrightarrow> (\<exists>k. bwriter b = BLoop k \<and> \<not> k < c_nrLoops)
     \<and> (\<forall>i < length (threads (bproto b)). pcOf (bproto b) i = ROut)"

text \<open>\<open>fRCU\<close> starts: eight new threads, which never register, and a new writer.\<close>

definition newThreads :: "u64 list \<Rightarrow> thread list" where
  "newThreads hashes = map (\<lambda>h. \<lparr>tls = -1, tidHash = h, pc = ROut\<rparr>) hashes"

definition startRCU :: "u64 list \<Rightarrow> bench \<Rightarrow> bench" where
  "startRCU hashes b =
     b\<lparr>bproto := (bproto b)\<lparr>threads := newThreads hashes\<rparr>, bwriter := BLoop 0, breaders := (\<lambda>_. BFresh)\<rparr>"

text \<open>A run up to the release of the zone: the state in which the first phase ends, and the second one.\<close>

definition benchmarkRun :: "u32 \<Rightarrow> (int \<Rightarrow> int) \<Rightarrow> rbench \<Rightarrow> u64 list \<Rightarrow> bench \<Rightarrow> bool" where
  "benchmarkRun hardware_concurrency draw s hashes b \<longleftrightarrow>
     (\<exists>s0. registerStart hardware_concurrency s0 \<and> (fRCURegister draw)\<^sup>*\<^sup>* s0 s)
     \<and> (\<forall>i < 8. rphase s i = Looping) \<and> joined (inner s)
     \<and> length hashes = 8 \<and> (bstep (registry s) draw)\<^sup>*\<^sup>* (startRCU hashes (inner s)) b"

subsection \<open>From one phase to the next\<close>

lemma joined_counts:
  assumes inv: "pinv reg p" and out: "\<And>i. i < length (threads p) \<Longrightarrow> pcOf p i = ROut" and r: "r < 2" "c < nbuckets reg (zone p)"
  shows "countAt reg (zone p) r c = 0"
proof -
  have "\<not> held reg (zone p) r c t" if "t \<in> set (threads p)" for t
    using that out by (auto simp: in_set_conv_nth held_def)
  then have "nheld reg (zone p) (threads p) r c = 0" using nheld_zero by blast
  then show ?thesis using pinvD(3) [OF inv] r by (simp add: counts_inv_def)
qed

lemma pinv_newThreads:
  assumes inv: "pinv reg p" and w: "writer p = WOut" and out: "\<And>i. i < length (threads p) \<Longrightarrow> pcOf p i = ROut" and n: "length hashes < 2 ^ 31"
  shows "pinv reg (p\<lparr>threads := newThreads hashes\<rparr>)"
proof -
  have "nheld reg (zone p) (newThreads hashes) r c = 0" for r c
    by (simp add: nheld_zero newThreads_def held_def)
  then have "counts_inv reg (zone p) (newThreads hashes)" using joined_counts [OF inv out] by (simp add: counts_inv_def)
  then show ?thesis using inv n w by (auto simp: pinv_def newThreads_def thread_ok_def reader_inv_def)
qed

lemma binv_startRCU:
  assumes inv: "binv reg b" and j: "joined b" and n: "length hashes < 2 ^ 31"
  shows "binv reg (startRCU hashes b)"
proof -
  obtain k where k: "bwriter b = BLoop k" using j by (auto simp: joined_def)
  then have w: "writer (bproto b) = WOut" using binvD(2) [OF inv] by (simp add: bwriter_ok_def)
  have "pinv reg (bproto (startRCU hashes b))"
    using pinv_newThreads [OF binvD(1) [OF inv] w _ n] j by (simp add: startRCU_def joined_def)
  moreover have "liveCells b = {pCurrent b}" using k by (simp add: liveCells_def)
  moreover have "breader_ok (startRCU hashes b) i" for i by (simp add: breader_ok_def startRCU_def)
  ultimately show ?thesis using inv w
    by (simp add: binv_def) (simp add: startRCU_def liveCells_def bwriter_ok_def)
qed

lemma bsteps_binv:
  assumes "binv reg b" and "(bstep reg draw)\<^sup>*\<^sup>* b b'" and "\<And>k. 0 < draw k"
  shows "binv reg b'"
  using benchmark.inv_moves [OF bmoves [OF assms(3,2)] assms(1)] .

lemma benchmarkRun_binv:
  assumes r: "benchmarkRun hc draw s hashes b" and pos: "\<And>k. 0 < draw k"
  shows "binv (registry s) b"
proof -
  obtain s0 where s0: "registerStart hc s0" "(fRCURegister draw)\<^sup>*\<^sup>* s0 s" and j: "joined (inner s)"
    and n: "length hashes = 8" and b: "(bstep (registry s) draw)\<^sup>*\<^sup>* (startRCU hashes (inner s)) b"
    using r by (auto simp: benchmarkRun_def)
  have "rinv s" using registering.inv_reachable [OF s0(1) rmoves] s0(2) pos by blast
  then have "binv (registry s) (startRCU hashes (inner s))" using binv_startRCU [OF rinvD(1) j] n by simp
  then show ?thesis using bsteps_binv b pos by blast
qed

text \<open>Registration leaves the number of ids as it was at the start of the program.\<close>

lemma fRCURegister_bucketCount:
  assumes "(fRCURegister draw)\<^sup>*\<^sup>* s0 s"
  shows "nrNonOverlappingBucketCount (registry s) = nrNonOverlappingBucketCount (registry s0)"
  using assms
proof (induction rule: rtranclp_induct)
  case (step s s')
  have "nrNonOverlappingBucketCount (registry s') = nrNonOverlappingBucketCount (registry s)"
    using step.hyps(2) unfolding fRCURegister_def registerModify_def
    by (auto simp: rcuRegisterReaderThread_def Let_def split: if_splits rphase.splits bind_splits)
  then show ?case using step.IH by simp
qed simp

subsection \<open>The writer alone gets to the end of its loop\<close>

definition modifyMove :: "RCUReaderThreadRegistry \<Rightarrow> (int \<Rightarrow> int) \<Rightarrow> bench \<Rightarrow> bench \<Rightarrow> bool" where
  "modifyMove reg draw b b' \<longleftrightarrow> modifyStep reg draw b = Some b'"

lemma modifyMove_bstep: "(modifyMove reg draw)\<^sup>*\<^sup>* b b' \<Longrightarrow> (bstep reg draw)\<^sup>*\<^sup>* b b'"
  by (erule rtranclp_mono [THEN predicate2D, rotated]) (auto simp: modifyMove_def bstep_def)

lemma modifyMove_threads: "(modifyMove reg draw)\<^sup>*\<^sup>* b b' \<Longrightarrow> threads (bproto b') = threads (bproto b)"
  by (induction rule: rtranclp_induct) (auto simp: modifyMove_def simp del: modifyStep.simps dest: modifyStep_frame)

lemma modifyMove_register: "(modifyMove (registry s) draw)\<^sup>*\<^sup>* (inner s) b \<Longrightarrow> (fRCURegister draw)\<^sup>*\<^sup>* s (s\<lparr>inner := b\<rparr>)"
proof (induction rule: rtranclp_induct)
  case base
  then show ?case by simp
next
  case (step b b')
  have "registerModify draw (s\<lparr>inner := b\<rparr>) = Some (s\<lparr>inner := b'\<rparr>)"
    using step.hyps(2) by (simp add: registerModify_def modifyMove_def del: modifyStep.simps)
  then have "fRCURegister draw (s\<lparr>inner := b\<rparr>) (s\<lparr>inner := b'\<rparr>)" unfolding fRCURegister_def ..
  with step.IH show ?case by (rule rtranclp.rtrancl_into_rtrancl)
qed

lemma synchronizes:
  assumes "(writerMove reg)\<^sup>*\<^sup>* (bproto b) p'" and "writer (bproto b) \<noteq> WOut" and "writer p' = WOut" and "bwriter b = BStored k pOld"
  shows "\<exists>b'. (modifyMove reg draw)\<^sup>*\<^sup>* b b' \<and> bwriter b' = BSynced k pOld \<and> epochLatest (zone (bproto b')) = epochLatest (zone (bproto b))"
  using assms
proof (induction "bproto b" arbitrary: b rule: converse_rtranclp_induct)
  case base
  then show ?case by simp
next
  case (step p)
  let ?b = "b\<lparr>bproto := p, bwriter := (if writer p = WOut then BSynced k pOld else BStored k pOld)\<rparr>"
  have m: "modifyMove reg draw b ?b" using step.hyps(1) step.prems(3) by (simp add: modifyMove_def writerMove_def del: writerStep.simps)
  have e: "epochLatest (zone p) = epochLatest (zone (bproto b))"
    using step.hyps(1) writerStep_latest step.prems(1) by (simp add: writerMove_def del: writerStep.simps)
  show ?case
  proof (cases "writer p = WOut")
    case True
    then show ?thesis using m e by (intro exI [of _ ?b]) auto
  next
    case False
    then obtain b' where "(modifyMove reg draw)\<^sup>*\<^sup>* ?b b'" "bwriter b' = BSynced k pOld"
      "epochLatest (zone (bproto b')) = epochLatest (zone (bproto ?b))"
      using step.hyps(3) [of ?b] step.prems(2) by auto
    then show ?thesis using m e converse_rtranclp_into_rtranclp [of "modifyMove reg draw" b ?b b'] by auto
  qed
qed

text \<open>One iteration, when no reader is counted in.\<close>

lemma one_iteration:
  assumes inv: "binv reg b" and w: "bwriter b = BLoop k" and k: "k < c_nrLoops" and pos: "\<And>k. 0 < draw k"
    and out: "\<And>i. i < length (threads (bproto b)) \<Longrightarrow> pcOf (bproto b) i = ROut"
    and max: "sint (epochLatest (zone (bproto b))) < 2 ^ 63 - 1"
  shows "\<exists>b'. (modifyMove reg draw)\<^sup>*\<^sup>* b b' \<and> bwriter b' = BLoop (k + 1)
    \<and> sint (epochLatest (zone (bproto b'))) \<le> sint (epochLatest (zone (bproto b))) + 1"
proof (cases "k mod c_writeInterval = 0")
  case False
  then have "modifyMove reg draw b (b\<lparr>bwriter := BLoop (k + 1)\<rparr>)" using w k by (simp add: modifyMove_def)
  then show ?thesis by (intro exI [of _ "b\<lparr>bwriter := BLoop (k + 1)\<rparr>"]) auto
next
  case True
  let ?le = "epochLatest (zone (bproto b))"
  have wo: "writer (bproto b) = WOut" using binvD(2) [OF inv] w by (simp add: bwriter_ok_def)
  obtain b1 b2 b3 where m1: "modifyStep reg draw b = Some b1" "bwriter b1 = BLoaded k (pCurrent b)" "bproto b1 = bproto b"
    and m2: "modifyStep reg draw b1 = Some b2" "bwriter b2 = BStored k (pCurrent b)" "bproto b2 = bproto b"
    and m3: "modifyStep reg draw b2 = Some b3" "bwriter b3 = BStored k (pCurrent b)" "writer (bproto b3) = WOuter ?le"
      "zone (bproto b3) = (zone (bproto b))\<lparr>epochLatest := ?le + 1\<rparr>" "threads (bproto b3) = threads (bproto b)"
    using w k True wo by simp
  have i3: "binv reg b3" using modifyStep_inv [OF modifyStep_inv [OF modifyStep_inv [OF inv m1(1) pos] m2(1) pos] m3(1) pos] .
  have quiet: "\<not> countedIn (pc t) r" if "t \<in> set (threads (bproto b3))" for t r
    using that out unfolding m3(5) by (auto simp: in_set_conv_nth)
  have sync: "(writerMove reg)\<^sup>*\<^sup>* (bproto b3) (syncDone (bproto b3) ?le)"
    by (rule writer_returns [OF binvD(1) [OF i3] quiet]) (use m3(3) max in auto)
  obtain b4 where m4: "(modifyMove reg draw)\<^sup>*\<^sup>* b3 b4" "bwriter b4 = BSynced k (pCurrent b)"
    "epochLatest (zone (bproto b4)) = epochLatest (zone (bproto b3))"
    using synchronizes [OF sync _ _ m3(2), of draw] m3(3) by (auto simp: syncDone_def)
  let ?b5 = "b4\<lparr>cells := (cells b4)(pCurrent b := None), bwriter := BLoop (k + 1)\<rparr>"
  have "modifyMove reg draw b b1" "modifyMove reg draw b1 b2" "modifyMove reg draw b2 b3" "modifyMove reg draw b4 ?b5"
    using m1(1) m2(1) m3(1) m4(2) by (simp_all add: modifyMove_def)
  then have "(modifyMove reg draw)\<^sup>*\<^sup>* b ?b5"
    using m4(1) by (meson converse_rtranclp_into_rtranclp rtranclp.rtrancl_into_rtrancl)
  moreover have "sint (epochLatest (zone (bproto ?b5))) = sint ?le + 1" using m4(3) m3(4) sint_Suc [of ?le] max by simp
  ultimately show ?thesis by (intro exI [of _ ?b5]) simp
qed

lemma writer_finishes:
  assumes "binv reg b" and "bwriter b = BLoop k" and "\<And>k. 0 < draw k"
    and "\<And>i. i < length (threads (bproto b)) \<Longrightarrow> pcOf (bproto b) i = ROut"
    and "sint (epochLatest (zone (bproto b))) + int n < 2 ^ 63" and "c_nrLoops \<le> k + int n"
  shows "\<exists>b'. (modifyMove reg draw)\<^sup>*\<^sup>* b b' \<and> joined b' \<and> sint (epochLatest (zone (bproto b'))) \<le> sint (epochLatest (zone (bproto b))) + int n"
  using assms
proof (induction n arbitrary: b k)
  case 0
  then show ?case by (intro exI [of _ b]) (auto simp: joined_def)
next
  case (Suc n)
  show ?case
  proof (cases "k < c_nrLoops")
    case False
    then show ?thesis using Suc.prems(2,4) by (intro exI [of _ b]) (auto simp: joined_def)
  next
    case True
    obtain b1 where b1: "(modifyMove reg draw)\<^sup>*\<^sup>* b b1" "bwriter b1 = BLoop (k + 1)"
      "sint (epochLatest (zone (bproto b1))) \<le> sint (epochLatest (zone (bproto b))) + 1"
      using one_iteration [where draw = draw, OF Suc.prems(1,2) True Suc.prems(3,4)] Suc.prems(5) by auto
    have i1: "binv reg b1" using bsteps_binv [OF Suc.prems(1) modifyMove_bstep [OF b1(1)] Suc.prems(3)] .
    obtain b2 where "(modifyMove reg draw)\<^sup>*\<^sup>* b1 b2" "joined b2"
      "sint (epochLatest (zone (bproto b2))) \<le> sint (epochLatest (zone (bproto b1))) + int n"
      using Suc.IH [OF i1 b1(2) Suc.prems(3)] Suc.prems(4,5,6) b1(3) modifyMove_threads [OF b1(1)] by auto
    then show ?thesis using b1(1,3) by (intro exI [of _ b2]) auto
  qed
qed

subsection \<open>Both phases can be run to their end\<close>

lemma steps_upto:
  assumes "J 0 s" and "\<And>m s. m < n \<Longrightarrow> J m s \<Longrightarrow> \<exists>s'. R s s' \<and> J (Suc m) s'"
  shows "\<exists>s'. R\<^sup>*\<^sup>* s s' \<and> J n s'"
  using assms(2)
proof (induction n)
  case 0
  then show ?case using assms(1) by blast
next
  case (Suc n)
  then obtain s1 where "R\<^sup>*\<^sup>* s s1" "J n s1" by (meson less_SucI)
  moreover from this obtain s2 where "R s1 s2" "J (Suc n) s2" using Suc.prems by blast
  ultimately show ?case by (meson rtranclp.rtrancl_into_rtrancl)
qed

text \<open>The readers register, count themselves and pass the latch, each kind of step for all of them in turn.\<close>

definition waiting :: "(nat \<Rightarrow> rphase) \<Rightarrow> int \<Rightarrow> rbench \<Rightarrow> bool" where
  "waiting f n s \<longleftrightarrow> (\<forall>i < 8. rphase s i = f i) \<and> latch s = n \<and> length (threads (bproto (inner s))) = 8
     \<and> (\<forall>i < 8. pcOf (bproto (inner s)) i = ROut) \<and> bwriter (inner s) = BLoop 0 \<and> epochLatest (zone (bproto (inner s))) = 0"

lemma all_loop:
  assumes "waiting (\<lambda>_. AtRegister) 0 s"
  shows "\<exists>s'. (fRCURegister draw)\<^sup>*\<^sup>* s s' \<and> waiting (\<lambda>_. Looping) 8 s'"
proof -
  have one: "\<exists>s'. fRCURegister draw s s' \<and> waiting (\<lambda>i. if i < Suc m then g else f) n' s'"
    if "waiting (\<lambda>i. if i < m then g else f) n s" "m < 8" "registerStep m s = Some s1" "waiting (\<lambda>i. if i < Suc m then g else f) n' s1"
    for m n n' s s1 f g
    using that unfolding fRCURegister_def by blast
  have "\<exists>s'. (fRCURegister draw)\<^sup>*\<^sup>* s s' \<and> waiting (\<lambda>i. if i < 8 then AtLatch else AtRegister) 0 s'"
  proof (rule steps_upto [where n = 8])
    fix m s assume m: "m < (8 :: nat)" and w: "waiting (\<lambda>i. if i < m then AtLatch else AtRegister) 0 s"
    obtain ok reg b where r: "rcuRegisterReaderThread (registry s) (tls (threads (bproto (inner s)) ! m)) = (ok, reg, b)" by (metis prod_cases3)
    have "registerStep m s = Some (s\<lparr>registry := reg, inner := setTls m b (inner s), rphase := (rphase s)(m := AtLatch)\<rparr>)"
      using w m r by (simp add: waiting_def)
    moreover have "waiting (\<lambda>i. if i < Suc m then AtLatch else AtRegister) 0 (s\<lparr>registry := reg, inner := setTls m b (inner s), rphase := (rphase s)(m := AtLatch)\<rparr>)"
      using w m by (auto simp: waiting_def setTls_def less_Suc_eq nth_list_update)
    ultimately show "\<exists>s'. fRCURegister draw s s' \<and> waiting (\<lambda>i. if i < Suc m then AtLatch else AtRegister) 0 s'" by (rule one [OF w m])
  qed (use assms in simp)
  then obtain s1 where 1: "(fRCURegister draw)\<^sup>*\<^sup>* s s1" "waiting (\<lambda>_. AtLatch) 0 s1" by (auto simp: waiting_def)
  have "\<exists>s'. (fRCURegister draw)\<^sup>*\<^sup>* s1 s' \<and> waiting (\<lambda>i. if i < 8 then Spinning else AtLatch) (int 8) s'"
  proof (rule steps_upto [where n = 8])
    fix m s assume m: "m < (8 :: nat)" and w: "waiting (\<lambda>i. if i < m then Spinning else AtLatch) (int m) s"
    have "registerStep m s = Some (s\<lparr>latch := latch s + 1, rphase := (rphase s)(m := Spinning)\<rparr>)" using w m by (simp add: waiting_def)
    moreover have "waiting (\<lambda>i. if i < Suc m then Spinning else AtLatch) (int (Suc m)) (s\<lparr>latch := latch s + 1, rphase := (rphase s)(m := Spinning)\<rparr>)"
      using w m by (auto simp: waiting_def less_Suc_eq)
    ultimately show "\<exists>s'. fRCURegister draw s s' \<and> waiting (\<lambda>i. if i < Suc m then Spinning else AtLatch) (int (Suc m)) s'" by (rule one [OF w m])
  qed (use 1(2) in simp)
  then obtain s2 where 2: "(fRCURegister draw)\<^sup>*\<^sup>* s1 s2" "waiting (\<lambda>_. Spinning) 8 s2" by (auto simp: waiting_def)
  have "\<exists>s'. (fRCURegister draw)\<^sup>*\<^sup>* s2 s' \<and> waiting (\<lambda>i. if i < 8 then Looping else Spinning) 8 s'"
  proof (rule steps_upto [where n = 8])
    fix m s assume m: "m < (8 :: nat)" and w: "waiting (\<lambda>i. if i < m then Looping else Spinning) 8 s"
    have "registerStep m s = Some (s\<lparr>rphase := (rphase s)(m := Looping)\<rparr>)" using w m by (simp add: waiting_def)
    moreover have "waiting (\<lambda>i. if i < Suc m then Looping else Spinning) 8 (s\<lparr>rphase := (rphase s)(m := Looping)\<rparr>)"
      using w m by (auto simp: waiting_def less_Suc_eq)
    ultimately show "\<exists>s'. fRCURegister draw s s' \<and> waiting (\<lambda>i. if i < Suc m then Looping else Spinning) 8 s'" by (rule one [OF w m])
  qed (use 2(2) in simp)
  then obtain s3 where "(fRCURegister draw)\<^sup>*\<^sup>* s2 s3" "waiting (\<lambda>_. Looping) 8 s3" by (auto simp: waiting_def)
  then show ?thesis using 1(1) 2(1) by (meson rtranclp_trans)
qed

lemma registerStart_waiting: "registerStart hc s \<Longrightarrow> waiting (\<lambda>_. AtRegister) 0 s"
  by (auto simp: registerStart_def waiting_def pstart_def bstart_def)

lemma zone_phases_complete:
  assumes st: "registerStart hc s0" and n: "length hashes = 8" and pos: "\<And>k. 0 < draw k"
  shows "\<exists>s b. (fRCURegister draw)\<^sup>*\<^sup>* s0 s \<and> benchmarkRun hc draw s hashes b \<and> joined b"
proof -
  obtain s where s: "(fRCURegister draw)\<^sup>*\<^sup>* s0 s" "waiting (\<lambda>_. Looping) 8 s" using all_loop [OF registerStart_waiting [OF st]] by blast
  have "rinv s" using registering.inv_reachable [OF st rmoves [OF pos s(1)]] .
  from writer_finishes [where draw = draw, OF rinvD(1) [OF this] _ pos, of 0 "nat c_nrLoops"] s(2)
  obtain b1 where b1: "(modifyMove (registry s) draw)\<^sup>*\<^sup>* (inner s) b1" "joined b1"
    "sint (epochLatest (zone (bproto b1))) \<le> c_nrLoops" by (auto simp: waiting_def c_nrLoops_def)
  let ?s = "s\<lparr>inner := b1\<rparr>"
  have reach: "(fRCURegister draw)\<^sup>*\<^sup>* s0 ?s" using rtranclp_trans [OF s(1) modifyMove_register [OF b1(1)]] .
  have r: "benchmarkRun hc draw ?s hashes b" if "(bstep (registry s) draw)\<^sup>*\<^sup>* (startRCU hashes b1) b" for b
    unfolding benchmarkRun_def using st reach b1(2) s(2) n that by (auto simp: waiting_def)
  have "binv (registry s) (startRCU hashes b1)" using benchmarkRun_binv [OF r [OF rtranclp.rtrancl_refl] pos] by simp
  then obtain b where "(modifyMove (registry s) draw)\<^sup>*\<^sup>* (startRCU hashes b1) b" "joined b"
    using writer_finishes [where draw = draw, of "registry s" "startRCU hashes b1" 0 "nat c_nrLoops"] b1(3) pos
    by (auto simp: startRCU_def newThreads_def c_nrLoops_def)
  then show ?thesis using reach r modifyMove_bstep by blast
qed

subsection \<open>Property\<close>



end
