(* ===== verification/Locks.thy ===== *)
theory Locks
  imports Prelude
begin

text \<open>
  The locks of the standard library that the benchmarks compare with: \<open>std::mutex\<close> and
  \<open>std::shared_mutex\<close>, used by one writer thread and by numbered reader threads.  \<open>None\<close> is
  ``blocked'', or, of an unlock, the release of a lock that the thread does not hold.  The locale
  \<open>exclusive_guard\<close> is what a program that is guarded by a lock relies on.
\<close>

datatype mutex = Unlocked | ByWriter | ByReader nat

fun mutexLockWriter :: "mutex \<Rightarrow> mutex option" where
  "mutexLockWriter l = (if l = Unlocked then Some ByWriter else None)"

fun mutexUnlockWriter :: "mutex \<Rightarrow> mutex option" where
  "mutexUnlockWriter l = (if l = ByWriter then Some Unlocked else None)"

fun mutexLockReader :: "nat \<Rightarrow> mutex \<Rightarrow> mutex option" where
  "mutexLockReader i l = (if l = Unlocked then Some (ByReader i) else None)"

fun mutexUnlockReader :: "nat \<Rightarrow> mutex \<Rightarrow> mutex option" where
  "mutexUnlockReader i l = (if l = ByReader i then Some Unlocked else None)"

record shared_mutex =
  exclusive :: bool
  sharers :: "nat set"

fun sharedLock :: "shared_mutex \<Rightarrow> shared_mutex option" where
  "sharedLock l = (if \<not> exclusive l \<and> sharers l = {} then Some (l\<lparr>exclusive := True\<rparr>) else None)"

fun sharedUnlock :: "shared_mutex \<Rightarrow> shared_mutex option" where
  "sharedUnlock l = (if exclusive l then Some (l\<lparr>exclusive := False\<rparr>) else None)"

fun sharedLockShared :: "nat \<Rightarrow> shared_mutex \<Rightarrow> shared_mutex option" where
  "sharedLockShared i l =
     (if \<not> exclusive l \<and> i \<notin> sharers l then Some (l\<lparr>sharers := insert i (sharers l)\<rparr>) else None)"

fun sharedUnlockShared :: "nat \<Rightarrow> shared_mutex \<Rightarrow> shared_mutex option" where
  "sharedUnlockShared i l = (if i \<in> sharers l then Some (l\<lparr>sharers := sharers l - {i}\<rparr>) else None)"

subsection \<open>What a guarded program relies on\<close>

text \<open>\<open>inW l\<close>: the writer holds the lock; \<open>inR l\<close>: the readers that hold it; \<open>ok l\<close>: the lock is in order.\<close>

locale exclusive_guard =
  fixes lockW unlockW :: "'l \<Rightarrow> 'l option" and lockR unlockR :: "nat \<Rightarrow> 'l \<Rightarrow> 'l option"
    and inW :: "'l \<Rightarrow> bool" and inR :: "'l \<Rightarrow> nat set" and ok :: "'l \<Rightarrow> bool"
  assumes excluded: "ok l \<Longrightarrow> inW l \<Longrightarrow> inR l = {}"
    and lockW_law: "ok l \<Longrightarrow> lockW l = Some l' \<Longrightarrow> ok l' \<and> \<not> inW l \<and> inW l' \<and> inR l' = inR l"
    and unlockW_law: "ok l \<Longrightarrow> unlockW l = Some l' \<Longrightarrow> ok l' \<and> inW l \<and> \<not> inW l' \<and> inR l' = inR l"
    and lockR_law: "ok l \<Longrightarrow> lockR i l = Some l' \<Longrightarrow> ok l' \<and> i \<notin> inR l \<and> inR l' = insert i (inR l) \<and> inW l' = inW l"
    and unlockR_law: "ok l \<Longrightarrow> unlockR i l = Some l' \<Longrightarrow> ok l' \<and> i \<in> inR l \<and> inR l' = inR l - {i} \<and> inW l' = inW l"
    and lockW_free: "ok l \<Longrightarrow> \<not> inW l \<Longrightarrow> inR l = {} \<Longrightarrow> lockW l \<noteq> None"
    and lockR_free: "ok l \<Longrightarrow> \<not> inW l \<Longrightarrow> inR l = {} \<Longrightarrow> lockR i l \<noteq> None"
    and unlockW_held: "ok l \<Longrightarrow> inW l \<Longrightarrow> unlockW l \<noteq> None"
    and unlockR_held: "ok l \<Longrightarrow> i \<in> inR l \<Longrightarrow> unlockR i l \<noteq> None"
begin

lemma alone: "ok l \<Longrightarrow> inW l \<Longrightarrow> i \<notin> inR l"
  using excluded by simp

lemma blocked: "ok l \<Longrightarrow> lockW l = None \<Longrightarrow> inW l \<or> (\<exists>i. i \<in> inR l)"
  using lockW_free [of l] by auto

end

definition mutexReaders :: "mutex \<Rightarrow> nat set" where
  "mutexReaders l = (case l of ByReader i \<Rightarrow> {i} | _ \<Rightarrow> {})"

interpretation mutex: exclusive_guard mutexLockWriter mutexUnlockWriter mutexLockReader mutexUnlockReader
  "\<lambda>l. l = ByWriter" mutexReaders "\<lambda>_. True"
  by unfold_locales (auto simp: mutexReaders_def split: if_splits mutex.splits)

definition sharedOk :: "shared_mutex \<Rightarrow> bool" where
  "sharedOk l \<longleftrightarrow> (exclusive l \<longrightarrow> sharers l = {})"

interpretation shared: exclusive_guard sharedLock sharedUnlock sharedLockShared sharedUnlockShared
  exclusive sharers sharedOk
  by unfold_locales (auto simp: sharedOk_def split: if_splits)

text \<open>\<open>free g\<close>: the lock can be taken and released, and is then free again.\<close>

definition roundTrip :: "('l \<Rightarrow> bool) \<Rightarrow> ('l \<Rightarrow> 'l option) \<Rightarrow> ('l \<Rightarrow> 'l option) \<Rightarrow> bool" where
  "roundTrip free lock unlock \<longleftrightarrow> (\<forall>g. free g \<longrightarrow> (\<exists>g1 g2. lock g = Some g1 \<and> unlock g1 = Some g2 \<and> free g2))"

lemma shared_trips: "roundTrip (\<lambda>l. l = \<lparr>exclusive = False, sharers = {}\<rparr>) sharedLock sharedUnlock"
  "roundTrip (\<lambda>l. l = \<lparr>exclusive = False, sharers = {}\<rparr>) (sharedLockShared i) (sharedUnlockShared i)"
  by (simp_all add: roundTrip_def)

lemma mutex_trips: "roundTrip (\<lambda>l. l = Unlocked) mutexLockWriter mutexUnlockWriter"
  "roundTrip (\<lambda>l. l = Unlocked) (mutexLockReader i) (mutexUnlockReader i)"
  by (simp_all add: roundTrip_def)

lemma no_lock_trip: "roundTrip (\<lambda>_. True) Some Some"
  by (simp add: roundTrip_def)

end
