(* ===== verification/LockBenchmark.thy ===== *)
theory LockBenchmark
  imports Benchmark Locks
begin

text \<open>
  The benchmarks of \<open>RCUTests.cpp\<close> that protect \<open>pCurrent\<close> with a lock, \<open>fSharedMutex\<close> and \<open>fMutex\<close>.
  The two programs differ only in the lock, which is a parameter; every access is one step.  Shown, by
  the laws of \<open>exclusive_guard\<close>: no thread dereferences a deleted value, no value is leaked, and the
  threads cannot block one another for good.
\<close>

subsection \<open>The program\<close>

text \<open>
  The writer: at the top of its loop, with the lock, after the load of \<open>pOld\<close>, after the store, after
  the deletion.  A reader: at the top of its loop, with the lock, after the load, after \<open>func\<close>.
\<close>

datatype lwriter = ModTop int | ModLocked int | ModLoaded int nat | ModStored int nat | ModDeleted int

datatype lreader = RdTop int | RdLocked int | RdLoaded int nat | RdUsed int | RdFault | RdThrew

record 'l lbench =
  guard :: 'l
  lcells :: "nat \<rightharpoonup> int"
  lfresh :: nat
  lcurrent :: nat
  lwriter :: lwriter
  lreaders :: "nat \<Rightarrow> lreader"

fun lockModify :: "('l \<Rightarrow> 'l option) \<Rightarrow> ('l \<Rightarrow> 'l option) \<Rightarrow> (int \<Rightarrow> int) \<Rightarrow> 'l lbench \<Rightarrow> 'l lbench option" where
  "lockModify lock unlock draw s =
     (case lwriter s of
        ModTop k \<Rightarrow>
          if \<not> k < c_nrLoops then None
          else if k mod c_writeInterval = 0 then do { g \<leftarrow> lock (guard s); Some (s\<lparr>guard := g, lwriter := ModLocked k\<rparr>) }
          else Some (s\<lparr>lwriter := ModTop (k + 1)\<rparr>)
      | ModLocked k \<Rightarrow> Some (s\<lparr>lwriter := ModLoaded k (lcurrent s)\<rparr>)
      | ModLoaded k pOld \<Rightarrow>
          Some (s\<lparr>lcells := (lcells s)(lfresh s \<mapsto> draw k), lfresh := Suc (lfresh s), lcurrent := lfresh s,
                  lwriter := ModStored k pOld\<rparr>)
      | ModStored k pOld \<Rightarrow> Some (s\<lparr>lcells := (lcells s)(pOld := None), lwriter := ModDeleted k\<rparr>)
      | ModDeleted k \<Rightarrow> do { g \<leftarrow> unlock (guard s); Some (s\<lparr>guard := g, lwriter := ModTop (k + 1)\<rparr>) })"

fun lockRead :: "('l \<Rightarrow> 'l option) \<Rightarrow> ('l \<Rightarrow> 'l option) \<Rightarrow> nat \<Rightarrow> 'l lbench \<Rightarrow> 'l lbench option" where
  "lockRead lock unlock i s =
     (case lreaders s i of
        RdTop k \<Rightarrow>
          if \<not> k < c_nrLoops then None
          else do { g \<leftarrow> lock (guard s); Some (s\<lparr>guard := g, lreaders := (lreaders s)(i := RdLocked k)\<rparr>) }
      | RdLocked k \<Rightarrow> Some (s\<lparr>lreaders := (lreaders s)(i := RdLoaded k (lcurrent s))\<rparr>)
      | RdLoaded k p \<Rightarrow>
          Some (s\<lparr>lreaders := (lreaders s)(i :=
            (case lcells s p of None \<Rightarrow> RdFault | Some v \<Rightarrow> if funcThrows v then RdThrew else RdUsed k))\<rparr>)
      | RdUsed k \<Rightarrow> do { g \<leftarrow> unlock (guard s); Some (s\<lparr>guard := g, lreaders := (lreaders s)(i := RdTop (k + 1))\<rparr>) }
      | _ \<Rightarrow> None)"

definition fSharedMutex :: "(int \<Rightarrow> int) \<Rightarrow> shared_mutex lbench \<Rightarrow> shared_mutex lbench \<Rightarrow> bool" where
  "fSharedMutex draw s s' \<longleftrightarrow> lockModify sharedLock sharedUnlock draw s = Some s'
     \<or> (\<exists>i. lockRead (sharedLockShared i) (sharedUnlockShared i) i s = Some s')"

definition fMutex :: "(int \<Rightarrow> int) \<Rightarrow> mutex lbench \<Rightarrow> mutex lbench \<Rightarrow> bool" where
  "fMutex draw s s' \<longleftrightarrow> lockModify mutexLockWriter mutexUnlockWriter draw s = Some s'
     \<or> (\<exists>i. lockRead (mutexLockReader i) (mutexUnlockReader i) i s = Some s')"

text \<open>
  The lock is free, \<open>pCurrent\<close> points to a drawn value, and all loops are at their start.  The cells \<open>lost\<close>
  are allocated, too, but nothing points to them any more.
\<close>

definition lstart :: "'l \<Rightarrow> nat set \<Rightarrow> 'l lbench \<Rightarrow> bool" where
  "lstart free lost s \<longleftrightarrow> guard s = free \<and> dom (lcells s) = insert (lcurrent s) lost \<and> lcurrent s \<notin> lost
     \<and> (\<forall>v \<in> ran (lcells s). 0 < v) \<and> (\<forall>a \<in> insert (lcurrent s) lost. a < lfresh s) \<and> lwriter s = ModTop 0 \<and> lreaders s = (\<lambda>_. RdTop 0)"

definition lstep :: "('l \<Rightarrow> 'l option) \<Rightarrow> ('l \<Rightarrow> 'l option) \<Rightarrow> (nat \<Rightarrow> 'l \<Rightarrow> 'l option) \<Rightarrow> (nat \<Rightarrow> 'l \<Rightarrow> 'l option)
    \<Rightarrow> (int \<Rightarrow> int) \<Rightarrow> 'l lbench \<Rightarrow> 'l lbench \<Rightarrow> bool" where
  "lstep lockW unlockW lockR unlockR draw s s' \<longleftrightarrow> (\<forall>k. 0 < draw k)
     \<and> (lockModify lockW unlockW draw s = Some s' \<or> (\<exists>i. lockRead (lockR i) (unlockR i) i s = Some s'))"

subsection \<open>The invariant\<close>

definition llive :: "'l lbench \<Rightarrow> nat set" where
  "llive s = (case lwriter s of ModStored k pOld \<Rightarrow> {pOld, lcurrent s} | _ \<Rightarrow> {lcurrent s})"

text \<open>The writer and the reader \<open>i\<close> inside their critical sections.\<close>

definition writerIn :: "'l lbench \<Rightarrow> bool" where
  "writerIn s \<longleftrightarrow> (case lwriter s of ModTop k \<Rightarrow> False | _ \<Rightarrow> True)"

definition readerIn :: "lreader \<Rightarrow> bool" where
  "readerIn r \<longleftrightarrow> (case r of RdTop k \<Rightarrow> False | _ \<Rightarrow> True)"

definition lreader_ok :: "nat \<Rightarrow> lreader \<Rightarrow> bool" where
  "lreader_ok current r \<longleftrightarrow> (case r of RdLoaded k p \<Rightarrow> p = current | RdFault \<Rightarrow> False | RdThrew \<Rightarrow> False | _ \<Rightarrow> True)"

definition lwriter_ok :: "'l lbench \<Rightarrow> bool" where
  "lwriter_ok s \<longleftrightarrow> (case lwriter s of ModLoaded k pOld \<Rightarrow> pOld = lcurrent s | ModStored k pOld \<Rightarrow> pOld \<noteq> lcurrent s | _ \<Rightarrow> True)"

definition linv :: "nat set \<Rightarrow> ('l \<Rightarrow> bool) \<Rightarrow> ('l \<Rightarrow> nat set) \<Rightarrow> ('l \<Rightarrow> bool) \<Rightarrow> 'l lbench \<Rightarrow> bool" where
  "linv lost inW inR ok s \<longleftrightarrow> ok (guard s) \<and> inW (guard s) = writerIn s \<and> (\<forall>i. i \<in> inR (guard s) \<longleftrightarrow> readerIn (lreaders s i))
     \<and> lwriter_ok s \<and> dom (lcells s) = llive s \<union> lost \<and> llive s \<inter> lost = {} \<and> (\<forall>a \<in> llive s \<union> lost. a < lfresh s) \<and> (\<forall>v \<in> ran (lcells s). 0 < v)
     \<and> (\<forall>i. lreader_ok (lcurrent s) (lreaders s i))"

lemmas linv_defs = linv_def llive_def writerIn_def lwriter_ok_def

lemma bench_updates [simp]:
  "llive (s\<lparr>guard := g, lreaders := r\<rparr>) = llive s" "writerIn (s\<lparr>guard := g, lreaders := r\<rparr>) = writerIn s"
  "lwriter_ok (s\<lparr>guard := g, lreaders := r\<rparr>) = lwriter_ok s"
  by (cases "lwriter s"; simp add: llive_def writerIn_def lwriter_ok_def)+

lemma linv_reader:
  assumes "linv lost inW inR ok s" and "ok g" "inW g = inW (guard s)" "inR g = (if readerIn r then insert i (inR (guard s)) else inR (guard s) - {i})"
    and "lreader_ok (lcurrent s) r"
  shows "linv lost inW inR ok (s\<lparr>guard := g, lreaders := (lreaders s)(i := r)\<rparr>)"
  using assms by (auto simp: linv_def)

lemma linv_writer:
  assumes "linv lost inW inR ok s" and "ok g" "inW g = writerIn (s\<lparr>guard := g, lwriter := w\<rparr>)" "inR g = inR (guard s)"
    and "llive (s\<lparr>guard := g, lwriter := w\<rparr>) = llive s" "lwriter_ok (s\<lparr>guard := g, lwriter := w\<rparr>)"
  shows "linv lost inW inR ok (s\<lparr>guard := g, lwriter := w\<rparr>)"
  using assms by (simp add: linv_def)

lemma linvD:
  assumes "linv lost inW inR ok s"
  shows "ok (guard s)" "inW (guard s) = writerIn s" "i \<in> inR (guard s) \<longleftrightarrow> readerIn (lreaders s i)"
    "lreader_ok (lcurrent s) (lreaders s i)" "dom (lcells s) = llive s \<union> lost" "lcells s a = Some v \<Longrightarrow> 0 < v"
  using assms by (auto simp: linv_def ran_def)

text \<open>While the writer is inside, every reader is at the top of its loop.\<close>

context exclusive_guard
begin

lemma readers_out:
  assumes "linv lost inW inR ok s" and "writerIn s"
  shows "\<exists>k. lreaders s i = RdTop k"
  using linvD(1,2) [OF assms(1)] linvD(3) [OF assms(1), of i] assms(2) alone [of "guard s" i] by (auto simp: readerIn_def split: lreader.splits)

lemma lockRead_inv:
  assumes inv: "linv lost inW inR ok s" and st: "lockRead (lockR i) (unlockR i) i s = Some s'"
  shows "linv lost inW inR ok s'"
proof -
  note d = linvD(1,2) [OF inv] linvD(3,4) [OF inv, of i]
  have same: "linv lost inW inR ok (s\<lparr>lreaders := (lreaders s)(i := r)\<rparr>)"
    if "readerIn r" "readerIn (lreaders s i)" "lreader_ok (lcurrent s) r" for r
    using linv_reader [OF inv, of "guard s" r i] d that by (simp add: insert_absorb)
  show ?thesis
  proof (cases "lreaders s i")
    case (RdTop k)
    then obtain g where g: "lockR i (guard s) = Some g" "s' = s\<lparr>guard := g, lreaders := (lreaders s)(i := RdLocked k)\<rparr>"
      using st by (auto split: if_splits bind_splits)
    then show ?thesis using lockR_law [OF d(1) g(1)] linv_reader [OF inv, of g "RdLocked k" i]
      by (simp add: readerIn_def lreader_ok_def)
  next
    case (RdLocked k)
    then show ?thesis using st same [of "RdLoaded k (lcurrent s)"] by (auto simp: readerIn_def lreader_ok_def)
  next
    case (RdLoaded k p)
    then have p: "p = lcurrent s" using d(4) by (simp add: lreader_ok_def)
    have "lcurrent s \<in> llive s" by (cases "lwriter s") (simp_all add: llive_def)
    then obtain v where v: "lcells s (lcurrent s) = Some v" using linvD(5) [OF inv] by blast
    then have "s' = s\<lparr>lreaders := (lreaders s)(i := RdUsed k)\<rparr>"
      using st RdLoaded p linvD(6) [OF inv v] by (simp add: funcThrows_def)
    then show ?thesis using same [of "RdUsed k"] RdLoaded by (simp add: readerIn_def lreader_ok_def)
  next
    case (RdUsed k)
    then obtain g where g: "unlockR i (guard s) = Some g" "s' = s\<lparr>guard := g, lreaders := (lreaders s)(i := RdTop (k + 1))\<rparr>"
      using st by (auto split: bind_splits)
    then show ?thesis using unlockR_law [OF d(1) g(1)] linv_reader [OF inv, of g "RdTop (k + 1)" i]
      by (simp add: readerIn_def lreader_ok_def)
  qed (use st in simp_all)
qed

lemma lockModify_inv:
  assumes inv: "linv lost inW inR ok s" and st: "lockModify lockW unlockW draw s = Some s'" and pos: "\<And>k. 0 < draw k"
  shows "linv lost inW inR ok s'"
proof -
  note d = linvD(1,2) [OF inv]
  have same: "linv lost inW inR ok (s\<lparr>lwriter := w\<rparr>)" if "writerIn (s\<lparr>lwriter := w\<rparr>) = writerIn s" "llive (s\<lparr>lwriter := w\<rparr>) = llive s"
    "lwriter_ok (s\<lparr>lwriter := w\<rparr>)" for w
    using linv_writer [OF inv, of "guard s" w] d that by simp
  show ?thesis
  proof (cases "lwriter s")
    case (ModTop k)
    show ?thesis
    proof (cases "k mod c_writeInterval = 0")
      case True
      then obtain g where g: "lockW (guard s) = Some g" "s' = s\<lparr>guard := g, lwriter := ModLocked k\<rparr>"
        using st ModTop by (auto split: if_splits bind_splits)
      then show ?thesis using lockW_law [OF d(1) g(1)] linv_writer [OF inv, of g "ModLocked k"] ModTop
        by (simp add: llive_def writerIn_def lwriter_ok_def)
    next
      case False
      then have "s' = s\<lparr>lwriter := ModTop (k + 1)\<rparr>" using st ModTop by (simp split: if_splits)
      then show ?thesis using same [of "ModTop (k + 1)"] ModTop by (simp add: llive_def writerIn_def lwriter_ok_def)
    qed
  next
    case (ModLocked k)
    then show ?thesis using st same [of "ModLoaded k (lcurrent s)"] by (auto simp: llive_def writerIn_def lwriter_ok_def)
  next
    case (ModLoaded k pOld)
    then have s': "s' = s\<lparr>lcells := (lcells s)(lfresh s \<mapsto> draw k), lfresh := Suc (lfresh s), lcurrent := lfresh s,
        lwriter := ModStored k pOld\<rparr>" using st by simp
    have out: "\<exists>k. lreaders s i = RdTop k" for i by (rule readers_out [OF inv]) (simp add: writerIn_def ModLoaded)
    have "lreader_ok (lcurrent s') (lreaders s' i)" for i using out [of i] s' by (auto simp: lreader_ok_def)
    then show ?thesis using inv pos [of k] s' ModLoaded by (auto simp: linv_defs ran_def)
  next
    case (ModStored k pOld)
    then have s': "s' = s\<lparr>lcells := (lcells s)(pOld := None), lwriter := ModDeleted k\<rparr>" using st by simp
    have "\<forall>v \<in> ran (lcells s'). 0 < v" using inv s' by (auto simp: linv_def ran_def split: if_splits)
    then show ?thesis using inv s' ModStored by (auto simp: linv_defs)
  next
    case (ModDeleted k)
    then obtain g where g: "unlockW (guard s) = Some g" "s' = s\<lparr>guard := g, lwriter := ModTop (k + 1)\<rparr>"
      using st by (auto split: bind_splits)
    then show ?thesis using unlockW_law [OF d(1) g(1)] linv_writer [OF inv, of g "ModTop (k + 1)"] ModDeleted
      by (simp add: llive_def writerIn_def lwriter_ok_def)
  qed
qed

lemma lstep_inv:
  assumes "linv lost inW inR ok s" and "lstep lockW unlockW lockR unlockR draw s s'"
  shows "linv lost inW inR ok s'"
  using assms unfolding lstep_def by (elim conjE disjE exE) (blast intro: lockModify_inv lockRead_inv)+

text \<open>Whoever blocks the writer has a step.\<close>

lemma writer_progress:
  assumes inv: "linv lost inW inR ok s" and k: "\<And>k. lwriter s = ModTop k \<Longrightarrow> k < c_nrLoops"
  shows "lockModify lockW unlockW draw s \<noteq> None \<or> (\<exists>i. lockRead (lockR i) (unlockR i) i s \<noteq> None)"
proof (cases "lockModify lockW unlockW draw s")
  case None
  have ok: "ok (guard s)" using inv by (simp add: linv_def)
  have w: "\<exists>k. lwriter s = ModTop k" "lockW (guard s) = None"
    using None k unlockW_held [OF ok] linvD(2) [OF inv]
    by (auto simp: writerIn_def bind_eq_None_conv split: lwriter.splits if_splits)
  then obtain i where i: "i \<in> inR (guard s)" using blocked [OF ok] linvD(2) [OF inv] by (auto simp: writerIn_def)
  then have "readerIn (lreaders s i)" "lreader_ok (lcurrent s) (lreaders s i)" using linvD(3,4) [OF inv] by blast+
  then have "lockRead (lockR i) (unlockR i) i s \<noteq> None"
    using unlockR_held [OF ok i] by (auto simp: readerIn_def lreader_ok_def split: lreader.splits)
  then show ?thesis by blast
qed simp

end

interpretation sharedBench: invariant_system "lstart \<lparr>exclusive = False, sharers = {}\<rparr> lost"
  "lstep sharedLock sharedUnlock sharedLockShared sharedUnlockShared draw" "linv lost exclusive sharers sharedOk" for draw lost
proof unfold_locales
  show "linv lost exclusive sharers sharedOk s" if "lstart \<lparr>exclusive = False, sharers = {}\<rparr> lost s" for s
    using that by (auto simp: lstart_def linv_defs sharedOk_def readerIn_def lreader_ok_def ran_def split: if_splits)
qed (rule shared.lstep_inv)

interpretation mutexBench: invariant_system "lstart Unlocked lost"
  "lstep mutexLockWriter mutexUnlockWriter mutexLockReader mutexUnlockReader draw"
  "linv lost (\<lambda>l. l = ByWriter) mutexReaders (\<lambda>_. True)" for draw lost
proof unfold_locales
  show "linv lost (\<lambda>l. l = ByWriter) mutexReaders (\<lambda>_. True) s" if "lstart Unlocked lost s" for s
    using that by (auto simp: lstart_def linv_defs mutexReaders_def readerIn_def lreader_ok_def ran_def split: if_splits)
qed (rule mutex.lstep_inv)

lemma lsteps_shared:
  assumes "\<And>k. 0 < draw k" and "(fSharedMutex draw)\<^sup>*\<^sup>* s s'"
  shows "(lstep sharedLock sharedUnlock sharedLockShared sharedUnlockShared draw)\<^sup>*\<^sup>* s s'"
  using assms(2) by (rule rtranclp_mono [THEN predicate2D, rotated])
    (use assms(1) in \<open>auto simp: fSharedMutex_def lstep_def simp del: lockModify.simps lockRead.simps\<close>)

lemma lsteps_mutex:
  assumes "\<And>k. 0 < draw k" and "(fMutex draw)\<^sup>*\<^sup>* s s'"
  shows "(lstep mutexLockWriter mutexUnlockWriter mutexLockReader mutexUnlockReader draw)\<^sup>*\<^sup>* s s'"
  using assms(2) by (rule rtranclp_mono [THEN predicate2D, rotated])
    (use assms(1) in \<open>auto simp: fMutex_def lstep_def simp del: lockModify.simps lockRead.simps\<close>)

subsection \<open>The benchmark without a lock\<close>

text \<open>
  In \<open>fReadOnly\<close> nobody replaces \<open>pCurrent\<close>.  The other thread draws a value into a new cell now and
  then and forgets it.  Its loop, on the heap and the next free cell:
\<close>

definition readOnlyModify :: "(nat \<Rightarrow> int) \<Rightarrow> nat \<Rightarrow> (nat \<rightharpoonup> int) \<times> nat \<Rightarrow> ((nat \<rightharpoonup> int) \<times> nat) option" where
  "readOnlyModify draw n =
     for_range 0 n (\<lambda>k (h, free).
       if int k mod c_writeInterval = 0 then Some (h(free \<mapsto> draw k), Suc free) else Some (h, free))"

lemma readOnlyModify_leaks:
  assumes "dom h = {p}" and "p < free"
  shows "\<exists>h'. readOnlyModify draw n (h, free) = Some (h', free + (n + 9999) div 10000)
    \<and> dom h' = insert p {free ..< free + (n + 9999) div 10000} \<and> h' p = h p"
proof -
  let ?I = "\<lambda>i s. \<exists>h'. s = (h', free + (i + 9999) div 10000)
      \<and> dom h' = insert p {free ..< free + (i + 9999) div 10000} \<and> h' p = h p"
  have "\<exists>s. readOnlyModify draw n (h, free) = Some s \<and> ?I n s"
    unfolding readOnlyModify_def
  proof (rule for_range_rule [where I = ?I])
    fix i and s :: "(nat \<rightharpoonup> int) \<times> nat"
    assume "?I i s"
    then obtain h' where c: "s = (h', free + (i + 9999) div 10000)"
      "dom h' = insert p {free ..< free + (i + 9999) div 10000}" "h' p = h p" by blast
    have m: "int i mod c_writeInterval = 0 \<longleftrightarrow> i mod 10000 = 0" unfolding c_writeInterval_def by presburger
    have "Suc (i + 9999) mod 10000 = i mod 10000" by simp
    then have "Suc (i + 9999) div 10000 = (if i mod 10000 = 0 then Suc ((i + 9999) div 10000) else (i + 9999) div 10000)"
      by (simp only: div_Suc)
    then consider "i mod 10000 = 0" "(Suc i + 9999) div 10000 = Suc ((i + 9999) div 10000)"
      | "i mod 10000 \<noteq> 0" "(Suc i + 9999) div 10000 = (i + 9999) div 10000" by (cases "i mod 10000 = 0") (simp_all del: div_Suc)
    then show "\<exists>s'. (case s of (h, free) \<Rightarrow>
        if int i mod c_writeInterval = 0 then Some (h(free \<mapsto> draw i), Suc free) else Some (h, free)) = Some s'
        \<and> ?I (Suc i) s'"
    proof cases
      case 1
      let ?n = "free + (i + 9999) div 10000"
      have "dom (h'(?n \<mapsto> draw i)) = insert p {free ..< Suc ?n}" using c(2) by auto
      moreover have "(h'(?n \<mapsto> draw i)) p = h p" using c(3) assms(2) by simp
      ultimately show ?thesis unfolding c(1) m 1(2) using 1(1) by simp
    next
      case 2
      then show ?thesis unfolding c(1) m 2(2) using c(2,3) by simp
    qed
  qed (use assms in simp_all)
  then show ?thesis by auto
qed

subsection \<open>Properties\<close>

text \<open>What is shown of every state that a benchmark with a lock can reach.\<close>

definition lockSafe :: "nat set \<Rightarrow> ('l lbench \<Rightarrow> 'l lbench \<Rightarrow> bool) \<Rightarrow> 'l lbench \<Rightarrow> bool" where
  "lockSafe lost move s \<longleftrightarrow> (\<forall>i. lreaders s i \<noteq> RdFault \<and> lreaders s i \<noteq> RdThrew)
     \<and> (\<forall>k. lwriter s = ModTop k \<longrightarrow> dom (lcells s) = insert (lcurrent s) lost)
     \<and> ((\<exists>k. lwriter s = ModTop k \<and> c_nrLoops \<le> k) \<or> (\<exists>s'. move s s'))"

lemma linv_lockSafe:
  assumes "linv lost inW inR ok s" and "(\<And>k. lwriter s = ModTop k \<Longrightarrow> k < c_nrLoops) \<Longrightarrow> \<exists>s'. move s s'"
  shows "lockSafe lost move s"
  unfolding lockSafe_def
proof (intro conjI allI impI)
  fix i
  have "lreader_ok (lcurrent s) (lreaders s i)" by (rule linvD(4) [OF assms(1)])
  then show "lreaders s i \<noteq> RdFault" "lreaders s i \<noteq> RdThrew" by (auto simp: lreader_ok_def)
next
  fix k
  assume "lwriter s = ModTop k"
  then show "dom (lcells s) = insert (lcurrent s) lost" using linvD(5) [OF assms(1)] by (simp add: llive_def)
next
  show "(\<exists>k. lwriter s = ModTop k \<and> c_nrLoops \<le> k) \<or> (\<exists>s'. move s s')"
    using assms(2) by (meson leI)
qed


text \<open>Two readers share the lock, leave it, and the writer replaces the value.\<close>

abbreviation lrun :: "(int \<Rightarrow> int) \<Rightarrow> nat option list \<Rightarrow> shared_mutex lbench \<Rightarrow> shared_mutex lbench option" where
  "lrun draw \<equiv> for_list (actor (lockModify sharedLock sharedUnlock draw) (\<lambda>i. lockRead (sharedLockShared i) (sharedUnlockShared i) i))"

lemma lrun_reach: "lrun draw as s = Some s' \<Longrightarrow> (fSharedMutex draw)\<^sup>*\<^sup>* s s'"
  by (erule actors_reach) (unfold fSharedMutex_def, blast+)

definition exLocked :: "shared_mutex lbench" where
  "exLocked = \<lparr>guard = \<lparr>exclusive = False, sharers = {}\<rparr>, lcells = [0 \<mapsto> 42], lfresh = 1, lcurrent = 0,
     lwriter = ModTop 0, lreaders = (\<lambda>_. RdTop 0)\<rparr>"

definition exLockedRun :: "shared_mutex lbench option" where
  "exLockedRun = lrun (\<lambda>_. 7) (map Some [0, 1, 0, 0, 1, 1, 0, 1] @ replicate 5 None) exLocked"


text \<open>
  \<open>fReadOnly\<close> never deletes what its second thread allocates: after all loops 420 cells that
  nothing points to are left, beside the value of \<open>pCurrent\<close>, which is unchanged.
\<close>

theorem readOnly_leaks:
  assumes "dom h = {p}" and "p < free"
  shows "\<exists>h'. readOnlyModify draw (nat c_nrLoops) (h, free) = Some (h', free + 420)
    \<and> dom h' = insert p {free ..< free + 420} \<and> h' p = h p"
  using readOnlyModify_leaks [OF assms, of draw "nat c_nrLoops"] by (simp add: c_nrLoops_def)

theorem readOnly_leaks_witness:
  "\<exists>h'. readOnlyModify (\<lambda>_. 7) (nat c_nrLoops) ([0 \<mapsto> 42], 1) = Some (h', 421) \<and> card (dom h') = 421"
  using readOnly_leaks [of "[0 \<mapsto> 42]" 0 1 "\<lambda>_. 7"] by auto

end
