(* ===== verification/PtrBenchmark.thy ===== *)
theory PtrBenchmark
  imports Benchmark
begin

text \<open>
  The benchmark \<open>fAtomicSharedPtr\<close> of \<open>RCUTests.cpp\<close>: readers copy the atomic \<open>std::shared_ptr\<close>
  \<open>spCurrent\<close> and dereference the copy, while a writer replaces it.  The reference counts of the
  standard library are part of the state.  Also here: the arithmetic of \<open>func\<close>.
\<close>

subsection \<open>The arithmetic of \<open>func\<close>\<close>

text \<open>\<open>None\<close>: an exception, or a product that \<open>int64_t\<close> cannot hold.\<close>

definition func :: "int \<Rightarrow> int option" where
  "func v =
     (if v < 0 then None
      else for_range 0 25 (\<lambda>i res. let r = res * (v + int i) in if - (2 ^ 63) \<le> r \<and> r < 2 ^ 63 then Some r else None) 1)"

lemma for_range_last: "for_range 0 (Suc n) body s = do { s1 \<leftarrow> for_range 0 n body s; body n s1 }"
  by (simp add: for_range_def for_list_append)

lemma func_product:
  assumes "func v = Some r"
  shows "0 \<le> v" and "r = (\<Prod>i<25. v + int i)" and "r < 2 ^ 63"
proof -
  let ?body = "\<lambda>i res. let r = res * (v + int i) in if - (2 ^ 63) \<le> r \<and> r < 2 ^ 63 then Some r else None"
  have step: "n \<le> 25 \<Longrightarrow> for_range 0 n ?body 1 = Some x \<Longrightarrow> x = (\<Prod>i<n. v + int i) \<and> x < 2 ^ 63" for n x
  proof (induction n arbitrary: x)
    case (Suc n)
    then show ?case by (auto simp: for_range_last Let_def split: bind_splits if_splits)
  qed (simp add: for_range_def)
  show "0 \<le> v" using assms by (simp add: func_def split: if_splits)
  then show "r = (\<Prod>i<25. v + int i)" "r < 2 ^ 63" using step [of 25 r] assms by (simp_all add: func_def)
qed

lemma func_overflow:
  assumes "1 \<le> v"
  shows "func v = None"
proof (cases "func v")
  case (Some r)
  have "(\<Prod>i<25. 1 + int i) = 15511210043330985984000000" by code_simp
  moreover have "(\<Prod>i<25. 1 + int i) \<le> (\<Prod>i<25. v + int i)" using assms by (intro prod_mono) simp
  ultimately show ?thesis using func_product(2,3) [OF Some] by simp
qed

subsection \<open>The program\<close>

text \<open>
  Managed integers have numbers, as in \<open>Benchmark\<close>; \<open>pcounts\<close> are the use counts of their control
  blocks.  The writer: at the top of its loop, with the new pointer, with the pointer it has swapped
  out.  A reader: at the top of its loop, with a copy of \<open>spCurrent\<close>, after \<open>func\<close>; it may have dereferenced
  null or a deleted value, or thrown.
\<close>

datatype pmodify = PTop int | PMade int nat | PSwapped int "nat option"

datatype preader = PrTop int | PrCopied int "nat option" | PrUsed int nat | PrFault | PrThrew

record pbench =
  pcells :: "nat \<rightharpoonup> int"
  pcounts :: "nat \<Rightarrow> nat"
  pfresh :: nat
  spCurrent :: "nat option"
  pmodify :: pmodify
  preaders :: "nat \<Rightarrow> preader"

definition c_nrThreads :: nat where
  "c_nrThreads = 8"

text \<open>Copying and dropping a pointer.\<close>

definition acquire :: "nat option \<Rightarrow> pbench \<Rightarrow> pbench" where
  "acquire p s = (case p of None \<Rightarrow> s | Some a \<Rightarrow> s\<lparr>pcounts := (pcounts s)(a := pcounts s a + 1)\<rparr>)"

definition release :: "nat option \<Rightarrow> pbench \<Rightarrow> pbench" where
  "release p s =
     (case p of None \<Rightarrow> s
      | Some a \<Rightarrow>
          let s = s\<lparr>pcounts := (pcounts s)(a := pcounts s a - 1)\<rparr>
          in if pcounts s a = 0 then s\<lparr>pcells := (pcells s)(a := None)\<rparr> else s)"

fun ptrModify :: "(int \<Rightarrow> int) \<Rightarrow> pbench \<Rightarrow> pbench option" where
  "ptrModify draw s =
     (case pmodify s of
        PTop k \<Rightarrow>
          if \<not> k < c_nrLoops then None
          else if k mod c_writeInterval = 0 then
            Some (s\<lparr>pcells := (pcells s)(pfresh s \<mapsto> draw k), pcounts := (pcounts s)(pfresh s := 1),
                    pfresh := Suc (pfresh s), pmodify := PMade k (pfresh s)\<rparr>)
          else Some (s\<lparr>pmodify := PTop (k + 1)\<rparr>)
      | PMade k p \<Rightarrow> Some (s\<lparr>spCurrent := Some p, pmodify := PSwapped k (spCurrent s)\<rparr>)
      | PSwapped k old \<Rightarrow> Some (release old (s\<lparr>pmodify := PTop (k + 1)\<rparr>)))"

fun ptrRead :: "nat \<Rightarrow> pbench \<Rightarrow> pbench option" where
  "ptrRead i s =
     (case preaders s i of
        PrTop k \<Rightarrow>
          if \<not> k < c_nrLoops then None
          else Some (acquire (spCurrent s) (s\<lparr>preaders := (preaders s)(i := PrCopied k (spCurrent s))\<rparr>))
      | PrCopied k p \<Rightarrow>
          Some (s\<lparr>preaders := (preaders s)(i :=
            (case p of None \<Rightarrow> PrFault
             | Some a \<Rightarrow> (case pcells s a of None \<Rightarrow> PrFault | Some v \<Rightarrow> if funcThrows v then PrThrew else PrUsed k a)))\<rparr>)
      | PrUsed k a \<Rightarrow> Some (release (Some a) (s\<lparr>preaders := (preaders s)(i := PrTop (k + 1))\<rparr>))
      | _ \<Rightarrow> None)"

definition fAtomicSharedPtr :: "(int \<Rightarrow> int) \<Rightarrow> pbench \<Rightarrow> pbench \<Rightarrow> bool" where
  "fAtomicSharedPtr draw s s' \<longleftrightarrow> ptrModify draw s = Some s' \<or> (\<exists>i < c_nrThreads. ptrRead i s = Some s')"

text \<open>The start: \<open>run\<close> never assigns \<open>spCurrent\<close>, so it is null; with a value \<open>v\<close> in it otherwise.\<close>

definition ptrStart :: "int option \<Rightarrow> pbench" where
  "ptrStart v =
     \<lparr>pcells = (\<lambda>a. if a = 0 then v else None), pcounts = (\<lambda>a. if a = 0 \<and> v \<noteq> None then 1 else 0), pfresh = 1,
      spCurrent = map_option (\<lambda>_. 0) v, pmodify = PTop 0, preaders = (\<lambda>_. PrTop 0)\<rparr>"

subsection \<open>The counts\<close>

definition held :: "preader \<Rightarrow> nat option" where
  "held r = (case r of PrCopied k p \<Rightarrow> p | PrUsed k a \<Rightarrow> Some a | _ \<Rightarrow> None)"

definition carried :: "pmodify \<Rightarrow> nat option" where
  "carried w = (case w of PTop k \<Rightarrow> None | PMade k p \<Rightarrow> Some p | PSwapped k old \<Rightarrow> old)"

definition one :: "bool \<Rightarrow> nat" where
  "one b = (if b then 1 else 0)"

definition holders :: "(nat \<Rightarrow> preader) \<Rightarrow> nat \<Rightarrow> nat" where
  "holders r a = (\<Sum>i<c_nrThreads. one (held (r i) = Some a))"

definition owners :: "pbench \<Rightarrow> nat \<Rightarrow> nat" where
  "owners s a = one (spCurrent s = Some a) + one (carried (pmodify s) = Some a) + holders (preaders s) a"

lemma holders_update:
  assumes "i < c_nrThreads"
  shows "holders (r(i := x)) a + one (held (r i) = Some a) = holders r a + one (held x = Some a)"
proof -
  let ?f = "\<lambda>r. \<Sum>j\<in>{..< c_nrThreads} - {i}. one (held (r j) = Some a)"
  have split: "holders r a = one (held (r i) = Some a) + ?f r" for r
    unfolding holders_def using assms by (intro sum.remove) auto
  have "?f (r(i := x)) = ?f r" by (rule sum.cong) auto
  then show ?thesis using split [of r] split [of "r(i := x)"] by simp
qed

definition reader_fine :: "preader \<Rightarrow> bool" where
  "reader_fine r \<longleftrightarrow> r \<noteq> PrFault \<and> r \<noteq> PrThrew \<and> (\<forall>k. r \<noteq> PrCopied k None)"

text \<open>Counts and live cells follow a number of owners per cell.\<close>

definition counted :: "(nat \<Rightarrow> nat) \<Rightarrow> pbench \<Rightarrow> bool" where
  "counted own s \<longleftrightarrow> (\<forall>a. pcounts s a = own a) \<and> (\<forall>a. pcells s a \<noteq> None \<longleftrightarrow> 0 < own a)
     \<and> (\<forall>a \<ge> pfresh s. own a = 0) \<and> (\<forall>a v. pcells s a = Some v \<longrightarrow> 0 < v)"

definition ptrInv :: "pbench \<Rightarrow> bool" where
  "ptrInv s \<longleftrightarrow> counted (owners s) s \<and> spCurrent s \<noteq> None \<and> (\<forall>i. reader_fine (preaders s i))"

lemma acquire_fields [simp]:
  "pcells (acquire p s) = pcells s" "pfresh (acquire p s) = pfresh s" "spCurrent (acquire p s) = spCurrent s"
  "pmodify (acquire p s) = pmodify s" "preaders (acquire p s) = preaders s"
  "pcounts (acquire p s) a = pcounts s a + one (p = Some a)"
  by (auto simp: acquire_def one_def split: option.split)

lemma release_fields [simp]:
  "pfresh (release p s) = pfresh s" "spCurrent (release p s) = spCurrent s"
  "pmodify (release p s) = pmodify s" "preaders (release p s) = preaders s"
  "pcounts (release p s) a = pcounts s a - one (p = Some a)"
  "pcells (release p s) a = (if p = Some a \<and> pcounts s a \<le> 1 then None else pcells s a)"
  by (auto simp: release_def one_def Let_def split: option.split)

lemma owners_fields [simp]: "owners (acquire p s) = owners s" "owners (release p s) = owners s"
  by (simp_all add: owners_def fun_eq_iff)

lemma counted_acquire:
  assumes "counted own s" and "\<And>a. own' a = own a + one (p = Some a)" and "\<And>a. p = Some a \<Longrightarrow> 0 < own a"
  shows "counted own' (acquire p s)"
  using assms by (auto simp: counted_def one_def)

lemma counted_release:
  assumes "counted own s" and "\<And>a. own a = own' a + one (p = Some a)"
  shows "counted own' (release p s)"
  using assms by (auto simp: counted_def one_def split: if_splits)

lemma owners_reader:
  assumes "i < c_nrThreads"
  shows "owners (s\<lparr>preaders := (preaders s)(i := x)\<rparr>) a + one (held (preaders s i) = Some a) = owners s a + one (held x = Some a)"
  using holders_update [OF assms, of "preaders s" x a] by (simp add: owners_def)

lemma counted_readers [simp]: "counted own (s\<lparr>preaders := r\<rparr>) = counted own s" "counted own (s\<lparr>pmodify := w\<rparr>) = counted own s"
  "counted own (s\<lparr>spCurrent := c\<rparr>) = counted own s"
  by (simp_all add: counted_def)

text \<open>The counts are exact whether or not the pointer is null.\<close>

lemma counted_read:
  assumes c: "counted (owners s) s" and i: "i < c_nrThreads" and st: "ptrRead i s = Some s'"
  shows "counted (owners s') s'"
proof (cases "preaders s i")
  case (PrTop k)
  let ?s = "s\<lparr>preaders := (preaders s)(i := PrCopied k (spCurrent s))\<rparr>"
  have s': "s' = acquire (spCurrent s) ?s" using st PrTop by (simp split: if_splits)
  have own: "owners ?s a = owners s a + one (spCurrent s = Some a)" for a
    using owners_reader [OF i, of s "PrCopied k (spCurrent s)" a] by (simp add: PrTop held_def one_def)
  have "counted (owners ?s) (acquire (spCurrent s) ?s)"
    by (rule counted_acquire [of "owners s"]) (use c own in \<open>auto simp: owners_def one_def\<close>)
  then show ?thesis by (simp add: s')
next
  case (PrCopied k p)
  obtain r where s': "s' = s\<lparr>preaders := (preaders s)(i := r)\<rparr>" and r: "held r = p \<or> p = None \<and> held r = None"
  proof (cases p)
    case None
    then show ?thesis using that [of PrFault] st PrCopied by (simp add: held_def)
  next
    case (Some a)
    have "one (held (preaders s i) = Some a) \<le> owners s a"
      using owners_reader [OF i, of s "PrTop k" a] by (simp add: held_def one_def)
    then have "0 < owners s a" by (simp add: PrCopied Some held_def one_def)
    then obtain v where v: "pcells s a = Some v" "0 < v" using c unfolding counted_def by blast
    then show ?thesis using that [of "PrUsed k a"] st PrCopied Some by (simp add: funcThrows_def held_def)
  qed
  have "owners s' b = owners s b" for b
    using owners_reader [OF i, of s r b] r by (auto simp: s' PrCopied held_def)
  then have "owners s' = owners s" by (rule ext)
  then show ?thesis using c s' by simp
next
  case (PrUsed k a)
  let ?s = "s\<lparr>preaders := (preaders s)(i := PrTop (k + 1))\<rparr>"
  have s': "s' = release (Some a) ?s" using st PrUsed by simp
  have own: "owners s b = owners ?s b + one (Some a = Some b)" for b
    using owners_reader [OF i, of s "PrTop (k + 1)" b] by (simp add: PrUsed held_def one_def)
  have "counted (owners ?s) (release (Some a) ?s)" by (rule counted_release [of "owners s"]) (use c own in simp_all)
  then show ?thesis by (simp add: s')
qed (use st in simp_all)

lemma counted_modify:
  assumes c: "counted (owners s) s" and st: "ptrModify draw s = Some s'" and pos: "\<And>k. 0 < draw k"
  shows "counted (owners s') s'"
proof (cases "pmodify s")
  case (PTop k)
  show ?thesis
  proof (cases "k mod c_writeInterval = 0")
    case True
    then have s': "s' = s\<lparr>pcells := (pcells s)(pfresh s \<mapsto> draw k), pcounts := (pcounts s)(pfresh s := 1),
        pfresh := Suc (pfresh s), pmodify := PMade k (pfresh s)\<rparr>" using st PTop by (simp split: if_splits)
    have "owners s' a = owners s a + one (a = pfresh s)" for a by (auto simp: s' owners_def carried_def PTop one_def)
    then show ?thesis using c pos [of k] by (auto simp: s' counted_def one_def)
  next
    case False
    then have s': "s' = s\<lparr>pmodify := PTop (k + 1)\<rparr>" using st PTop by (simp split: if_splits)
    have "owners s' = owners s" by (simp add: s' owners_def carried_def PTop fun_eq_iff)
    then show ?thesis using c s' by simp
  qed
next
  case (PMade k p)
  then have s': "s' = s\<lparr>spCurrent := Some p, pmodify := PSwapped k (spCurrent s)\<rparr>" using st by simp
  have "owners s' = owners s" by (simp add: s' owners_def carried_def PMade fun_eq_iff)
  then show ?thesis using c s' by simp
next
  case (PSwapped k old)
  let ?s = "s\<lparr>pmodify := PTop (k + 1)\<rparr>"
  have s': "s' = release old ?s" using st PSwapped by simp
  have own: "owners s a = owners ?s a + one (old = Some a)" for a by (simp add: owners_def carried_def PSwapped one_def)
  have "counted (owners ?s) (release old ?s)" by (rule counted_release [of "owners s"]) (use c own in simp_all)
  then show ?thesis by (simp add: s')
qed

lemma ptrRead_inv:
  assumes inv: "ptrInv s" and i: "i < c_nrThreads" and st: "ptrRead i s = Some s'"
  shows "ptrInv s'"
proof -
  have c: "counted (owners s) s" and cur: "spCurrent s \<noteq> None" and fine: "\<And>j. reader_fine (preaders s j)"
    using inv by (simp_all add: ptrInv_def)
  have "spCurrent s' = spCurrent s \<and> (\<forall>j. reader_fine (preaders s' j))"
  proof (cases "preaders s i")
    case (PrCopied k p)
    then obtain a where p: "p = Some a" using fine [of i] by (cases p) (simp_all add: reader_fine_def)
    have "one (held (preaders s i) = Some a) \<le> owners s a"
      using owners_reader [OF i, of s "PrTop k" a] by (simp add: held_def one_def)
    then have "0 < owners s a" by (simp add: PrCopied p held_def one_def)
    then obtain v where v: "pcells s a = Some v" "0 < v" using c unfolding counted_def by blast
    then have "s' = s\<lparr>preaders := (preaders s)(i := PrUsed k a)\<rparr>" using st by (simp add: PrCopied p funcThrows_def)
    then show ?thesis using fine by (simp add: reader_fine_def)
  qed (use st cur fine in \<open>auto simp: reader_fine_def split: if_splits\<close>)
  then show ?thesis using counted_read [OF c i st] cur by (simp add: ptrInv_def)
qed

lemma ptrModify_inv:
  assumes inv: "ptrInv s" and st: "ptrModify draw s = Some s'" and pos: "\<And>k. 0 < draw k"
  shows "ptrInv s'"
proof -
  have "spCurrent s' \<noteq> None \<and> preaders s' = preaders s"
    using inv st by (cases "pmodify s") (auto simp: ptrInv_def split: if_splits)
  then show ?thesis using counted_modify [OF _ st pos] inv by (simp add: ptrInv_def)
qed

definition ptrMove :: "(int \<Rightarrow> int) \<Rightarrow> pbench \<Rightarrow> pbench \<Rightarrow> bool" where
  "ptrMove draw s s' \<longleftrightarrow> (\<forall>k. 0 < draw k) \<and> fAtomicSharedPtr draw s s'"

lemma holders_idle: "holders (\<lambda>_. PrTop k) a = 0"
  by (simp add: holders_def held_def one_def)

interpretation pointers: invariant_system "\<lambda>s. \<exists>v > 0. s = ptrStart (Some v)" "ptrMove draw" ptrInv for draw
proof unfold_locales
  show "ptrInv s" if start: "\<exists>v > 0. s = ptrStart (Some v)" for s
  proof -
    obtain v where v: "0 < v" "s = ptrStart (Some v)" using start by blast
    have "owners s a = one (a = 0)" for a by (simp add: v(2) ptrStart_def owners_def holders_idle carried_def one_def)
    then show ?thesis using v by (auto simp: ptrStart_def ptrInv_def counted_def one_def reader_fine_def)
  qed
qed (auto simp: ptrMove_def fAtomicSharedPtr_def simp del: ptrModify.simps ptrRead.simps intro: ptrModify_inv ptrRead_inv)

lemma ptrMoves:
  assumes "\<And>k. 0 < draw k" and "(fAtomicSharedPtr draw)\<^sup>*\<^sup>* s s'"
  shows "(ptrMove draw)\<^sup>*\<^sup>* s s'"
  using assms(2) by (rule rtranclp_mono [THEN predicate2D, rotated]) (use assms(1) in \<open>auto simp: ptrMove_def\<close>)

lemma null_reached: "\<exists>s. (fAtomicSharedPtr draw)\<^sup>*\<^sup>* (ptrStart None) s \<and> preaders s 0 = PrFault"
proof -
  obtain s1 where 1: "ptrRead 0 (ptrStart None) = Some s1" "preaders s1 0 = PrCopied 0 None"
    by (simp add: ptrStart_def c_nrLoops_def acquire_def)
  obtain s2 where 2: "ptrRead 0 s1 = Some s2" "preaders s2 0 = PrFault" using 1(2) by simp
  have "fAtomicSharedPtr draw (ptrStart None) s1" "fAtomicSharedPtr draw s1 s2"
    using 1(1) 2(1) unfolding fAtomicSharedPtr_def c_nrThreads_def by (metis zero_less_numeral)+
  then show ?thesis using 2(2) by (meson converse_rtranclp_into_rtranclp rtranclp.rtrancl_refl)
qed

subsection \<open>Properties\<close>

text \<open>
  \<open>func\<close> returns for 0 only.  A negative value throws, and from 1 on the product overflows
  \<open>int64_t\<close>, whatever value of its range the distribution draws.
\<close>

theorem func_overflows: "func v = (if v = 0 then Some 0 else None)"
proof -
  have "func 0 = Some 0" by code_simp
  moreover have "v < 0 \<Longrightarrow> func v = None" by (simp add: func_def)
  moreover consider "v < 0" | "v = 0" | "1 \<le> v" by linarith
  ultimately show ?thesis using func_overflow [of v] by cases auto
qed

text \<open>
  C25.  The benchmark with an atomic \<open>std::shared_ptr\<close>.  From the state in which \<open>run\<close> leaves
  \<open>spCurrent\<close>, null, a reader can dereference null.  If it held a value from the start, then on every
  interleaving no reader would dereference null or a deleted value, the use counts would be exact,
  and a value would live exactly as long as it has an owner.
\<close>

theorem shared_ptr_benchmark:
  assumes "\<And>k. 1 \<le> draw k \<and> draw k \<le> 100000000"
  shows "(\<exists>s. (fAtomicSharedPtr draw)\<^sup>*\<^sup>* (ptrStart None) s \<and> preaders s 0 = PrFault)
    \<and> (\<forall>v > 0. \<forall>s. (fAtomicSharedPtr draw)\<^sup>*\<^sup>* (ptrStart (Some v)) s \<longrightarrow> (\<forall>i. preaders s i \<noteq> PrFault \<and> preaders s i \<noteq> PrThrew)
        \<and> (\<forall>a. pcounts s a = owners s a \<and> (pcells s a \<noteq> None \<longleftrightarrow> 0 < owners s a)))"
proof (intro conjI allI impI)
  show "\<exists>s. (fAtomicSharedPtr draw)\<^sup>*\<^sup>* (ptrStart None) s \<and> preaders s 0 = PrFault" by (rule null_reached)
  fix v s
  assume v: "0 < v" and r: "(fAtomicSharedPtr draw)\<^sup>*\<^sup>* (ptrStart (Some v)) s"
  have pos: "0 < draw k" for k using assms [of k] by simp
  have start: "\<exists>w > 0. ptrStart (Some v) = ptrStart (Some w)" using v by blast
  have inv: "ptrInv s" by (rule pointers.inv_reachable [OF start ptrMoves [OF pos r]])
  fix i a
  show "preaders s i \<noteq> PrFault" "preaders s i \<noteq> PrThrew" using inv by (auto simp: ptrInv_def reader_fine_def)
  show "pcounts s a = owners s a" "pcells s a \<noteq> None \<longleftrightarrow> 0 < owners s a" using inv unfolding ptrInv_def counted_def by blast+
qed

text \<open>Reader 0 copies the first pointer; the writer replaces and drops it; the reader's copy keeps it alive.\<close>

abbreviation prun :: "(int \<Rightarrow> int) \<Rightarrow> nat option list \<Rightarrow> pbench \<Rightarrow> pbench option" where
  "prun draw \<equiv> for_list (actor (ptrModify draw) (\<lambda>i s. if i < c_nrThreads then ptrRead i s else None))"

lemma prun_reach: "prun draw as s = Some s' \<Longrightarrow> (fAtomicSharedPtr draw)\<^sup>*\<^sup>* s s'"
  by (erule actors_reach) (unfold fAtomicSharedPtr_def, auto split: if_splits simp del: ptrRead.simps)

definition exPtrRun :: "pbench option" where
  "exPtrRun = prun (\<lambda>_. 7) [Some 0, None, None, None, Some 0] (ptrStart (Some 42))"

theorem shared_ptr_benchmark_witness:
  "\<exists>s. exPtrRun = Some s \<and> spCurrent s = Some 1 \<and> pcounts s 0 = 1 \<and> owners s 0 = 1 \<and> preaders s 0 \<noteq> PrFault"
proof -
  have "map_option (\<lambda>s. (spCurrent s, pcounts s 0)) exPtrRun = Some (Some 1, 1)" by code_simp
  then obtain s where s: "exPtrRun = Some s" "spCurrent s = Some 1" "pcounts s 0 = 1" by auto
  have "(fAtomicSharedPtr (\<lambda>_. 7))\<^sup>*\<^sup>* (ptrStart (Some 42)) s" using s(1) prun_reach unfolding exPtrRun_def by blast
  moreover have "0 < (42 :: int)" by simp
  ultimately have "pcounts s 0 = owners s 0" "preaders s 0 \<noteq> PrFault"
    using shared_ptr_benchmark [of "\<lambda>_. 7", THEN conjunct2, rule_format, of 42 s] by simp_all
  then show ?thesis using s by auto
qed

end
