(* ===== verification/BenchmarkPhases.thy ===== *)
theory BenchmarkPhases
  imports LockBenchmark PtrBenchmark
begin

text \<open>
  The phases of the benchmark that do not use a zone, from their start to the point where all their
  threads are joined: \<open>fReadOnly\<close> step by step, and, for all four, that they can be run to their end and what
  they leave allocated.
\<close>

subsection \<open>The benchmark without a lock\<close>

text \<open>
  In \<open>fReadOnly\<close> the readers are those of the other benchmarks with a lock that does nothing; the writer
  thread draws values and forgets them.
\<close>

fun readOnlyStep :: "(int \<Rightarrow> int) \<Rightarrow> unit lbench \<Rightarrow> unit lbench option" where
  "readOnlyStep draw s =
     (case lwriter s of
        ModTop k \<Rightarrow>
          if \<not> k < c_nrLoops then None
          else if k mod c_writeInterval = 0 then
            Some (s\<lparr>lcells := (lcells s)(lfresh s \<mapsto> draw k), lfresh := Suc (lfresh s), lwriter := ModTop (k + 1)\<rparr>)
          else Some (s\<lparr>lwriter := ModTop (k + 1)\<rparr>)
      | _ \<Rightarrow> None)"

definition fReadOnly :: "(int \<Rightarrow> int) \<Rightarrow> unit lbench \<Rightarrow> unit lbench \<Rightarrow> bool" where
  "fReadOnly draw s s' \<longleftrightarrow> readOnlyStep draw s = Some s' \<or> (\<exists>i < c_nrThreads. lockRead Some Some i s = Some s')"

text \<open>The futures of a phase have been joined: every loop is at its end.\<close>

definition ljoined :: "'l lbench \<Rightarrow> bool" where
  "ljoined s \<longleftrightarrow> (\<exists>k. lwriter s = ModTop k \<and> \<not> k < c_nrLoops) \<and> (\<forall>i. \<exists>k. lreaders s i = RdTop k)
     \<and> (\<forall>i < c_nrThreads. \<exists>k. lreaders s i = RdTop k \<and> \<not> k < c_nrLoops)"

definition pjoined :: "pbench \<Rightarrow> bool" where
  "pjoined s \<longleftrightarrow> (\<exists>k. pmodify s = PTop k \<and> \<not> k < c_nrLoops) \<and> (\<forall>i < c_nrThreads. \<exists>k. preaders s i = PrTop k \<and> \<not> k < c_nrLoops)"

text \<open>Where the writer of \<open>fReadOnly\<close> stands says how many cells it has lost.\<close>

definition lostBy :: "nat \<Rightarrow> nat" where
  "lostBy n = (n + 9999) div 10000"

definition readOnlyInv :: "unit lbench \<Rightarrow> unit lbench \<Rightarrow> bool" where
  "readOnlyInv s0 s \<longleftrightarrow> (\<exists>n. lwriter s = ModTop (int n) \<and> int n \<le> c_nrLoops \<and> lfresh s = lfresh s0 + lostBy n)
     \<and> dom (lcells s) = insert (lcurrent s0) {lfresh s0 ..< lfresh s} \<and> lcurrent s0 < lfresh s0
     \<and> lcurrent s = lcurrent s0 \<and> (\<forall>v \<in> ran (lcells s). 0 < v) \<and> (\<forall>i. lreader_ok (lcurrent s0) (lreaders s i))"

lemma lostBy_Suc: "lostBy (Suc n) = lostBy n + (if int n mod c_writeInterval = 0 then 1 else 0)"
proof -
  have m: "int n mod c_writeInterval = 0 \<longleftrightarrow> n mod 10000 = 0" unfolding c_writeInterval_def by presburger
  have "Suc (n + 9999) mod 10000 = n mod 10000" by simp
  then have "Suc (n + 9999) div 10000 = (if n mod 10000 = 0 then Suc ((n + 9999) div 10000) else (n + 9999) div 10000)"
    by (simp only: div_Suc)
  then show ?thesis unfolding m lostBy_def by simp
qed

lemma readOnlyStep_inv:
  assumes inv: "readOnlyInv s0 s" and st: "readOnlyStep draw s = Some s'" and pos: "\<And>k. 0 < draw k"
  shows "readOnlyInv s0 s'"
proof -
  obtain n where n: "lwriter s = ModTop (int n)" "int n \<le> c_nrLoops" "lfresh s = lfresh s0 + lostBy n"
    using inv unfolding readOnlyInv_def by blast
  have d: "dom (lcells s) = insert (lcurrent s0) {lfresh s0 ..< lfresh s}" "\<forall>v \<in> ran (lcells s). 0 < v"
    using inv unfolding readOnlyInv_def by blast+
  have lt: "int (Suc n) \<le> c_nrLoops" using st n(1) by (simp split: if_splits)
  show ?thesis
  proof (cases "int n mod c_writeInterval = 0")
    case True
    let ?s = "s\<lparr>lcells := (lcells s)(lfresh s \<mapsto> draw (int n)), lfresh := Suc (lfresh s), lwriter := ModTop (int (Suc n))\<rparr>"
    have s': "s' = ?s" using st n(1) True by (simp add: add.commute split: if_splits)
    have "\<exists>m. lwriter ?s = ModTop (int m) \<and> int m \<le> c_nrLoops \<and> lfresh ?s = lfresh s0 + lostBy m"
      using lt n(3) True by (intro exI [of _ "Suc n"]) (simp add: lostBy_Suc)
    moreover have "dom (lcells ?s) = insert (lcurrent s0) {lfresh s0 ..< lfresh ?s}" using d(1) n(3) by auto
    moreover have "\<forall>v \<in> ran (lcells ?s). 0 < v" using d(2) pos [of "int n"] by (auto simp: ran_def)
    ultimately show ?thesis using inv unfolding readOnlyInv_def s' by simp
  next
    case False
    let ?s = "s\<lparr>lwriter := ModTop (int (Suc n))\<rparr>"
    have s': "s' = ?s" using st n(1) False by (simp add: add.commute split: if_splits)
    have "\<exists>m. lwriter ?s = ModTop (int m) \<and> int m \<le> c_nrLoops \<and> lfresh ?s = lfresh s0 + lostBy m"
      using lt n(3) False by (intro exI [of _ "Suc n"]) (simp add: lostBy_Suc)
    then show ?thesis using inv unfolding readOnlyInv_def s' by simp
  qed
qed

lemma no_guard [simp]: "(s :: unit lbench)\<lparr>guard := (), lreaders := r\<rparr> = s\<lparr>lreaders := r\<rparr>"
  by (cases s) simp

lemma readOnlyRead_inv:
  assumes inv: "readOnlyInv s0 s" and st: "lockRead Some Some i s = Some s'"
  shows "readOnlyInv s0 s'"
proof -
  have ok: "\<And>j. lreader_ok (lcurrent s0) (lreaders s j)" and cur: "lcurrent s = lcurrent s0"
    using inv unfolding readOnlyInv_def by blast+
  have "lcurrent s0 \<in> dom (lcells s)" using inv unfolding readOnlyInv_def by blast
  then obtain v where v: "lcells s (lcurrent s0) = Some v" "0 < v" using inv unfolding readOnlyInv_def ran_def by blast
  obtain r where r: "s' = s\<lparr>lreaders := (lreaders s)(i := r)\<rparr>" "lreader_ok (lcurrent s0) r"
    using st ok [of i] v cur by (cases "lreaders s i") (auto simp: lreader_ok_def funcThrows_def split: if_splits)
  show ?thesis using inv ok r(2) unfolding readOnlyInv_def r(1) by simp
qed

lemma readOnly_reach:
  assumes "readOnlyInv s0 s0" and "(fReadOnly draw)\<^sup>*\<^sup>* s0 s" and pos: "\<And>k. 0 < draw k"
  shows "readOnlyInv s0 s"
  using assms(2,1)
proof (induction rule: rtranclp_induct)
  case (step s s')
  then show ?case using readOnlyStep_inv [where draw = draw, OF _ _ pos] readOnlyRead_inv unfolding fReadOnly_def by blast
qed

subsection \<open>Every phase can be run to its end\<close>

text \<open>A reader that runs alone gets through its loop, and so do all of them, one after the other.\<close>

definition reads :: "('l \<Rightarrow> 'l option) \<Rightarrow> ('l \<Rightarrow> 'l option) \<Rightarrow> nat \<Rightarrow> 'l lbench \<Rightarrow> 'l lbench \<Rightarrow> bool" where
  "reads lock unlock i s s' \<longleftrightarrow> lockRead lock unlock i s = Some s'"

lemma reader_round:
  assumes "lock (guard s) = Some g1" "unlock g1 = Some g2" and v: "lcells s (lcurrent s) = Some v" "0 < v"
    and k: "lreaders s i = RdTop k" "k < c_nrLoops"
  shows "(reads lock unlock i)\<^sup>*\<^sup>* s (s\<lparr>guard := g2, lreaders := (lreaders s)(i := RdTop (k + 1))\<rparr>)"
proof -
  let ?s = "\<lambda>g r. s\<lparr>guard := g, lreaders := (lreaders s)(i := r)\<rparr>"
  have "lockRead lock unlock i s = Some (?s g1 (RdLocked k))" using assms by simp
  moreover have "lockRead lock unlock i (?s g1 (RdLocked k)) = Some (?s g1 (RdLoaded k (lcurrent s)))" by simp
  moreover have "lockRead lock unlock i (?s g1 (RdLoaded k (lcurrent s))) = Some (?s g1 (RdUsed k))"
    using v by (simp add: funcThrows_def)
  moreover have "lockRead lock unlock i (?s g1 (RdUsed k)) = Some (?s g2 (RdTop (k + 1)))" using assms(2) by simp
  ultimately show ?thesis unfolding reads_def [symmetric] by (meson converse_rtranclp_into_rtranclp rtranclp.rtrancl_refl)
qed

lemma reader_over:
  assumes "lreaders s i = RdTop k" and "\<not> k < c_nrLoops" and "free (guard s)"
  shows "\<exists>g k'. (reads lock unlock i)\<^sup>*\<^sup>* s (s\<lparr>guard := g, lreaders := (lreaders s)(i := RdTop k')\<rparr>) \<and> free g \<and> \<not> k' < c_nrLoops"
proof -
  have "s\<lparr>guard := guard s, lreaders := (lreaders s)(i := RdTop k)\<rparr> = s" using assms(1) by (simp add: fun_upd_idem)
  then show ?thesis using assms(2,3) by (metis rtranclp.rtrancl_refl)
qed

lemma reader_loop:
  assumes rt: "roundTrip free lock unlock" and "free (guard s)" and v: "lcells s (lcurrent s) = Some v" "0 < v"
    and "lreaders s i = RdTop k" and "c_nrLoops \<le> k + int n"
  shows "\<exists>g k'. (reads lock unlock i)\<^sup>*\<^sup>* s (s\<lparr>guard := g, lreaders := (lreaders s)(i := RdTop k')\<rparr>)
    \<and> free g \<and> \<not> k' < c_nrLoops"
  using assms(2-)
proof (induction n arbitrary: s k)
  case 0
  then have "\<not> k < c_nrLoops" by simp
  then show ?case by (rule reader_over [of s i k free, OF 0(4) _ 0(1)])
next
  case (Suc n)
  show ?case
  proof (cases "k < c_nrLoops")
    case False
    then show ?thesis by (rule reader_over [of s i k free, OF Suc.prems(4) _ Suc.prems(1)])
  next
    case True
    obtain g1 g2 where g: "lock (guard s) = Some g1" "unlock g1 = Some g2" "free g2"
      using rt Suc.prems(1) unfolding roundTrip_def by blast
    let ?s = "s\<lparr>guard := g2, lreaders := (lreaders s)(i := RdTop (k + 1))\<rparr>"
    have "\<exists>g k'. (reads lock unlock i)\<^sup>*\<^sup>* ?s (?s\<lparr>guard := g, lreaders := (lreaders ?s)(i := RdTop k')\<rparr>)
      \<and> free g \<and> \<not> k' < c_nrLoops"
      by (rule Suc.IH [of ?s "k + 1"]) (use g(3) Suc.prems(2,3,5) in simp_all)
    then obtain g k' where "(reads lock unlock i)\<^sup>*\<^sup>* ?s (s\<lparr>guard := g, lreaders := (lreaders s)(i := RdTop k')\<rparr>)"
      "free g" "\<not> k' < c_nrLoops" by auto
    then show ?thesis using rtranclp_trans [OF reader_round [of lock s g1 unlock g2, OF g(1,2) Suc.prems(2,3,4) True]] by blast
  qed
qed

lemma readers_loop:
  assumes rt: "\<And>i. roundTrip free (lockR i) (unlockR i)" and f: "free (guard s)" and v: "lcells s (lcurrent s) = Some v" "0 < v"
    and top: "lreaders s = (\<lambda>_. RdTop 0)" and R: "\<And>i s s'. i < n \<Longrightarrow> lockRead (lockR i) (unlockR i) i s = Some s' \<Longrightarrow> R s s'"
  shows "\<exists>g r. R\<^sup>*\<^sup>* s (s\<lparr>guard := g, lreaders := r\<rparr>) \<and> free g \<and> (\<forall>i < n. \<exists>k. r i = RdTop k \<and> \<not> k < c_nrLoops) \<and> (\<forall>i \<ge> n. r i = RdTop 0)"
  using R
proof (induction n)
  case 0
  have "s\<lparr>guard := guard s, lreaders := \<lambda>_. RdTop 0\<rparr> = s" using top by simp
  then show ?case using f by (intro exI [of _ "guard s"] exI [of _ "\<lambda>_. RdTop 0"]) simp
next
  case (Suc n)
  obtain g r where g: "R\<^sup>*\<^sup>* s (s\<lparr>guard := g, lreaders := r\<rparr>)" "free g" "\<forall>i < n. \<exists>k. r i = RdTop k \<and> \<not> k < c_nrLoops"
    "\<forall>i \<ge> n. r i = RdTop 0" using Suc.IH Suc.prems by (meson less_Suc_eq)
  let ?s = "s\<lparr>guard := g, lreaders := r\<rparr>"
  have l: "c_nrLoops \<le> 0 + int (nat c_nrLoops)" by (simp add: c_nrLoops_def)
  obtain h k where h: "(reads (lockR n) (unlockR n) n)\<^sup>*\<^sup>* ?s (s\<lparr>guard := h, lreaders := r(n := RdTop k)\<rparr>)"
    "free h" "\<not> k < c_nrLoops" using reader_loop [OF rt, of ?s v n 0 "nat c_nrLoops" n] g(2,4) v l by auto
  have "R\<^sup>*\<^sup>* ?s (s\<lparr>guard := h, lreaders := r(n := RdTop k)\<rparr>)"
    using h(1) by (rule rtranclp_mono [THEN predicate2D, rotated]) (use Suc.prems in \<open>unfold reads_def, blast\<close>)
  with g(1) have "R\<^sup>*\<^sup>* s (s\<lparr>guard := h, lreaders := r(n := RdTop k)\<rparr>)" by (rule rtranclp_trans)
  moreover have "(\<forall>i < Suc n. \<exists>k'. (r(n := RdTop k)) i = RdTop k' \<and> \<not> k' < c_nrLoops) \<and> (\<forall>i \<ge> Suc n. (r(n := RdTop k)) i = RdTop 0)"
    using h(3) g(3,4) by (auto simp: less_Suc_eq)
  ultimately show ?case using h(2) by blast
qed

lemma lock_writer_loop:
  assumes rt: "roundTrip free lock unlock" and "free (guard s)" and "lwriter s = ModTop k" and "c_nrLoops \<le> k + int n"
  shows "\<exists>s'. (\<lambda>s s'. lockModify lock unlock draw s = Some s')\<^sup>*\<^sup>* s s' \<and> lreaders s' = lreaders s
    \<and> (\<exists>k'. lwriter s' = ModTop k' \<and> \<not> k' < c_nrLoops)"
  using assms(2-)
proof (induction n arbitrary: s k)
  case 0
  then show ?case by (intro exI [of _ s]) simp
next
  case (Suc n)
  let ?m = "\<lambda>s s'. lockModify lock unlock draw s = Some s'"
  obtain g1 g2 where g: "lock (guard s) = Some g1" "unlock g1 = Some g2" "free g2"
    using rt Suc.prems(1) unfolding roundTrip_def by blast
  have "\<not> k < c_nrLoops \<or> (\<exists>s1. ?m\<^sup>*\<^sup>* s s1 \<and> free (guard s1) \<and> lwriter s1 = ModTop (k + 1) \<and> lreaders s1 = lreaders s)"
  proof (cases "k < c_nrLoops \<and> k mod c_writeInterval = 0")
    case True
    obtain s1 s2 s3 s4 s5 where "?m s s1" "?m s1 s2" "?m s2 s3" "?m s3 s4" "?m s4 s5"
      "free (guard s5)" "lwriter s5 = ModTop (k + 1)" "lreaders s5 = lreaders s"
      using Suc.prems(2) g True by simp
    then show ?thesis by (meson converse_rtranclp_into_rtranclp rtranclp.rtrancl_refl)
  next
    case False
    show ?thesis
    proof (cases "k < c_nrLoops")
      case True
      then have "?m s (s\<lparr>lwriter := ModTop (k + 1)\<rparr>)" using False Suc.prems(2) by simp
      then show ?thesis using Suc.prems(1) by (intro disjI2 exI [of _ "s\<lparr>lwriter := ModTop (k + 1)\<rparr>"]) auto
    qed simp
  qed
  then consider "\<not> k < c_nrLoops"
    | s1 where "?m\<^sup>*\<^sup>* s s1" "free (guard s1)" "lwriter s1 = ModTop (k + 1)" "lreaders s1 = lreaders s" by blast
  then show ?case
  proof cases
    case 1
    then show ?thesis using Suc.prems(2) by (intro exI [of _ s]) simp
  next
    case 2
    then show ?thesis using Suc.IH [of s1 "k + 1"] Suc.prems(3) rtranclp_trans [of ?m s s1] by auto
  qed
qed

lemma readOnly_writer_loop:
  assumes "lwriter s = ModTop k" and "c_nrLoops \<le> k + int n"
  shows "\<exists>s'. (fReadOnly draw)\<^sup>*\<^sup>* s s' \<and> lreaders s' = lreaders s \<and> (\<exists>k'. lwriter s' = ModTop k' \<and> \<not> k' < c_nrLoops)"
  using assms
proof (induction n arbitrary: s k)
  case 0
  then show ?case by (intro exI [of _ s]) simp
next
  case (Suc n)
  show ?case
  proof (cases "k < c_nrLoops")
    case False
    then show ?thesis using Suc.prems(1) by (intro exI [of _ s]) simp
  next
    case True
    then obtain s1 where s1: "readOnlyStep draw s = Some s1" "lwriter s1 = ModTop (k + 1)" "lreaders s1 = lreaders s"
      using Suc.prems(1) by (cases "k mod c_writeInterval = 0") auto
    then have "fReadOnly draw s s1" unfolding fReadOnly_def by blast
    moreover obtain s2 where "(fReadOnly draw)\<^sup>*\<^sup>* s1 s2" "lreaders s2 = lreaders s1" "\<exists>k'. lwriter s2 = ModTop k' \<and> \<not> k' < c_nrLoops"
      using Suc.IH [OF s1(2)] Suc.prems(2) by auto
    ultimately show ?thesis using s1(3) by (metis converse_rtranclp_into_rtranclp)
  qed
qed

text \<open>First the readers, then the writer.\<close>

lemma loops_complete:
  assumes "roundTrip free lockW unlockW" "\<And>i. roundTrip free (lockR i) (unlockR i)" and "free (guard s)"
    and v: "lcells s (lcurrent s) = Some v" "0 < v" and top: "lreaders s = (\<lambda>_. RdTop 0)" "lwriter s = ModTop 0"
    and R: "\<And>s s'. R s s' \<longleftrightarrow> lockModify lockW unlockW draw s = Some s' \<or> (\<exists>i. lockRead (lockR i) (unlockR i) i s = Some s')"
  shows "\<exists>s'. R\<^sup>*\<^sup>* s s' \<and> ljoined s'"
proof -
  have "\<exists>g r. R\<^sup>*\<^sup>* s (s\<lparr>guard := g, lreaders := r\<rparr>) \<and> free g \<and> (\<forall>i < c_nrThreads. \<exists>k. r i = RdTop k \<and> \<not> k < c_nrLoops)
      \<and> (\<forall>i \<ge> c_nrThreads. r i = RdTop 0)"
    by (rule readers_loop [where lockR = lockR and unlockR = unlockR, OF assms(2,3) v top(1)]) (simp add: R del: lockRead.simps lockModify.simps, blast)
  then obtain g r where 1: "R\<^sup>*\<^sup>* s (s\<lparr>guard := g, lreaders := r\<rparr>)" "free g"
    "\<forall>i < c_nrThreads. \<exists>k. r i = RdTop k \<and> \<not> k < c_nrLoops" "\<forall>i \<ge> c_nrThreads. r i = RdTop 0"
    by blast
  have "c_nrLoops \<le> 0 + int (nat c_nrLoops)" by (simp add: c_nrLoops_def)
  then obtain s' where s': "(\<lambda>s s'. lockModify lockW unlockW draw s = Some s')\<^sup>*\<^sup>* (s\<lparr>guard := g, lreaders := r\<rparr>) s'"
    "lreaders s' = r" "\<exists>k'. lwriter s' = ModTop k' \<and> \<not> k' < c_nrLoops"
    using lock_writer_loop [OF assms(1), of "s\<lparr>guard := g, lreaders := r\<rparr>" 0 "nat c_nrLoops" draw] 1(2) top(2) by auto
  have "R\<^sup>*\<^sup>* (s\<lparr>guard := g, lreaders := r\<rparr>) s'"
    using s'(1) by (rule rtranclp_mono [THEN predicate2D, rotated]) (auto simp: R simp del: lockModify.simps)
  with 1(1) have "R\<^sup>*\<^sup>* s s'" by (rule rtranclp_trans)
  moreover have "\<exists>k. r i = RdTop k" for i using 1(3,4) by (meson not_le)
  ultimately show ?thesis using s'(2,3) 1(3) unfolding ljoined_def by blast
qed

lemma readOnly_completes:
  assumes v: "lcells s (lcurrent s) = Some v" "0 < v" and top: "lreaders s = (\<lambda>_. RdTop 0)" "lwriter s = ModTop 0"
  shows "\<exists>s'. (fReadOnly draw)\<^sup>*\<^sup>* s s' \<and> ljoined s'"
proof -
  have readers: "\<exists>g r. (fReadOnly draw)\<^sup>*\<^sup>* s (s\<lparr>guard := g, lreaders := r\<rparr>) \<and> True
      \<and> (\<forall>i < c_nrThreads. \<exists>k. r i = RdTop k \<and> \<not> k < c_nrLoops) \<and> (\<forall>i \<ge> c_nrThreads. r i = RdTop 0)"
    by (rule readers_loop [where lockR = "\<lambda>_. Some" and unlockR = "\<lambda>_. Some", OF no_lock_trip TrueI v top(1)]) (unfold fReadOnly_def, blast)
  obtain r where 1: "(fReadOnly draw)\<^sup>*\<^sup>* s (s\<lparr>lreaders := r\<rparr>)"
    "\<forall>i < c_nrThreads. \<exists>k. r i = RdTop k \<and> \<not> k < c_nrLoops" "\<forall>i \<ge> c_nrThreads. r i = RdTop 0"
    using readers by auto
  have "c_nrLoops \<le> 0 + int (nat c_nrLoops)" by (simp add: c_nrLoops_def)
  then obtain s' where s': "(fReadOnly draw)\<^sup>*\<^sup>* (s\<lparr>lreaders := r\<rparr>) s'" "lreaders s' = r" "\<exists>k'. lwriter s' = ModTop k' \<and> \<not> k' < c_nrLoops"
    using readOnly_writer_loop [of "s\<lparr>lreaders := r\<rparr>" 0 "nat c_nrLoops" draw] top(2) by auto
  have "\<exists>k. r i = RdTop k" for i using 1(2,3) by (meson not_le)
  then show ?thesis using rtranclp_trans [OF 1(1) s'(1)] s'(2,3) 1(2) unfolding ljoined_def by blast
qed

lemma lstart_value:
  assumes "lstart free lost s"
  obtains v where "lcells s (lcurrent s) = Some v" "0 < v"
proof -
  have "lcurrent s \<in> dom (lcells s)" "\<forall>v \<in> ran (lcells s). 0 < v" using assms by (simp_all add: lstart_def)
  then show ?thesis using that by (auto simp: ran_def)
qed

lemma sharedMutex_completes:
  assumes "lstart \<lparr>exclusive = False, sharers = {}\<rparr> lost s"
  shows "\<exists>s'. (fSharedMutex draw)\<^sup>*\<^sup>* s s' \<and> ljoined s'"
proof -
  obtain v where v: "lcells s (lcurrent s) = Some v" "0 < v" by (rule lstart_value [OF assms])
  show ?thesis by (rule loops_complete [OF shared_trips _ v]) (use assms in \<open>simp_all only: lstart_def fSharedMutex_def\<close>)
qed

lemma mutex_completes:
  assumes "lstart Unlocked lost s"
  shows "\<exists>s'. (fMutex draw)\<^sup>*\<^sup>* s s' \<and> ljoined s'"
proof -
  obtain v where v: "lcells s (lcurrent s) = Some v" "0 < v" by (rule lstart_value [OF assms])
  show ?thesis by (rule loops_complete [OF mutex_trips _ v]) (use assms in \<open>simp_all only: lstart_def fMutex_def\<close>)
qed

subsection \<open>What the phases leave\<close>

lemma readOnly_leaves:
  assumes "readOnlyInv s0 s" and "ljoined s"
  shows "dom (lcells s) = insert (lcurrent s) {lfresh s0 ..< lfresh s0 + 420}" "lcurrent s = lcurrent s0" "lfresh s = lfresh s0 + 420"
    "lcurrent s < lfresh s0" "\<forall>v \<in> ran (lcells s). 0 < v"
proof -
  obtain n where n: "lwriter s = ModTop (int n)" "int n \<le> c_nrLoops" "lfresh s = lfresh s0 + lostBy n"
    using assms(1) unfolding readOnlyInv_def by blast
  then have "n = 4194304" using assms(2) by (auto simp: ljoined_def c_nrLoops_def)
  then show "lfresh s = lfresh s0 + 420" using n(3) by (simp add: lostBy_def)
  then show "dom (lcells s) = insert (lcurrent s) {lfresh s0 ..< lfresh s0 + 420}" "lcurrent s = lcurrent s0"
    "lcurrent s < lfresh s0" "\<forall>v \<in> ran (lcells s). 0 < v"
    using assms(1) unfolding readOnlyInv_def by simp_all
qed

text \<open>The state in which the loops of a phase start, with the heap of the phase before.\<close>

definition startLoops :: "'l \<Rightarrow> (nat \<rightharpoonup> int) \<Rightarrow> nat \<Rightarrow> nat \<Rightarrow> 'l lbench" where
  "startLoops free h next current =
     \<lparr>guard = free, lcells = h, lfresh = next, lcurrent = current, lwriter = ModTop 0, lreaders = (\<lambda>_. RdTop 0)\<rparr>"

lemma linv_leaves:
  assumes inv: "linv lost inW inR ok s" and j: "ljoined s"
  shows "lstart free lost (startLoops free (lcells s) (lfresh s) (lcurrent s))"
proof -
  have "llive s = {lcurrent s}" using j by (auto simp: ljoined_def llive_def)
  then show ?thesis using inv by (simp add: linv_def lstart_def startLoops_def)
qed

lemma shared_leaves:
  assumes "lstart \<lparr>exclusive = False, sharers = {}\<rparr> lost s0" and "(fSharedMutex draw)\<^sup>*\<^sup>* s0 s" and "ljoined s" and "\<And>k. 0 < draw k"
  shows "lstart free lost (startLoops free (lcells s) (lfresh s) (lcurrent s))"
  by (rule linv_leaves [OF sharedBench.inv_reachable [OF assms(1) lsteps_shared [where draw = draw, OF assms(4,2)]] assms(3)])

lemma mutex_leaves:
  assumes "lstart Unlocked lost s0" and "(fMutex draw)\<^sup>*\<^sup>* s0 s" and "ljoined s" and "\<And>k. 0 < draw k"
  shows "lstart free lost (startLoops free (lcells s) (lfresh s) (lcurrent s))"
  by (rule linv_leaves [OF mutexBench.inv_reachable [OF assms(1) lsteps_mutex [where draw = draw, OF assms(4,2)]] assms(3)])

subsection \<open>The phase with shared pointers\<close>

text \<open>The writer assigns \<open>spCurrent\<close> in its first iteration.\<close>

definition assigned :: "pbench \<Rightarrow> bool" where
  "assigned s \<longleftrightarrow> (case pmodify s of PTop k \<Rightarrow> k = 0 \<or> spCurrent s \<noteq> None | PMade k p \<Rightarrow> k = 0 \<or> spCurrent s \<noteq> None
     | PSwapped k old \<Rightarrow> spCurrent s \<noteq> None)"

lemma fAtomicSharedPtr_inv:
  assumes "fAtomicSharedPtr draw s s'" and "\<And>k. 0 < draw k" and "counted (owners s) s" and "assigned s"
  shows "counted (owners s') s' \<and> assigned s'"
proof -
  consider "ptrModify draw s = Some s'" | i where "i < c_nrThreads" "ptrRead i s = Some s'"
    using assms(1) unfolding fAtomicSharedPtr_def by blast
  then show ?thesis
  proof cases
    case 1
    then have "assigned s'" using assms(4) by (cases "pmodify s") (auto simp: assigned_def c_writeInterval_def split: if_splits)
    then show ?thesis using counted_modify [OF assms(3) 1 assms(2)] by simp
  next
    case 2
    have "pmodify s' = pmodify s" "spCurrent s' = spCurrent s" using 2(2) by (cases "preaders s i"; auto split: if_splits)+
    then have "assigned s'" using assms(4) by (cases "pmodify s") (simp_all add: assigned_def)
    then show ?thesis using counted_read [OF assms(3) 2] by simp
  qed
qed

lemma fAtomicSharedPtr_reach:
  assumes "(fAtomicSharedPtr draw)\<^sup>*\<^sup>* s0 s" and "\<And>k. 0 < draw k" and "counted (owners s0) s0" and "assigned s0"
  shows "counted (owners s) s \<and> assigned s"
  using assms(1,3,4)
proof (induction rule: rtranclp_induct)
  case (step s s')
  then show ?case using fAtomicSharedPtr_inv [OF step.hyps(2) assms(2)] by blast
qed simp

lemma null_start: "counted (owners (ptrStart None)) (ptrStart None)" "assigned (ptrStart None)"
  by (simp_all add: ptrStart_def owners_def holders_idle carried_def one_def counted_def assigned_def)

text \<open>At the end exactly the value of \<open>spCurrent\<close> is left, with one owner.\<close>

lemma pointers_left:
  assumes "counted (owners s) s" and "assigned s" and "pjoined s"
  shows "\<exists>a. spCurrent s = Some a \<and> dom (pcells s) = {a} \<and> pcounts s = (\<lambda>b. one (b = a))"
proof -
  obtain k where k: "pmodify s = PTop k" "\<not> k < c_nrLoops" using assms(3) by (auto simp: pjoined_def)
  then obtain a where a: "spCurrent s = Some a" using assms(2) by (auto simp: assigned_def c_nrLoops_def)
  have "held (preaders s i) = None" if "i < c_nrThreads" for i using assms(3) that by (auto simp: pjoined_def held_def)
  then have "holders (preaders s) b = 0" for b by (simp add: holders_def one_def)
  then have own: "owners s b = one (b = a)" for b using a k(1) by (auto simp: owners_def carried_def one_def)
  have "pcounts s b = one (b = a)" "pcells s b \<noteq> None \<longleftrightarrow> b = a" for b
    using assms(1) own [of b] unfolding counted_def one_def by (simp_all split: if_splits)
  then show ?thesis using a by (auto simp: dom_def fun_eq_iff)
qed

text \<open>The writer first, or the readers would meet a null pointer.\<close>

lemma ptr_writer_loop:
  assumes "pmodify s = PTop k" and "c_nrLoops \<le> k + int n"
  shows "\<exists>s'. (fAtomicSharedPtr draw)\<^sup>*\<^sup>* s s' \<and> preaders s' = preaders s \<and> (\<exists>k'. pmodify s' = PTop k' \<and> \<not> k' < c_nrLoops)"
  using assms
proof (induction n arbitrary: s k)
  case 0
  then show ?case by (intro exI [of _ s]) simp
next
  case (Suc n)
  let ?m = "\<lambda>s s'. ptrModify draw s = Some s'"
  have m: "?m s s' \<Longrightarrow> fAtomicSharedPtr draw s s'" for s s' unfolding fAtomicSharedPtr_def ..
  have "\<not> k < c_nrLoops \<or> (\<exists>s1. (fAtomicSharedPtr draw)\<^sup>*\<^sup>* s s1 \<and> pmodify s1 = PTop (k + 1) \<and> preaders s1 = preaders s)"
  proof (cases "k < c_nrLoops \<and> k mod c_writeInterval = 0")
    case True
    obtain s1 s2 s3 where "?m s s1" "?m s1 s2" "?m s2 s3" "pmodify s3 = PTop (k + 1)" "preaders s3 = preaders s"
      using Suc.prems(1) True by simp
    then show ?thesis by (meson m converse_rtranclp_into_rtranclp rtranclp.rtrancl_refl)
  next
    case False
    show ?thesis
    proof (cases "k < c_nrLoops")
      case True
      then have "?m s (s\<lparr>pmodify := PTop (k + 1)\<rparr>)" using False Suc.prems(1) by simp
      then show ?thesis using m by (intro disjI2 exI [of _ "s\<lparr>pmodify := PTop (k + 1)\<rparr>"]) auto
    qed simp
  qed
  then consider "\<not> k < c_nrLoops"
    | s1 where "(fAtomicSharedPtr draw)\<^sup>*\<^sup>* s s1" "pmodify s1 = PTop (k + 1)" "preaders s1 = preaders s" by blast
  then show ?case
  proof cases
    case 1
    then show ?thesis using Suc.prems(1) by (intro exI [of _ s]) simp
  next
    case 2
    then show ?thesis using Suc.IH [of s1 "k + 1"] Suc.prems(2) rtranclp_trans [of "fAtomicSharedPtr draw" s s1] by auto
  qed
qed

lemma ptr_reader_round:
  assumes cur: "spCurrent s = Some a" "pcells s a = Some v" "0 < v" "0 < pcounts s a" and r: "preaders s i = PrTop k" "k < c_nrLoops" "i < c_nrThreads"
  shows "(fAtomicSharedPtr draw)\<^sup>*\<^sup>* s (s\<lparr>preaders := (preaders s)(i := PrTop (k + 1))\<rparr>)"
proof -
  let ?s = "\<lambda>r. s\<lparr>pcounts := (pcounts s)(a := pcounts s a + 1), preaders := (preaders s)(i := r)\<rparr>"
  have "ptrRead i s = Some (?s (PrCopied k (Some a)))" using cur(1) r by (simp add: acquire_def)
  moreover have "ptrRead i (?s (PrCopied k (Some a))) = Some (?s (PrUsed k a))" using cur(2,3) by (simp add: funcThrows_def)
  moreover have "ptrRead i (?s (PrUsed k a)) = Some (s\<lparr>preaders := (preaders s)(i := PrTop (k + 1))\<rparr>)"
    using cur(4) by (simp add: release_def Let_def)
  moreover have "ptrRead i s = Some s' \<Longrightarrow> fAtomicSharedPtr draw s s'" for s s' unfolding fAtomicSharedPtr_def using r(3) by blast
  ultimately show ?thesis by (meson converse_rtranclp_into_rtranclp rtranclp.rtrancl_refl)
qed

lemma ptr_reader_loop:
  assumes "spCurrent s = Some a" "pcells s a = Some v" "0 < v" "0 < pcounts s a" and "preaders s i = PrTop k" "i < c_nrThreads"
    and "c_nrLoops \<le> k + int n"
  shows "\<exists>k'. (fAtomicSharedPtr draw)\<^sup>*\<^sup>* s (s\<lparr>preaders := (preaders s)(i := PrTop k')\<rparr>) \<and> \<not> k' < c_nrLoops"
  using assms
proof (induction n arbitrary: s k)
  case 0
  then have "\<not> k < c_nrLoops" by simp
  moreover have "s\<lparr>preaders := (preaders s)(i := PrTop k)\<rparr> = s" using 0(5) by (simp add: fun_upd_idem)
  ultimately show ?case by (metis rtranclp.rtrancl_refl)
next
  case (Suc n)
  show ?case
  proof (cases "k < c_nrLoops")
    case False
    have "s\<lparr>preaders := (preaders s)(i := PrTop k)\<rparr> = s" using Suc.prems(5) by (simp add: fun_upd_idem)
    then show ?thesis using False by (metis rtranclp.rtrancl_refl)
  next
    case True
    let ?s = "s\<lparr>preaders := (preaders s)(i := PrTop (k + 1))\<rparr>"
    have 1: "(fAtomicSharedPtr draw)\<^sup>*\<^sup>* s ?s" by (rule ptr_reader_round [OF Suc.prems(1-5) True Suc.prems(6)])
    have "\<exists>k'. (fAtomicSharedPtr draw)\<^sup>*\<^sup>* ?s (?s\<lparr>preaders := (preaders ?s)(i := PrTop k')\<rparr>) \<and> \<not> k' < c_nrLoops"
      by (rule Suc.IH [of ?s "k + 1"]) (use Suc.prems in simp_all)
    then obtain k' where "(fAtomicSharedPtr draw)\<^sup>*\<^sup>* ?s (s\<lparr>preaders := (preaders s)(i := PrTop k')\<rparr>)" "\<not> k' < c_nrLoops" by auto
    then show ?thesis using rtranclp_trans [OF 1] by blast
  qed
qed

lemma ptr_readers_loop:
  assumes cur: "spCurrent s = Some a" "pcells s a = Some v" "0 < v" "0 < pcounts s a" and top: "preaders s = (\<lambda>_. PrTop 0)"
  shows "n \<le> c_nrThreads \<Longrightarrow> \<exists>r. (fAtomicSharedPtr draw)\<^sup>*\<^sup>* s (s\<lparr>preaders := r\<rparr>) \<and> (\<forall>i < n. \<exists>k. r i = PrTop k \<and> \<not> k < c_nrLoops)
    \<and> (\<forall>i \<ge> n. r i = PrTop 0)"
proof (induction n)
  case 0
  have "s\<lparr>preaders := \<lambda>_. PrTop 0\<rparr> = s" using top by simp
  then show ?case by (intro exI [of _ "\<lambda>_. PrTop 0"]) simp
next
  case (Suc n)
  then obtain r where r: "(fAtomicSharedPtr draw)\<^sup>*\<^sup>* s (s\<lparr>preaders := r\<rparr>)" "\<forall>i < n. \<exists>k. r i = PrTop k \<and> \<not> k < c_nrLoops"
    "\<forall>i \<ge> n. r i = PrTop 0" by auto
  have l: "c_nrLoops \<le> 0 + int (nat c_nrLoops)" by (simp add: c_nrLoops_def)
  obtain k where k: "(fAtomicSharedPtr draw)\<^sup>*\<^sup>* (s\<lparr>preaders := r\<rparr>) (s\<lparr>preaders := r(n := PrTop k)\<rparr>)" "\<not> k < c_nrLoops"
    using ptr_reader_loop [of "s\<lparr>preaders := r\<rparr>" a v n 0 "nat c_nrLoops" draw] cur r(3) Suc.prems l by auto
  have "(\<forall>i < Suc n. \<exists>k'. (r(n := PrTop k)) i = PrTop k' \<and> \<not> k' < c_nrLoops) \<and> (\<forall>i \<ge> Suc n. (r(n := PrTop k)) i = PrTop 0)"
    using k(2) r(2,3) by (auto simp: less_Suc_eq)
  then show ?case using rtranclp_trans [OF r(1) k(1)] by blast
qed

lemma pointers_complete:
  assumes pos: "\<And>k. 0 < draw k"
  shows "\<exists>s. (fAtomicSharedPtr draw)\<^sup>*\<^sup>* (ptrStart None) s \<and> pjoined s"
proof -
  have "c_nrLoops \<le> 0 + int (nat c_nrLoops)" by (simp add: c_nrLoops_def)
  then obtain s k where s: "(fAtomicSharedPtr draw)\<^sup>*\<^sup>* (ptrStart None) s" "preaders s = (\<lambda>_. PrTop 0)" "pmodify s = PTop k" "\<not> k < c_nrLoops"
    using ptr_writer_loop [of "ptrStart None" 0 "nat c_nrLoops" draw] by (auto simp: ptrStart_def)
  have inv: "counted (owners s) s" "assigned s" using fAtomicSharedPtr_reach [OF s(1) pos null_start] by blast+
  then obtain a where a: "spCurrent s = Some a" using s(3,4) by (auto simp: assigned_def c_nrLoops_def)
  then have "0 < owners s a" by (simp add: owners_def one_def)
  then obtain v where v: "pcells s a = Some v" "0 < v" "0 < pcounts s a" using inv(1) unfolding counted_def by (metis not_None_eq)
  obtain r where r: "(fAtomicSharedPtr draw)\<^sup>*\<^sup>* s (s\<lparr>preaders := r\<rparr>)" "\<forall>i < c_nrThreads. \<exists>k. r i = PrTop k \<and> \<not> k < c_nrLoops"
    using ptr_readers_loop [OF a v s(2), of c_nrThreads draw] by auto
  have "pjoined (s\<lparr>preaders := r\<rparr>)" using s(3,4) r(2) by (simp add: pjoined_def)
  then show ?thesis using rtranclp_trans [OF s(1) r(1)] by blast
qed

end
