(* ===== verification/BenchmarkSuite.thy ===== *)
theory BenchmarkSuite
  imports BenchmarkRun BenchmarkPhases
begin

text \<open>
  \<open>RCUBenchmark::run\<close> as a whole, and \<open>rcuTests\<close>, which runs it once and destroys the benchmark.  A phase
  begins with the heap of the phase before, where all futures have been joined.  Shown: whatever the
  interleavings, what the program has allocated when \<open>rcuTests\<close> returns; and that a run can always go on to its end.
\<close>

subsection \<open>The program\<close>

text \<open>
  The states in which the phases end.  \<open>pCurrent\<close> and the heap of its values pass from phase to phase;
  \<open>spCurrent\<close> belongs to one phase only, and the zone to the first two.
\<close>

record phases =
  afterRegister :: rbench
  afterRCU :: bench
  afterReadOnly :: "unit lbench"
  afterSharedPtr :: pbench
  afterSharedMutex :: "shared_mutex lbench"
  afterMutex :: "mutex lbench"

definition nextLoops :: "'l \<Rightarrow> 'k lbench \<Rightarrow> 'l lbench" where
  "nextLoops free s = startLoops free (lcells s) (lfresh s) (lcurrent s)"

text \<open>\<open>draw j k\<close> is the value drawn in the iteration \<open>k\<close> of the phase \<open>j\<close>.\<close>

definition run :: "u32 \<Rightarrow> (nat \<Rightarrow> int \<Rightarrow> int) \<Rightarrow> u64 list \<Rightarrow> phases \<Rightarrow> bool" where
  "run hardware_concurrency draw hashes e \<longleftrightarrow>
     benchmarkRun hardware_concurrency (draw 0) (afterRegister e) hashes (afterRCU e) \<and> joined (afterRCU e)
     \<and> (fReadOnly (draw 1))\<^sup>*\<^sup>* (startLoops () (cells (afterRCU e)) (fresh (afterRCU e)) (pCurrent (afterRCU e))) (afterReadOnly e)
     \<and> ljoined (afterReadOnly e)
     \<and> (fAtomicSharedPtr (draw 2))\<^sup>*\<^sup>* (ptrStart None) (afterSharedPtr e) \<and> pjoined (afterSharedPtr e)
     \<and> (fSharedMutex (draw 3))\<^sup>*\<^sup>* (nextLoops \<lparr>exclusive = False, sharers = {}\<rparr> (afterReadOnly e)) (afterSharedMutex e)
     \<and> ljoined (afterSharedMutex e)
     \<and> (fMutex (draw 4))\<^sup>*\<^sup>* (nextLoops Unlocked (afterSharedMutex e)) (afterMutex e) \<and> ljoined (afterMutex e)"

text \<open>
  What is left of it: the zone after its release at the end of \<open>run\<close> and the destructor of \<open>test0\<close>, which
  also drops \<open>spCurrent\<close>; the managed values; the values of \<open>pCurrent\<close>, a plain pointer, which nobody deletes.
\<close>

record leftovers =
  zoneLeft :: RCUZone
  managedLeft :: "nat \<rightharpoonup> int"
  valuesLeft :: "nat \<rightharpoonup> int"

definition rcuTests :: "phases \<Rightarrow> leftovers" where
  "rcuTests e =
     \<lparr>zoneLeft = destroyZone (rcuReleaseZone (zone (bproto (afterRCU e)))),
      managedLeft = pcells (release (spCurrent (afterSharedPtr e)) ((afterSharedPtr e)\<lparr>spCurrent := None\<rparr>)),
      valuesLeft = lcells (afterMutex e)\<rparr>"

subsection \<open>From phase to phase\<close>

lemma readOnly_starts:
  assumes inv: "binv reg b" and j: "joined b"
  shows "readOnlyInv (startLoops () (cells b) (fresh b) (pCurrent b)) (startLoops () (cells b) (fresh b) (pCurrent b))"
proof -
  have "liveCells b = {pCurrent b}" using j by (auto simp: joined_def liveCells_def)
  then have "dom (cells b) = {pCurrent b}" "pCurrent b < fresh b" using binvD(3) [OF inv] binvD(4) [OF inv, of "pCurrent b"] by auto
  moreover have "\<forall>v \<in> ran (cells b). 0 < v" using binvD(5) [OF inv] by (auto simp: ran_def)
  ultimately show ?thesis by (auto simp: readOnlyInv_def startLoops_def lreader_ok_def lostBy_def c_nrLoops_def intro!: exI [of _ "0 :: nat"])
qed

lemma readOnly_next:
  assumes "readOnlyInv s0 s" and "ljoined s"
  shows "lstart free {lfresh s0 ..< lfresh s0 + 420} (nextLoops free s)"
  using readOnly_leaves [OF assms] by (auto simp: lstart_def nextLoops_def startLoops_def)

text \<open>The cells that \<open>fReadOnly\<close> has lost stay lost.\<close>

lemma run_heap:
  assumes r: "run hc draw hashes e" and pos: "\<And>j k. 0 < draw j k"
  shows "\<exists>lost. card lost = 420 \<and> lstart Unlocked lost (nextLoops Unlocked (afterMutex e))"
proof -
  let ?s0 = "startLoops () (cells (afterRCU e)) (fresh (afterRCU e)) (pCurrent (afterRCU e))"
  let ?lost = "{lfresh ?s0 ..< lfresh ?s0 + 420}"
  note r = r [unfolded run_def]
  have "binv (registry (afterRegister e)) (afterRCU e)" using benchmarkRun_binv r pos by blast
  then have "readOnlyInv ?s0 ?s0" using readOnly_starts r by blast
  then have "readOnlyInv ?s0 (afterReadOnly e)" using readOnly_reach r pos by blast
  then have 1: "lstart \<lparr>exclusive = False, sharers = {}\<rparr> ?lost (nextLoops \<lparr>exclusive = False, sharers = {}\<rparr> (afterReadOnly e))"
    by (rule readOnly_next) (use r in simp)
  have 2: "lstart Unlocked ?lost (nextLoops Unlocked (afterSharedMutex e))"
    unfolding nextLoops_def by (rule shared_leaves [where draw = "draw 3", OF 1]) (use r pos in simp_all)
  have "lstart Unlocked ?lost (nextLoops Unlocked (afterMutex e))"
    unfolding nextLoops_def by (rule mutex_leaves [where draw = "draw 4", OF 2]) (use r pos in simp_all)
  then show ?thesis by (intro exI [of _ ?lost]) simp
qed

lemma run_pointers:
  assumes r: "run hc draw hashes e" and pos: "\<And>j k. 0 < draw j k"
  shows "managedLeft (rcuTests e) = Map.empty"
proof -
  have "(fAtomicSharedPtr (draw 2))\<^sup>*\<^sup>* (ptrStart None) (afterSharedPtr e)" "pjoined (afterSharedPtr e)" using r by (simp_all add: run_def)
  then obtain a where a: "spCurrent (afterSharedPtr e) = Some a" "dom (pcells (afterSharedPtr e)) = {a}"
    "pcounts (afterSharedPtr e) = (\<lambda>b. one (b = a))"
    using pointers_left fAtomicSharedPtr_reach [where draw = "draw 2", OF _ pos null_start] by blast
  then show ?thesis by (auto simp: rcuTests_def one_def fun_eq_iff dom_def)
qed

text \<open>A run whose first two phases are over can be completed.\<close>

lemma run_completes:
  assumes b: "benchmarkRun hc (draw 0) s hashes b" "joined b" and pos: "\<And>j k. 0 < draw j k"
  shows "\<exists>e. run hc draw hashes e \<and> afterRegister e = s \<and> afterRCU e = b"
proof -
  let ?free = "\<lparr>exclusive = False, sharers = {}\<rparr>"
  let ?s0 = "startLoops () (cells b) (fresh b) (pCurrent b)"
  have i0: "readOnlyInv ?s0 ?s0" using readOnly_starts [OF benchmarkRun_binv [OF b(1) pos] b(2)] .
  obtain v where "lcells ?s0 (lcurrent ?s0) = Some v" "0 < v" using i0 unfolding readOnlyInv_def ran_def by blast
  then obtain r where r: "(fReadOnly (draw 1))\<^sup>*\<^sup>* ?s0 r" "ljoined r"
    using readOnly_completes [of ?s0 v "draw 1"] by (auto simp: startLoops_def)
  have 1: "lstart ?free {lfresh ?s0 ..< lfresh ?s0 + 420} (nextLoops ?free r)"
    using readOnly_next [OF readOnly_reach [OF i0 r(1) pos] r(2)] .
  obtain p where p: "(fAtomicSharedPtr (draw 2))\<^sup>*\<^sup>* (ptrStart None) p" "pjoined p" using pointers_complete pos by blast
  obtain m where m: "(fSharedMutex (draw 3))\<^sup>*\<^sup>* (nextLoops ?free r) m" "ljoined m" using sharedMutex_completes [OF 1] by blast
  have 2: "lstart Unlocked {lfresh ?s0 ..< lfresh ?s0 + 420} (nextLoops Unlocked m)"
    unfolding nextLoops_def by (rule shared_leaves [where draw = "draw 3", OF 1 m pos])
  obtain x where x: "(fMutex (draw 4))\<^sup>*\<^sup>* (nextLoops Unlocked m) x" "ljoined x" using mutex_completes [OF 2] by blast
  have "run hc draw hashes \<lparr>afterRegister = s, afterRCU = b, afterReadOnly = r, afterSharedPtr = p, afterSharedMutex = m, afterMutex = x\<rparr>"
    using b r p m x by (simp add: run_def)
  then show ?thesis by (metis phases.select_convs(1,2))
qed

subsection \<open>What \<open>rcuTests\<close> leaves\<close>

text \<open>421 values: the 420 that \<open>fReadOnly\<close> forgets, and the last one of \<open>pCurrent\<close>.\<close>

lemma run_leaves:
  assumes e: "run hc draw hashes e" and pos: "\<And>j k. 0 < draw j k"
  shows "counts (zoneLeft (rcuTests e)) = None \<and> managedLeft (rcuTests e) = Map.empty \<and> card (dom (valuesLeft (rcuTests e))) = 421"
proof (intro conjI)
  have "binv (registry (afterRegister e)) (afterRCU e)" using e benchmarkRun_binv pos unfolding run_def by blast
  then have "epochsRing (zone (bproto (afterRCU e))) ! 0 \<noteq> None" "epochsRing (zone (bproto (afterRCU e))) \<noteq> []"
    using pinvD(1) [OF binvD(1)] by (auto simp: wf_zone_def split: option.splits)
  then show "counts (zoneLeft (rcuTests e)) = None" by (auto simp: rcuTests_def rcuReleaseZone_def destroyZone_def)
  show "managedLeft (rcuTests e) = Map.empty" by (rule run_pointers [OF e pos])
  obtain lost where "card lost = 420" "lstart Unlocked lost (nextLoops Unlocked (afterMutex e))" using run_heap [OF e pos] by blast
  then have "dom (valuesLeft (rcuTests e)) = insert (lcurrent (afterMutex e)) lost" "lcurrent (afterMutex e) \<notin> lost" "finite lost"
    by (auto simp: lstart_def nextLoops_def startLoops_def rcuTests_def card_ge_0_finite)
  then show "card (dom (valuesLeft (rcuTests e))) = 421" using \<open>card lost = 420\<close> by simp
qed

end
