(* ===== verification/MainProgram.thy ===== *)
theory MainProgram
  imports TestProgram BenchmarkSuite
begin

text \<open>
  \<open>main\<close>: the benchmark of the RCU zone, the quick example, the table tests.  They share the registry of
  reader ids, from which the readers of the benchmark have taken theirs.
\<close>

subsection \<open>The program\<close>

text \<open>
  \<open>e\<close> is an outcome of \<open>RCUBenchmark::run\<close>; \<open>d\<close> holds the head of the list test and \<open>m\<close> the memory of the
  tables.  The result has what the benchmark leaves, too.
\<close>

definition mainProgram :: "u32 \<Rightarrow> (int \<Rightarrow> u64) \<Rightarrow> (u64 \<Rightarrow> u64) \<Rightarrow> nat \<Rightarrow> phases \<Rightarrow> dloc dmem \<times> mem \<Rightarrow> (leftovers \<times> dloc dmem \<times> mem) option" where
  "mainProgram hardware_concurrency hashInt hash rounds e = (\<lambda>(d, m).
     do {
       let reg = registry (afterRegister e);
       m \<leftarrow> rcuHashTableQuickExample reg hardware_concurrency hashInt m;
       (d, m) \<leftarrow> rTableTests reg hardware_concurrency hash rounds (d, m);
       Some (rcuTests e, d, m)
     })"

subsection \<open>The registry after the benchmark\<close>

lemma run_registry:
  assumes r: "run hc draw hashes e" and hc: "unat hc \<le> 2 ^ 20"
  shows "unat (nrNonOverlappingBucketCount (registry (afterRegister e))) \<le> 2 ^ 29"
proof -
  obtain s0 where "registerStart hc s0" "(fRCURegister (draw 0))\<^sup>*\<^sup>* s0 (afterRegister e)"
    using r by (auto simp: run_def benchmarkRun_def)
  then have "nrNonOverlappingBucketCount (registry (afterRegister e)) = upperBoundPowerOf2_rcu hc"
    using fRCURegister_bucketCount by (simp add: registerStart_def staticRegistry_def)
  moreover have "unat (upperBoundPowerOf2_rcu hc) \<le> 2 ^ 20" by (rule upperBound_small(2) [OF hc]) simp
  ultimately show ?thesis by simp
qed

subsection \<open>Property\<close>



end
