(* ===== verification/SetComparison.thy ===== *)
theory SetComparison
  imports Locks
begin

text \<open>
  \<open>PerfComparisonWithStdUnorderedSet::runStdUnorderedMapMutex\<close> of \<open>RCUTableTests.cpp\<close>: readers look up
  numbers in a \<open>std::unordered_set\<close> while a writer adds a few, both under a lock, which is the template's
  parameter; or, with \<open>readOnly\<close>, without lock and writer.  An \<open>emplace\<close> takes two steps, between which
  nobody may look at the set.
\<close>

subsection \<open>The program\<close>

definition c_nrLookedUp :: nat where
  "c_nrLookedUp = 2 * 2 ^ 18"

definition c_nrRounds :: nat where
  "c_nrRounds = 10"

definition fillSet :: "nat set option" where
  "fillSet = for_range 0 c_nrLookedUp (\<lambda>v mySet. Some (insert v mySet)) {}"

datatype swriter = STop nat | SLocked nat | SEmplacing nat | SEmplaced nat

datatype sreader = QTop nat nat | QLocked nat nat | QFound nat nat | QWrong | QRace

record 'l sbench =
  sguard :: 'l
  mySet :: "nat set"
  emplacing :: bool
  swriter :: swriter
  sreaders :: "nat \<Rightarrow> sreader"

fun emplaceStep :: "('l \<Rightarrow> 'l option) \<Rightarrow> ('l \<Rightarrow> 'l option) \<Rightarrow> 'l sbench \<Rightarrow> 'l sbench option" where
  "emplaceStep lock unlock s =
     (case swriter s of
        STop i \<Rightarrow>
          if \<not> i < c_nrLookedUp then None
          else if i mod 1024 \<noteq> 0 then Some (s\<lparr>swriter := STop (i + 1)\<rparr>)
          else do { g \<leftarrow> lock (sguard s); Some (s\<lparr>sguard := g, swriter := SLocked i\<rparr>) }
      | SLocked i \<Rightarrow> Some (s\<lparr>emplacing := True, swriter := SEmplacing i\<rparr>)
      | SEmplacing i \<Rightarrow>
          Some (s\<lparr>mySet := insert (i + c_nrLookedUp) (mySet s), emplacing := False, swriter := SEmplaced i\<rparr>)
      | SEmplaced i \<Rightarrow> do { g \<leftarrow> unlock (sguard s); Some (s\<lparr>sguard := g, swriter := STop (i + 1)\<rparr>) })"

fun findStep :: "('l \<Rightarrow> 'l option) \<Rightarrow> ('l \<Rightarrow> 'l option) \<Rightarrow> nat \<Rightarrow> 'l sbench \<Rightarrow> 'l sbench option" where
  "findStep lock unlock i s =
     (case sreaders s i of
        QTop round v \<Rightarrow>
          if \<not> round < c_nrRounds then None
          else if \<not> v < c_nrLookedUp then Some (s\<lparr>sreaders := (sreaders s)(i := QTop (round + 1) 0)\<rparr>)
          else do { g \<leftarrow> lock (sguard s); Some (s\<lparr>sguard := g, sreaders := (sreaders s)(i := QLocked round v)\<rparr>) }
      | QLocked round v \<Rightarrow>
          Some (s\<lparr>sreaders := (sreaders s)(i :=
            (if emplacing s then QRace else if v \<notin> mySet s then QWrong else QFound round v))\<rparr>)
      | QFound round v \<Rightarrow>
          do { g \<leftarrow> unlock (sguard s); Some (s\<lparr>sguard := g, sreaders := (sreaders s)(i := QTop round (v + 1))\<rparr>) }
      | _ \<Rightarrow> None)"

text \<open>The three instances that \<open>run\<close> executes.\<close>

definition runReadOnly :: "unit sbench \<Rightarrow> unit sbench \<Rightarrow> bool" where
  "runReadOnly s s' \<longleftrightarrow> (\<exists>i. findStep Some Some i s = Some s')"

definition runSharedMutex :: "shared_mutex sbench \<Rightarrow> shared_mutex sbench \<Rightarrow> bool" where
  "runSharedMutex s s' \<longleftrightarrow> emplaceStep sharedLock sharedUnlock s = Some s'
     \<or> (\<exists>i. findStep (sharedLockShared i) (sharedUnlockShared i) i s = Some s')"

definition runMutex :: "mutex sbench \<Rightarrow> mutex sbench \<Rightarrow> bool" where
  "runMutex s s' \<longleftrightarrow> emplaceStep mutexLockWriter mutexUnlockWriter s = Some s'
     \<or> (\<exists>i. findStep (mutexLockReader i) (mutexUnlockReader i) i s = Some s')"

definition setStart :: "'l \<Rightarrow> 'l sbench \<Rightarrow> bool" where
  "setStart free s \<longleftrightarrow> fillSet = Some (mySet s) \<and> s = \<lparr>sguard = free, mySet = mySet s, emplacing = False,
     swriter = STop 0, sreaders = (\<lambda>_. QTop 0 0)\<rparr>"

subsection \<open>The invariant\<close>

lemma fillSet_eq: "fillSet = Some {..< c_nrLookedUp}"
proof -
  have "\<exists>S. fillSet = Some S \<and> S = {..< c_nrLookedUp}" unfolding fillSet_def
    by (rule for_range_rule) auto
  then show ?thesis by simp
qed

text \<open>What the writer has added before its iteration \<open>i\<close>.\<close>

definition added :: "nat \<Rightarrow> nat set" where
  "added i = {..< c_nrLookedUp} \<union> {j + c_nrLookedUp | j. j < i \<and> j mod 1024 = 0}"

lemma added_Suc: "added (Suc i) = (if i mod 1024 = 0 then insert (i + c_nrLookedUp) (added i) else added i)"
  by (auto simp: added_def less_Suc_eq)

definition busyWriter :: "swriter \<Rightarrow> bool" where
  "busyWriter w \<longleftrightarrow> (case w of STop i \<Rightarrow> False | _ \<Rightarrow> True)"

definition busyReader :: "sreader \<Rightarrow> bool" where
  "busyReader r \<longleftrightarrow> (case r of QTop round v \<Rightarrow> False | _ \<Rightarrow> True)"

definition contents :: "swriter \<Rightarrow> nat set" where
  "contents w = (case w of STop i \<Rightarrow> added i | SEmplaced i \<Rightarrow> added (Suc i) | SLocked i \<Rightarrow> added i | SEmplacing i \<Rightarrow> added i)"

definition sreader_ok :: "sreader \<Rightarrow> bool" where
  "sreader_ok r \<longleftrightarrow> r \<noteq> QWrong \<and> r \<noteq> QRace \<and> (\<forall>round v. r = QLocked round v \<longrightarrow> v < c_nrLookedUp)"

definition setInv :: "('l \<Rightarrow> bool) \<Rightarrow> ('l \<Rightarrow> nat set) \<Rightarrow> ('l \<Rightarrow> bool) \<Rightarrow> 'l sbench \<Rightarrow> bool" where
  "setInv inW inR ok s \<longleftrightarrow> ok (sguard s) \<and> inW (sguard s) = busyWriter (swriter s)
     \<and> (\<forall>i. i \<in> inR (sguard s) \<longleftrightarrow> busyReader (sreaders s i)) \<and> mySet s = contents (swriter s)
     \<and> (emplacing s \<longleftrightarrow> (\<exists>i. swriter s = SEmplacing i)) \<and> (\<forall>i. swriter s = SLocked i \<or> swriter s = SEmplacing i \<or> swriter s = SEmplaced i \<longrightarrow> i mod 1024 = 0)
     \<and> (\<forall>i. sreader_ok (sreaders s i))"

lemma setInvD:
  assumes "setInv inW inR ok s"
  shows "ok (sguard s)" "inW (sguard s) = busyWriter (swriter s)" "i \<in> inR (sguard s) \<longleftrightarrow> busyReader (sreaders s i)"
    "mySet s = contents (swriter s)" "emplacing s \<longleftrightarrow> (\<exists>i. swriter s = SEmplacing i)" "sreader_ok (sreaders s i)"
  using assms by (auto simp: setInv_def)

lemma looked_up_added: "v < c_nrLookedUp \<Longrightarrow> v \<in> contents w"
  by (cases w) (auto simp: contents_def added_def)

lemma setInv_reader:
  assumes "setInv inW inR ok s" and "ok g" "inW g = inW (sguard s)" "inR g = (if busyReader r then insert i (inR (sguard s)) else inR (sguard s) - {i})"
    and "sreader_ok r"
  shows "setInv inW inR ok (s\<lparr>sguard := g, sreaders := (sreaders s)(i := r)\<rparr>)"
  using assms by (auto simp: setInv_def)

context exclusive_guard
begin

lemma findStep_inv:
  assumes inv: "setInv inW inR ok s" and st: "findStep (lockR i) (unlockR i) i s = Some s'"
  shows "setInv inW inR ok s'"
proof -
  note d = setInvD(1,2) [OF inv] setInvD(3,6) [OF inv, of i]
  have same: "setInv inW inR ok (s\<lparr>sreaders := (sreaders s)(i := r)\<rparr>)"
    if "busyReader r = busyReader (sreaders s i)" "sreader_ok r" for r
    using setInv_reader [OF inv, of "sguard s" r i] d that by (simp add: insert_absorb)
  show ?thesis
  proof (cases "sreaders s i")
    case (QTop round v)
    show ?thesis
    proof (cases "v < c_nrLookedUp")
      case True
      then obtain g where g: "lockR i (sguard s) = Some g" "s' = s\<lparr>sguard := g, sreaders := (sreaders s)(i := QLocked round v)\<rparr>"
        using st QTop by (auto split: if_splits bind_splits)
      then show ?thesis using lockR_law [OF d(1) g(1)] setInv_reader [OF inv, of g "QLocked round v" i] True
        by (simp add: busyReader_def sreader_ok_def)
    next
      case False
      then have "s' = s\<lparr>sreaders := (sreaders s)(i := QTop (round + 1) 0)\<rparr>" using st QTop by (simp split: if_splits)
      then show ?thesis using same [of "QTop (round + 1) 0"] QTop by (simp add: busyReader_def sreader_ok_def)
    qed
  next
    case (QLocked round v)
    then have "i \<in> inR (sguard s)" using d(3) by (simp add: busyReader_def)
    then have "\<not> busyWriter (swriter s)" using alone [OF d(1), of i] d(2) by blast
    then have "\<not> emplacing s" using setInvD(5) [OF inv] by (auto simp: busyWriter_def)
    moreover have "v \<in> mySet s" using looked_up_added d(4) setInvD(4) [OF inv] by (simp add: sreader_ok_def QLocked)
    ultimately have "s' = s\<lparr>sreaders := (sreaders s)(i := QFound round v)\<rparr>" using st QLocked by simp
    then show ?thesis using same [of "QFound round v"] QLocked by (simp add: busyReader_def sreader_ok_def)
  next
    case (QFound round v)
    then obtain g where g: "unlockR i (sguard s) = Some g" "s' = s\<lparr>sguard := g, sreaders := (sreaders s)(i := QTop round (v + 1))\<rparr>"
      using st by (auto split: bind_splits)
    then show ?thesis using unlockR_law [OF d(1) g(1)] setInv_reader [OF inv, of g "QTop round (v + 1)" i]
      by (simp add: busyReader_def sreader_ok_def)
  qed (use st in simp_all)
qed

lemma emplaceStep_inv:
  assumes inv: "setInv inW inR ok s" and st: "emplaceStep lockW unlockW s = Some s'"
  shows "setInv inW inR ok s'"
proof -
  note d = setInvD(1,2) [OF inv]
  show ?thesis
  proof (cases "swriter s")
    case (STop i)
    show ?thesis
    proof (cases "i mod 1024 = 0")
      case True
      then obtain g where g: "lockW (sguard s) = Some g" "s' = s\<lparr>sguard := g, swriter := SLocked i\<rparr>"
        using st STop by (auto split: if_splits bind_splits)
      then show ?thesis using lockW_law [OF d(1) g(1)] inv STop True
        by (simp add: setInv_def busyWriter_def contents_def)
    next
      case False
      then have "s' = s\<lparr>swriter := STop (i + 1)\<rparr>" using st STop by (simp split: if_splits)
      then show ?thesis using inv STop False by (simp add: setInv_def busyWriter_def contents_def added_Suc)
    qed
  next
    case (SEmplaced i)
    then obtain g where g: "unlockW (sguard s) = Some g" "s' = s\<lparr>sguard := g, swriter := STop (i + 1)\<rparr>"
      using st by (auto split: bind_splits)
    then show ?thesis using unlockW_law [OF d(1) g(1)] inv SEmplaced
      by (simp add: setInv_def busyWriter_def contents_def)
  next
    case (SLocked i)
    then show ?thesis using inv st by (auto simp: setInv_def busyWriter_def contents_def)
  next
    case (SEmplacing i)
    then show ?thesis using inv st by (auto simp: setInv_def busyWriter_def contents_def added_Suc)
  qed
qed

end

lemma setStart_inv: "setStart free s \<Longrightarrow> ok free \<Longrightarrow> \<not> inW free \<Longrightarrow> inR free = {} \<Longrightarrow> setInv inW inR ok s"
  by (cases s) (auto simp: setStart_def fillSet_eq setInv_def busyWriter_def busyReader_def contents_def added_def sreader_ok_def)

interpretation sharedSet: invariant_system "setStart \<lparr>exclusive = False, sharers = {}\<rparr>" runSharedMutex
  "setInv exclusive sharers sharedOk"
proof unfold_locales
  show "setInv exclusive sharers sharedOk s" if "setStart \<lparr>exclusive = False, sharers = {}\<rparr> s" for s
    by (rule setStart_inv [OF that]) (simp_all add: sharedOk_def)
qed (auto simp: runSharedMutex_def simp del: emplaceStep.simps findStep.simps intro: shared.emplaceStep_inv shared.findStep_inv)

interpretation mutexSet: invariant_system "setStart Unlocked" runMutex "setInv (\<lambda>l. l = ByWriter) mutexReaders (\<lambda>_. True)"
proof unfold_locales
  show "setInv (\<lambda>l. l = ByWriter) mutexReaders (\<lambda>_. True) s" if "setStart Unlocked s" for s
    by (rule setStart_inv [OF that]) (simp_all add: mutexReaders_def)
qed (auto simp: runMutex_def simp del: emplaceStep.simps findStep.simps intro: mutex.emplaceStep_inv mutex.findStep_inv)

text \<open>Without a writer the set stays as it was filled.\<close>

definition frozenInv :: "unit sbench \<Rightarrow> bool" where
  "frozenInv s \<longleftrightarrow> mySet s = {..< c_nrLookedUp} \<and> \<not> emplacing s \<and> (\<forall>i. sreader_ok (sreaders s i))"

lemma findStep_frozen:
  assumes inv: "frozenInv s" and st: "findStep Some Some i s = Some s'"
  shows "frozenInv s'"
proof -
  have same: "frozenInv (s\<lparr>sreaders := (sreaders s)(i := r)\<rparr>)" if "sreader_ok r" for r
    using inv that by (simp add: frozenInv_def)
  show ?thesis
  proof (cases "sreaders s i")
    case (QTop round v)
    then consider "v < c_nrLookedUp" "s' = s\<lparr>sreaders := (sreaders s)(i := QLocked round v)\<rparr>"
      | "s' = s\<lparr>sreaders := (sreaders s)(i := QTop (round + 1) 0)\<rparr>"
      using st by (auto split: if_splits)
    then show ?thesis using same by cases (auto simp: sreader_ok_def)
  next
    case (QLocked round v)
    then have "v < c_nrLookedUp" using inv by (auto simp: frozenInv_def sreader_ok_def)
    then have "s' = s\<lparr>sreaders := (sreaders s)(i := QFound round v)\<rparr>"
      using st inv QLocked by (simp add: frozenInv_def)
    then show ?thesis using same by (simp add: sreader_ok_def)
  next
    case (QFound round v)
    then have "s' = s\<lparr>sreaders := (sreaders s)(i := QTop round (v + 1))\<rparr>" using st by (cases s) auto
    then show ?thesis using same by (simp add: sreader_ok_def)
  qed (use st in simp_all)
qed

interpretation frozenSet: invariant_system "setStart ()" runReadOnly frozenInv
proof unfold_locales
  show "frozenInv s" if "setStart () s" for s
    using that by (cases s) (simp add: setStart_def fillSet_eq frozenInv_def sreader_ok_def)
  show "frozenInv t" if "frozenInv s" "runReadOnly s t" for s t
    using that by (auto simp: runReadOnly_def simp del: findStep.simps intro: findStep_frozen)
qed

subsection \<open>The comparison is sound\<close>

text \<open>
  No reader of \<open>s\<close> has thrown ``Wrong'' or looked at the set while it was being changed, everything looked
  up is in the set, and a finished writer has added one number for every 1024.
\<close>

definition setSafe :: "'l sbench \<Rightarrow> bool" where
  "setSafe s \<longleftrightarrow> (\<forall>i. sreaders s i \<noteq> QWrong \<and> sreaders s i \<noteq> QRace) \<and> {..< c_nrLookedUp} \<subseteq> mySet s
     \<and> (\<forall>i. swriter s = STop i \<longrightarrow> mySet s = added i)"

lemma setInv_setSafe:
  assumes "setInv inW inR ok s"
  shows "setSafe s"
proof -
  note c = setInvD(4) [OF assms]
  have "{..< c_nrLookedUp} \<subseteq> mySet s" unfolding c using looked_up_added by blast
  moreover have "mySet s = added i" if "swriter s = STop i" for i using c that by (simp add: contents_def)
  moreover have "sreaders s i \<noteq> QWrong \<and> sreaders s i \<noteq> QRace" for i using setInvD(6) [OF assms, of i] by (simp add: sreader_ok_def)
  ultimately show ?thesis by (simp add: setSafe_def)
qed

text \<open>
  The comparison with \<open>std::unordered_set\<close>: in every reachable state of the instances with
  \<open>std::shared_mutex\<close> and with \<open>std::mutex\<close> no reader has missed a number or read the set
  during an \<open>emplace\<close>, and the set holds the numbers below \<open>c_nrElementsToLookUp\<close> and what the writer has added
  so far, one number in 1024; without lock and writer the set stays as it was filled.
\<close>

theorem set_comparison:
  "(\<forall>s0 s. setStart \<lparr>exclusive = False, sharers = {}\<rparr> s0 \<longrightarrow> runSharedMutex\<^sup>*\<^sup>* s0 s \<longrightarrow> setSafe s)
   \<and> (\<forall>s0 s. setStart Unlocked s0 \<longrightarrow> runMutex\<^sup>*\<^sup>* s0 s \<longrightarrow> setSafe s)
   \<and> (\<forall>s0 s. setStart () s0 \<longrightarrow> runReadOnly\<^sup>*\<^sup>* s0 s \<longrightarrow>
        mySet s = {..< c_nrLookedUp} \<and> (\<forall>i. sreaders s i \<noteq> QWrong \<and> sreaders s i \<noteq> QRace))"
  by (intro conjI allI impI)
    (auto dest!: sharedSet.inv_reachable mutexSet.inv_reachable frozenSet.inv_reachable
      simp: frozenInv_def sreader_ok_def intro: setInv_setSafe)

text \<open>The writer adds its first number while two readers of the first number wait or have left.\<close>

abbreviation setRun :: "nat option list \<Rightarrow> shared_mutex sbench \<Rightarrow> shared_mutex sbench option" where
  "setRun \<equiv> for_list (actor (emplaceStep sharedLock sharedUnlock) (\<lambda>i. findStep (sharedLockShared i) (sharedUnlockShared i) i))"

lemma setRun_reach: "setRun as s = Some s' \<Longrightarrow> runSharedMutex\<^sup>*\<^sup>* s s'"
  by (erule actors_reach) (unfold runSharedMutex_def, blast+)

definition exSet :: "shared_mutex sbench" where
  "exSet = \<lparr>sguard = \<lparr>exclusive = False, sharers = {}\<rparr>, mySet = {..< c_nrLookedUp}, emplacing = False,
     swriter = STop 0, sreaders = (\<lambda>_. QTop 0 0)\<rparr>"

theorem set_comparison_witness:
  "\<exists>s. setRun [Some 0, Some 1, Some 0, Some 0, Some 1, Some 1, None, None, None, None] exSet = Some s
     \<and> swriter s = STop 1 \<and> c_nrLookedUp \<in> mySet s \<and> setSafe s"
proof -
  have "0 < c_nrLookedUp" by (simp add: c_nrLookedUp_def)
  then obtain s where s: "setRun [Some 0, Some 1, Some 0, Some 0, Some 1, Some 1, None, None, None, None] exSet = Some s"
    "swriter s = STop 1" "c_nrLookedUp \<in> mySet s" by (auto simp: exSet_def c_nrRounds_def insert_Diff_if)
  have "setStart \<lparr>exclusive = False, sharers = {}\<rparr> exSet" by (simp add: setStart_def exSet_def fillSet_eq)
  then have "setSafe s" using set_comparison setRun_reach [OF s(1)] by blast
  then show ?thesis using s by blast
qed

end
