(* ===== verification/Timer.thy ===== *)
theory Timer
  imports Prelude "HOL-Library.Signed_Division"
begin

text \<open>
  The timer of \<open>TestHelper.h\<close>.  The clock, \<open>system_clock::now()\<close>, is an argument of each operation that
  reads it, in ticks; \<open>ticksPerMs\<close> is the period of the clock.  What is written to \<open>std::cout\<close> is a list of
  titles and durations.
\<close>

record timer =
  timeStart :: int
  reportTitle :: string
  reported :: bool

type_synonym console = "(string \<times> int) list"

definition newTimer :: "int \<Rightarrow> string \<Rightarrow> timer" where
  "newTimer now str = \<lparr>timeStart = now, reportTitle = str, reported = False\<rparr>"

text \<open>\<open>Timer(const std::string& str = "untitled")\<close>\<close>

definition untitledTimer :: "int \<Rightarrow> timer" where
  "untitledTimer now = newTimer now ''untitled''"

definition report :: "int \<Rightarrow> int \<Rightarrow> timer \<times> console \<Rightarrow> timer \<times> console" where
  "report ticksPerMs now = (\<lambda>(t, out).
     let timeFinish = now;
         diff = timeFinish - timeStart t;
         out = out @ [(reportTitle t, diff sdiv ticksPerMs)]
     in (t\<lparr>reported := True\<rparr>, out))"

definition destroyTimer :: "int \<Rightarrow> int \<Rightarrow> timer \<times> console \<Rightarrow> console" where
  "destroyTimer ticksPerMs now = (\<lambda>(t, out). if \<not> reported t then snd (report ticksPerMs now (t, out)) else out)"

text \<open>
  A timer that goes out of scope after \<open>report\<close> was called at the times \<open>rs\<close>.
\<close>

definition timedScope :: "int \<Rightarrow> int \<Rightarrow> string \<Rightarrow> int list \<Rightarrow> int \<Rightarrow> console \<Rightarrow> console" where
  "timedScope ticksPerMs start str rs finish out =
     destroyTimer ticksPerMs finish (fold (report ticksPerMs) rs (newTimer start str, out))"

lemma fold_report:
  "fold (report p) rs (t, out) = (if rs = [] then t else t\<lparr>reported := True\<rparr>, out @ map (\<lambda>now. (reportTitle t, (now - timeStart t) sdiv p)) rs)"
  by (induction rs arbitrary: t out) (simp_all add: report_def Let_def)

text \<open>
  Every timer reports: as often as \<open>report\<close> is called, and once at the end of its scope if that was never.
\<close>

theorem timer_reports:
  "timedScope p start str rs finish out = out @ map (\<lambda>now. (str, (now - start) sdiv p)) (if rs = [] then [finish] else rs)"
  by (simp add: timedScope_def fold_report destroyTimer_def report_def newTimer_def Let_def)

end
