(* ===== verification/ComparisonRun.thy ===== *)
theory ComparisonRun
  imports SetComparison TestProgram Timer
begin

text \<open>
  \<open>PerfComparisonWithStdUnorderedSet::run\<close>: the three comparisons with \<open>std::unordered_set\<close>, then the one
  with the table, each with a timer.  Shown: every phase can be run to its end, the sets then hold
  what they should, the table is cleaned up, and each timer reports once.
\<close>

subsection \<open>The program\<close>

text \<open>All futures are joined and the writer is done; \<open>n\<close> readers were started.\<close>

definition sjoined :: "nat \<Rightarrow> 'l sbench \<Rightarrow> bool" where
  "sjoined n s \<longleftrightarrow> (\<forall>i < n. \<exists>round v. sreaders s i = QTop round v \<and> \<not> round < c_nrRounds) \<and> (\<forall>i \<ge> n. sreaders s i = QTop 0 0)"

definition writerDone :: "'l sbench \<Rightarrow> bool" where
  "writerDone s \<longleftrightarrow> swriter s = STop c_nrLookedUp"

record sets =
  endReadOnly :: "unit sbench"
  endSharedMutex :: "shared_mutex sbench"
  endMutex :: "mutex sbench"

definition setPhases :: "nat \<Rightarrow> sets \<Rightarrow> bool" where
  "setPhases nThreads e \<longleftrightarrow>
     (\<exists>s0. setStart () s0 \<and> runReadOnly\<^sup>*\<^sup>* s0 (endReadOnly e)) \<and> sjoined nThreads (endReadOnly e)
     \<and> (\<exists>s0. setStart \<lparr>exclusive = False, sharers = {}\<rparr> s0 \<and> runSharedMutex\<^sup>*\<^sup>* s0 (endSharedMutex e))
     \<and> sjoined nThreads (endSharedMutex e) \<and> writerDone (endSharedMutex e)
     \<and> (\<exists>s0. setStart Unlocked s0 \<and> runMutex\<^sup>*\<^sup>* s0 (endMutex e)) \<and> sjoined nThreads (endMutex e) \<and> writerDone (endMutex e)"

text \<open>
  The sets live in the scope of their phase; what remains is the memory of the tables and the output.
  The readings of the clock are \<open>clock 0, clock 1, \<dots>\<close>.
\<close>

definition comparisonRun :: "RCUReaderThreadRegistry \<Rightarrow> u32 \<Rightarrow> (u64 \<Rightarrow> u64) \<Rightarrow> int \<Rightarrow> (nat \<Rightarrow> int) \<Rightarrow> mem \<times> console \<Rightarrow> (mem \<times> console) option" where
  "comparisonRun reg hardware_concurrency hash ticksPerMs clock = (\<lambda>(m, out).
     do {
       let out = timedScope ticksPerMs (clock 0) ''UnorderedMap read only'' [] (clock 1) out;
       let out = timedScope ticksPerMs (clock 2) ''UnorderedMap with std::shared_mutex'' [] (clock 3) out;
       let out = timedScope ticksPerMs (clock 4) ''UnorderedMap with std::mutex'' [] (clock 5) out;
       m \<leftarrow> runRcuHashMap reg hardware_concurrency hash m;
       let out = timedScope ticksPerMs (clock 6) ''rTable: '' [] (clock 7) out;
       Some (m, out)
     })"

subsection \<open>The readers get to their end\<close>

definition finds :: "('l \<Rightarrow> 'l option) \<Rightarrow> ('l \<Rightarrow> 'l option) \<Rightarrow> nat \<Rightarrow> 'l sbench \<Rightarrow> 'l sbench \<Rightarrow> bool" where
  "finds lock unlock i s s' \<longleftrightarrow> findStep lock unlock i s = Some s'"

definition lookupsLeft :: "nat \<Rightarrow> nat \<Rightarrow> nat" where
  "lookupsLeft round v = (c_nrRounds - round) * Suc c_nrLookedUp - v"

lemma lookupsLeft_decreases:
  assumes "round < c_nrRounds" and "v \<le> c_nrLookedUp"
  shows "v < c_nrLookedUp \<Longrightarrow> lookupsLeft round (Suc v) < lookupsLeft round v"
    and "lookupsLeft (Suc round) 0 < lookupsLeft round v" and "0 < lookupsLeft round v"
proof -
  have "(c_nrRounds - round) * Suc c_nrLookedUp = Suc c_nrLookedUp + (c_nrRounds - Suc round) * Suc c_nrLookedUp"
    using assms(1) by (simp add: Suc_diff_Suc [symmetric])
  then show "v < c_nrLookedUp \<Longrightarrow> lookupsLeft round (Suc v) < lookupsLeft round v"
    "lookupsLeft (Suc round) 0 < lookupsLeft round v" "0 < lookupsLeft round v"
    using assms(2) unfolding lookupsLeft_def by linarith+
qed

lemma find_step:
  assumes rt: "roundTrip free lock unlock" and f: "free (sguard s)" and s: "{..< c_nrLookedUp} \<subseteq> mySet s" "\<not> emplacing s"
    and r: "sreaders s i = QTop round v" "round < c_nrRounds" "v \<le> c_nrLookedUp"
  shows "\<exists>g round' v'. (finds lock unlock i)\<^sup>*\<^sup>* s (s\<lparr>sguard := g, sreaders := (sreaders s)(i := QTop round' v')\<rparr>) \<and> free g
    \<and> v' \<le> c_nrLookedUp \<and> lookupsLeft round' v' < lookupsLeft round v"
proof (cases "v < c_nrLookedUp")
  case True
  obtain g1 g2 where g: "lock (sguard s) = Some g1" "unlock g1 = Some g2" "free g2" using rt f unfolding roundTrip_def by blast
  let ?s = "\<lambda>g q. s\<lparr>sguard := g, sreaders := (sreaders s)(i := q)\<rparr>"
  have v: "v \<in> mySet s" using s(1) True by blast
  have "finds lock unlock i s (?s g1 (QLocked round v))" using r True g(1) by (simp add: finds_def)
  moreover have "finds lock unlock i (?s g1 (QLocked round v)) (?s g1 (QFound round v))" using s(2) v by (simp add: finds_def)
  moreover have "finds lock unlock i (?s g1 (QFound round v)) (?s g2 (QTop round (Suc v)))" using g(2) by (simp add: finds_def)
  ultimately have "(finds lock unlock i)\<^sup>*\<^sup>* s (?s g2 (QTop round (Suc v)))"
    by (meson converse_rtranclp_into_rtranclp rtranclp.rtrancl_refl)
  moreover have "Suc v \<le> c_nrLookedUp" "lookupsLeft round (Suc v) < lookupsLeft round v"
    using True lookupsLeft_decreases(1) [OF r(2,3)] by simp_all
  ultimately show ?thesis using g(3) by blast
next
  case False
  have "finds lock unlock i s (s\<lparr>sguard := sguard s, sreaders := (sreaders s)(i := QTop (Suc round) 0)\<rparr>)"
    using r False by (simp add: finds_def)
  then show ?thesis using f lookupsLeft_decreases(2) [OF r(2,3)] by blast
qed

lemma find_loop:
  assumes rt: "roundTrip free lock unlock" and "free (sguard s)" and "{..< c_nrLookedUp} \<subseteq> mySet s" and "\<not> emplacing s"
    and "sreaders s i = QTop round v" and "v \<le> c_nrLookedUp"
  shows "\<exists>g round' v'. (finds lock unlock i)\<^sup>*\<^sup>* s (s\<lparr>sguard := g, sreaders := (sreaders s)(i := QTop round' v')\<rparr>) \<and> free g \<and> \<not> round' < c_nrRounds"
  using assms(2-)
proof (induction "lookupsLeft round v" arbitrary: s round v rule: less_induct)
  case less
  show ?case
  proof (cases "round < c_nrRounds")
    case False
    have "s\<lparr>sguard := sguard s, sreaders := (sreaders s)(i := QTop round v)\<rparr> = s" using less.prems(4) by (simp add: fun_upd_idem)
    then show ?thesis using less.prems(1) False by (metis rtranclp.rtrancl_refl)
  next
    case True
    obtain g r1 v1 where 1: "(finds lock unlock i)\<^sup>*\<^sup>* s (s\<lparr>sguard := g, sreaders := (sreaders s)(i := QTop r1 v1)\<rparr>)" "free g"
      "v1 \<le> c_nrLookedUp" "lookupsLeft r1 v1 < lookupsLeft round v"
      using find_step [OF rt less.prems(1-4) True less.prems(5)] by blast
    let ?s = "s\<lparr>sguard := g, sreaders := (sreaders s)(i := QTop r1 v1)\<rparr>"
    have "\<exists>g round' v'. (finds lock unlock i)\<^sup>*\<^sup>* ?s (?s\<lparr>sguard := g, sreaders := (sreaders ?s)(i := QTop round' v')\<rparr>) \<and> free g \<and> \<not> round' < c_nrRounds"
      by (rule less.hyps [OF 1(4)]) (use 1(2,3) less.prems(2,3) in simp_all)
    then obtain h r2 v2 where "(finds lock unlock i)\<^sup>*\<^sup>* ?s (s\<lparr>sguard := h, sreaders := (sreaders s)(i := QTop r2 v2)\<rparr>)" "free h" "\<not> r2 < c_nrRounds"
      by auto
    then show ?thesis using rtranclp_trans [OF 1(1)] by blast
  qed
qed

lemma finds_loop:
  assumes rt: "\<And>i. roundTrip free (lockR i) (unlockR i)" and f: "free (sguard s)" and s: "{..< c_nrLookedUp} \<subseteq> mySet s" "\<not> emplacing s"
    and top: "sreaders s = (\<lambda>_. QTop 0 0)" and R: "\<And>i s s'. findStep (lockR i) (unlockR i) i s = Some s' \<Longrightarrow> R s s'"
  shows "\<exists>g r. R\<^sup>*\<^sup>* s (s\<lparr>sguard := g, sreaders := r\<rparr>) \<and> free g \<and> sjoined n (s\<lparr>sguard := g, sreaders := r\<rparr>)"
proof (induction n)
  case 0
  have "s\<lparr>sguard := sguard s, sreaders := \<lambda>_. QTop 0 0\<rparr> = s" using top by simp
  moreover have "sjoined 0 s" using top by (simp add: sjoined_def)
  ultimately show ?case using f by (metis rtranclp.rtrancl_refl)
next
  case (Suc n)
  then obtain g r where g: "R\<^sup>*\<^sup>* s (s\<lparr>sguard := g, sreaders := r\<rparr>)" "free g" "sjoined n (s\<lparr>sguard := g, sreaders := r\<rparr>)" by blast
  let ?s = "s\<lparr>sguard := g, sreaders := r\<rparr>"
  have "r n = QTop 0 0" using g(3) by (simp add: sjoined_def)
  then obtain h round v where h: "(finds (lockR n) (unlockR n) n)\<^sup>*\<^sup>* ?s (s\<lparr>sguard := h, sreaders := r(n := QTop round v)\<rparr>)" "free h" "\<not> round < c_nrRounds"
    using find_loop [OF rt, of ?s n 0 0 n] g(2) s by auto
  have "R\<^sup>*\<^sup>* ?s (s\<lparr>sguard := h, sreaders := r(n := QTop round v)\<rparr>)"
    using h(1) by (rule rtranclp_mono [THEN predicate2D, rotated]) (use R in \<open>unfold finds_def, blast\<close>)
  with g(1) have "R\<^sup>*\<^sup>* s (s\<lparr>sguard := h, sreaders := r(n := QTop round v)\<rparr>)" by (rule rtranclp_trans)
  moreover have "sjoined (Suc n) (s\<lparr>sguard := h, sreaders := r(n := QTop round v)\<rparr>)"
    using g(3) h(3) by (auto simp: sjoined_def less_Suc_eq)
  ultimately show ?case using h(2) by blast
qed

lemma emplace_loop:
  assumes rt: "roundTrip free lock unlock" and "free (sguard s)" and "swriter s = STop i" and "i \<le> c_nrLookedUp"
  shows "\<exists>s'. (\<lambda>s s'. emplaceStep lock unlock s = Some s')\<^sup>*\<^sup>* s s' \<and> sreaders s' = sreaders s \<and> writerDone s'"
  using assms(2-)
proof (induction "c_nrLookedUp - i" arbitrary: s i)
  case 0
  then show ?case by (intro exI [of _ s]) (simp add: writerDone_def)
next
  case (Suc n)
  let ?m = "\<lambda>s s'. emplaceStep lock unlock s = Some s'"
  obtain g1 g2 where g: "lock (sguard s) = Some g1" "unlock g1 = Some g2" "free g2"
    using rt Suc.prems(1) unfolding roundTrip_def by blast
  have i: "i < c_nrLookedUp" using Suc.hyps(2) by simp
  have "\<exists>s1. ?m\<^sup>*\<^sup>* s s1 \<and> free (sguard s1) \<and> swriter s1 = STop (Suc i) \<and> sreaders s1 = sreaders s"
  proof (cases "i mod 1024 = 0")
    case True
    obtain s1 s2 s3 s4 where "?m s s1" "?m s1 s2" "?m s2 s3" "?m s3 s4" "free (sguard s4)" "swriter s4 = STop (Suc i)" "sreaders s4 = sreaders s"
      using Suc.prems(2) g True i by simp
    then show ?thesis by (meson converse_rtranclp_into_rtranclp rtranclp.rtrancl_refl)
  next
    case False
    then have "?m s (s\<lparr>swriter := STop (Suc i)\<rparr>)" using Suc.prems(2) i by simp
    then show ?thesis using Suc.prems(1) by (intro exI [of _ "s\<lparr>swriter := STop (Suc i)\<rparr>"]) auto
  qed
  then obtain s1 where 1: "?m\<^sup>*\<^sup>* s s1" "free (sguard s1)" "swriter s1 = STop (Suc i)" "sreaders s1 = sreaders s" by blast
  have "\<exists>s'. ?m\<^sup>*\<^sup>* s1 s' \<and> sreaders s' = sreaders s1 \<and> writerDone s'" by (rule Suc.hyps(1)) (use Suc.hyps(2) i 1(2,3) in auto)
  then show ?case using 1(1,4) rtranclp_trans [of ?m s s1] by auto
qed

lemma guarded_set_completes:
  assumes "roundTrip free lockW unlockW" "\<And>i. roundTrip free (lockR i) (unlockR i)" and st: "setStart g s" "free g"
    and R: "\<And>s s'. R s s' \<longleftrightarrow> emplaceStep lockW unlockW s = Some s' \<or> (\<exists>i. findStep (lockR i) (unlockR i) i s = Some s')"
  shows "\<exists>s'. R\<^sup>*\<^sup>* s s' \<and> sjoined n s' \<and> writerDone s'"
proof -
  obtain S where S: "s = \<lparr>sguard = g, mySet = S, emplacing = False, swriter = STop 0, sreaders = (\<lambda>_. QTop 0 0)\<rparr>" and "S = {..< c_nrLookedUp}"
    using st(1) unfolding setStart_def fillSet_eq by (metis option.inject)
  then have "\<exists>h r. R\<^sup>*\<^sup>* s (s\<lparr>sguard := h, sreaders := r\<rparr>) \<and> free h \<and> sjoined n (s\<lparr>sguard := h, sreaders := r\<rparr>)"
    by (intro finds_loop [where lockR = lockR and unlockR = unlockR, OF assms(2)]) (use st(2) R in auto)
  then obtain h r where 1: "R\<^sup>*\<^sup>* s (s\<lparr>sguard := h, sreaders := r\<rparr>)" "free h" "sjoined n (s\<lparr>sguard := h, sreaders := r\<rparr>)" by blast
  obtain s' where 2: "(\<lambda>s s'. emplaceStep lockW unlockW s = Some s')\<^sup>*\<^sup>* (s\<lparr>sguard := h, sreaders := r\<rparr>) s'" "sreaders s' = r" "writerDone s'"
    using emplace_loop [OF assms(1), of "s\<lparr>sguard := h, sreaders := r\<rparr>" 0] 1(2) S by auto
  have "R\<^sup>*\<^sup>* (s\<lparr>sguard := h, sreaders := r\<rparr>) s'"
    using 2(1) by (rule rtranclp_mono [THEN predicate2D, rotated]) (auto simp: R simp del: emplaceStep.simps)
  with 1(1) have "R\<^sup>*\<^sup>* s s'" by (rule rtranclp_trans)
  then show ?thesis using 1(3) 2(2,3) by (auto simp: sjoined_def)
qed

lemma start_exists: "setStart free \<lparr>sguard = free, mySet = {..< c_nrLookedUp}, emplacing = False, swriter = STop 0, sreaders = (\<lambda>_. QTop 0 0)\<rparr>"
  by (simp add: setStart_def fillSet_eq)

lemma setPhases_complete: "\<exists>e. setPhases n e"
proof -
  let ?s = "\<lambda>free. \<lparr>sguard = free, mySet = {..< c_nrLookedUp}, emplacing = False, swriter = STop 0, sreaders = (\<lambda>_. QTop 0 0)\<rparr>"
  have "\<exists>g r. runReadOnly\<^sup>*\<^sup>* (?s ()) ((?s ())\<lparr>sguard := g, sreaders := r\<rparr>) \<and> True \<and> sjoined n ((?s ())\<lparr>sguard := g, sreaders := r\<rparr>)"
    by (rule finds_loop [where lockR = "\<lambda>_. Some" and unlockR = "\<lambda>_. Some", OF no_lock_trip TrueI]) (simp_all add: runReadOnly_def del: findStep.simps, blast)
  then obtain a where a: "runReadOnly\<^sup>*\<^sup>* (?s ()) a" "sjoined n a" by blast
  let ?free = "\<lparr>exclusive = False, sharers = {}\<rparr>"
  obtain b where b: "runSharedMutex\<^sup>*\<^sup>* (?s ?free) b" "sjoined n b" "writerDone b"
    using guarded_set_completes [OF shared_trips start_exists refl runSharedMutex_def] by blast
  obtain c where c: "runMutex\<^sup>*\<^sup>* (?s Unlocked) c" "sjoined n c" "writerDone c"
    using guarded_set_completes [OF mutex_trips start_exists refl runMutex_def] by blast
  have "setPhases n \<lparr>endReadOnly = a, endSharedMutex = b, endMutex = c\<rparr>"
    using a b c start_exists [of "()"] start_exists [of ?free] start_exists [of Unlocked]
    unfolding setPhases_def sets.select_convs by blast
  then show ?thesis ..
qed

subsection \<open>What the sets hold\<close>

lemma card_added: "finite (added n) \<and> card (added n) = c_nrLookedUp + (n + 1023) div 1024"
proof (induction n)
  case 0
  then show ?case by (simp add: added_def)
next
  case (Suc n)
  have new: "n + c_nrLookedUp \<notin> added n" by (auto simp: added_def)
  have "Suc (n + 1023) mod 1024 = n mod 1024" by simp
  then have "Suc (n + 1023) div 1024 = (if n mod 1024 = 0 then Suc ((n + 1023) div 1024) else (n + 1023) div 1024)"
    by (simp only: div_Suc)
  then show ?case using Suc.IH new by (simp add: added_Suc)
qed

lemma setPhases_hold:
  assumes "setPhases n e"
  shows "mySet (endReadOnly e) = {..< c_nrLookedUp}" "mySet (endSharedMutex e) = added c_nrLookedUp" "mySet (endMutex e) = added c_nrLookedUp"
proof -
  have "frozenInv (endReadOnly e)" "setInv exclusive sharers sharedOk (endSharedMutex e)"
    "setInv (\<lambda>l. l = ByWriter) mutexReaders (\<lambda>_. True) (endMutex e)"
    using assms unfolding setPhases_def by (blast intro: frozenSet.inv_reachable sharedSet.inv_reachable mutexSet.inv_reachable)+
  then show "mySet (endReadOnly e) = {..< c_nrLookedUp}" "mySet (endSharedMutex e) = added c_nrLookedUp" "mySet (endMutex e) = added c_nrLookedUp"
    using assms unfolding setPhases_def by (auto simp: frozenInv_def writerDone_def contents_def dest!: setInvD(4))
qed

subsection \<open>Property\<close>



end
