(* ===== verification/ViewMachine.thy ===== *)
theory ViewMachine
  imports Prelude
begin

text \<open>
  \<open>std::atomic\<close> with the memory orders the code uses, as an operational machine.  Every location has
  its modification order, a list of messages; a view gives, for each location, the index of the newest
  message a thread has to know of.  A load may return any message that is not older than that.  A
  message carries the view its store releases; a load that acquires joins it.  Every location of the
  programs is stored to by one thread only or changed by read-modify-write operations only, so a new
  message is always the last one of its location.

  A read-modify-write operation takes the last message, and its message goes on releasing what that one
  releases (a release sequence).  The argument \<open>fenced\<close> says whether it is also a full fence, as the
  locked instructions of x86 are, or the operation with an \<open>atomic_thread_fence(memory_order_seq_cst)\<close> after
  it; fences exchange views with a global one.
\<close>

subsection \<open>Operations\<close>

datatype order = Relaxed | Acquire | Release | AcqRel

definition acquires :: "order \<Rightarrow> bool" where
  "acquires ord \<longleftrightarrow> ord = Acquire \<or> ord = AcqRel"

definition releases :: "order \<Rightarrow> bool" where
  "releases ord \<longleftrightarrow> ord = Release \<or> ord = AcqRel"

type_synonym 'l view = "'l \<Rightarrow> nat"

record ('l, 'v) msg =
  mval :: 'v
  mview :: "'l \<Rightarrow> nat"

type_synonym ('l, 'v) vmem = "'l \<Rightarrow> ('l, 'v) msg list"

definition join :: "'l view \<Rightarrow> 'l view \<Rightarrow> 'l view" where
  "join V W = (\<lambda>l. max (V l) (W l))"

definition newest :: "('l, 'v) vmem \<Rightarrow> 'l \<Rightarrow> nat" where
  "newest M l = length (M l) - 1"

definition atomicLoad :: "order \<Rightarrow> 'l \<Rightarrow> nat \<Rightarrow> ('l, 'v) vmem \<Rightarrow> 'l view \<Rightarrow> ('v \<times> 'l view) option" where
  "atomicLoad ord l t M V =
     (if V l \<le> t \<and> t < length (M l) then
        Some (mval (M l ! t), if acquires ord then join (V(l := t)) (mview (M l ! t)) else V(l := t))
      else None)"

definition atomicStore :: "order \<Rightarrow> 'l \<Rightarrow> 'v \<Rightarrow> ('l, 'v) vmem \<Rightarrow> 'l view \<Rightarrow> ('l, 'v) vmem \<times> 'l view" where
  "atomicStore ord l x M V =
     (let t = length (M l); V' = V(l := t);
          W = (if releases ord then V' else (\<lambda>_. 0)(l := t))
      in (M(l := M l @ [\<lparr>mval = x, mview = W\<rparr>]), V'))"

text \<open>The result is the old value, the memory, the view of the thread, and the view of the fences.\<close>

definition atomicRMW :: "bool \<Rightarrow> order \<Rightarrow> 'l \<Rightarrow> ('v \<Rightarrow> 'v option) \<Rightarrow> ('l, 'v) vmem \<Rightarrow> 'l view \<Rightarrow> 'l view
    \<Rightarrow> ('v \<times> ('l, 'v) vmem \<times> 'l view \<times> 'l view) option" where
  "atomicRMW fenced ord l f M V S =
     (if M l = [] then None
      else do {
        let old = last (M l);
        let t = length (M l);
        x \<leftarrow> f (mval old);
        let V' = (if acquires ord then join V (mview old) else V)(l := t);
        let W = join (if releases ord then V' else (\<lambda>_. 0)(l := t)) (mview old);
        let M' = M(l := M l @ [\<lparr>mval = x, mview = W\<rparr>]);
        Some (mval old, M', if fenced then (join V' S, join V' S) else (V', S))
      })"

text \<open>A load of a variable that is not atomic: only the newest value, and a race when the thread need not know of it.\<close>

definition plainLoad :: "'l \<Rightarrow> ('l, 'v) vmem \<Rightarrow> 'l view \<Rightarrow> 'v option" where
  "plainLoad l M V = (if M l \<noteq> [] \<and> newest M l \<le> V l then Some (mval (last (M l))) else None)"

subsection \<open>Views stay inside the memory\<close>

definition known :: "('l, 'v) vmem \<Rightarrow> 'l view \<Rightarrow> bool" where
  "known M V \<longleftrightarrow> (\<forall>l. V l < length (M l))"

text \<open>All messages release views that are known.\<close>

definition wf_vmem :: "('l, 'v) vmem \<Rightarrow> bool" where
  "wf_vmem M \<longleftrightarrow> (\<forall>l. M l \<noteq> [] \<and> (\<forall>t < length (M l). known M (mview (M l ! t)) \<and> mview (M l ! t) l \<le> t))"

text \<open>\<open>grows M M'\<close>: messages are only added.\<close>

definition grows :: "('l, 'v) vmem \<Rightarrow> ('l, 'v) vmem \<Rightarrow> bool" where
  "grows M M' \<longleftrightarrow> (\<forall>l. \<exists>xs. M' l = M l @ xs)"

lemma grows_refl [simp, intro]: "grows M M"
  by (simp add: grows_def)

lemma grows_trans: "grows M M' \<Longrightarrow> grows M' M'' \<Longrightarrow> grows M M''"
  unfolding grows_def by (metis append.assoc)

lemma grows_add: "grows M (M(l := M l @ xs))"
  by (simp add: grows_def)

lemma grows_length: "grows M M' \<Longrightarrow> length (M l) \<le> length (M' l)"
  unfolding grows_def by (metis length_append le_add1)

lemma grows_nth: "grows M M' \<Longrightarrow> t < length (M l) \<Longrightarrow> M' l ! t = M l ! t"
  unfolding grows_def by (metis nth_append)

lemma grows_known: "grows M M' \<Longrightarrow> known M V \<Longrightarrow> known M' V"
  unfolding known_def using grows_length by (metis order_less_le_trans)

lemma known_join [simp]: "known M V \<Longrightarrow> known M W \<Longrightarrow> known M (join V W)"
  by (simp add: known_def join_def)

lemma known_upd: "known M V \<Longrightarrow> t < length (M l) \<Longrightarrow> known M (V(l := t))"
  by (simp add: known_def)

lemma join_le [simp]: "V l \<le> join V W l" "W l \<le> join V W l"
  by (simp_all add: join_def)

lemma join_apply: "join V W l = max (V l) (W l)"
  by (simp add: join_def)

lemma known_newest: "known M V \<Longrightarrow> V l \<le> newest M l"
proof -
  assume "known M V"
  then have "V l < length (M l)" unfolding known_def by blast
  then show ?thesis unfolding newest_def by linarith
qed

lemma wf_vmemD:
  assumes "wf_vmem M"
  shows "M l \<noteq> []" "t < length (M l) \<Longrightarrow> known M (mview (M l ! t))" "t < length (M l) \<Longrightarrow> mview (M l ! t) l \<le> t"
    "length (M l) = Suc (newest M l)" "last (M l) = M l ! newest M l"
  using assms unfolding wf_vmem_def newest_def by (auto simp: last_conv_nth)

lemma wf_vmem_add:
  assumes wf: "wf_vmem M" and v: "known (M(l := M l @ [a])) (mview a)" "mview a l \<le> length (M l)"
  shows "wf_vmem (M(l := M l @ [a]))"
proof -
  let ?M = "M(l := M l @ [a])"
  have g: "grows M ?M" by (rule grows_add)
  have "known ?M (mview (?M k ! t)) \<and> mview (?M k ! t) k \<le> t" if t: "t < length (?M k)" for k t
  proof (cases "t < length (M k)")
    case True
    then have "?M k ! t = M k ! t" using grows_nth [OF g] by simp
    then show ?thesis using grows_known [OF g wf_vmemD(2) [OF wf True]] wf_vmemD(3) [OF wf True] by (simp del: fun_upd_apply)
  next
    case False
    then have "k = l" "t = length (M l)" using t by (auto split: if_splits)
    then show ?thesis using v by simp
  qed
  moreover have "?M k \<noteq> []" for k using wf_vmemD(1) [OF wf] by simp
  ultimately show ?thesis unfolding wf_vmem_def by blast
qed

subsection \<open>What the operations do\<close>

lemma atomicLoadE:
  assumes "atomicLoad ord l t M V = Some (x, V')"
  obtains "V l \<le> t" "t < length (M l)" "x = mval (M l ! t)"
    "V' = (if acquires ord then join (V(l := t)) (mview (M l ! t)) else V(l := t))"
  using assms by (auto simp: atomicLoad_def split: if_splits)

lemma atomicLoad_known:
  assumes "atomicLoad ord l t M V = Some (x, V')" and "wf_vmem M" and "known M V"
  shows "known M V'" "V k \<le> V' k"
proof -
  obtain t: "V l \<le> t" "t < length (M l)" "V' = (if acquires ord then join (V(l := t)) (mview (M l ! t)) else V(l := t))"
    using assms(1) by (rule atomicLoadE)
  show "known M V'" using t known_upd [OF assms(3) t(2)] wf_vmemD(2) [OF assms(2) t(2)] by simp
  show "V k \<le> V' k" using t by (auto simp: join_def)
qed

lemma atomicRMWE:
  assumes "atomicRMW fenced ord l f M V S = Some (x, M', V', S')"
  obtains y U W where "f (mval (last (M l))) = Some y" "x = mval (last (M l))"
    "M' = M(l := M l @ [\<lparr>mval = y, mview = W\<rparr>])"
    "U = (if acquires ord then join V (mview (last (M l))) else V)(l := length (M l))"
    "W = join (if releases ord then U else (\<lambda>_. 0)(l := length (M l))) (mview (last (M l)))"
    "V' = (if fenced then join U S else U)" "S' = (if fenced then join U S else S)"
proof -
  have ne: "M l \<noteq> []" using assms by (auto simp: atomicRMW_def)
  then obtain y where y: "f (mval (last (M l))) = Some y" using assms by (auto simp: atomicRMW_def Let_def split: bind_splits)
  show ?thesis by (rule that [OF y _ _ refl refl]) (use assms ne y in \<open>auto simp: atomicRMW_def Let_def split: if_split_asm\<close>)
qed

lemma atomicRMW_known:
  assumes r: "atomicRMW fenced ord l f M V S = Some (x, M', V', S')" and wf: "wf_vmem M" and k: "known M V" "known M S"
  shows "wf_vmem M'" "grows M M'" "known M' V'" "known M' S'" "V k \<le> V' k" "S k \<le> S' k" "V' l = length (M l)"
    "fenced \<Longrightarrow> S' k = V' k" "fenced \<Longrightarrow> S k \<le> V' k"
proof -
  obtain y U W where u: "M' = M(l := M l @ [\<lparr>mval = y, mview = W\<rparr>])"
    "U = (if acquires ord then join V (mview (last (M l))) else V)(l := length (M l))"
    "W = join (if releases ord then U else (\<lambda>_. 0)(l := length (M l))) (mview (last (M l)))"
    "V' = (if fenced then join U S else U)" "S' = (if fenced then join U S else S)"
    using r by (rule atomicRMWE)
  note d = wf_vmemD [OF wf]
  show g: "grows M M'" unfolding u(1) by (rule grows_add)
  have old: "known M (mview (last (M l)))" "mview (last (M l)) l \<le> newest M l"
    using d(2) [of "newest M l" l] d(3) [of "newest M l" l] d(4,5) [of l] by simp_all
  have l: "length (M l) < length (M' l)" by (simp add: u(1))
  have U: "known M' U" unfolding u(2)
    by (rule known_upd) (use grows_known [OF g k(1)] grows_known [OF g old(1)] l in simp_all)
  have z: "known M' ((\<lambda>_. 0)(l := length (M l)))"
    using l d(1) by (auto simp: known_def u(1))
  have W: "known M' W" unfolding u(3) using U z grows_known [OF g old(1)] by simp
  have "W l \<le> length (M l)" using old(2) d(4) [of l] by (simp add: u(2,3) join_def)
  then show "wf_vmem M'" using wf_vmem_add [OF wf, of l "\<lparr>mval = y, mview = W\<rparr>"] W u(1) by simp
  show "known M' V'" "known M' S'" using U grows_known [OF g k(2)] by (simp_all add: u(4,5))
  have "V k \<le> U k" for k using k(1) by (auto simp: u(2) join_def known_def less_imp_le)
  then show "V k \<le> V' k" by (simp add: u(4) join_def le_max_iff_disj)
  show "S k \<le> S' k" by (simp add: u(5))
  show "V' l = length (M l)"
  proof -
    have "S l \<le> length (M l)" using k(2) by (simp add: known_def less_imp_le)
    then show ?thesis by (simp add: u(2,4) join_def)
  qed
  show "fenced \<Longrightarrow> S' k = V' k" "fenced \<Longrightarrow> S k \<le> V' k" by (simp_all add: u(4,5))
qed

lemma atomicStore_known:
  assumes r: "atomicStore ord l x M V = (M', V')" and wf: "wf_vmem M" and k: "known M V"
  shows "wf_vmem M'" "grows M M'" "known M' V'" "V k \<le> V' k" "V' l = length (M l)" "k \<noteq> l \<Longrightarrow> V' k = V k"
proof -
  let ?V = "V(l := length (M l))"
  let ?W = "if releases ord then ?V else (\<lambda>_. 0)(l := length (M l))"
  have u: "M' = M(l := M l @ [\<lparr>mval = x, mview = ?W\<rparr>])" "V' = ?V"
    using r by (simp_all add: atomicStore_def Let_def split: if_splits)
  show g: "grows M M'" unfolding u(1) by (rule grows_add)
  have l: "length (M l) < length (M' l)" by (simp add: u(1))
  show V: "known M' V'" unfolding u(2) by (rule known_upd [OF grows_known [OF g k] l])
  have "known M' ((\<lambda>_. 0)(l := length (M l)))" using l wf_vmemD(1) [OF wf] by (auto simp: known_def u(1))
  then have "known M' ?W" "?W l \<le> length (M l)" using V u(2) by auto
  then show "wf_vmem M'" using wf_vmem_add [OF wf, of l "\<lparr>mval = x, mview = ?W\<rparr>"] unfolding u(1) by simp
  show "V k \<le> V' k" using k by (auto simp: u(2) known_def less_imp_le)
  show "V' l = length (M l)" "k \<noteq> l \<Longrightarrow> V' k = V k" by (simp_all add: u(2))
qed

end
