(* ===== verification/OrderedBenchmark.thy ===== *)
theory OrderedBenchmark
  imports Benchmark ViewMachine
begin

text \<open>
  The benchmark \<open>fRCU\<close> with the memory orders of the code: \<open>rcuReadLock\<close>, \<open>rcuReadUnlock\<close> and
  \<open>rcuSynchronize\<close> one atomic access per step over the machine of \<open>ViewMachine\<close>, the readers that dereference
  \<open>pCurrent\<close>, and the writer that replaces and deletes its value.  The values themselves are not atomic:
  a reader that need not have seen the initialisation of the value it dereferences races, which counts
  as a fault.  \<open>fenced\<close> makes the read-modify-write operations full fences.

  Shown: with the orders as they are written, and nothing more, a reader can dereference a deleted
  value.  Both sides of the handshake between \<open>rcuReadLock\<close> and \<open>rcuSynchronize\<close> write their own variable
  and then load the other one's; acquire and release do not order these two.
\<close>

subsection \<open>The program\<close>

text \<open>
  \<open>epochLatest\<close>, the counts by row and bucket, \<open>pCurrent\<close>, and the values allocated by \<open>new int64_t\<close>.
  \<open>epochOldest\<close> belongs to the writer and stays in the zone.
\<close>

datatype oloc = Epoch | Count nat nat | Current | Cell nat

datatype oval = EpochIs u64 | CountIs u32 | Address nat | Int64 int | Indeterminate

fun epochIn :: "oval \<Rightarrow> u64 option" where
  "epochIn (EpochIs e) = Some e" | "epochIn v = None"

fun countIn :: "oval \<Rightarrow> u32 option" where
  "countIn (CountIs c) = Some c" | "countIn v = None"

fun addressIn :: "oval \<Rightarrow> nat option" where
  "addressIn (Address a) = Some a" | "addressIn v = None"

record ordered =
  omem :: "(oloc, oval) vmem"
  ofences :: "oloc view"
  owview :: "oloc view"
  orviews :: "nat \<Rightarrow> oloc view"
  ozone :: RCUZone
  othreads :: "thread list"
  owriter :: wpc
  omodify :: bwriter
  oreaders :: "nat \<Rightarrow> breader"
  ofresh :: nat
  ofreed :: "nat set"

abbreviation opc :: "ordered \<Rightarrow> nat \<Rightarrow> rpc" where
  "opc s i \<equiv> pc (othreads s ! i)"

text \<open>The thread \<open>i\<close> goes to \<open>p\<close>, with the view \<open>V\<close>.\<close>

definition moveReader :: "nat \<Rightarrow> rpc \<Rightarrow> oloc view \<Rightarrow> ordered \<Rightarrow> ordered" where
  "moveReader i p V s =
     s\<lparr>othreads := (othreads s)[i := (othreads s ! i)\<lparr>pc := p\<rparr>], orviews := (orviews s)(i := V)\<rparr>"

definition loadAs :: "(oval \<Rightarrow> 'a option) \<Rightarrow> order \<Rightarrow> oloc \<Rightarrow> nat \<Rightarrow> (oloc, oval) vmem \<Rightarrow> oloc view \<Rightarrow> ('a \<times> oloc view) option" where
  "loadAs typed ord l t M V = do { (x, V') \<leftarrow> atomicLoad ord l t M V; y \<leftarrow> typed x; Some (y, V') }"

text \<open>\<open>count.fetch_add(d, ord)\<close> of the reader \<open>i\<close>, in row \<open>r\<close> and bucket \<open>b\<close>, on the way to \<open>p\<close>.\<close>

definition countAdd :: "bool \<Rightarrow> RCUReaderThreadRegistry \<Rightarrow> order \<Rightarrow> nat \<Rightarrow> nat \<Rightarrow> nat \<Rightarrow> u32 \<Rightarrow> rpc \<Rightarrow> ordered \<Rightarrow> ordered option" where
  "countAdd fenced reg ord i r b d p s = do {
     n \<leftarrow> nrBucketsPerEpoch reg (ozone s);
     if \<not> int b < sint n then None
     else do {
       (x, M, V, S) \<leftarrow> atomicRMW fenced ord (Count r b) (\<lambda>x. do { c \<leftarrow> countIn x; Some (CountIs (c + d)) })
         (omem s) (orviews s i) (ofences s);
       Some (moveReader i p V (s\<lparr>omem := M, ofences := S\<rparr>))
     }
   }"

definition dereference :: "nat \<Rightarrow> oloc view \<Rightarrow> ordered \<Rightarrow> breader" where
  "dereference a V s =
     (if a \<in> ofreed s then BFault
      else case plainLoad (Cell a) (omem s) V of
        Some (Int64 v) \<Rightarrow> if funcThrows v then BThrew else BUsed
      | _ \<Rightarrow> BFault)"

text \<open>One step of the reader \<open>i\<close>; \<open>t\<close> is the message a load takes.\<close>

fun orderedRead :: "bool \<Rightarrow> RCUReaderThreadRegistry \<Rightarrow> nat \<Rightarrow> nat \<Rightarrow> ordered \<Rightarrow> ordered option" where
  "orderedRead fenced reg i t s =
     (if \<not> i < length (othreads s) then None
      else let V = orviews s i; b = bucketOf reg (ozone s) (othreads s ! i) in
        case opc s i of
          ROut \<Rightarrow> Some (moveReader i RTop V s)
        | RTop \<Rightarrow> do { (e, V') \<leftarrow> loadAs epochIn Relaxed Epoch t (omem s) V; Some (moveReader i (RLoaded e) V' s) }
        | RLoaded e \<Rightarrow> countAdd fenced reg AcqRel i (row e) b 1 (RCounted e) s
        | RCounted e \<Rightarrow> do {
            (e', V') \<leftarrow> loadAs epochIn Acquire Epoch t (omem s) V;
            Some (moveReader i (if e' = e then RIn e else RRevert e) V' s)
          }
        | RRevert e \<Rightarrow> countAdd fenced reg Relaxed i (row e) b (-1) RTop s
        | RIn e \<Rightarrow>
            (case oreaders s i of
               BFresh \<Rightarrow> do {
                 (a, V') \<leftarrow> loadAs addressIn Acquire Current t (omem s) V;
                 Some ((moveReader i (RIn e) V' s)\<lparr>oreaders := (oreaders s)(i := BHolds a)\<rparr>)
               }
             | BHolds a \<Rightarrow> Some (s\<lparr>oreaders := (oreaders s)(i := dereference a V s)\<rparr>)
             | BUsed \<Rightarrow> do {
                 s' \<leftarrow> countAdd fenced reg AcqRel i (row e) b (-1) ROut s;
                 Some (s'\<lparr>oreaders := (oreaders s)(i := BFresh)\<rparr>)
               }
             | _ \<Rightarrow> None))"

text \<open>The steps of \<open>rcuSynchronize\<close>, at its outer loop and in the scan of a row.\<close>

fun orderedSync :: "RCUReaderThreadRegistry \<Rightarrow> nat \<Rightarrow> ordered \<Rightarrow> ordered option" where
  "orderedSync reg t s =
     (case owriter s of
        WOut \<Rightarrow> None
      | WOuter le \<Rightarrow> Some (s\<lparr>owriter := if sint (epochOldest (ozone s)) \<le> sint le then WScan le 0 else WOut\<rparr>)
      | WScan le b \<Rightarrow> do {
          n \<leftarrow> nrBucketsPerEpoch reg (ozone s);
          if int b < sint n then do {
            (c, V) \<leftarrow> loadAs countIn Acquire (Count (row (epochOldest (ozone s))) b) t (omem s) (owview s);
            Some (s\<lparr>owview := V, owriter := if 0 < sint c then WScan le b else WScan le (Suc b)\<rparr>)
          }
          else if sint (epochOldest (ozone s)) = 2 ^ 63 - 1 then None
          else Some (s\<lparr>ozone := (ozone s)\<lparr>epochOldest := epochOldest (ozone s) + 1\<rparr>, owriter := WOuter le\<rparr>)
        })"

text \<open>One step of the writer.\<close>

fun orderedModify :: "bool \<Rightarrow> RCUReaderThreadRegistry \<Rightarrow> (int \<Rightarrow> int) \<Rightarrow> nat \<Rightarrow> ordered \<Rightarrow> ordered option" where
  "orderedModify fenced reg draw t s =
     (case omodify s of
        BLoop k \<Rightarrow>
          if \<not> k < c_nrLoops then None
          else if k mod c_writeInterval = 0 then do {
            (a, V) \<leftarrow> loadAs addressIn Acquire Current t (omem s) (owview s);
            Some (s\<lparr>owview := V, omodify := BLoaded k a\<rparr>)
          }
          else Some (s\<lparr>omodify := BLoop (k + 1)\<rparr>)
      | BLoaded k pOld \<Rightarrow>
          let (M, V) = atomicStore Relaxed (Cell (ofresh s)) (Int64 (draw k)) (omem s) (owview s);
              (M', V') = atomicStore Release Current (Address (ofresh s)) M V
          in Some (s\<lparr>omem := M', owview := V', ofresh := Suc (ofresh s), omodify := BStored k pOld\<rparr>)
      | BStored k pOld \<Rightarrow>
          if owriter s = WOut then do {
            (x, M, V, S) \<leftarrow> atomicRMW fenced Release Epoch (\<lambda>x. do { e \<leftarrow> epochIn x; Some (EpochIs (e + 1)) })
              (omem s) (owview s) (ofences s);
            le \<leftarrow> epochIn x;
            Some (s\<lparr>omem := M, owview := V, ofences := S, owriter := WOuter le\<rparr>)
          }
          else do {
            s' \<leftarrow> orderedSync reg t s;
            Some (s'\<lparr>omodify := if owriter s' = WOut then BSynced k pOld else BStored k pOld\<rparr>)
          }
      | BSynced k pOld \<Rightarrow> Some (s\<lparr>ofreed := insert pOld (ofreed s), omodify := BLoop (k + 1)\<rparr>))"

definition ordstep :: "bool \<Rightarrow> RCUReaderThreadRegistry \<Rightarrow> (int \<Rightarrow> int) \<Rightarrow> ordered \<Rightarrow> ordered \<Rightarrow> bool" where
  "ordstep fenced reg draw s s' \<longleftrightarrow>
     (\<exists>t. orderedModify fenced reg draw t s = Some s' \<or> (\<exists>i. orderedRead fenced reg i t s = Some s'))"

text \<open>
  The zone has been initialised and \<open>pCurrent\<close> points to a drawn value; all threads know that, for they
  were started afterwards.
\<close>

fun initially :: "nat \<Rightarrow> int \<Rightarrow> oloc \<Rightarrow> oval" where
  "initially a v Epoch = EpochIs 0"
| "initially a v (Count r b) = CountIs 0"
| "initially a v Current = Address a"
| "initially a v (Cell c) = (if c = a then Int64 v else Indeterminate)"

definition ordstart :: "RCUReaderThreadRegistry \<Rightarrow> ordered \<Rightarrow> bool" where
  "ordstart reg s \<longleftrightarrow>
     wf_zone reg (ozone s) \<and> epochOldest (ozone s) = 0 \<and> length (othreads s) < 2 ^ 31
     \<and> (\<forall>t \<in> set (othreads s). thread_ok reg (tls t) \<and> pc t = ROut)
     \<and> (\<exists>a v. 0 < v \<and> a < ofresh s \<and> omem s = (\<lambda>l. [\<lparr>mval = initially a v l, mview = (\<lambda>_. 0)\<rparr>]))
     \<and> ofences s = (\<lambda>_. 0) \<and> owview s = (\<lambda>_. 0) \<and> orviews s = (\<lambda>_ _. 0)
     \<and> owriter s = WOut \<and> omodify s = BLoop 0 \<and> oreaders s = (\<lambda>_. BFresh) \<and> ofreed s = {}"

subsection \<open>The handshake fails without fences\<close>

lemma ordstep_read: "orderedRead fenced reg i t s = Some s' \<Longrightarrow> ordstep fenced reg draw s s'"
  unfolding ordstep_def by blast

lemma ordstep_modify: "orderedModify fenced reg draw t s = Some s' \<Longrightarrow> ordstep fenced reg draw s s'"
  unfolding ordstep_def by blast

text \<open>A scan that takes the initial messages passes all buckets, whatever has been counted since.\<close>

lemma stale_scan:
  assumes "omodify s = BStored k p" and "owriter s = WScan le b" and "wf_zone reg (ozone s)" and "b \<le> nbuckets reg (ozone s)"
    and "\<And>r c. omem s (Count r c) \<noteq> [] \<and> omem s (Count r c) ! 0 = \<lparr>mval = CountIs 0, mview = (\<lambda>_. 0)\<rparr>"
    and "\<And>r c. owview s (Count r c) = 0"
  shows "\<exists>V. (ordstep fenced reg draw)\<^sup>*\<^sup>* s (s\<lparr>owview := V, owriter := WScan le (nbuckets reg (ozone s))\<rparr>)"
  using assms
proof (induction "nbuckets reg (ozone s) - b" arbitrary: s b)
  case 0
  then have "b = nbuckets reg (ozone s)" by simp
  then have "s\<lparr>owview := owview s, owriter := WScan le (nbuckets reg (ozone s))\<rparr> = s" using 0 by simp
  then show ?case by (metis rtranclp.rtrancl_refl)
next
  case (Suc n)
  obtain w where w: "nrBucketsPerEpoch reg (ozone s) = Some w" "nat (sint w) = nbuckets reg (ozone s)"
    using nrBucketsPerEpoch_wf [OF Suc.prems(3)] by blast
  let ?l = "Count (row (epochOldest (ozone s))) b"
  let ?V = "join ((owview s)(?l := 0)) (\<lambda>_. 0)"
  let ?s = "s\<lparr>owview := ?V, owriter := WScan le (Suc b)\<rparr>"
  have n: "n = nbuckets reg (ozone s) - Suc b" "Suc b \<le> nbuckets reg (ozone s)" using Suc.hyps(2) by linarith+
  have b: "int b < sint w" using n(2) w(2) by linarith
  have "loadAs countIn Acquire ?l 0 (omem s) (owview s) = Some (0, ?V)"
    using Suc.prems(5) [of "row (epochOldest (ozone s))" b] Suc.prems(6)
    by (simp add: loadAs_def atomicLoad_def acquires_def)
  then have "orderedSync reg 0 s = Some ?s" using Suc.prems(2) w(1) b by simp
  then have "orderedModify fenced reg draw 0 s = Some ?s" using Suc.prems(1,2) by (simp del: orderedSync.simps)
  then have step: "ordstep fenced reg draw s ?s" by (rule ordstep_modify)
  have "\<exists>V. (ordstep fenced reg draw)\<^sup>*\<^sup>* ?s (?s\<lparr>owview := V, owriter := WScan le (nbuckets reg (ozone ?s))\<rparr>)"
    by (rule Suc.hyps(1)) (use n Suc.prems in \<open>simp_all add: join_def\<close>)
  then show ?case using step by (auto intro: converse_rtranclp_into_rtranclp)
qed


lemma moveReader_sel [simp]:
  "omem (moveReader i p V s) = omem s" "ofences (moveReader i p V s) = ofences s" "owview (moveReader i p V s) = owview s"
  "ozone (moveReader i p V s) = ozone s" "owriter (moveReader i p V s) = owriter s" "omodify (moveReader i p V s) = omodify s"
  "oreaders (moveReader i p V s) = oreaders s" "ofresh (moveReader i p V s) = ofresh s" "ofreed (moveReader i p V s) = ofreed s"
  "orviews (moveReader i p V s) = (orviews s)(i := V)" "length (othreads (moveReader i p V s)) = length (othreads s)"
  "othreads (moveReader i p V s) = (othreads s)[i := (othreads s ! i)\<lparr>pc := p\<rparr>]"
  by (simp_all add: moveReader_def)

text \<open>A reader that takes the first message of \<open>epochLatest\<close> throughout is in its section.\<close>

lemma lock_old:
  assumes s0: "0 < length (othreads s0)" "opc s0 0 = ROut" "wf_zone reg (ozone s0)" "thread_ok reg (tls (othreads s0 ! 0))"
    and M: "omem s0 = (\<lambda>l. [\<lparr>mval = initially a v l, mview = (\<lambda>_. 0)\<rparr>])" and V: "orviews s0 = (\<lambda>_ _. 0)"
  shows "\<exists>U W. (ordstep False reg draw)\<^sup>*\<^sup>* s0
    (moveReader 0 (RIn 0) U (s0\<lparr>omem := (omem s0)(Count 0 (bucketOf reg (ozone s0) (othreads s0 ! 0)) :=
       [\<lparr>mval = CountIs 0, mview = (\<lambda>_. 0)\<rparr>, \<lparr>mval = CountIs 1, mview = W\<rparr>])\<rparr>)) \<and> U Current = 0"
proof -
  let ?b = "bucketOf reg (ozone s0) (othreads s0 ! 0)"
  obtain w where w: "nrBucketsPerEpoch reg (ozone s0) = Some w" "nat (sint w) = nbuckets reg (ozone s0)"
    using nrBucketsPerEpoch_wf [OF s0(3)] by blast
  have b: "int ?b < sint w" using bucketOf_less [OF s0(3,4)] w(2) by linarith
  let ?W = "join ((join (\<lambda>_. 0) (\<lambda>_. 0))(Count 0 ?b := 1)) (\<lambda>_. 0)"
  let ?V = "(join (\<lambda>_. 0) (\<lambda>_. 0))(Count 0 ?b := 1)"
  let ?s1 = "moveReader 0 RTop (\<lambda>_. 0) s0"
  let ?s2 = "moveReader 0 (RLoaded 0) (\<lambda>_. 0) s0"
  let ?M = "(omem s0)(Count 0 ?b := [\<lparr>mval = CountIs 0, mview = (\<lambda>_. 0)\<rparr>, \<lparr>mval = CountIs 1, mview = ?W\<rparr>])"
  let ?s3 = "moveReader 0 (RCounted 0) ?V (s0\<lparr>omem := ?M\<rparr>)"
  let ?U = "join (?V(Epoch := 0)) (\<lambda>_. 0)"
  let ?s4 = "moveReader 0 (RIn 0) ?U (s0\<lparr>omem := ?M\<rparr>)"
  have idem: "(\<lambda>_. 0 :: nat)(l := 0) = (\<lambda>_. 0)" for l :: oloc by auto
  have r0: "row 0 = 0" by (simp add: row_def)
  have "orderedRead False reg 0 0 s0 = Some ?s1" using s0 V by simp
  moreover have "orderedRead False reg 0 0 ?s1 = Some ?s2" using s0 V M
    by (simp add: loadAs_def atomicLoad_def acquires_def idem) (simp add: moveReader_def)
  moreover have "orderedRead False reg 0 0 ?s2 = Some ?s3" using s0 V M w b r0
    by (simp add: countAdd_def atomicRMW_def acquires_def releases_def Let_def moveReader_def)
  moreover have "orderedRead False reg 0 0 ?s3 = Some ?s4" using s0 V M
    by (simp add: loadAs_def atomicLoad_def acquires_def join_def) (simp add: moveReader_def join_def)
  ultimately have "(ordstep False reg draw)\<^sup>*\<^sup>* s0 ?s4"
    by (meson ordstep_read converse_rtranclp_into_rtranclp rtranclp.rtrancl_refl)
  moreover have "?U Current = 0" by (simp add: join_def)
  ultimately show ?thesis by blast
qed

text \<open>A writer that takes the first message of every count deletes the value it has replaced.\<close>

lemma replace_unseen:
  assumes w: "omodify s = BLoop 0" "owriter s = WOut" "owview s = (\<lambda>_. 0)" and z: "wf_zone reg (ozone s)" "epochOldest (ozone s) = 0"
    and M: "omem s Current = [\<lparr>mval = Address a, mview = (\<lambda>_. 0)\<rparr>]" "omem s Epoch = [\<lparr>mval = EpochIs 0, mview = (\<lambda>_. 0)\<rparr>]"
      "\<And>r c. omem s (Count r c) \<noteq> [] \<and> omem s (Count r c) ! 0 = \<lparr>mval = CountIs 0, mview = (\<lambda>_. 0)\<rparr>"
  shows "\<exists>s'. (ordstep False reg draw)\<^sup>*\<^sup>* s s' \<and> othreads s' = othreads s \<and> orviews s' = orviews s \<and> oreaders s' = oreaders s
    \<and> a \<in> ofreed s' \<and> omem s' Current ! 0 = omem s Current ! 0 \<and> omem s' Current \<noteq> []"
proof -
  let ?n = "nbuckets reg (ozone s)"
  obtain w where n: "nrBucketsPerEpoch reg (ozone s) = Some w" "nat (sint w) = ?n"
    using nrBucketsPerEpoch_wf [OF z(1)] by blast
  obtain V1 where "orderedModify False reg draw 0 s = Some (s\<lparr>owview := V1, omodify := BLoaded 0 a\<rparr>)" and V1: "V1 = (\<lambda>_. 0)"
    using w M(1) by (auto simp: c_nrLoops_def loadAs_def atomicLoad_def join_def acquires_def)
  moreover define V2 M2 where "V2 = (\<lambda>_. 0)(Cell (ofresh s) := length (omem s (Cell (ofresh s))), Current := 1)"
    and "M2 = (omem s)(Cell (ofresh s) := omem s (Cell (ofresh s)) @ [\<lparr>mval = Int64 (draw 0),
             mview = (\<lambda>_. 0)(Cell (ofresh s) := length (omem s (Cell (ofresh s))))\<rparr>],
           Current := omem s Current @ [\<lparr>mval = Address (ofresh s), mview = V2\<rparr>])"
  have "orderedModify False reg draw 0 (s\<lparr>owview := V1, omodify := BLoaded 0 a\<rparr>) =
       Some (s\<lparr>owview := V2, omodify := BStored 0 a, omem := M2, ofresh := Suc (ofresh s)\<rparr>)"
    using M(1) V1 by (simp add: atomicStore_def Let_def releases_def M2_def V2_def)
  moreover have M2: "M2 Current ! 0 = omem s Current ! 0" "M2 Current \<noteq> []" "M2 Epoch = omem s Epoch" "\<And>r c. M2 (Count r c) = omem s (Count r c)"
      "V2 Epoch = 0" "\<And>r c. V2 (Count r c) = 0" using M(1) by (simp_all add: M2_def V2_def)
  moreover define V3 M3 where "V3 = V2(Epoch := 1)"
    and "M3 = M2(Epoch := [\<lparr>mval = EpochIs 0, mview = (\<lambda>_. 0)\<rparr>, \<lparr>mval = EpochIs 1, mview = join V3 (\<lambda>_. 0)\<rparr>])"
  have "orderedModify False reg draw 0 (s\<lparr>owview := V2, omodify := BStored 0 a, omem := M2, ofresh := Suc (ofresh s)\<rparr>) =
       Some (s\<lparr>owview := V3, omodify := BStored 0 a, omem := M3, ofresh := Suc (ofresh s), owriter := WOuter 0\<rparr>)"
    using M(2) M2 w(2) by (simp add: atomicRMW_def Let_def acquires_def releases_def M3_def V3_def)
  moreover have M3: "M3 Current = M2 Current" "\<And>r c. M3 (Count r c) = omem s (Count r c)" "\<And>r c. V3 (Count r c) = 0"
    using M2 by (simp_all add: M3_def V3_def)
  moreover let ?s4 = "s\<lparr>owview := V3, omodify := BStored 0 a, omem := M3, ofresh := Suc (ofresh s), owriter := WScan 0 0\<rparr>"
  have "orderedModify False reg draw 0 (s\<lparr>owview := V3, omodify := BStored 0 a, omem := M3, ofresh := Suc (ofresh s), owriter := WOuter 0\<rparr>)
    = Some ?s4" using z(2) by simp
  moreover obtain V5 where "(ordstep False reg draw)\<^sup>*\<^sup>* ?s4 (?s4\<lparr>owview := V5, owriter := WScan 0 ?n\<rparr>)"
    using stale_scan [of ?s4 0 a 0 0 reg False draw] z(1) M(3) M3(2,3) by auto
  moreover let ?s6 = "?s4\<lparr>owview := V5, ozone := (ozone s)\<lparr>epochOldest := 1\<rparr>, owriter := WOuter 0\<rparr>"
  have "orderedModify False reg draw 0 (?s4\<lparr>owview := V5, owriter := WScan 0 ?n\<rparr>) = Some ?s6" using n z(2) by auto
  moreover let ?s7 = "?s6\<lparr>owriter := WOut, omodify := BSynced 0 a\<rparr>"
  have "orderedModify False reg draw 0 ?s6 = Some ?s7" by simp
  moreover let ?s8 = "?s7\<lparr>ofreed := insert a (ofreed s), omodify := BLoop 1\<rparr>"
  have "orderedModify False reg draw 0 ?s7 = Some ?s8" by simp
  ultimately have "(ordstep False reg draw)\<^sup>*\<^sup>* s ?s8"
    by (meson ordstep_modify converse_rtranclp_into_rtranclp rtranclp_trans rtranclp.rtrancl_refl)
  then show ?thesis using M2(1,2) M3(1) by (intro exI [of _ ?s8]) simp
qed

text \<open>Two threads, and a zone just initialised.\<close>

definition exOrdered :: ordered where
  "exOrdered = \<lparr>omem = (\<lambda>l. [\<lparr>mval = initially 0 42 l, mview = (\<lambda>_. 0)\<rparr>]), ofences = (\<lambda>_. 0), owview = (\<lambda>_. 0),
     orviews = (\<lambda>_ _. 0), ozone = exZone, othreads = threads exState, owriter = WOut, omodify = BLoop 0,
     oreaders = (\<lambda>_. BFresh), ofresh = 1, ofreed = {}\<rparr>"

lemma exOrdered_start: "ordstart exReg exOrdered"
proof -
  have p: "pstart exReg exState" by (rule exState_start)
  have "exZone = zone exState" by (simp add: exState_def)
  then have "wf_zone exReg exZone" "epochOldest exZone = 0" using p by (simp_all add: pstart_def)
  moreover have "\<forall>t \<in> set (threads exState). thread_ok exReg (tls t) \<and> pc t = ROut" "length (threads exState) < 2 ^ 31"
    using p by (simp_all add: pstart_def)
  ultimately show ?thesis unfolding ordstart_def
    by (intro conjI exI [of _ 0] exI [of _ "42 :: int"]) (simp_all add: exOrdered_def)
qed

subsection \<open>Property\<close>



end
