(* ===== verification/FencedBenchmark.thy ===== *)
theory FencedBenchmark
  imports OrderedBenchmark
begin

text \<open>
  The benchmark of \<open>OrderedBenchmark\<close> on a machine whose read-modify-write operations are full fences: the
  locked instructions of x86, or the code with a sequentially consistent fence after each of them.  All
  other accesses keep their orders, loads may still return old messages, and a scan may read counts
  that are out of date.  Shown: the protocol then keeps its promise.
\<close>

subsection \<open>Epochs as message numbers\<close>

lemma of_nat_u64 [simp]:
  assumes "t < 2 ^ 63"
  shows "unat (of_nat t :: u64) = t" "sint (of_nat t :: u64) = int t"
proof -
  have "t < 2 ^ 64" using assms by (rule order_less_trans) simp
  then show u: "unat (of_nat t :: u64) = t" by (simp add: unsigned_of_nat take_bit_nat_eq_self_iff)
  then show "sint (of_nat t :: u64) = int t" using sint_small [of "of_nat t :: u64"] assms by simp
qed

lemma of_nat_u64_eq: "t < 2 ^ 63 \<Longrightarrow> u < 2 ^ 63 \<Longrightarrow> (of_nat t :: u64) = of_nat u \<longleftrightarrow> t = u"
  using of_nat_u64(1) by metis

lemma of_nat_u32:
  assumes "n < 2 ^ 31"
  shows "sint (of_nat n :: u32) = int n" "(of_nat n :: u32) = 0 \<longleftrightarrow> n = 0"
proof -
  have "n < 2 ^ 32" using assms by (rule order_less_trans) simp
  then have u: "unat (of_nat n :: u32) = n" by (simp add: unsigned_of_nat take_bit_nat_eq_self_iff)
  then show "sint (of_nat n :: u32) = int n" using sint_small [of "of_nat n :: u32"] assms by simp
  show "(of_nat n :: u32) = 0 \<longleftrightarrow> n = 0"
  proof
    assume "(of_nat n :: u32) = 0"
    then have "unat (of_nat n :: u32) = 0" by (simp only: unsigned_0)
    then show "n = 0" using u by simp
  qed simp
qed

subsection \<open>The invariant\<close>

text \<open>The numbers of the newest messages of \<open>epochLatest\<close> and of \<open>pCurrent\<close>.\<close>

abbreviation epochNow :: "ordered \<Rightarrow> nat" where
  "epochNow s \<equiv> newest (omem s) Epoch"

abbreviation storeNow :: "ordered \<Rightarrow> nat" where
  "storeNow s \<equiv> newest (omem s) Current"

definition memInv :: "ordered \<Rightarrow> bool" where
  "memInv s \<longleftrightarrow> wf_vmem (omem s) \<and> known (omem s) (ofences s) \<and> known (omem s) (owview s) \<and> (\<forall>i. known (omem s) (orviews s i))"

text \<open>\<open>pCurrent\<close> has been replaced in this iteration, and the epoch not yet moved on.\<close>

definition unfenced :: "ordered \<Rightarrow> bool" where
  "unfenced s \<longleftrightarrow> (\<exists>k p. omodify s = BStored k p) \<and> owriter s = WOut"

fun epochBound :: "bwriter \<Rightarrow> wpc \<Rightarrow> int" where
  "epochBound (BLoop k) w = k"
| "epochBound (BLoaded k p) w = k"
| "epochBound (BStored k p) w = (if w = WOut then k else k + 1)"
| "epochBound (BSynced k p) w = k + 1"

fun iteration :: "bwriter \<Rightarrow> int" where
  "iteration (BLoop k) = k" | "iteration (BLoaded k p) = k" | "iteration (BStored k p) = k" | "iteration (BSynced k p) = k"

definition epochInv :: "ordered \<Rightarrow> bool" where
  "epochInv s \<longleftrightarrow> (\<forall>t \<le> epochNow s. mval (omem s Epoch ! t) = EpochIs (of_nat t))
     \<and> ofences s Epoch = epochNow s \<and> owview s Epoch = epochNow s \<and> owview s Current = storeNow s
     \<and> (if unfenced s then storeNow s \<le> Suc (ofences s Current) else storeNow s \<le> ofences s Current)
     \<and> int (epochNow s) \<le> epochBound (omodify s) (owriter s) \<and> iteration (omodify s) \<le> c_nrLoops
     \<and> ((\<forall>k. omodify s \<noteq> BLoop k) \<longrightarrow> iteration (omodify s) < c_nrLoops)
     \<and> writer_inv ((ozone s)\<lparr>epochLatest := of_nat (epochNow s)\<rparr>) (owriter s)
     \<and> (owriter s \<noteq> WOut \<longrightarrow> (\<exists>k p. omodify s = BStored k p))"

text \<open>
  The values \<open>as\<close> that \<open>pCurrent\<close> has had.  The writer has freed only those before \<open>kept\<close>; each was
  initialised before its address was released.
\<close>

fun kept :: "bwriter \<Rightarrow> nat \<Rightarrow> nat" where
  "kept (BStored k p) c = c - 1" | "kept (BSynced k p) c = c - 1" | "kept w c = c"

fun oldIs :: "bwriter \<Rightarrow> nat list \<Rightarrow> nat \<Rightarrow> bool" where
  "oldIs (BLoop k) as c = True"
| "oldIs (BLoaded k p) as c = (p = as ! c)"
| "oldIs (BStored k p) as c = (0 < c \<and> p = as ! (c - 1))"
| "oldIs (BSynced k p) as c = (0 < c \<and> p = as ! (c - 1))"

definition cellReady :: "(oloc, oval) vmem \<Rightarrow> nat \<Rightarrow> oloc view \<Rightarrow> bool" where
  "cellReady M a V \<longleftrightarrow> (\<exists>v > 0. mval (last (M (Cell a))) = Int64 v) \<and> newest M (Cell a) \<le> V (Cell a)"

definition cellInv :: "nat list \<Rightarrow> ordered \<Rightarrow> bool" where
  "cellInv as s \<longleftrightarrow> length as = Suc (storeNow s) \<and> distinct as \<and> (\<forall>a \<in> set as. a < ofresh s)
     \<and> (\<forall>t \<le> storeNow s. mval (omem s Current ! t) = Address (as ! t) \<and> cellReady (omem s) (as ! t) (mview (omem s Current ! t)))
     \<and> ofreed s \<subseteq> set (take (kept (omodify s) (storeNow s)) as) \<and> oldIs (omodify s) as (storeNow s)"

text \<open>
  The last count is exact, and no count since the message \<open>inc i\<close> with which the thread \<open>i\<close> has counted
  itself in is zero; every fence since knows that message.
\<close>

definition countInv :: "RCUReaderThreadRegistry \<Rightarrow> (nat \<Rightarrow> nat) \<Rightarrow> ordered \<Rightarrow> bool" where
  "countInv reg inc s \<longleftrightarrow> (\<forall>r b. (\<forall>x \<in> set (omem s (Count r b)). \<exists>n \<le> length (othreads s). mval x = CountIs (of_nat n))
     \<and> mval (last (omem s (Count r b))) = CountIs (of_nat (nheld reg (ozone s) (othreads s) r b))
     \<and> (\<forall>i < length (othreads s). held reg (ozone s) r b (othreads s ! i) \<longrightarrow>
          inc i \<le> ofences s (Count r b)
          \<and> (\<forall>t < length (omem s (Count r b)). inc i \<le> t \<longrightarrow> mval (omem s (Count r b) ! t) \<noteq> CountIs 0)))"

text \<open>
  A thread that is counted in with the epoch \<open>e\<close> either has the latest one and knows the newest value, or
  has the one before, and the writer is waiting for it.
\<close>

definition waited :: "RCUReaderThreadRegistry \<Rightarrow> (nat \<Rightarrow> nat) \<Rightarrow> ordered \<Rightarrow> nat \<Rightarrow> u64 \<Rightarrow> bool" where
  "waited reg inc s i e \<longleftrightarrow> owriter s \<noteq> WOut \<and> e = epochOldest (ozone s) \<and> e + 1 = of_nat (epochNow s)
     \<and> (\<forall>le b. owriter s = WScan le b \<longrightarrow> b \<le> bucketOf reg (ozone s) (othreads s ! i))
     \<and> inc i \<le> owview s (Count (row e) (bucketOf reg (ozone s) (othreads s ! i)))
     \<and> storeNow s \<le> Suc (orviews s i Current)"

definition current :: "ordered \<Rightarrow> nat \<Rightarrow> u64 \<Rightarrow> bool" where
  "current s i e \<longleftrightarrow> e = of_nat (epochNow s)
     \<and> (if unfenced s then storeNow s \<le> Suc (orviews s i Current) else storeNow s \<le> orviews s i Current)"

fun pcInv :: "RCUReaderThreadRegistry \<Rightarrow> (nat \<Rightarrow> nat) \<Rightarrow> ordered \<Rightarrow> nat \<Rightarrow> rpc \<Rightarrow> bool" where
  "pcInv reg inc s i (RLoaded e) = (\<exists>t \<le> epochNow s. e = of_nat t)"
| "pcInv reg inc s i (RCounted e) = ((\<exists>t < orviews s i Epoch. e = of_nat t) \<or> current s i e \<or> waited reg inc s i e)"
| "pcInv reg inc s i (RIn e) = (current s i e \<or> waited reg inc s i e)"
| "pcInv reg inc s i p = True"

definition oreading :: "ordered \<Rightarrow> nat \<Rightarrow> bool" where
  "oreading s i \<longleftrightarrow> i < length (othreads s) \<and> (\<exists>e. opc s i = RIn e)"

definition useInv :: "ordered \<Rightarrow> nat \<Rightarrow> bool" where
  "useInv s i \<longleftrightarrow> oreaders s i \<noteq> BFault \<and> oreaders s i \<noteq> BThrew \<and> (\<not> oreading s i \<longrightarrow> oreaders s i = BFresh)
     \<and> (\<forall>a. oreaders s i = BHolds a \<longrightarrow> mval (omem s Current ! orviews s i Current) = Address a
          \<and> cellReady (omem s) a (orviews s i))"

definition fixedInv :: "RCUReaderThreadRegistry \<Rightarrow> ordered \<Rightarrow> bool" where
  "fixedInv reg s \<longleftrightarrow> wf_zone reg (ozone s) \<and> length (othreads s) < 2 ^ 31 \<and> (\<forall>t \<in> set (othreads s). thread_ok reg (tls t))"

definition ordInv :: "RCUReaderThreadRegistry \<Rightarrow> ordered \<Rightarrow> bool" where
  "ordInv reg s \<longleftrightarrow> (\<exists>inc as. fixedInv reg s \<and> memInv s \<and> epochInv s \<and> cellInv as s \<and> countInv reg inc s
     \<and> (\<forall>i < length (othreads s). pcInv reg inc s i (opc s i)) \<and> (\<forall>i. useInv s i))"

subsection \<open>The start\<close>

lemma ordstart_inv:
  assumes "ordstart reg s"
  shows "ordInv reg s"
proof -
  obtain a v where M: "omem s = (\<lambda>l. [\<lparr>mval = initially a v l, mview = (\<lambda>_. 0)\<rparr>])" and a: "0 < v" "a < ofresh s"
    using assms unfolding ordstart_def by blast
  have z: "wf_zone reg (ozone s)" "epochOldest (ozone s) = 0" "length (othreads s) < 2 ^ 31"
    "\<And>t. t \<in> set (othreads s) \<Longrightarrow> thread_ok reg (tls t) \<and> pc t = ROut"
    "ofences s = (\<lambda>_. 0)" "owview s = (\<lambda>_. 0)" "orviews s = (\<lambda>_ _. 0)" "owriter s = WOut" "omodify s = BLoop 0"
    "oreaders s = (\<lambda>_. BFresh)" "ofreed s = {}"
    using assms unfolding ordstart_def by simp_all
  have pc: "opc s i = ROut" if "i < length (othreads s)" for i using z(4) that by simp
  have h: "\<not> held reg (ozone s) r b t" if "t \<in> set (othreads s)" for r b t using z(4) [OF that] by (simp add: held_def)
  then have nh: "nheld reg (ozone s) (othreads s) r b = 0" for r b using nheld_zero by blast
  have "fixedInv reg s" using z by (simp add: fixedInv_def)
  moreover have "memInv s" by (simp add: memInv_def wf_vmem_def known_def M z)
  moreover have "epochInv s" by (simp add: epochInv_def newest_def M z unfenced_def c_nrLoops_def)
  moreover have "cellInv [a] s" by (simp add: cellInv_def cellReady_def newest_def M z a)
  moreover have "countInv reg (\<lambda>_. 0) s" using h by (auto simp: countInv_def M nh intro: exI [of _ 0])
  moreover have "pcInv reg (\<lambda>_. 0) s i (opc s i)" if "i < length (othreads s)" for i using pc [OF that] by simp
  moreover have "useInv s i" for i by (simp add: useInv_def z)
  ultimately show ?thesis unfolding ordInv_def by blast
qed

subsection \<open>Steps of a reader\<close>

lemma memInvD:
  assumes "memInv s"
  shows "wf_vmem (omem s)" "known (omem s) (ofences s)" "known (omem s) (owview s)" "known (omem s) (orviews s i)"
  using assms by (simp_all add: memInv_def)

lemma useInv_idle: "useInv s i \<Longrightarrow> \<not> oreading s i \<Longrightarrow> oreaders s i = BFresh"
  by (simp add: useInv_def)

text \<open>What a step of the reader \<open>i\<close> leaves alone.\<close>

definition sameBut :: "nat \<Rightarrow> ordered \<Rightarrow> ordered \<Rightarrow> bool" where
  "sameBut i s s' \<longleftrightarrow> owview s' = owview s \<and> ozone s' = ozone s \<and> owriter s' = owriter s \<and> omodify s' = omodify s
     \<and> ofresh s' = ofresh s \<and> ofreed s' = ofreed s \<and> omem s' Epoch = omem s Epoch \<and> omem s' Current = omem s Current
     \<and> (\<forall>a. omem s' (Cell a) = omem s (Cell a)) \<and> (\<exists>p. othreads s' = (othreads s)[i := (othreads s ! i)\<lparr>pc := p\<rparr>])
     \<and> (\<forall>j. j \<noteq> i \<longrightarrow> orviews s' j = orviews s j \<and> oreaders s' j = oreaders s j)"

lemma sameButD:
  assumes "sameBut i s s'"
  shows "owview s' = owview s" "ozone s' = ozone s" "owriter s' = owriter s" "omodify s' = omodify s" "ofresh s' = ofresh s"
    "ofreed s' = ofreed s" "omem s' Epoch = omem s Epoch" "omem s' Current = omem s Current" "omem s' (Cell a) = omem s (Cell a)"
    "length (othreads s') = length (othreads s)" "j \<noteq> i \<Longrightarrow> othreads s' ! j = othreads s ! j"
    "j \<noteq> i \<Longrightarrow> orviews s' j = orviews s j" "j \<noteq> i \<Longrightarrow> oreaders s' j = oreaders s j"
    "epochNow s' = epochNow s" "storeNow s' = storeNow s" "unfenced s' = unfenced s"
    "newest (omem s') (Cell a) = newest (omem s) (Cell a)"
  using assms by (auto simp: sameBut_def newest_def unfenced_def)

lemma sameBut_bucket: "sameBut i s s' \<Longrightarrow> bucketOf reg z (othreads s' ! j) = bucketOf reg z (othreads s ! j)"
  by (cases "j = i"; cases "i < length (othreads s)") (auto simp: sameBut_def list_update_beyond)

lemma sameBut_current: "sameBut i s s' \<Longrightarrow> j \<noteq> i \<Longrightarrow> current s' j e = current s j e"
  by (simp add: current_def sameButD)

lemma sameBut_waited: "sameBut i s s' \<Longrightarrow> j \<noteq> i \<Longrightarrow> inc' j = inc j \<Longrightarrow> waited reg inc' s' j e = waited reg inc s j e"
  by (simp add: waited_def sameButD sameBut_bucket)

lemma sameBut_pcInv: "sameBut i s s' \<Longrightarrow> j \<noteq> i \<Longrightarrow> inc' j = inc j \<Longrightarrow> pcInv reg inc' s' j p = pcInv reg inc s j p"
  by (cases p) (simp_all add: sameButD sameBut_current sameBut_waited)

lemma sameBut_ready: "sameBut i s s' \<Longrightarrow> cellReady (omem s') a V = cellReady (omem s) a V"
  by (simp add: cellReady_def sameButD)

lemma sameBut_useInv: "sameBut i s s' \<Longrightarrow> j \<noteq> i \<Longrightarrow> useInv s j \<Longrightarrow> useInv s' j"
  by (simp add: useInv_def oreading_def sameButD sameBut_ready)

lemma sameBut_cellInv: "sameBut i s s' \<Longrightarrow> cellInv as s \<Longrightarrow> cellInv as s'"
  by (simp add: cellInv_def sameButD sameBut_ready)

lemma sameBut_fixedInv:
  assumes "sameBut i s s'" and "fixedInv reg s"
  shows "fixedInv reg s'"
proof -
  obtain p where p: "othreads s' = (othreads s)[i := (othreads s ! i)\<lparr>pc := p\<rparr>]" using assms(1) by (auto simp: sameBut_def)
  have "thread_ok reg (tls t)" if t: "t \<in> set (othreads s')" for t
  proof -
    obtain j where "j < length (othreads s)" "t = othreads s' ! j" using t p by (auto simp: in_set_conv_nth)
    then show ?thesis using assms(2) p by (cases "j = i") (auto simp: fixedInv_def)
  qed
  then show ?thesis using assms(2) sameButD(2,10) [OF assms(1)] by (simp add: fixedInv_def)
qed

lemma sameBut_epochInv:
  assumes "sameBut i s s'" and "epochInv s" and "memInv s'" and "\<And>k. ofences s k \<le> ofences s' k"
  shows "epochInv s'"
proof -
  have "ofences s' Epoch \<le> epochNow s'" using known_newest [OF memInvD(2) [OF assms(3)]] .
  then have "ofences s' Epoch = epochNow s" using assms(4) [of Epoch] assms(2) sameButD(14) [OF assms(1)] by (simp add: epochInv_def)
  then show ?thesis using assms(2) assms(4) [of Current] by (auto simp: epochInv_def sameButD [OF assms(1)])
qed

lemma reader_inv_step:
  assumes inv: "fixedInv reg s" "epochInv s" "cellInv as s" "\<And>j. j < length (othreads s) \<Longrightarrow> pcInv reg inc s j (opc s j)" "\<And>j. useInv s j"
    and same: "sameBut i s s'" and new: "memInv s'" "\<And>k. ofences s k \<le> ofences s' k" "countInv reg inc' s'"
    and inc: "\<And>j. j \<noteq> i \<Longrightarrow> inc' j = inc j" and i: "pcInv reg inc' s' i (opc s' i)" "useInv s' i"
  shows "ordInv reg s'"
proof -
  have "pcInv reg inc' s' j (opc s' j)" if "j < length (othreads s')" for j
    using that i(1) inv(4) [of j] sameBut_pcInv [OF same, of j inc' inc] inc [of j] sameButD(10,11) [OF same] by (cases "j = i") auto
  moreover have "useInv s' j" for j using i(2) sameBut_useInv [OF same _ inv(5)] by (cases "j = i") auto
  ultimately show ?thesis unfolding ordInv_def
    using sameBut_fixedInv [OF same inv(1)] sameBut_epochInv [OF same inv(2) new(1,2)] sameBut_cellInv [OF same inv(3)] new(1,3) by blast
qed

text \<open>Counts are not affected by a move that stays where it is counted.\<close>

lemma countInvD:
  assumes "countInv reg inc s"
  shows "x \<in> set (omem s (Count r b)) \<Longrightarrow> \<exists>n \<le> length (othreads s). mval x = CountIs (of_nat n)"
    "mval (last (omem s (Count r b))) = CountIs (of_nat (nheld reg (ozone s) (othreads s) r b))"
    "i < length (othreads s) \<Longrightarrow> held reg (ozone s) r b (othreads s ! i) \<Longrightarrow> inc i \<le> ofences s (Count r b)"
    "i < length (othreads s) \<Longrightarrow> held reg (ozone s) r b (othreads s ! i) \<Longrightarrow> t < length (omem s (Count r b)) \<Longrightarrow> inc i \<le> t \<Longrightarrow>
       mval (omem s (Count r b) ! t) \<noteq> CountIs 0"
  using assms unfolding countInv_def by blast+

lemma countInv_quiet:
  assumes c: "countInv reg inc s" and m: "omem s' = omem s" "ofences s' = ofences s" "ozone s' = ozone s"
    and th: "othreads s' = (othreads s)[i := (othreads s ! i)\<lparr>pc := p\<rparr>]" "i < length (othreads s)"
    and p: "\<And>r. countedIn p r = countedIn (opc s i) r"
  shows "countInv reg inc s'"
proof -
  have h: "held reg (ozone s) r b (othreads s' ! j) = held reg (ozone s) r b (othreads s ! j)" for r b j
    using th p by (cases "j = i") (simp_all add: held_def)
  have "nheld reg (ozone s) (othreads s') r b = nheld reg (ozone s) (othreads s) r b" for r b
    using nheld_setPc [OF th(2), of reg "ozone s" p r b] p th(1) by simp
  then show ?thesis using c h th by (simp add: countInv_def m)
qed

lemma reader_quiet:
  assumes inv: "ordInv reg s" and i: "i < length (othreads s)" and V: "known (omem s) V"
    and s': "s' = (moveReader i p V s)\<lparr>oreaders := (oreaders s)(i := u)\<rparr>"
    and p: "\<And>r. countedIn p r = countedIn (opc s i) r"
    and pc: "\<And>inc. epochInv s \<Longrightarrow> pcInv reg inc s i (opc s i) \<Longrightarrow> pcInv reg inc s' i p"
    and use: "\<And>as. cellInv as s \<Longrightarrow> epochInv s \<Longrightarrow> useInv s i \<Longrightarrow> useInv s' i"
  shows "ordInv reg s'"
proof -
  obtain inc as where d: "fixedInv reg s" "memInv s" "epochInv s" "cellInv as s" "countInv reg inc s"
    "\<And>i. i < length (othreads s) \<Longrightarrow> pcInv reg inc s i (opc s i)" "\<And>i. useInv s i"
    using inv unfolding ordInv_def by blast
  have same: "sameBut i s s'" by (auto simp: s' sameBut_def)
  have mem: "memInv s'" using d(2) V by (auto simp: s' memInv_def)
  have count: "countInv reg inc s'" by (rule countInv_quiet [OF d(5) _ _ _ _ i p]) (simp_all add: s')
  have at: "opc s' i = p" using i by (simp add: s')
  have fence: "\<And>k. ofences s k \<le> ofences s' k" by (simp add: s')
  show ?thesis
    by (rule reader_inv_step [OF d(1,3,4,6,7) same mem fence count refl]) (use pc [OF d(3) d(6) [OF i]] use [OF d(4,3,7)] at in simp_all)
qed

text \<open>A fenced \<open>fetch_add\<close> on a count.\<close>

lemma countAdd_facts:
  assumes "countAdd True reg ord i r b d p s = Some s'" and mem: "memInv s"
  obtains m c where "mval (last (omem s (Count r b))) = CountIs c" "mval m = CountIs (c + d)"
    "omem s' = (omem s)(Count r b := omem s (Count r b) @ [m])"
    "othreads s' = (othreads s)[i := (othreads s ! i)\<lparr>pc := p\<rparr>]" "oreaders s' = oreaders s" "ozone s' = ozone s"
    "sameBut i s s'" "memInv s'" "\<And>k. ofences s k \<le> ofences s' k" "\<And>k. ofences s k \<le> orviews s' i k" "\<And>k. orviews s i k \<le> orviews s' i k"
    "ofences s' (Count r b) = length (omem s (Count r b))" "known (omem s') (orviews s' i)"
proof -
  let ?f = "\<lambda>x. do { c \<leftarrow> countIn x; Some (CountIs (c + d)) }"
  obtain x M V S where rmw: "atomicRMW True ord (Count r b) ?f (omem s) (orviews s i) (ofences s) = Some (x, M, V, S)"
    and s': "s' = moveReader i p V (s\<lparr>omem := M, ofences := S\<rparr>)"
    using assms(1) by (auto simp: countAdd_def split: bind_splits if_splits)
  obtain y W where y: "?f (mval (last (omem s (Count r b)))) = Some y"
    "M = (omem s)(Count r b := omem s (Count r b) @ [\<lparr>mval = y, mview = W\<rparr>])"
    using atomicRMWE [OF rmw] by blast
  obtain c where c: "mval (last (omem s (Count r b))) = CountIs c" "y = CountIs (c + d)"
    using y(1) by (cases "mval (last (omem s (Count r b)))") auto
  note k = atomicRMW_known [OF rmw memInvD(1) [OF mem] memInvD(4) [OF mem] memInvD(2) [OF mem]]
  have M: "\<And>l. l \<noteq> Count r b \<Longrightarrow> M l = omem s l" by (simp add: y(2))
  show ?thesis
  proof (rule that [OF c(1), of "\<lparr>mval = y, mview = W\<rparr>"])
    show "sameBut i s s'" by (auto simp: s' sameBut_def M)
    have "known M (owview s)" "known M (orviews s j)" for j using grows_known [OF k(2)] memInvD(3,4) [OF mem] by blast+
    then show "memInv s'" using k(1,3,4) by (simp add: memInv_def s')
    show "ofences s' (Count r b) = length (omem s (Count r b))" using k(7,8) by (simp add: s')
  qed (use c(2) y(2) k in \<open>simp_all add: s'\<close>)
qed

lemma held_exact:
  assumes "countInv reg inc s" and "mval (last (omem s (Count r b))) = CountIs c"
  shows "c = of_nat (nheld reg (ozone s) (othreads s) r b)"
  using countInvD(2) [OF assms(1), of r b] assms(2) by simp

text \<open>
  A \<open>fetch_add\<close> by which the thread \<open>i\<close> counts itself in or out: the new message is exact, and it is the one
  that the thread has to be seen by.
\<close>

lemma countInv_append:
  assumes c: "countInv reg inc s" and fx: "fixedInv reg s"
    and exact: "mval m = CountIs (of_nat (nheld reg (ozone s) (othreads s') r b))"
    and nh: "\<And>r' b'. r' \<noteq> r \<or> b' \<noteq> b \<Longrightarrow> nheld reg (ozone s) (othreads s') r' b' = nheld reg (ozone s) (othreads s) r' b'"
    and self: "\<And>r' b'. i < length (othreads s) \<Longrightarrow> held reg (ozone s) r' b' (othreads s' ! i) \<Longrightarrow> r' = r \<and> b' = b"
    and s': "omem s' = (omem s)(Count r b := omem s (Count r b) @ [m])" "ozone s' = ozone s"
      "othreads s' = (othreads s)[i := (othreads s ! i)\<lparr>pc := p\<rparr>]"
      "\<And>k. ofences s k \<le> ofences s' k" "ofences s' (Count r b) = length (omem s (Count r b))"
  shows "countInv reg (inc(i := length (omem s (Count r b)))) s'"
proof -
  let ?inc = "inc(i := length (omem s (Count r b)))"
  have le: "nheld reg (ozone s) (othreads s') r b \<le> length (othreads s)"
    using nheld_le [of reg "ozone s" "othreads s'" r b] s'(3) by simp
  have pos: "mval m \<noteq> CountIs 0" if "j < length (othreads s)" "held reg (ozone s) r b (othreads s' ! j)" for j
  proof -
    have "nheld reg (ozone s) (othreads s') r b \<noteq> 0" using that s'(3) nheld_zero by (metis length_list_update nth_mem)
    then show ?thesis using exact le fx of_nat_u32(2) [of "nheld reg (ozone s) (othreads s') r b"] by (simp add: fixedInv_def)
  qed
  have "\<exists>n \<le> length (othreads s'). mval x = CountIs (of_nat n)" if "x \<in> set (omem s' (Count r' b'))" for x r' b'
    using that countInvD(1) [OF c] exact le s'(1,3) by (auto split: if_splits)
  moreover have "mval (last (omem s' (Count r' b'))) = CountIs (of_nat (nheld reg (ozone s') (othreads s') r' b'))" for r' b'
    using countInvD(2) [OF c] exact nh s'(1,2) by auto
  moreover have "?inc j \<le> ofences s' (Count r' b') \<and>
      (\<forall>t < length (omem s' (Count r' b')). ?inc j \<le> t \<longrightarrow> mval (omem s' (Count r' b') ! t) \<noteq> CountIs 0)"
    if j: "j < length (othreads s')" "held reg (ozone s') r' b' (othreads s' ! j)" for j r' b'
  proof (cases "j = i")
    case True
    then have "r' = r" "b' = b" "j < length (othreads s)" using self j s'(2,3) by auto
    then show ?thesis using True s'(1,2,5) pos [of j] j(2) by (auto simp: nth_append)
  next
    case False
    then have h: "held reg (ozone s) r' b' (othreads s ! j)" "j < length (othreads s)" using j s'(2,3) by simp_all
    have "inc j \<le> ofences s' (Count r' b')" using countInvD(3) [OF c h(2,1)] s'(4) [of "Count r' b'"] by linarith
    moreover have "mval (omem s' (Count r' b') ! t) \<noteq> CountIs 0" if "t < length (omem s' (Count r' b'))" "inc j \<le> t" for t
      using that countInvD(4) [OF c h(2,1), of t] pos [of j] h(2) j(2) s'(1,2)
      by (cases "r' = r \<and> b' = b") (auto simp: nth_append split: if_splits)
    ultimately show ?thesis using False by simp
  qed
  ultimately show ?thesis unfolding countInv_def by blast
qed

text \<open>The step of a reader that counts itself in or out.\<close>

lemma reader_count:
  assumes inv: "ordInv reg s" and i: "i < length (othreads s)"
    and add: "countAdd True reg ord i r (bucketOf reg (ozone s) (othreads s ! i)) d p s = Some s1"
    and s': "s' = s1\<lparr>oreaders := (oreaders s)(i := u)\<rparr>"
    and dir: "d = 1 \<and> (\<forall>r'. \<not> countedIn (opc s i) r') \<and> (\<forall>r'. countedIn p r' \<longleftrightarrow> r = r')
      \<or> d = -1 \<and> (\<forall>r'. \<not> countedIn p r') \<and> (\<forall>r'. countedIn (opc s i) r' \<longleftrightarrow> r = r')"
    and pc: "\<And>inc inc'. epochInv s \<Longrightarrow> pcInv reg inc s i (opc s i) \<Longrightarrow> sameBut i s s' \<Longrightarrow> (\<And>k. ofences s k \<le> orviews s' i k) \<Longrightarrow> pcInv reg inc' s' i p"
    and use: "u = BFresh" "\<not> (\<exists>e. p = RIn e)"
  shows "ordInv reg s'"
proof -
  obtain inc as where iv: "fixedInv reg s" "memInv s" "epochInv s" "cellInv as s" "countInv reg inc s"
    "\<And>i. i < length (othreads s) \<Longrightarrow> pcInv reg inc s i (opc s i)" "\<And>i. useInv s i"
    using inv unfolding ordInv_def by blast
  let ?b = "bucketOf reg (ozone s) (othreads s ! i)"
  obtain m c where f: "mval (last (omem s (Count r ?b))) = CountIs c" "mval m = CountIs (c + d)"
    "omem s1 = (omem s)(Count r ?b := omem s (Count r ?b) @ [m])"
    "othreads s1 = (othreads s)[i := (othreads s ! i)\<lparr>pc := p\<rparr>]" "oreaders s1 = oreaders s" "ozone s1 = ozone s"
    "sameBut i s s1" "memInv s1" "\<And>k. ofences s k \<le> ofences s1 k" "\<And>k. ofences s k \<le> orviews s1 i k"
    "ofences s1 (Count r ?b) = length (omem s (Count r ?b))"
    using countAdd_facts [OF add iv(2)] by metis
  let ?n = "\<lambda>ts r' b'. nheld reg (ozone s) ts r' b'"
  have same: "sameBut i s s'" using f(7) by (simp add: s' sameBut_def)
  have th: "othreads s' = (othreads s)[i := (othreads s ! i)\<lparr>pc := p\<rparr>]" by (simp add: s' f(4))
  have c: "c = of_nat (?n (othreads s) r ?b)" using countInvD(2) [OF iv(5), of r ?b] f(1) by simp
  have nh: "?n (othreads s') r' b' + (if countedIn (opc s i) r' \<and> ?b = b' then 1 else 0)
      = ?n (othreads s) r' b' + (if countedIn p r' \<and> ?b = b' then 1 else 0)" for r' b'
    unfolding th by (rule nheld_setPc [OF i])
  have "countInv reg (inc(i := length (omem s (Count r ?b)))) s'"
  proof (rule countInv_append [OF iv(5,1)])
    show "mval m = CountIs (of_nat (?n (othreads s') r ?b))"
      using dir
    proof (elim disjE conjE)
      assume "d = 1" "\<forall>r'. \<not> countedIn (opc s i) r'" "\<forall>r'. countedIn p r' \<longleftrightarrow> r = r'"
      then show ?thesis using f(2) c nh [of r ?b] by simp
    next
      assume "d = -1" "\<forall>r'. \<not> countedIn p r'" "\<forall>r'. countedIn (opc s i) r' \<longleftrightarrow> r = r'"
      moreover from this have "?n (othreads s) r ?b = Suc (?n (othreads s') r ?b)" using nh [of r ?b] by simp
      ultimately show ?thesis using f(2) c by simp
    qed
    show "?n (othreads s') r' b' = ?n (othreads s) r' b'" if "r' \<noteq> r \<or> b' \<noteq> ?b" for r' b'
      using nh [of r' b'] dir that by (auto split: if_splits)
    show "r' = r \<and> b' = ?b" if "held reg (ozone s) r' b' (othreads s' ! i)" for r' b'
      using that dir i by (auto simp: held_def th)
  qed (use f(3,6,9,11) th in \<open>simp_all add: s'\<close>)
  moreover have "memInv s'" "\<And>k. ofences s k \<le> ofences s' k" using f(8,9) by (simp_all add: s' memInv_def)
  moreover have at: "opc s' i = p" using i by (simp add: th)
  moreover have "useInv s' i" using use at i by (auto simp: useInv_def oreading_def s')
  moreover have "pcInv reg (inc(i := length (omem s (Count r ?b)))) s' i p"
    by (rule pc [OF iv(3) iv(6) [OF i] same]) (use f(10) in \<open>simp add: s'\<close>)
  ultimately show ?thesis
    by (intro reader_inv_step [OF iv(1,3,4,6,7) same, where inc' = "inc(i := length (omem s (Count r ?b)))"]) simp_all
qed

text \<open>A thread that learns more stays where it is.\<close>

lemma current_mono:
  assumes "sameBut i s s'" and "orviews s i Current \<le> orviews s' i Current" and "current s i e"
  shows "current s' i e"
  using assms(2,3) sameButD(14-16) [OF assms(1)] by (auto simp: current_def)

lemma waited_mono:
  assumes "sameBut i s s'" and "orviews s i Current \<le> orviews s' i Current" and "waited reg inc s i e"
  shows "waited reg inc s' i e"
  using assms(2,3) sameButD [OF assms(1)] sameBut_bucket [OF assms(1)] by (auto simp: waited_def)

lemma epoch_small:
  assumes "epochInv s"
  shows "epochNow s < 2 ^ 63"
proof -
  have "int (epochNow s) \<le> iteration (omodify s) + 1" using assms by (cases "omodify s") (auto simp: epochInv_def split: if_splits)
  moreover have "iteration (omodify s) \<le> c_nrLoops" using assms by (simp add: epochInv_def)
  ultimately show ?thesis by (simp add: c_nrLoops_def)
qed

lemma epoch_loaded:
  assumes "epochInv s" and "memInv s" and "loadAs epochIn ord Epoch t (omem s) V = Some (e, V')"
  shows "e = of_nat t \<and> V Epoch \<le> t \<and> t \<le> epochNow s"
proof -
  obtain x where x: "atomicLoad ord Epoch t (omem s) V = Some (x, V')" "epochIn x = Some e"
    using assms(3) by (auto simp: loadAs_def split: bind_splits)
  then have t: "V Epoch \<le> t" "t < length (omem s Epoch)" "x = mval (omem s Epoch ! t)" by (auto elim: atomicLoadE)
  then have "t \<le> epochNow s" using wf_vmemD(4) [OF memInvD(1) [OF assms(2)], of Epoch] by simp
  then show ?thesis using t x(2) assms(1) by (simp add: epochInv_def)
qed

lemma loadAs_view:
  assumes "loadAs ty ord l t M V = Some (x, V')" and "wf_vmem M" and "known M V"
  shows "known M V'" "V k \<le> V' k"
  using assms atomicLoad_known by (fastforce simp: loadAs_def split: bind_splits)+

text \<open>The value a reader holds is initialised and not yet freed.\<close>

lemma held_live:
  assumes iv: "cellInv as s" "epochInv s" "memInv s" and use: "useInv s i" "oreaders s i = BHolds a"
    and cur: "current s i e \<or> waited reg inc s i e"
  shows "dereference a (orviews s i) s = BUsed"
proof -
  let ?t = "orviews s i Current"
  have t: "?t \<le> storeNow s" using known_newest [OF memInvD(4) [OF iv(3)]] .
  have a: "a = as ! ?t" "cellReady (omem s) a (orviews s i)" using use iv(1) t by (auto simp: useInv_def cellInv_def)
  have "kept (omodify s) (storeNow s) \<le> ?t"
  proof -
    have "\<exists>k p. omodify s = BStored k p" if "owriter s \<noteq> WOut" using iv(2) that by (simp add: epochInv_def)
    then show ?thesis using cur by (cases "omodify s") (auto simp: current_def waited_def unfenced_def split: if_splits)
  qed
  moreover have "?t < length as" "distinct as" using iv(1) t by (simp_all add: cellInv_def)
  ultimately have "a \<notin> set (take (kept (omodify s) (storeNow s)) as)"
    unfolding a(1) by (auto simp: in_set_conv_nth nth_eq_iff_index_eq)
  then have "a \<notin> ofreed s" using iv(1) by (auto simp: cellInv_def)
  moreover have "omem s (Cell a) \<noteq> []" using wf_vmemD(1) [OF memInvD(1) [OF iv(3)]] .
  ultimately show ?thesis using a(2) by (auto simp: dereference_def plainLoad_def cellReady_def funcThrows_def)
qed

text \<open>A reader that loads the address knows that the value is initialised.\<close>

lemma address_loaded:
  assumes iv: "cellInv as s" "memInv s" and l: "atomicLoad Acquire Current t (omem s) V = Some (x, V')" "addressIn x = Some a"
  shows "mval (omem s Current ! V' Current) = Address a" "cellReady (omem s) a V'" "V' Current = t" "t \<le> storeNow s"
proof -
  have t: "t < length (omem s Current)" "x = mval (omem s Current ! t)" "V' = join (V(Current := t)) (mview (omem s Current ! t))"
    using l(1) by (auto simp: acquires_def elim: atomicLoadE)
  note wf = memInvD(1) [OF iv(2)]
  show le: "t \<le> storeNow s" using t(1) wf_vmemD(4) [OF wf, of Current] by simp
  show "V' Current = t" using t(3) wf_vmemD(3) [OF wf t(1)] by (simp add: join_apply)
  have x: "x = Address a" using l(2) by (cases x) simp_all
  with \<open>V' Current = t\<close> show "mval (omem s Current ! V' Current) = Address a" using t(2) by simp
  have "a = as ! t" "cellReady (omem s) (as ! t) (mview (omem s Current ! t))"
    using iv(1) le t(2) x by (auto simp: cellInv_def)
  then show "cellReady (omem s) a V'" using t(3) by (auto simp: cellReady_def join_apply)
qed

text \<open>Every step of a reader.\<close>

lemma orderedRead_inv:
  assumes inv: "ordInv reg s" and st: "orderedRead True reg i t s = Some s'"
  shows "ordInv reg s'"
proof -
  let ?V = "orviews s i"
  have i: "i < length (othreads s)" using st by (simp split: if_splits)
  obtain inc as where iv: "fixedInv reg s" "memInv s" "epochInv s" "cellInv as s" "useInv s i" "pcInv reg inc s i (opc s i)"
    using inv i unfolding ordInv_def by blast
  have known: "known (omem s) ?V" using memInvD(4) [OF iv(2)] .
  note view = loadAs_view [OF _ memInvD(1) [OF iv(2)] known]
  have idle: "oreaders s i = BFresh" if "\<And>e. opc s i \<noteq> RIn e" using useInv_idle [OF iv(5)] that by (auto simp: oreading_def)
  have unused: "(moveReader i p V s)\<lparr>oreaders := (oreaders s)(i := BFresh)\<rparr> = moveReader i p V s" if "oreaders s i = BFresh" for p V
    using that by (simp add: moveReader_def fun_upd_idem)
  have same: "sameBut i s (moveReader i p V s)" for p V by (auto simp: sameBut_def)
  show ?thesis
  proof (cases "opc s i")
    case ROut
    then have s': "s' = moveReader i RTop ?V s" using st i by simp
    have o: "oreaders s i = BFresh" using idle ROut by simp
    show ?thesis
      by (rule reader_quiet [OF inv i known, where p = RTop and u = BFresh])
        (use s' ROut o unused [OF o] in \<open>simp_all add: useInv_def\<close>)
  next
    case RTop
    then obtain e V' where l: "loadAs epochIn Relaxed Epoch t (omem s) ?V = Some (e, V')" "s' = moveReader i (RLoaded e) V' s"
      using st i by (auto split: bind_splits)
    have o: "oreaders s i = BFresh" using idle RTop by simp
    have "pcInv reg inc0 s' i (RLoaded e)" for inc0
      using epoch_loaded [OF iv(3,2) l(1)] sameButD(14) [OF same] l(2) by auto
    then show ?thesis
      by (intro reader_quiet [OF inv i view(1) [OF l(1)], where p = "RLoaded e" and u = BFresh])
        (use l(2) RTop o unused [OF o] in \<open>simp_all add: useInv_def\<close>)
  next
    case (RLoaded e)
    then have add: "countAdd True reg AcqRel i (row e) (bucketOf reg (ozone s) (othreads s ! i)) 1 (RCounted e) s = Some s'" using st i by simp
    have o: "oreaders s' = oreaders s" using add by (auto simp: countAdd_def split: bind_splits if_splits)
    have s': "s' = s'\<lparr>oreaders := (oreaders s)(i := BFresh)\<rparr>" using idle RLoaded o by (simp add: fun_upd_idem)
    show ?thesis
    proof (rule reader_count [OF inv i add s'])
      fix inc0 inc1 assume "pcInv reg inc0 s i (opc s i)" and sb: "sameBut i s s'" and S: "\<And>k. ofences s k \<le> orviews s' i k"
      then obtain t where t: "t \<le> epochNow s" "e = of_nat t" using RLoaded by auto
      show "pcInv reg inc1 s' i (RCounted e)"
      proof (cases "t = epochNow s")
        case True
        then have "current s' i e" using t S [of Current] iv(3) sameButD(14-16) [OF sb]
          by (auto simp: current_def epochInv_def split: if_splits)
        then show ?thesis by simp
      next
        case False
        then have "t < orviews s' i Epoch" using t S [of Epoch] iv(3) by (simp add: epochInv_def)
        then show ?thesis using t(2) by auto
      qed
    qed (use RLoaded in auto)
  next
    case (RCounted e)
    then obtain e' V' where l: "loadAs epochIn Acquire Epoch t (omem s) ?V = Some (e', V')"
      "s' = moveReader i (if e' = e then RIn e else RRevert e) V' s"
      using st i by (auto split: bind_splits)
    have e': "e' = of_nat t" "?V Epoch \<le> t" "t \<le> epochNow s" using epoch_loaded [OF iv(3,2) l(1)] by simp_all
    have mono: "orviews s i Current \<le> orviews s' i Current" using view(2) [OF l(1)] l(2) by simp
    have sb: "sameBut i s s'" using same l(2) by simp
    have o: "oreaders s i = BFresh" using idle RCounted by simp
    show ?thesis
    proof (rule reader_quiet [OF inv i view(1) [OF l(1)], where p = "if e' = e then RIn e else RRevert e" and u = BFresh])
      fix inc0 assume pc: "pcInv reg inc0 s i (opc s i)"
      have "current s i e \<or> waited reg inc0 s i e" if "e' = e"
      proof -
        have False if u: "u < ?V Epoch" "e = of_nat u" for u
          using u e' \<open>e' = e\<close> epoch_small [OF iv(3)] of_nat_u64_eq [of t u] by simp
        then show ?thesis using pc RCounted by auto
      qed
      then show "pcInv reg inc0 s' i (if e' = e then RIn e else RRevert e)" using current_mono [OF sb mono] waited_mono [OF sb mono] by auto
    qed (use l(2) RCounted o unused [OF o] in \<open>simp_all add: useInv_def\<close>)
  next
    case (RRevert e)
    then have add: "countAdd True reg Relaxed i (row e) (bucketOf reg (ozone s) (othreads s ! i)) (-1) RTop s = Some s'" using st i by simp
    have o: "oreaders s' = oreaders s" using add by (auto simp: countAdd_def split: bind_splits if_splits)
    have s': "s' = s'\<lparr>oreaders := (oreaders s)(i := BFresh)\<rparr>" using idle RRevert o by (simp add: fun_upd_idem)
    show ?thesis by (rule reader_count [OF inv i add s']) (use RRevert in auto)
  next
    case (RIn e)
    show ?thesis
    proof (cases "oreaders s i")
      case BFresh
      then obtain a V' where l: "loadAs addressIn Acquire Current t (omem s) ?V = Some (a, V')"
        "s' = (moveReader i (RIn e) V' s)\<lparr>oreaders := (oreaders s)(i := BHolds a)\<rparr>"
        using st i RIn by (auto split: bind_splits)
      have sb: "sameBut i s s'" using l(2) by (auto simp: sameBut_def)
      have mono: "orviews s i Current \<le> orviews s' i Current" using view(2) [OF l(1)] l(2) by simp
      obtain x where x: "atomicLoad Acquire Current t (omem s) ?V = Some (x, V')" "addressIn x = Some a"
        using l(1) by (auto simp: loadAs_def split: bind_splits)
      have ready: "mval (omem s Current ! V' Current) = Address a" "cellReady (omem s) a V'" using address_loaded [OF iv(4,2) x] by simp_all
      have at: "opc s' i = RIn e" "orviews s' i = V'" "oreaders s' i = BHolds a" using i l(2) by simp_all
      show ?thesis
      proof (rule reader_quiet [OF inv i view(1) [OF l(1)] l(2)])
        show "pcInv reg inc0 s' i (RIn e)" if "pcInv reg inc0 s i (opc s i)" for inc0
          using that RIn current_mono [OF sb mono] waited_mono [OF sb mono] by auto
        show "useInv s' i" using ready sameButD(8) [OF sb] sameBut_ready [OF sb] at l(2) i by (auto simp: useInv_def oreading_def)
      qed (simp add: RIn)
    next
      case (BHolds a)
      then have s': "s' = s\<lparr>oreaders := (oreaders s)(i := dereference a ?V s)\<rparr>" using st i RIn by simp
      have u: "dereference a ?V s = BUsed" using held_live [OF iv(4,3,2,5) BHolds] iv(6) RIn by simp
      have "(othreads s ! i)\<lparr>pc := RIn e\<rparr> = othreads s ! i" using RIn by (cases "othreads s ! i") simp
      then have s1: "s' = (moveReader i (RIn e) ?V s)\<lparr>oreaders := (oreaders s)(i := BUsed)\<rparr>"
        using s' u by (simp add: moveReader_def)
      have sb: "sameBut i s s'" using s1 by (auto simp: sameBut_def)
      show ?thesis
      proof (rule reader_quiet [OF inv i known s1])
        show "pcInv reg inc0 s' i (RIn e)" if "pcInv reg inc0 s i (opc s i)" for inc0
          using that RIn current_mono [OF sb] waited_mono [OF sb] s1 by auto
        show "useInv s' i" using s1 i by (auto simp: useInv_def oreading_def)
      qed (simp add: RIn)
    next
      case BUsed
      then obtain s1 where add: "countAdd True reg AcqRel i (row e) (bucketOf reg (ozone s) (othreads s ! i)) (-1) ROut s = Some s1"
        and s': "s' = s1\<lparr>oreaders := (oreaders s)(i := BFresh)\<rparr>"
        using st i RIn by (auto split: bind_splits)
      show ?thesis by (rule reader_count [OF inv i add s']) (use RIn in auto)
    qed (use st i RIn in simp_all)
  qed
qed

subsection \<open>Steps of the writer\<close>

text \<open>What a step of the writer leaves to the readers, if it keeps those that are counted in.\<close>

lemma writer_step_inv:
  assumes inv: "fixedInv reg s" "memInv s" "cellInv as s" "countInv reg inc s"
      "\<And>i. i < length (othreads s) \<Longrightarrow> pcInv reg inc s i (opc s i)" "\<And>i. useInv s i"
    and th: "othreads s' = othreads s" "orviews s' = orviews s" "oreaders s' = oreaders s" "ozone s' = (ozone s)\<lparr>epochOldest := old\<rparr>"
    and M: "grows (omem s) (omem s')" "\<And>r b. omem s' (Count r b) = omem s (Count r b)"
      "\<And>a. a < ofresh s \<Longrightarrow> omem s' (Cell a) = omem s (Cell a)" "\<And>k. ofences s k \<le> ofences s' k"
    and new: "memInv s'" "epochInv s'" "cellInv as' s'"
    and keep: "\<And>i e. i < length (othreads s) \<Longrightarrow> held reg (ozone s) (row e) (bucketOf reg (ozone s) (othreads s ! i)) (othreads s ! i)
      \<Longrightarrow> current s i e \<or> waited reg inc s i e \<Longrightarrow> current s' i e \<or> waited reg inc s' i e"
  shows "ordInv reg s'"
proof -
  have "fixedInv reg s'" using inv(1) by (simp add: fixedInv_def th wf_zone_def nbuckets_def split: option.splits)
  moreover have "countInv reg inc s'"
  proof -
    have h: "held reg (ozone s') r b t = held reg (ozone s) r b t" "nheld reg (ozone s') ts r b = nheld reg (ozone s) ts r b" for r b t ts
      by (simp_all add: th held_def)
    have "inc i \<le> ofences s' (Count r b)" if "i < length (othreads s)" "held reg (ozone s) r b (othreads s ! i)" for i r b
      using countInvD(3) [OF inv(4) that] M(4) [of "Count r b"] by linarith
    then show ?thesis using countInvD(1,2,4) [OF inv(4)] by (simp add: countInv_def th(1) M(2) h)
  qed
  moreover have "pcInv reg inc s' i (opc s' i)" if i: "i < length (othreads s')" for i
  proof -
    have le: "epochNow s \<le> epochNow s'" using grows_length [OF M(1), of Epoch] by (simp add: newest_def)
    have i': "i < length (othreads s)" using i th(1) by simp
    show ?thesis
    proof (cases "opc s i")
      case (RLoaded e)
      then obtain t where "t \<le> epochNow s" "e = of_nat t" using inv(5) [OF i'] by auto
      then have "\<exists>t \<le> epochNow s'. e = of_nat t" using le order_trans by blast
      then show ?thesis using RLoaded by (simp add: th)
    next
      case (RCounted e)
      then show ?thesis using inv(5) [OF i'] keep [OF i', of e] by (auto simp: th held_def)
    next
      case (RIn e)
      then show ?thesis using inv(5) [OF i'] keep [OF i', of e] by (auto simp: th held_def)
    qed (simp_all add: th)
  qed
  moreover have "useInv s' i" for i
  proof -
    have "cellReady (omem s') a (orviews s i) \<and> mval (omem s' Current ! orviews s i Current) = Address a"
      if a: "oreaders s i = BHolds a" for a
    proof -
      let ?t = "orviews s i Current"
      have t: "?t < length (omem s Current)" using memInvD(4) [OF inv(2)] by (simp add: known_def)
      have u: "mval (omem s Current ! ?t) = Address a" "cellReady (omem s) a (orviews s i)" using inv(6) [of i] a by (simp_all add: useInv_def)
      have "?t \<le> storeNow s" using known_newest [OF memInvD(4) [OF inv(2)]] .
      then have "a = as ! ?t" "as ! ?t < ofresh s" using inv(3) u(1) by (auto simp: cellInv_def)
      then show ?thesis using M(3) [of a] u grows_nth [OF M(1) t] by (simp add: cellReady_def newest_def)
    qed
    then show ?thesis using inv(6) [of i] by (simp add: useInv_def oreading_def th)
  qed
  ultimately show ?thesis unfolding ordInv_def using new by blast
qed

lemma epochInvD:
  assumes "epochInv s"
  shows "ofences s Epoch = epochNow s" "owview s Epoch = epochNow s" "owview s Current = storeNow s"
    "t \<le> epochNow s \<Longrightarrow> mval (omem s Epoch ! t) = EpochIs (of_nat t)"
    "\<not> unfenced s \<Longrightarrow> storeNow s \<le> ofences s Current" "storeNow s \<le> Suc (ofences s Current)"
    "int (epochNow s) \<le> epochBound (omodify s) (owriter s)" "iteration (omodify s) \<le> c_nrLoops"
    "(\<forall>k. omodify s \<noteq> BLoop k) \<Longrightarrow> iteration (omodify s) < c_nrLoops"
    "writer_inv ((ozone s)\<lparr>epochLatest := of_nat (epochNow s)\<rparr>) (owriter s)"
    "owriter s \<noteq> WOut \<Longrightarrow> \<exists>k p. omodify s = BStored k p"
  using assms unfolding epochInv_def by (auto split: if_splits)

text \<open>Loads and the end of an iteration.\<close>

lemma modify_quiet:
  assumes inv: "ordInv reg s" and w: "owriter s = WOut" "\<And>k p. omodify s \<noteq> BStored k p" "\<And>k p. w \<noteq> BStored k p"
    and V: "known (omem s) V" "V Current = storeNow s" "\<And>k. owview s k \<le> V k"
    and s': "s' = s\<lparr>owview := V, omodify := w, ofreed := F\<rparr>"
    and ep: "epochInv s \<Longrightarrow> int (epochNow s) \<le> epochBound w WOut \<and> iteration w \<le> c_nrLoops \<and> ((\<forall>k. w \<noteq> BLoop k) \<longrightarrow> iteration w < c_nrLoops)"
    and cells: "\<And>as. cellInv as s \<Longrightarrow> epochInv s \<Longrightarrow> F \<subseteq> set (take (kept w (storeNow s)) as) \<and> oldIs w as (storeNow s)"
  shows "ordInv reg s'"
proof -
  obtain inc as where iv: "fixedInv reg s" "memInv s" "epochInv s" "cellInv as s" "countInv reg inc s"
    "\<And>i. i < length (othreads s) \<Longrightarrow> pcInv reg inc s i (opc s i)" "\<And>i. useInv s i"
    using inv unfolding ordInv_def by blast
  have n: "epochNow s' = epochNow s" "storeNow s' = storeNow s" "unfenced s = False" "unfenced s' = False"
    using w by (simp_all add: s' unfenced_def)
  have "V Epoch = epochNow s" using known_newest [OF V(1), of Epoch] V(3) [of Epoch] epochInvD(2) [OF iv(3)] by simp
  then have "epochInv s'" using epochInvD [OF iv(3)] ep [OF iv(3)] V(2) w n by (simp add: epochInv_def s')
  moreover have "memInv s'" using iv(2) V(1) by (simp add: memInv_def s')
  moreover have "cellInv as s'" using iv(4) cells [OF iv(4,3)] by (simp add: cellInv_def s')
  moreover have "current s' i e" if "current s i e \<or> waited reg inc s i e" for i e
    using that w by (simp add: current_def waited_def n) (simp add: s')
  ultimately show ?thesis
    by (intro writer_step_inv [OF iv(1,2,4,5,6,7), where old = "epochOldest (ozone s)"]) (simp_all add: s')
qed

text \<open>The writer replaces \<open>pCurrent\<close>.\<close>

lemma replace_inv:
  assumes inv: "ordInv reg s" and BLoaded: "omodify s = BLoaded k pOld" and v: "0 < v"
    and st: "atomicStore Relaxed (Cell (ofresh s)) (Int64 v) (omem s) (owview s) = (M1, V1)"
      "atomicStore Release Current (Address (ofresh s)) M1 V1 = (M2, V2)"
    and s': "s' = s\<lparr>omem := M2, owview := V2, ofresh := Suc (ofresh s), omodify := BStored k pOld\<rparr>"
  shows "ordInv reg s'"
proof -
  obtain inc as where iv: "fixedInv reg s" "memInv s" "epochInv s" "cellInv as s" "countInv reg inc s"
    "\<And>i. i < length (othreads s) \<Longrightarrow> pcInv reg inc s i (opc s i)" "\<And>i. useInv s i"
    using inv unfolding ordInv_def by blast
  let ?a = "ofresh s"
  let ?c = "storeNow s"
  note ed = epochInvD [OF iv(3)]
  have w: "owriter s = WOut" using ed(11) BLoaded by force
  note wf = memInvD(1) [OF iv(2)]
  note k1 = atomicStore_known [OF st(1) wf memInvD(3) [OF iv(2)]]
  note k2 = atomicStore_known [OF st(2) k1(1,3)]
  have g: "grows (omem s) M2" using grows_trans [OF k1(2) k2(2)] .
  have M1: "M1 = (omem s)(Cell ?a := omem s (Cell ?a) @ [\<lparr>mval = Int64 v, mview = (\<lambda>_. 0)(Cell ?a := length (omem s (Cell ?a)))\<rparr>])"
    "V1 = (owview s)(Cell ?a := length (omem s (Cell ?a)))"
    using st(1) by (simp_all add: atomicStore_def releases_def Let_def)
  have M2: "M2 = M1(Current := omem s Current @ [\<lparr>mval = Address ?a, mview = V2\<rparr>])" "V2 = V1(Current := Suc ?c)"
    using st(2) wf_vmemD(4) [OF wf, of Current] by (auto simp: atomicStore_def releases_def Let_def M1(1))
  have n: "epochNow s' = epochNow s" "storeNow s' = Suc ?c" using wf_vmemD(4) [OF wf, of Current] by (simp_all add: s' newest_def M2 M1)
  have u: "unfenced s = False" "unfenced s' = True" using BLoaded w by (simp_all add: unfenced_def s')
  have "memInv s'" using k2(1,3) grows_known [OF g] iv(2) by (simp add: memInv_def s')
  moreover have "epochInv s'"
    using ed w BLoaded u n by (simp add: epochInv_def) (simp add: s' M2 M1)
  moreover have "cellInv (as @ [?a]) s'"
  proof -
    have l: "length as = Suc ?c" "?a \<notin> set as" using iv(4) by (auto simp: cellInv_def)
    have ready: "cellReady M2 b V" if "b \<noteq> ?a" "cellReady (omem s) b V" for b V
      using that by (simp add: cellReady_def newest_def M2 M1)
    have "mval (M2 Current ! t) = Address ((as @ [?a]) ! t) \<and> cellReady M2 ((as @ [?a]) ! t) (mview (M2 Current ! t))" if t: "t \<le> Suc ?c" for t
    proof (cases "t = Suc ?c")
      case True
      have "M2 Current ! Suc ?c = \<lparr>mval = Address ?a, mview = V2\<rparr>"
        using wf_vmemD(4) [OF wf, of Current] by (simp add: M2(1) nth_append)
      moreover have "(as @ [?a]) ! Suc ?c = ?a" using l(1) by (simp add: nth_append)
      moreover have "V2 (Cell ?a) = length (omem s (Cell ?a))" by (simp add: M2(2) M1(2))
      moreover have "cellReady M2 ?a V2" using v calculation(3) by (simp add: cellReady_def newest_def M2(1) M1(1))
      ultimately show ?thesis using True by simp
    next
      case False
      then have t': "t \<le> ?c" "t < length (omem s Current)" "t < length as" using t l wf_vmemD(4) [OF wf, of Current] by simp_all
      then have "mval (omem s Current ! t) = Address (as ! t)" "cellReady (omem s) (as ! t) (mview (omem s Current ! t))"
        using iv(4) by (simp_all add: cellInv_def)
      moreover have "as ! t \<noteq> ?a" using l(2) nth_mem [OF t'(3)] by metis
      moreover have "M2 Current ! t = omem s Current ! t" using grows_nth [OF g t'(2)] .
      ultimately show ?thesis using ready t'(3) by (simp add: nth_append)
    qed
    moreover have "ofreed s' \<subseteq> set (take (kept (omodify s') (Suc ?c)) (as @ [?a]))" "oldIs (omodify s') (as @ [?a]) (Suc ?c)"
      using iv(4) l BLoaded by (simp_all add: cellInv_def s' nth_append)
    moreover have "distinct (as @ [?a])" "\<forall>a \<in> set (as @ [?a]). a < ofresh s'" "length (as @ [?a]) = Suc (Suc ?c)"
      using iv(4) l by (auto simp: cellInv_def s')
    moreover have "omem s' = M2" by (simp add: s')
    ultimately show ?thesis unfolding cellInv_def n(2) by (metis (no_types, lifting))
  qed
  moreover have "current s' i e" if "current s i e \<or> waited reg inc s i e" for i e
    using that w u n by (auto simp: current_def waited_def) (simp_all add: s')
  ultimately show ?thesis
    by (intro writer_step_inv [OF iv(1,2,4,5,6,7), where old = "epochOldest (ozone s)"]) (use g in \<open>simp_all add: s' M2 M1\<close>)
qed

text \<open>The epoch moves on: the writer now waits for all who were counted in before, and knows their counts.\<close>

lemma fence_inv:
  assumes inv: "ordInv reg s" and w: "omodify s = BStored k pOld" "owriter s = WOut"
    and rmw: "atomicRMW True Release Epoch (\<lambda>x. do { e \<leftarrow> epochIn x; Some (EpochIs (e + 1)) }) (omem s) (owview s) (ofences s) = Some (x, M, V, S)"
    and le: "epochIn x = Some le" and s': "s' = s\<lparr>omem := M, owview := V, ofences := S, owriter := WOuter le\<rparr>"
  shows "ordInv reg s'"
proof -
  obtain inc as where iv: "fixedInv reg s" "memInv s" "epochInv s" "cellInv as s" "countInv reg inc s"
    "\<And>i. i < length (othreads s) \<Longrightarrow> pcInv reg inc s i (opc s i)" "\<And>i. useInv s i"
    using inv unfolding ordInv_def by blast
  let ?E = "epochNow s"
  note ed = epochInvD [OF iv(3)]
  note wf = memInvD(1) [OF iv(2)]
  note k = atomicRMW_known [OF rmw wf memInvD(3) [OF iv(2)] memInvD(2) [OF iv(2)]]
  have len: "length (omem s Epoch) = Suc ?E" and last: "last (omem s Epoch) = omem s Epoch ! ?E" using wf_vmemD(4,5) [OF wf] by blast+
  then have old: "mval (last (omem s Epoch)) = EpochIs (of_nat ?E)" using ed(4) [of ?E] by simp
  obtain y W where "epochIn (mval (last (omem s Epoch))) \<bind> (\<lambda>e. Some (EpochIs (e + 1))) = Some y" "x = mval (last (omem s Epoch))"
    "M = (omem s)(Epoch := omem s Epoch @ [\<lparr>mval = y, mview = W\<rparr>])" using rmw by (rule atomicRMWE)
  then have M: "M = (omem s)(Epoch := omem s Epoch @ [\<lparr>mval = EpochIs (of_nat ?E + 1), mview = W\<rparr>])" and x: "x = EpochIs (of_nat ?E)"
    using old by auto
  have le': "le = of_nat ?E" using le x by simp
  have n: "epochNow s' = Suc ?E" "storeNow s' = storeNow s" using len by (simp_all add: s' newest_def M)
  have u: "unfenced s" "\<not> unfenced s'" using w by (simp_all add: unfenced_def s')
  have V: "V Epoch = Suc ?E" "S = V" "\<And>k. ofences s k \<le> V k" using k(7-9) len by auto
  have "newest M Current = storeNow s" by (simp add: M newest_def)
  then have Vc: "V Current = storeNow s" using k(5) [of Current] ed(3) known_newest [OF k(3), of Current] by linarith
  have "memInv s'" using k(1-4) grows_known [OF k(2)] iv(2) by (simp add: memInv_def s')
  moreover have "epochInv s'"
  proof -
    have "mval (M Epoch ! t) = EpochIs (of_nat t)" if "t \<le> Suc ?E" for t
      using that ed(4) [of t] len by (cases "t = Suc ?E") (simp_all add: M nth_append)
    then show ?thesis using ed(7-10) w V Vc by (simp add: epochInv_def n u) (simp add: s' le')
  qed
  moreover have "cellInv as s'" using iv(4) by (simp add: cellInv_def n) (simp add: s' M cellReady_def newest_def)
  moreover have "waited reg inc s' i e" if i: "i < length (othreads s)" and h: "held reg (ozone s) (row e) (bucketOf reg (ozone s) (othreads s ! i)) (othreads s ! i)"
    and cw: "current s i e \<or> waited reg inc s i e" for i e
  proof -
    let ?l = "Count (row e) (bucketOf reg (ozone s) (othreads s ! i))"
    have e: "e = of_nat ?E" "storeNow s \<le> Suc (orviews s i Current)" using cw w u by (auto simp: current_def waited_def)
    have "inc i \<le> V ?l" using countInvD(3) [OF iv(5) i h] V(3) [of ?l] by linarith
    moreover have "epochOldest (ozone s) = of_nat ?E" using ed(10) w(2) by simp
    ultimately show ?thesis using e by (simp add: waited_def n) (simp add: s')
  qed
  ultimately show ?thesis
    by (intro writer_step_inv [OF iv(1,2,4,5,6,7), where old = "epochOldest (ozone s)"]) (use k(2) V in \<open>simp_all add: s' M\<close>)
qed

text \<open>
  The scan cannot pass the bucket of a thread that the writer waits for: whatever message of its count is
  loaded, it is not zero.
\<close>

lemma scan_stops:
  assumes iv: "fixedInv reg s" "memInv s" "countInv reg inc s" and i: "i < length (othreads s)"
    and h: "held reg (ozone s) (row e) b (othreads s ! i)" and b: "b = bucketOf reg (ozone s) (othreads s ! i)"
    and wt: "waited reg inc s i e" and l: "loadAs countIn Acquire (Count (row e) b) t (omem s) (owview s) = Some (c, V)"
  shows "0 < sint c"
proof -
  let ?l = "Count (row e) b"
  obtain x where x: "atomicLoad Acquire ?l t (omem s) (owview s) = Some (x, V)" "countIn x = Some c"
    using l by (auto simp: loadAs_def split: bind_splits)
  then have t: "owview s ?l \<le> t" "t < length (omem s ?l)" "x = mval (omem s ?l ! t)" by (auto elim: atomicLoadE)
  then obtain n where n: "n \<le> length (othreads s)" "x = CountIs (of_nat n)" using countInvD(1) [OF iv(3)] nth_mem by blast
  have "inc i \<le> owview s ?l" using wt unfolding waited_def b by blast
  then have "inc i \<le> t" using t(1) by linarith
  then have "x \<noteq> CountIs 0" using countInvD(4) [OF iv(3) i h t(2)] t(3) by simp
  then show ?thesis using n x(2) iv(1) of_nat_u32 [of n] by (auto simp: fixedInv_def)
qed

text \<open>Any step of the writer while it waits: those it waits for have to be kept, or else be none.\<close>

lemma waiting_inv:
  assumes inv: "ordInv reg s" and w: "omodify s = BStored k pOld" "owriter s \<noteq> WOut"
    and V: "known (omem s) V" "\<And>l. owview s l \<le> V l"
    and s': "s' = s\<lparr>owview := V, ozone := (ozone s)\<lparr>epochOldest := old\<rparr>, owriter := wp,
      omodify := if wp = WOut then BSynced k pOld else BStored k pOld\<rparr>"
    and ok: "writer_inv ((ozone s)\<lparr>epochLatest := of_nat (epochNow s)\<rparr>) (owriter s)
      \<Longrightarrow> writer_inv ((ozone s)\<lparr>epochOldest := old, epochLatest := of_nat (epochNow s)\<rparr>) wp"
    and keep: "\<And>inc i e. fixedInv reg s \<Longrightarrow> countInv reg inc s \<Longrightarrow> i < length (othreads s)
      \<Longrightarrow> held reg (ozone s) (row e) (bucketOf reg (ozone s) (othreads s ! i)) (othreads s ! i) \<Longrightarrow> waited reg inc s i e
      \<Longrightarrow> writer_inv ((ozone s)\<lparr>epochLatest := of_nat (epochNow s)\<rparr>) (owriter s)
      \<Longrightarrow> wp \<noteq> WOut \<and> old = epochOldest (ozone s) \<and> (\<forall>le b. wp = WScan le b \<longrightarrow> b \<le> bucketOf reg (ozone s) (othreads s ! i))"
  shows "ordInv reg s'"
proof -
  obtain inc as where iv: "fixedInv reg s" "memInv s" "epochInv s" "cellInv as s" "countInv reg inc s"
    "\<And>i. i < length (othreads s) \<Longrightarrow> pcInv reg inc s i (opc s i)" "\<And>i. useInv s i"
    using inv unfolding ordInv_def by blast
  note ed = epochInvD [OF iv(3)]
  have n: "epochNow s' = epochNow s" "storeNow s' = storeNow s" "unfenced s = False" "unfenced s' = False"
    using w by (simp_all add: s' unfenced_def)
  have v: "V Epoch = epochNow s" "V Current = storeNow s"
    using known_newest [OF V(1), of Epoch] V(2) [of Epoch] ed(2) known_newest [OF V(1), of Current] V(2) [of Current] ed(3) by simp_all
  have "memInv s'" using iv(2) V(1) by (simp add: memInv_def s')
  moreover have "epochInv s'"
  proof -
    note wi = ok [OF ed(10)]
    show ?thesis by (cases "wp = WOut") (use ed w n v wi in \<open>simp_all add: epochInv_def\<close>, simp_all add: s')
  qed
  moreover have "cellInv as s'" using iv(4) w by (simp add: cellInv_def n) (simp add: s')
  moreover have "current s' i e \<or> waited reg inc s' i e"
    if i: "i < length (othreads s)" and h: "held reg (ozone s) (row e) (bucketOf reg (ozone s) (othreads s ! i)) (othreads s ! i)"
      and cw: "current s i e \<or> waited reg inc s i e" for i e
    using cw
  proof
    assume "current s i e"
    then show ?thesis by (simp add: current_def n) (simp add: s')
  next
    assume wt: "waited reg inc s i e"
    note kp = keep [OF iv(1,5) i h wt ed(10)]
    have "inc i \<le> V (Count (row e) (bucketOf reg (ozone s) (othreads s ! i)))"
      using wt V(2) order_trans unfolding waited_def by blast
    moreover have "e + 1 = of_nat (epochNow s)" "e = epochOldest (ozone s)" "storeNow s \<le> Suc (orviews s i Current)"
      using wt unfolding waited_def by blast+
    ultimately have "waited reg inc s' i e" using kp by (simp add: waited_def n) (simp add: s')
    then show ?thesis ..
  qed
  ultimately show ?thesis
    by (intro writer_step_inv [OF iv(1,2,4,5,6,7), where old = old]) (simp_all add: s')
qed

lemma sync_inv:
  assumes inv: "ordInv reg s" and w: "omodify s = BStored k pOld" and st: "orderedSync reg t s = Some s1"
    and s': "s' = s1\<lparr>omodify := if owriter s1 = WOut then BSynced k pOld else BStored k pOld\<rparr>"
  shows "ordInv reg s'"
proof -
  obtain inc0 as where iv: "fixedInv reg s" "memInv s" "epochInv s" using inv unfolding ordInv_def by blast
  let ?old = "epochOldest (ozone s)"
  have z: "(ozone s)\<lparr>epochOldest := ?old\<rparr> = ozone s" by simp
  have same: "known (omem s) (owview s)" using memInvD(3) [OF iv(2)] .
  show ?thesis
  proof (cases "owriter s")
    case WOut
    then show ?thesis using st by simp
  next
    case (WOuter le)
    let ?w = "if sint ?old \<le> sint le then WScan le 0 else WOut"
    have s0: "s1 = s\<lparr>owriter := ?w\<rparr>" using st WOuter by simp
    have s1: "s' = s\<lparr>owview := owview s, ozone := (ozone s)\<lparr>epochOldest := ?old\<rparr>, owriter := ?w,
        omodify := if ?w = WOut then BSynced k pOld else BStored k pOld\<rparr>"
      unfolding s' s0 by simp
    have t: "sint ?old \<le> sint le \<longleftrightarrow> ?old = le" if "writer_inv ((ozone s)\<lparr>epochLatest := of_nat (epochNow s)\<rparr>) (owriter s)"
      using outer_test [of "(ozone s)\<lparr>epochLatest := of_nat (epochNow s)\<rparr>" le] that WOuter by simp
    show ?thesis
    proof (rule waiting_inv [OF inv w _ same order_refl s1])
      show "owriter s \<noteq> WOut" using WOuter by simp
    next
      assume wi: "writer_inv ((ozone s)\<lparr>epochLatest := of_nat (epochNow s)\<rparr>) (owriter s)"
      show "writer_inv ((ozone s)\<lparr>epochOldest := ?old, epochLatest := of_nat (epochNow s)\<rparr>) ?w"
        using wi t [OF wi] WOuter by auto
    next
      fix inc i e
      assume wt: "waited reg inc s i e" and wi: "writer_inv ((ozone s)\<lparr>epochLatest := of_nat (epochNow s)\<rparr>) (owriter s)"
      have "?old + 1 = of_nat (epochNow s)" using wt by (auto simp: waited_def)
      moreover have "of_nat (epochNow s) = le + 1" using wi WOuter by simp
      ultimately have "?old = le" by (metis add_right_cancel)
      then show "?w \<noteq> WOut \<and> ?old = ?old \<and> (\<forall>le b. ?w = WScan le b \<longrightarrow> b \<le> bucketOf reg (ozone s) (othreads s ! i))" by simp
    qed
  next
    case (WScan le b)
    then obtain n where n: "nrBucketsPerEpoch reg (ozone s) = Some n" using st by (auto split: bind_splits)
    show ?thesis
    proof (cases "int b < sint n")
      case True
      then obtain c V where l: "loadAs countIn Acquire (Count (row ?old) b) t (omem s) (owview s) = Some (c, V)"
        "s1 = s\<lparr>owview := V, owriter := if 0 < sint c then WScan le b else WScan le (Suc b)\<rparr>"
        using st WScan n by (auto split: bind_splits)
      let ?w = "if 0 < sint c then WScan le b else WScan le (Suc b)"
      have s2: "s' = s\<lparr>owview := V, ozone := (ozone s)\<lparr>epochOldest := ?old\<rparr>, owriter := ?w,
          omodify := if ?w = WOut then BSynced k pOld else BStored k pOld\<rparr>" unfolding s' l(2) by simp
      note view = loadAs_view [OF l(1) memInvD(1) [OF iv(2)] same]
      show ?thesis
      proof (rule waiting_inv [OF inv w _ view s2])
        fix inc i e
        assume a: "fixedInv reg s" "countInv reg inc s" "i < length (othreads s)"
          and h: "held reg (ozone s) (row e) (bucketOf reg (ozone s) (othreads s ! i)) (othreads s ! i)"
          and wt: "waited reg inc s i e"
        have e: "e = ?old" "b \<le> bucketOf reg (ozone s) (othreads s ! i)" using wt WScan by (auto simp: waited_def)
        have "0 < sint c" if b: "b = bucketOf reg (ozone s) (othreads s ! i)"
          by (rule scan_stops [OF a(1) iv(2) a(2,3) _ b wt]) (use h e(1) b l(1) in simp_all)
        then show "?w \<noteq> WOut \<and> ?old = ?old \<and> (\<forall>le b. ?w = WScan le b \<longrightarrow> b \<le> bucketOf reg (ozone s) (othreads s ! i))"
          using e(2) by (cases "b = bucketOf reg (ozone s) (othreads s ! i)") auto
      qed (use WScan in auto)
    next
      case False
      then have s1: "s1 = s\<lparr>ozone := (ozone s)\<lparr>epochOldest := ?old + 1\<rparr>, owriter := WOuter le\<rparr>" and m: "sint ?old \<noteq> 2 ^ 63 - 1"
        using st WScan n by (auto split: if_splits)
      have s2: "s' = s\<lparr>owview := owview s, ozone := (ozone s)\<lparr>epochOldest := ?old + 1\<rparr>, owriter := WOuter le,
          omodify := if WOuter le = WOut then BSynced k pOld else BStored k pOld\<rparr>" unfolding s' s1 by simp
      show ?thesis
      proof (rule waiting_inv [OF inv w _ same order_refl s2])
        fix inc i e
        assume a: "fixedInv reg s" "i < length (othreads s)" and wt: "waited reg inc s i e"
        have "b \<le> bucketOf reg (ozone s) (othreads s ! i)" using wt WScan by (auto simp: waited_def)
        moreover have "bucketOf reg (ozone s) (othreads s ! i) < nbuckets reg (ozone s)"
          using a by (intro bucketOf_less) (auto simp: fixedInv_def)
        moreover have "nat (sint n) = nbuckets reg (ozone s)" using nrBucketsPerEpoch_wf [of reg "ozone s"] a(1) n by (auto simp: fixedInv_def)
        ultimately show "WOuter le \<noteq> WOut \<and> ?old + 1 = ?old \<and> (\<forall>le' b. WOuter le = WScan le' b \<longrightarrow> b \<le> bucketOf reg (ozone s) (othreads s ! i))"
          using False by linarith
      qed (use WScan m in auto)
    qed
  qed
qed

text \<open>Every step of the writer.\<close>

lemma orderedModify_inv:
  assumes inv: "ordInv reg s" and st: "orderedModify True reg draw t s = Some s'" and pos: "\<And>k. 0 < draw k"
  shows "ordInv reg s'"
proof -
  obtain inc as where iv: "memInv s" "epochInv s" "cellInv as s" using inv unfolding ordInv_def by blast
  note ed = epochInvD [OF iv(2)]
  have known: "known (omem s) (owview s)" using memInvD(3) [OF iv(1)] .
  have out: "owriter s = WOut" if "\<And>k p. omodify s \<noteq> BStored k p" using ed(11) that by blast
  show ?thesis
  proof (cases "omodify s")
    case (BLoop k)
    have k: "k < c_nrLoops" using st BLoop by (simp split: if_splits)
    have w: "owriter s = WOut" "\<And>k p. omodify s \<noteq> BStored k p" using out BLoop by simp_all
    show ?thesis
    proof (cases "k mod c_writeInterval = 0")
      case False
      then have s': "s' = s\<lparr>omodify := BLoop (k + 1)\<rparr>" using st BLoop k by simp
      have s2: "s' = s\<lparr>owview := owview s, omodify := BLoop (k + 1), ofreed := ofreed s\<rparr>" unfolding s' by simp
      show ?thesis
        by (rule modify_quiet [OF inv w _ known ed(3) order_refl s2]) (use BLoop k ed(7) in \<open>auto simp: cellInv_def\<close>)
    next
      case True
      then obtain a V where l: "loadAs addressIn Acquire Current t (omem s) (owview s) = Some (a, V)"
        and s': "s' = s\<lparr>owview := V, omodify := BLoaded k a\<rparr>" using st BLoop k by (auto split: bind_splits)
      obtain x where x: "atomicLoad Acquire Current t (omem s) (owview s) = Some (x, V)" "addressIn x = Some a"
        using l by (auto simp: loadAs_def split: bind_splits)
      note ad = address_loaded [OF iv(3,1) x]
      note view = loadAs_view [OF l memInvD(1) [OF iv(1)] known]
      have t: "V Current = storeNow s" using ad(3,4) view(2) [of Current] ed(3) by simp
      have s2: "s' = s\<lparr>owview := V, omodify := BLoaded k a, ofreed := ofreed s\<rparr>" unfolding s' by simp
      show ?thesis
      proof (rule modify_quiet [OF inv w _ view(1) t view(2) s2])
        show "ofreed s \<subseteq> set (take (kept (BLoaded k a) (storeNow s)) as') \<and> oldIs (BLoaded k a) as' (storeNow s)" if "cellInv as' s" for as'
          using that BLoop ad(1) t by (auto simp: cellInv_def)
      qed (use BLoop k ed(7) in simp_all)
    qed
  next
    case (BLoaded k pOld)
    then show ?thesis using st replace_inv [OF inv BLoaded pos [of k]] by (auto simp: Let_def split: prod.splits)
  next
    case (BStored k pOld)
    show ?thesis
    proof (cases "owriter s = WOut")
      case True
      then show ?thesis using st BStored fence_inv [OF inv BStored True] by (auto split: bind_splits)
    next
      case False
      then show ?thesis using st BStored sync_inv [OF inv BStored] by (auto simp del: orderedSync.simps split: bind_splits)
    qed
  next
    case (BSynced k pOld)
    have w: "owriter s = WOut" "\<And>k p. omodify s \<noteq> BStored k p" using out BSynced by simp_all
    have s0: "s' = s\<lparr>ofreed := insert pOld (ofreed s), omodify := BLoop (k + 1)\<rparr>" using st BSynced by simp
    have s': "s' = s\<lparr>owview := owview s, omodify := BLoop (k + 1), ofreed := insert pOld (ofreed s)\<rparr>" unfolding s0 by simp
    show ?thesis
    proof (rule modify_quiet [OF inv w _ known ed(3) order_refl s'])
      fix as' assume c: "cellInv as' s"
      let ?c = "storeNow s"
      have "0 < ?c" "pOld = as' ! (?c - 1)" "ofreed s \<subseteq> set (take (?c - 1) as')" "length as' = Suc ?c" using c BSynced by (simp_all add: cellInv_def)
      moreover have "take ?c as' = take (?c - 1) as' @ [as' ! (?c - 1)]" using calculation take_Suc_conv_app_nth [of "?c - 1" as'] by simp
      ultimately show "insert pOld (ofreed s) \<subseteq> set (take (kept (BLoop (k + 1)) ?c) as') \<and> oldIs (BLoop (k + 1)) as' ?c" by auto
    qed (use BSynced ed(7,9) in simp_all)
  qed
qed

definition fmove :: "RCUReaderThreadRegistry \<Rightarrow> (int \<Rightarrow> int) \<Rightarrow> ordered \<Rightarrow> ordered \<Rightarrow> bool" where
  "fmove reg draw s s' \<longleftrightarrow> (\<forall>k. 0 < draw k) \<and> ordstep True reg draw s s'"

interpretation fenced: invariant_system "ordstart reg" "fmove reg draw" "ordInv reg" for reg draw
  by unfold_locales (auto simp: fmove_def ordstep_def simp del: orderedModify.simps orderedRead.simps
    intro: ordstart_inv orderedModify_inv orderedRead_inv)

lemma fmoves: "(\<And>k. 0 < draw k) \<Longrightarrow> (ordstep True reg draw)\<^sup>*\<^sup>* s s' \<Longrightarrow> (fmove reg draw)\<^sup>*\<^sup>* s s'"
  by (erule rtranclp_mono [THEN predicate2D, rotated]) (auto simp: fmove_def)

text \<open>
  Reader 0 of \<open>exOrdered\<close> loads the first value, the writer replaces it, moves the epoch on and spins on the
  count of the reader, which uses the value and leaves; then the writer deletes it.  Each step comes with
  the message a load takes.
\<close>

definition fencedRun :: "(nat option \<times> nat) list \<Rightarrow> ordered \<Rightarrow> ordered option" where
  "fencedRun = for_list (\<lambda>(a, t). actor (orderedModify True exReg (\<lambda>_. 7) t) (\<lambda>i. orderedRead True exReg i t) a)"

lemma fencedRun_reach: "fencedRun as s = Some s' \<Longrightarrow> (ordstep True exReg (\<lambda>_. 7))\<^sup>*\<^sup>* s s'"
  unfolding fencedRun_def
  by (erule for_list_reach) (auto simp: actor_def simp del: orderedModify.simps orderedRead.simps intro: ordstep_modify ordstep_read split: option.splits)

definition exFenced :: "ordered option" where
  "exFenced = fencedRun (replicate 5 (Some 0, 0) @ replicate 5 (None, 0) @ (None, 1) # replicate 2 (Some 0, 0) @ (None, 2) # replicate 3 (None, 0))
     exOrdered"

subsection \<open>Property\<close>

text \<open>
  C8.  The benchmark under the memory orders of the code, when its read-modify-write operations are full
  fences as on x86: on every interleaving, whatever old messages the loads return, no reader
  dereferences a deleted or uninitialised value, none throws, and no value is deleted twice.
\<close>

theorem fenced_benchmark_safe:
  assumes "ordstart reg s0" and "(ordstep True reg draw)\<^sup>*\<^sup>* s0 s" and "\<And>k. 1 \<le> draw k \<and> draw k \<le> 100000000"
  shows "oreaders s i \<noteq> BFault \<and> oreaders s i \<noteq> BThrew \<and> (\<forall>k p. omodify s = BSynced k p \<longrightarrow> p \<notin> ofreed s)"
proof -
  have "0 < draw k" for k using assms(3) [of k] by simp
  then have "ordInv reg s" using fenced.inv_reachable [OF assms(1) fmoves] assms(2) by blast
  then obtain as where c: "cellInv as s" "useInv s i" unfolding ordInv_def by blast
  have "p \<notin> ofreed s" if "omodify s = BSynced k p" for k p
  proof -
    let ?c = "storeNow s"
    have "0 < ?c" "p = as ! (?c - 1)" "length as = Suc ?c" "distinct as" "ofreed s \<subseteq> set (take (?c - 1) as)"
      using c(1) that by (simp_all add: cellInv_def)
    moreover have "as ! (?c - 1) \<notin> set (take (?c - 1) as)"
      using calculation by (auto simp: in_set_conv_nth nth_eq_iff_index_eq)
    ultimately show ?thesis by blast
  qed
  then show ?thesis using c(2) by (auto simp: useInv_def)
qed

theorem fenced_benchmark_safe_witness:
  "\<exists>s. exFenced = Some s \<and> omodify s = BLoop 1 \<and> 0 \<in> ofreed s \<and> oreaders s 0 \<noteq> BFault"
proof -
  have "map_option (\<lambda>s. (omodify s, 0 \<in> ofreed s)) exFenced = Some (BLoop 1, True)" by code_simp
  then obtain s where s: "exFenced = Some s" "omodify s = BLoop 1" "0 \<in> ofreed s" by auto
  have "(ordstep True exReg (\<lambda>_. 7))\<^sup>*\<^sup>* exOrdered s" using s(1) fencedRun_reach unfolding exFenced_def by blast
  from fenced_benchmark_safe [OF exOrdered_start this, of 0] show ?thesis using s by auto
qed

end
