(* ===== verification/StoreBuffer.thy ===== *)
theory StoreBuffer
  imports ConcurrentTable
begin

text \<open>
  The table on a machine with store buffers, total store order as on x86.  The stores of the writer, all
  \<open>memory_order_release\<close> or to memory that is not published yet, wait in a first-in first-out buffer and
  reach the memory later; its own loads look into the buffer first.  The readers store nothing: they load,
  and count themselves in and out with locked instructions.  The \<open>fetch_add\<close> with which \<open>rcuSynchronize\<close>
  begins is a locked instruction, which waits until the buffer is empty.  Freeing a block is ordered like a
  store: the allocator hands the block out again only by later writes of the same thread.

  Shown: such a run is a run of the sequentially consistent system in which every write happens when it
  leaves the buffer; the results of \<open>ConcurrentTable\<close> carry over.
\<close>

subsection \<open>The machine\<close>

record 'k buffered =
  memory :: "'k system"
  buffer :: "event list"

datatype 'k baction = Direct "'k action" | Issue | Drain

fun readerAction :: "'k action \<Rightarrow> bool" where
  "readerAction Write = False" | "readerAction a = True"

text \<open>
  A reader accesses the memory; the writer puts a write into its buffer, or takes a step of
  \<open>rcuSynchronize\<close>; the oldest write leaves the buffer.
\<close>

fun bact :: "RCUReaderThreadRegistry \<Rightarrow> (loc \<Rightarrow> 'k) \<Rightarrow> ('k \<Rightarrow> u64) \<Rightarrow> 'k baction \<Rightarrow> 'k buffered \<Rightarrow> 'k buffered option" where
  "bact reg key hf (Direct a) b =
     (if readerAction a then do { s \<leftarrow> act reg key hf a (memory b); Some (b\<lparr>memory := s\<rparr>) } else None)"
| "bact reg key hf Issue b =
     (case todo (memory b) of
        [] \<Rightarrow> None
      | e # es \<Rightarrow>
          if e \<noteq> ESync then Some \<lparr>memory = (memory b)\<lparr>todo := es\<rparr>, buffer = buffer b @ [e]\<rparr>
          else if writer (proto (memory b)) = WOut \<and> buffer b \<noteq> [] then None
          else do { s \<leftarrow> act reg key hf Write (memory b); Some (b\<lparr>memory := s\<rparr>) })"
| "bact reg key hf Drain b =
     (case buffer b of
        [] \<Rightarrow> None
      | e # es \<Rightarrow>
          Some \<lparr>memory = (memory b)\<lparr>shared := emit e (shared (memory b)), published := pubAfter e (published (memory b))\<rparr>, buffer = es\<rparr>)"

definition tsostep :: "RCUReaderThreadRegistry \<Rightarrow> (loc \<Rightarrow> 'k) \<Rightarrow> ('k \<Rightarrow> u64) \<Rightarrow> 'k buffered \<Rightarrow> 'k buffered \<Rightarrow> bool" where
  "tsostep reg key hf b b' \<longleftrightarrow> (\<exists>a. bact reg key hf a b = Some b')"

text \<open>A load of the writer: the last store to the address in its buffer, else the memory.\<close>

fun forwarded :: "event list \<Rightarrow> loc \<Rightarrow> ptr option" where
  "forwarded [] a = None"
| "forwarded (e # es) a =
     (case forwarded es a of
        Some p \<Rightarrow> Some p
      | None \<Rightarrow> (case e of EStore a' p \<Rightarrow> if a' = a then Some p else None | _ \<Rightarrow> None))"

definition loadBuffered :: "'k buffered \<Rightarrow> loc \<Rightarrow> ptr" where
  "loadBuffered b a = (case forwarded (buffer b) a of Some p \<Rightarrow> p | None \<Rightarrow> nxt (shared (memory b)) a)"

subsection \<open>Every run is a run of the sequentially consistent system\<close>

text \<open>The system in which the buffered writes have not been made.\<close>

definition pending :: "'k buffered \<Rightarrow> 'k system" where
  "pending b = (memory b)\<lparr>todo := buffer b @ todo (memory b)\<rparr>"

text \<open>While the writer is in \<open>rcuSynchronize\<close> its buffer is empty; no complete call is ever buffered.\<close>

definition bufferInv :: "'k buffered \<Rightarrow> bool" where
  "bufferInv b \<longleftrightarrow> ESync \<notin> set (buffer b)
     \<and> (writer (proto (memory b)) \<noteq> WOut \<longrightarrow> buffer b = [] \<and> (\<exists>es. todo (memory b) = ESync # es))"

lemma forwarded_fold: "nxt (fold emit es m) a = (case forwarded es a of Some p \<Rightarrow> p | None \<Rightarrow> nxt m a)"
proof (induction es arbitrary: m)
  case (Cons e es)
  then show ?case by (cases e) (auto split: option.splits)
qed simp

lemma threadStep_writer: "threadStep reg i p = Some p' \<Longrightarrow> writer p' = writer p"
  by (rule threadStep_frame(1))

lemma reader_act:
  assumes "readerAction a" and "act reg key hf a s = Some s'"
  shows "act reg key hf a (s\<lparr>todo := es\<rparr>) = Some (s'\<lparr>todo := es\<rparr>)" "todo s' = todo s" "shared s' = shared s" "writer (proto s') = writer (proto s)"
  using assms by (cases a; auto simp del: threadStep.simps dest: threadStep_writer split: bind_splits if_splits)+

lemma tsostep_sim:
  assumes st: "tsostep reg key hf b b'" and inv: "bufferInv b"
  shows "bufferInv b'" "(sysstep reg key hf)\<^sup>*\<^sup>* (pending b) (pending b')" "readers (memory b') = readers (pending b')"
proof -
  obtain a where a: "bact reg key hf a b = Some b'" using st by (auto simp: tsostep_def)
  have "bufferInv b' \<and> (pending b' = pending b \<or> sysstep reg key hf (pending b) (pending b'))"
  proof (cases a)
    case (Direct x)
    then obtain s where s: "readerAction x" "act reg key hf x (memory b) = Some s" "b' = b\<lparr>memory := s\<rparr>"
      using a by (auto simp del: act.simps split: if_splits bind_splits)
    note r = reader_act [OF s(1,2)]
    have "act reg key hf x (pending b) = Some (pending b')" using r(1,2) by (simp add: pending_def s(3) del: act.simps)
    then show ?thesis using inv r(2,4) unfolding sysstep_def by (auto simp: bufferInv_def s(3))
  next
    case Issue
    then obtain e es where t: "todo (memory b) = e # es" using a by (auto split: list.splits)
    show ?thesis
    proof (cases "e = ESync")
      case False
      then have b': "b' = \<lparr>memory = (memory b)\<lparr>todo := es\<rparr>, buffer = buffer b @ [e]\<rparr>" using a Issue t by simp
      then show ?thesis using inv t False by (auto simp: bufferInv_def pending_def)
    next
      case True
      then have empty: "buffer b = []" using a Issue t inv by (auto simp: bufferInv_def split: if_splits)
      obtain s where s: "act reg key hf Write (memory b) = Some s" "b' = b\<lparr>memory := s\<rparr>"
        using a Issue t True by (auto simp del: act.simps split: if_splits bind_splits)
      have "pending b = memory b" "pending b' = s" using empty t by (simp_all add: pending_def s(2))
      moreover have "writer (proto s) \<noteq> WOut \<Longrightarrow> todo s = ESync # es"
        using s(1) t True by (auto simp del: writerStep.simps split: bind_splits if_splits)
      ultimately show ?thesis using s(1) empty unfolding sysstep_def by (auto simp: bufferInv_def s(2) simp del: act.simps)
    qed
  next
    case Drain
    then obtain e es where e: "buffer b = e # es" using a by (auto split: list.splits)
    then have b': "b' = \<lparr>memory = (memory b)\<lparr>shared := emit e (shared (memory b)), published := pubAfter e (published (memory b))\<rparr>, buffer = es\<rparr>"
      using a Drain by simp
    have "e \<noteq> ESync" using inv e by (auto simp: bufferInv_def)
    then have "act reg key hf Write (pending b) = Some (pending b')" by (simp add: pending_def e b')
    then show ?thesis using inv e b' unfolding sysstep_def by (auto simp: bufferInv_def simp del: act.simps)
  qed
  then show "bufferInv b'" "(sysstep reg key hf)\<^sup>*\<^sup>* (pending b) (pending b')" by auto
  show "readers (memory b') = readers (pending b')" by (simp add: pending_def)
qed

lemma tsosteps_sim:
  assumes "(tsostep reg key hf)\<^sup>*\<^sup>* b b'" and "bufferInv b"
  shows "bufferInv b' \<and> (sysstep reg key hf)\<^sup>*\<^sup>* (pending b) (pending b')"
  using assms
proof (induction rule: rtranclp_induct)
  case (step b1 b2)
  then show ?case using tsostep_sim(1,2) [OF step.hyps(2)] by (meson rtranclp_trans)
qed simp

text \<open>What the writer reads is what it has written.\<close>

definition writerSees :: "mem \<Rightarrow> event list \<Rightarrow> 'k buffered \<Rightarrow> bool" where
  "writerSees m es b \<longleftrightarrow> (\<exists>done. es = done @ todo (memory b) \<and> nxt (fold emit (buffer b) (shared (memory b))) = nxt (fold emit done m))"

lemma nxt_emit_cong: "nxt m = nxt m' \<Longrightarrow> nxt (emit e m) = nxt (emit e m')"
  by (cases e) (simp_all add: fun_eq_iff)

lemma tsostep_sees:
  assumes st: "tsostep reg key hf b b'" and inv: "bufferInv b" and sees: "writerSees m es b"
  shows "writerSees m es b'"
proof -
  obtain a where a: "bact reg key hf a b = Some b'" using st by (auto simp: tsostep_def)
  obtain dn where d: "es = dn @ todo (memory b)" "nxt (fold emit (buffer b) (shared (memory b))) = nxt (fold emit dn m)"
    using sees by (auto simp: writerSees_def)
  show ?thesis
  proof (cases a)
    case (Direct x)
    then obtain s where s: "readerAction x" "act reg key hf x (memory b) = Some s" "b' = b\<lparr>memory := s\<rparr>"
      using a by (auto simp del: act.simps split: if_splits bind_splits)
    then show ?thesis using d reader_act(2,3) [OF s(1,2)] by (auto simp: writerSees_def)
  next
    case Issue
    then obtain e rest where t: "todo (memory b) = e # rest" using a by (auto split: list.splits)
    show ?thesis
    proof (cases "e = ESync")
      case False
      then have b': "b' = \<lparr>memory = (memory b)\<lparr>todo := rest\<rparr>, buffer = buffer b @ [e]\<rparr>" using a Issue t by simp
      have "nxt (emit e (fold emit (buffer b) (shared (memory b)))) = nxt (emit e (fold emit dn m))" by (rule nxt_emit_cong [OF d(2)])
      then show ?thesis using d(1) t unfolding writerSees_def b' by (intro exI [of _ "dn @ [e]"]) simp
    next
      case True
      obtain s where s: "act reg key hf Write (memory b) = Some s" "b' = b\<lparr>memory := s\<rparr>"
        using a Issue t True by (auto simp del: act.simps split: if_splits bind_splits)
      have empty: "buffer b = []" using a Issue t True inv by (auto simp: bufferInv_def split: if_splits)
      have "(todo s = e # rest \<and> nxt (shared s) = nxt (shared (memory b))) \<or> (todo s = rest \<and> nxt (shared s) = nxt (shared (memory b)))"
        using s(1) t True by (auto simp del: writerStep.simps split: bind_splits if_splits)
      moreover have "nxt (emit ESync (fold emit dn m)) = nxt (fold emit dn m)" by simp
      ultimately show ?thesis using d t True empty s(2) unfolding writerSees_def
        by (elim disjE; intro exI [of _ "if todo s = rest then dn @ [ESync] else dn"]) auto
    qed
  next
    case Drain
    then obtain e rest where e: "buffer b = e # rest" using a by (auto split: list.splits)
    then show ?thesis using a Drain d by (auto simp: writerSees_def)
  qed
qed

lemma tsosteps_sees:
  assumes "(tsostep reg key hf)\<^sup>*\<^sup>* b b'" and "bufferInv b" and "writerSees m es b"
  shows "writerSees m es b'"
  using assms
proof (induction rule: rtranclp_induct)
  case (step b1 b2)
  then show ?case using tsostep_sees [OF step.hyps(2)] tsosteps_sim [OF step.hyps(1)] by blast
qed simp

subsection \<open>Property\<close>

text \<open>
  C10.  The table on a machine with store buffers.  Lookups stay exact and safe on every interleaving of
  readers, writer and buffer: a lookup of a key that no request changes returns its node, and never touches
  null or freed memory; once the requests have been served and the buffer has drained, every node a reader
  refers to is in the table.  And the writer always reads what it has written, wherever that is.
\<close>

theorem lookups_exact_tso:
  assumes "serving reg key hf M rs (T, m) es" and "untouched key k rs M"
    and "sysstart reg (pBucketsInfo (core T)) m es s0" and "(tsostep reg key hf)\<^sup>*\<^sup>* \<lparr>memory = s0, buffer = []\<rparr> b"
  shows "search (readers (memory b) i) \<noteq> Fault k \<and> (\<forall>r. search (readers (memory b) i) = outcome k r \<longrightarrow> r = M k)
    \<and> (todo (memory b) = [] \<longrightarrow> buffer b = [] \<longrightarrow> refers (readers (memory b) i) k y \<longrightarrow> isNode y \<longrightarrow> mapAfter key rs M (key y) = Some y)
    \<and> (\<exists>done. es = done @ todo (memory b) \<and> (\<forall>a. loadBuffered b a = nxt (fold emit done m) a))"
proof -
  let ?b0 = "\<lparr>memory = s0, buffer = []\<rparr>"
  have i0: "bufferInv ?b0" using assms(3) by (simp add: bufferInv_def sysstart_def)
  have "pending ?b0 = s0" by (simp add: pending_def)
  then have run: "(sysstep reg key hf)\<^sup>*\<^sup>* s0 (pending b)" using tsosteps_sim [OF assms(4) i0] by simp
  have "readers (memory b) = readers (pending b)" by (simp add: pending_def)
  moreover have "todo (pending b) = []" if "todo (memory b) = []" "buffer b = []" using that by (simp add: pending_def)
  moreover have "writerSees m es ?b0" using assms(3) unfolding writerSees_def sysstart_def by (intro exI [of _ "[]"]) simp
  then have "writerSees m es b" by (rule tsosteps_sees [OF assms(4) i0])
  ultimately show ?thesis
    using exact_at [OF assms(1-3) run, of i] reclaimed_at [OF assms(1,3) run, of i k y] forwarded_fold
    by (simp add: writerSees_def loadBuffered_def fun_eq_iff)
qed

text \<open>
  The writer's store that unlinks the node 2 stays in its buffer while thread 0 walks over that node; it
  drains before the thread gets to the node 3.
\<close>

definition exBuffered :: "nat buffered option" where
  "exBuffered = for_list (bact exReg exKey (\<lambda>_. 0))
     (map Direct (replicate 4 (Protocol 0) @ Begin 0 3 # replicate 2 (Access 0)) @ Issue # map Direct (replicate 2 (Access 0))
      @ Drain # map Direct (replicate 3 (Access 0))) \<lparr>memory = exSystem, buffer = []\<rparr>"

theorem lookups_exact_tso_witness:
  "\<exists>b. exBuffered = Some b \<and> search (readers (memory b) 0) = outcome 3 (Some (NodeHead 3)) \<and> exMap 3 = Some (NodeHead 3)
    \<and> (\<exists>done. exWrites = done @ todo (memory b) \<and> (\<forall>a. loadBuffered b a = nxt (fold emit done exMem) a))"
proof -
  have "map_option (\<lambda>b. search (readers (memory b) 0)) exBuffered = Some (outcome 3 (Some (NodeHead 3)))" by code_simp
  then obtain b where b: "exBuffered = Some b" "search (readers (memory b) 0) = outcome 3 (Some (NodeHead 3))" by auto
  have un: "untouched exKey 3 [Detach 2] exMap" by (simp add: exMap_def)
  have "(tsostep exReg exKey (\<lambda>_. 0))\<^sup>*\<^sup>* \<lparr>memory = exSystem, buffer = []\<rparr> b"
    using b(1) unfolding exBuffered_def by (rule for_list_reach) (auto simp: tsostep_def simp del: bact.simps)
  note r = lookups_exact_tso [OF exServing un exSystem_start this, of 0]
  show ?thesis by (rule exI [of _ b]) (use b r in \<open>simp add: exMap_def\<close>)
qed

end
