(* ===== verification/Publication.thy ===== *)
theory Publication
  imports ConcurrentTable
begin

text \<open>
  What the writes of the table publish.  A trace publishes properly if every pointer it stores leads to a node whose
  fields and whose \<open>next\<close> have been written before, if no field is written once its node may have been
  reached, and if a bucket array is published after its size and all its buckets have been written.
  Shown: every operation of the table writes such a trace, through all doublings and halvings, as
  long as every inserted node is new.  \<open>OrderedTable\<close> draws the conclusion for the memory orders of the code.
\<close>

subsection \<open>Proper traces\<close>

text \<open>
  What has been written so far: nodes with their fields, addresses with their \<open>next\<close>, nodes that a pointer has been
  stored to, and the sizes of the blocks; and the number of the next block.
\<close>

record progress =
  filled :: "loc set"
  linked :: "loc set"
  exposed :: "loc set"
  sizes :: "nat \<Rightarrow> u64 option"
  nextBlock :: nat

fun advance_by :: "event \<Rightarrow> progress \<Rightarrow> progress" where
  "advance_by (EStore a p) g = g\<lparr>linked := insert a (linked g), exposed := exposed g \<union> set_option p\<rparr>"
| "advance_by (EHash x h) g = g\<lparr>filled := insert x (filled g)\<rparr>"
| "advance_by (EAlloc k n) g = g\<lparr>sizes := (sizes g)(k \<mapsto> n), nextBlock := Suc k\<rparr>"
| "advance_by (EFree k) g = g"
| "advance_by (EPublish q) g = g"
| "advance_by ESync g = g"

definition ready :: "progress \<Rightarrow> nat \<Rightarrow> bool" where
  "ready g k \<longleftrightarrow> (\<exists>n. sizes g k = Some n \<and> n \<noteq> 0 \<and> (\<forall>i < unat n. BucketHead k i \<in> linked g))"

fun proper :: "event \<Rightarrow> progress \<Rightarrow> bool" where
  "proper (EStore a p) g = (\<forall>y. p = Some y \<longrightarrow> isNode y \<and> y \<in> filled g \<and> y \<in> linked g)"
| "proper (EHash x h) g = (x \<notin> exposed g)"
| "proper (EAlloc k n) g = (nextBlock g \<le> k)"
| "proper (EFree k) g = True"
| "proper (EPublish q) g = (\<exists>k. q = Some k \<and> ready g k)"
| "proper ESync g = True"

fun publishes :: "event list \<Rightarrow> progress \<Rightarrow> bool" where
  "publishes [] g = True"
| "publishes (e # es) g = (proper e g \<and> publishes es (advance_by e g))"

text \<open>What the memory then satisfies.\<close>

definition tracked :: "progress \<Rightarrow> mem \<Rightarrow> bool" where
  "tracked g m \<longleftrightarrow> exposed g \<subseteq> filled g \<inter> linked g \<and> (\<forall>y \<in> exposed g. isNode y)
     \<and> (\<forall>a \<in> linked g. \<forall>y. nxt m a = Some y \<longrightarrow> y \<in> exposed g)
     \<and> (\<forall>k. sizes g k \<noteq> None \<longrightarrow> k < nextBlock g) \<and> nextBlock g = freshBlock m"

text \<open>A part of a run: it writes a proper trace.\<close>

definition published :: "progress \<Rightarrow> mem \<Rightarrow> progress \<Rightarrow> mem \<Rightarrow> bool" where
  "published g m g' m' \<longleftrightarrow> tracked g m \<and> tracked g' m' \<and> (\<exists>es. wrote m es m' \<and> publishes es g \<and> g' = fold advance_by es g)"

text \<open>A block whose buckets may be accessed; runs that keep all of these and expose no new node.\<close>

definition usable :: "progress \<Rightarrow> mem \<Rightarrow> nat \<Rightarrow> bool" where
  "usable g m k \<longleftrightarrow> ready g k \<and> blocks m k = sizes g k"

definition runs :: "progress \<Rightarrow> mem \<Rightarrow> progress \<Rightarrow> mem \<Rightarrow> bool" where
  "runs g m g' m' \<longleftrightarrow> published g m g' m' \<and> (\<forall>k. usable g m k \<longrightarrow> usable g' m' k)
     \<and> filled g \<subseteq> filled g' \<and> linked g \<subseteq> linked g' \<and> exposed g' = exposed g"

lemma publishes_append: "publishes (xs @ ys) g \<longleftrightarrow> publishes xs g \<and> publishes ys (fold advance_by xs g)"
  by (induction xs arbitrary: g) auto

lemma published_trans: "published g m g1 m1 \<Longrightarrow> published g1 m1 g2 m2 \<Longrightarrow> published g m g2 m2"
  unfolding published_def by (metis publishes_append wrote_trans fold_append comp_apply)

lemma runs_refl [intro]: "tracked g m \<Longrightarrow> runs g m g m"
  unfolding runs_def published_def by (intro conjI exI [of _ "[]"]) auto

lemma runs_trans: "runs g m g1 m1 \<Longrightarrow> runs g1 m1 g2 m2 \<Longrightarrow> runs g m g2 m2"
  unfolding runs_def using published_trans by blast

lemma runs_tracked: "runs g m g' m' \<Longrightarrow> tracked g' m'"
  by (simp add: runs_def published_def)

lemma published_emit:
  assumes "tracked g m" and "proper e g" and "\<And>k n. e = EAlloc k n \<Longrightarrow> k = freshBlock m"
  shows "published g m (advance_by e g) (emit e m)"
proof -
  have "tracked (advance_by e g) (emit e m)" using assms by (cases e) (auto simp: tracked_def split: if_splits)
  then show ?thesis unfolding published_def using assms(1,2) by (intro conjI exI [of _ "[e]"]) auto
qed

lemma runs_emit:
  assumes "tracked g m" and "proper e g" and "\<And>k n. e = EAlloc k n \<Longrightarrow> k = freshBlock m" and "\<And>k. e \<noteq> EFree k"
    and "exposed (advance_by e g) = exposed g"
  shows "runs g m (advance_by e g) (emit e m)"
  unfolding runs_def using published_emit [OF assms(1-3)] assms
  by (cases e) (auto simp: usable_def ready_def tracked_def)

text \<open>A store of a pointer that was loaded; and what a load gives.\<close>

lemma exposedD: "tracked g m \<Longrightarrow> y \<in> exposed g \<Longrightarrow> isNode y \<and> y \<in> filled g \<and> y \<in> linked g"
  unfolding tracked_def by blast

lemma runs_store:
  assumes "tracked g m" and "\<And>y. p = Some y \<Longrightarrow> y \<in> exposed g"
  shows "runs g m (advance_by (EStore a p) g) (storeNext a p m)"
  by (rule runs_emit) (use assms exposedD in auto)

lemma loaded: "tracked g m \<Longrightarrow> a \<in> linked g \<Longrightarrow> nxt m a = Some y \<Longrightarrow> y \<in> exposed g"
  unfolding tracked_def by blast

lemma loaded_next: "tracked g m \<Longrightarrow> a \<in> exposed g \<Longrightarrow> nxt m a = Some y \<Longrightarrow> y \<in> exposed g"
  using loaded exposedD by blast

lemma usable_bucket: "usable g m k \<Longrightarrow> bucketAt m k i = Some b \<Longrightarrow> b \<in> linked g"
  by (auto simp: usable_def ready_def bucketAt_def split: bind_splits if_splits)

text \<open>A loop whose body is such a run; \<open>f\<close> takes the memory out of the state.\<close>

lemma loop_runs:
  assumes "for_range lo hi body s = Some s'" and "tracked g (f s)" and u: "\<And>k. k \<in> K \<Longrightarrow> usable g (f s) k"
    and body: "\<And>i g s s'. tracked g (f s) \<Longrightarrow> (\<And>k. k \<in> K \<Longrightarrow> usable g (f s) k) \<Longrightarrow> body i s = Some s' \<Longrightarrow> \<exists>g'. runs g (f s) g' (f s')"
  shows "\<exists>g'. runs g (f s) g' (f s')"
proof (rule for_range_keeps [where P = "\<lambda>s'. \<exists>g'. runs g (f s) g' (f s')", OF assms(1)])
  show "\<exists>g'. runs g (f s) g' (f s)" using assms(2) by blast
  fix i s1 s2
  assume b: "body i s1 = Some s2" and "\<exists>g'. runs g (f s) g' (f s1)"
  then obtain g1 where g1: "runs g (f s) g1 (f s1)" by blast
  have "k \<in> K \<Longrightarrow> usable g1 (f s1) k" for k using g1 u unfolding runs_def by blast
  from body [OF runs_tracked [OF g1] this b] show "\<exists>g'. runs g (f s) g' (f s2)" using runs_trans [OF g1] by blast
qed

subsection \<open>Allocation\<close>

lemma allocate_runs:
  assumes tr: "tracked g m" and run: "allocateAndInitBuckets n m = Some (k, m')"
  shows "\<exists>g'. runs g m g' m' \<and> usable g' m' k"
proof -
  let ?g0 = "advance_by (EAlloc (freshBlock m) n) g" and ?m0 = "emit (EAlloc (freshBlock m) n) m"
  have n: "n \<noteq> 0" "k = freshBlock m"
    and loop: "for_range 0 (unat n) (\<lambda>i m. Some (storeNext (BucketHead k i) None m)) ?m0 = Some m'"
    using run by (auto simp: allocateAndInitBuckets_def Let_def split: if_splits bind_splits)
  have 0: "runs g m ?g0 ?m0" by (rule runs_emit) (use tr in \<open>auto simp: tracked_def\<close>)
  let ?I = "\<lambda>i m1. \<exists>g1. runs g m g1 m1 \<and> sizes g1 k = Some n \<and> blocks m1 k = Some n \<and> (\<forall>j < i. BucketHead k j \<in> linked g1)"
  have "\<exists>m1. for_range 0 (unat n) (\<lambda>i m. Some (storeNext (BucketHead k i) None m)) ?m0 = Some m1 \<and> ?I (unat n) m1"
  proof (rule for_range_rule [where I = ?I])
    show "?I 0 ?m0" using 0 n(2) by (intro exI [of _ ?g0]) simp
    fix i m1 assume "?I i m1"
    then obtain g1 where g1: "runs g m g1 m1" "sizes g1 k = Some n" "blocks m1 k = Some n" "\<forall>j < i. BucketHead k j \<in> linked g1" by blast
    have "runs g1 m1 (advance_by (EStore (BucketHead k i) None) g1) (storeNext (BucketHead k i) None m1)"
      by (rule runs_store [OF runs_tracked [OF g1(1)]]) simp
    then have "?I (Suc i) (storeNext (BucketHead k i) None m1)" using g1 runs_trans [OF g1(1)]
      by (intro exI [of _ "advance_by (EStore (BucketHead k i) None) g1"]) (auto simp: less_Suc_eq)
    then show "\<exists>s'. Some (storeNext (BucketHead k i) None m1) = Some s' \<and> ?I (Suc i) s'" by blast
  qed simp
  then obtain g1 where "runs g m g1 m'" "sizes g1 k = Some n" "blocks m' k = Some n" "\<forall>j < unat n. BucketHead k j \<in> linked g1"
    using loop by auto
  then show ?thesis using n(1) unfolding usable_def ready_def by auto
qed

lemma publish_runs:
  assumes "tracked g m" and "usable g m k"
  shows "runs g m g (emit (EPublish (Some k)) m)"
  using runs_emit [of g m "EPublish (Some k)"] assms by (simp add: usable_def)

lemma sync_runs: "tracked g m \<Longrightarrow> runs g m g (emit ESync m)"
  using runs_emit [of g m ESync] by simp

text \<open>Freeing a block leaves the others usable.\<close>

lemma free_published:
  assumes "tracked g m" and "destroyAndFreeBuckets k m = Some m'"
  shows "published g m g m'" "k' \<noteq> k \<Longrightarrow> usable g m k' \<Longrightarrow> usable g m' k'"
proof -
  have m': "m' = emit (EFree k) m" using assms(2) by (auto simp: destroyAndFreeBuckets_def split: bind_splits)
  show "published g m g m'" using published_emit [of g m "EFree k"] assms(1) m' by simp
  show "k' \<noteq> k \<Longrightarrow> usable g m k' \<Longrightarrow> usable g m' k'" by (simp add: usable_def m')
qed

subsection \<open>Shrinking\<close>

lemma shrinkTwo_runs:
  assumes tr: "tracked g m" and l: "pSrc0 \<in> linked g" "pSrc1 \<in> linked g" and run: "shrinkTwoBucketsToOne pSrc0 pSrc1 pDst m = Some m'"
  shows "\<exists>g'. runs g m g' m'"
proof -
  have e: "nxt m pSrc0 = Some y \<Longrightarrow> y \<in> exposed g" "nxt m pSrc1 = Some y \<Longrightarrow> y \<in> exposed g" for y
    using loaded [OF tr] l by blast+
  have one: "\<exists>g'. runs g m g' (storeNext a p m)" if "\<And>y. p = Some y \<Longrightarrow> y \<in> exposed g" for a p
    using runs_store [OF tr that] by blast
  show ?thesis
  proof (cases "nxt m pSrc1 = None \<or> nxt m pSrc0 = None")
    case True
    then show ?thesis using run one [of "nxt m pSrc0" pDst] one [of "nxt m pSrc1" pDst] e
      by (auto simp: shrinkTwoBucketsToOne_def Let_def split: option.splits bind_splits)
  next
    case False
    then obtain last where m': "m' = storeNext pDst (nxt m pSrc0) (storeNext last (nxt m pSrc1) m)"
      using run by (auto simp: shrinkTwoBucketsToOne_def Let_def split: option.splits bind_splits)
    obtain g1 where g1: "runs g m g1 (storeNext last (nxt m pSrc1) m)" using one [of "nxt m pSrc1"] e by blast
    then have "nxt m pSrc0 = Some y \<Longrightarrow> y \<in> exposed g1" for y using e unfolding runs_def by blast
    then show ?thesis using runs_trans [OF g1 runs_store [OF runs_tracked [OF g1]]] m' by blast
  qed
qed

lemma shrinkLoop_runs:
  assumes "tracked g m" and "usable g m old" and "shrinkLoop old new n m = Some m'"
  shows "\<exists>g'. runs g m g' m'"
proof (rule loop_runs [where f = "\<lambda>m. m" and K = "{old}", OF assms(3) [unfolded shrinkLoop_def] assms(1)])
  fix i g m m'
  assume tr: "tracked g m" and u: "\<And>k. k \<in> {old} \<Longrightarrow> usable g m k"
    and b: "do { pDst \<leftarrow> bucketAt m new i; pSrc0 \<leftarrow> bucketAt m old i; let iSecondHalf = i + unat n;
      pSrc1 \<leftarrow> bucketAt m old iSecondHalf; shrinkTwoBucketsToOne pSrc0 pSrc1 pDst m } = Some m'"
  then obtain d s0 s1 where "bucketAt m old i = Some s0" "bucketAt m old (i + unat n) = Some s1" "shrinkTwoBucketsToOne s0 s1 d m = Some m'"
    by (auto simp: Let_def split: bind_splits)
  then show "\<exists>g'. runs g m g' m'" using shrinkTwo_runs [OF tr] usable_bucket [OF u] by blast
qed (use assms(2) in auto)

lemma shrinkReturnOld_runs:
  assumes tr: "tracked g m" and u: "pBucketsInfo t = Some k" "usable g m k"
    and run: "shrinkBucketsByFac2ReturnOld sync t m z = Some (old, t', m', z')"
  shows "\<exists>g'. runs g m g' m' \<and> (\<exists>k'. pBucketsInfo t' = Some k' \<and> usable g' m' k' \<and> (old \<noteq> None \<longrightarrow> old = Some k \<and> k' \<noteq> k) \<and> (old = None \<longrightarrow> k' = k))"
proof -
  obtain n where n: "blocks m k = Some n" using u(2) by (auto simp: usable_def ready_def)
  show ?thesis
  proof (cases "n div 2 = 0")
    case True
    then show ?thesis using run u n tr by (auto simp: shrinkBucketsByFac2ReturnOld_def Let_def)
  next
    case False
    then obtain new m1 m2 z1 where 1: "allocateAndInitBuckets (n div 2) m = Some (new, m1)" and 2: "shrinkLoop k new (n div 2) m1 = Some m2"
      and r: "old = Some k" "t' = t\<lparr>pBucketsInfo := Some new\<rparr>" "m' = emit ESync (emit (EPublish (Some new)) m2)"
      using run u(1) n by (auto simp: shrinkBucketsByFac2ReturnOld_def Let_def split: bind_splits)
    obtain g1 where g1: "runs g m g1 m1" "usable g1 m1 new" using allocate_runs [OF tr 1] by blast
    have "usable g1 m1 k" using g1(1) u(2) unfolding runs_def by blast
    then obtain g2 where g2: "runs g1 m1 g2 m2" using shrinkLoop_runs [OF runs_tracked [OF g1(1)] _ 2] by blast
    then have u2: "usable g2 m2 new" using g1(2) unfolding runs_def by blast
    have g3: "runs g2 m2 g2 (emit (EPublish (Some new)) m2)" by (rule publish_runs [OF runs_tracked [OF g2] u2])
    have g4: "runs g2 (emit (EPublish (Some new)) m2) g2 m'" unfolding r by (rule sync_runs [OF runs_tracked [OF g3]])
    have "runs g m g2 m'" using runs_trans [OF runs_trans [OF runs_trans [OF g1(1) g2] g3] g4] .
    moreover have "usable g2 m' new" using g3 g4 u2 unfolding runs_def by blast
    moreover have "new \<noteq> k"
    proof -
      have "new = freshBlock m" using 1 by (auto simp: allocateAndInitBuckets_def Let_def split: if_splits bind_splits)
      moreover have "k < freshBlock m" using tr u(2) unfolding tracked_def usable_def ready_def by (metis option.distinct(1))
      ultimately show ?thesis by simp
    qed
    ultimately show ?thesis using r by auto
  qed
qed

subsection \<open>Expanding\<close>

lemma unzipLoop_exposed:
  assumes "unzipLoop p m msk i = Some (a, b)" and "tracked g m" and "p \<in> exposed g"
  shows "(\<forall>y. a = Some y \<longrightarrow> y \<in> exposed g) \<and> (\<forall>y. b = Some y \<longrightarrow> y \<in> exposed g)"
proof -
  let ?P = "\<lambda>p m' (msk :: u64) (i :: u64) r. m' = m \<longrightarrow> p \<in> exposed g
      \<longrightarrow> (\<forall>y. fst r = Some y \<longrightarrow> y \<in> exposed g) \<and> (\<forall>y. snd r = Some y \<longrightarrow> y \<in> exposed g)"
  have "?P p m msk i (a, b)"
  proof (rule unzipLoop.raw_induct [where P = ?P, OF _ assms(1)])
    fix f p m' msk i r
    assume IH: "\<And>p m msk i r. f p m msk i = Some r \<Longrightarrow> ?P p m msk i r"
      and eq: "(case nxt m' p of None \<Rightarrow> Some (None, None)
        | Some pNext \<Rightarrow> if computeHashBucketId pNext msk m' = i then Some (Some p, Some pNext) else f pNext m' msk i) = Some r"
    show "?P p m' msk i r"
    proof (intro impI)
      assume a: "m' = m" "p \<in> exposed g"
      show "(\<forall>y. fst r = Some y \<longrightarrow> y \<in> exposed g) \<and> (\<forall>y. snd r = Some y \<longrightarrow> y \<in> exposed g)"
      proof (cases "nxt m p")
        case None
        then show ?thesis using eq a(1) by auto
      next
        case (Some q)
        then have q: "q \<in> exposed g" by (rule loaded_next [OF assms(2) a(2)])
        note eq' = eq [unfolded a(1) Some option.case]
        show ?thesis
        proof (cases "computeHashBucketId q msk m = i")
          case True
          then have "r = (Some p, Some q)" using eq' by simp
          then show ?thesis using q a(2) by simp
        next
          case False
          then have "f q m msk i = Some r" using eq' by simp
          from IH [OF this] show ?thesis using q by blast
        qed
      qed
    qed
  qed
  then show ?thesis using assms(3) by simp
qed

lemma unzipOne_runs:
  assumes tr: "tracked g m" and l: "a \<in> linked g" and run: "unzipOneSegment a msk m = Some m'"
  shows "\<exists>g'. runs g m g' m'"
proof -
  obtain js n0 n1 nx where r: "nxt m a = Some js" "nxt m js = Some n0" "unzipLoop n0 m msk (computeHashBucketId js msk m) = Some (n1, nx)"
    "m' = storeNext js nx (storeNext a n1 m)" using run by (auto simp: unzipOneSegment_def Let_def split: bind_splits if_splits)
  have "n0 \<in> exposed g" using loaded [OF tr l r(1)] loaded_next [OF tr _ r(2)] by blast
  then have e: "n1 = Some y \<Longrightarrow> y \<in> exposed g" "nx = Some y \<Longrightarrow> y \<in> exposed g" for y using unzipLoop_exposed [OF r(3) tr] by blast+
  have g1: "runs g m (advance_by (EStore a n1) g) (storeNext a n1 m)" by (rule runs_store [OF tr e(1)])
  then have "nx = Some y \<Longrightarrow> y \<in> exposed (advance_by (EStore a n1) g)" for y using e(2) unfolding runs_def by blast
  then show ?thesis using runs_trans [OF g1 runs_store [OF runs_tracked [OF g1]]] r(4) by blast
qed

lemma twinLoop_exposed:
  assumes "twinLoop p m msk i j f0 f1 = Some (a, b)" and tr: "tracked g m"
    and "\<And>y. p = Some y \<Longrightarrow> y \<in> exposed g" "\<And>y. f0 = Some y \<Longrightarrow> y \<in> exposed g" "\<And>y. f1 = Some y \<Longrightarrow> y \<in> exposed g"
  shows "(\<forall>y. a = Some y \<longrightarrow> y \<in> exposed g) \<and> (\<forall>y. b = Some y \<longrightarrow> y \<in> exposed g)"
proof -
  let ?in = "\<lambda>p. \<forall>y. p = Some y \<longrightarrow> y \<in> exposed g"
  let ?P = "\<lambda>p m' msk i j f0 f1 r. m' = m \<longrightarrow> ?in p \<longrightarrow> ?in f0 \<longrightarrow> ?in f1 \<longrightarrow> ?in (fst r) \<and> ?in (snd r)"
  have "?P p m msk i j f0 f1 (a, b)"
  proof (rule twinLoop.raw_induct [where P = ?P, OF _ assms(1)])
    fix f p m' msk i j f0 f1 r
    assume IH: "\<And>p m msk i j f0 f1 r. f p m msk i j f0 f1 = Some r \<Longrightarrow> ?P p m msk i j f0 f1 r"
      and eq: "(case p of None \<Rightarrow> Some (f0, f1)
        | Some x \<Rightarrow>
            if computeHashBucketId x msk m' \<noteq> i \<and> computeHashBucketId x msk m' \<noteq> j then None
            else if f0 = None \<and> computeHashBucketId x msk m' = i then
              if f1 \<noteq> None then Some (Some x, f1) else f (nxt m' x) m' msk i j (Some x) f1
            else if f1 = None \<and> computeHashBucketId x msk m' = j then
              if f0 \<noteq> None then Some (f0, Some x) else f (nxt m' x) m' msk i j f0 (Some x)
            else if f0 \<noteq> None \<and> f1 \<noteq> None then Some (f0, f1)
            else f (nxt m' x) m' msk i j f0 f1) = Some r"
    show "?P p m' msk i j f0 f1 r"
    proof (intro impI)
      assume a: "m' = m" "?in p" "?in f0" "?in f1"
      show "?in (fst r) \<and> ?in (snd r)"
      proof (cases p)
        case None
        then show ?thesis using eq a by auto
      next
        case (Some x)
        then have x: "x \<in> exposed g" and nx: "?in (nxt m x)" using a(2) loaded_next [OF tr] by auto
        note eq' = eq [unfolded a(1) Some option.case]
        consider (a) "r = (Some x, f1)" | (b) "r = (f0, Some x)" | (c) "r = (f0, f1)" | (d) "f (nxt m x) m msk i j (Some x) f1 = Some r"
          | (e) "f (nxt m x) m msk i j f0 (Some x) = Some r" | (f) "f (nxt m x) m msk i j f0 f1 = Some r"
          using eq' by (auto split: if_split_asm)
        then show ?thesis
        proof cases
          case d
          from IH [OF this] show ?thesis using x nx a(4) by blast
        next
          case e
          from IH [OF this] show ?thesis using x nx a(3) by blast
        next
          case f
          from IH [OF this] show ?thesis using nx a(3,4) by blast
        qed (use x a(3,4) in auto)
      qed
    qed
  qed
  then show ?thesis using assms(3-5) by simp
qed

lemma initTwin_runs:
  assumes tr: "tracked g m" and l: "src \<in> linked g" and run: "initTwinDstBuckets src d0 d1 i j msk m = Some m'"
  shows "\<exists>g'. runs g m g' m'"
proof -
  obtain f0 f1 where r: "twinLoop (nxt m src) m msk i j None None = Some (f0, f1)" "m' = storeNext d1 f1 (storeNext d0 f0 m)"
    using run by (auto simp: initTwinDstBuckets_def Let_def split: bind_splits)
  have e: "f0 = Some y \<Longrightarrow> y \<in> exposed g" "f1 = Some y \<Longrightarrow> y \<in> exposed g" for y
    using twinLoop_exposed [OF r(1) tr] loaded [OF tr l] by blast+
  have g1: "runs g m (advance_by (EStore d0 f0) g) (storeNext d0 f0 m)" by (rule runs_store [OF tr e(1)])
  then have "f1 = Some y \<Longrightarrow> y \<in> exposed (advance_by (EStore d0 f0) g)" for y using e(2) unfolding runs_def by blast
  then show ?thesis using runs_trans [OF g1 runs_store [OF runs_tracked [OF g1]]] r(2) by blast
qed

lemma firstUnzipLoop_exposed:
  assumes "firstUnzipLoop p m msk i = Some r" and "tracked g m" and "p \<in> exposed g"
  shows "\<forall>y. r = Some y \<longrightarrow> y \<in> exposed g"
proof -
  let ?P = "\<lambda>p m' (msk :: u64) (i :: u64) r. m' = m \<longrightarrow> p \<in> exposed g \<longrightarrow> (\<forall>y. r = Some y \<longrightarrow> y \<in> exposed g)"
  have "?P p m msk i r"
  proof (rule firstUnzipLoop.raw_induct [where P = ?P, OF _ assms(1)])
    fix f p m' msk i r
    assume IH: "\<And>p m msk i r. f p m msk i = Some r \<Longrightarrow> ?P p m msk i r"
      and eq: "(case nxt m' p of None \<Rightarrow> Some None
        | Some pNext \<Rightarrow> if computeHashBucketId pNext msk m' \<noteq> i then Some (Some p) else f pNext m' msk i) = Some r"
    show "?P p m' msk i r"
    proof (intro impI)
      assume a: "m' = m" "p \<in> exposed g"
      show "\<forall>y. r = Some y \<longrightarrow> y \<in> exposed g"
      proof (cases "nxt m p")
        case None
        then show ?thesis using eq a(1) by auto
      next
        case (Some q)
        then have q: "q \<in> exposed g" by (rule loaded_next [OF assms(2) a(2)])
        note eq' = eq [unfolded a(1) Some option.case]
        show ?thesis
        proof (cases "computeHashBucketId q msk m = i")
          case True
          then have "f q m msk i = Some r" using eq' by simp
          from IH [OF this] show ?thesis using q by blast
        next
          case False
          then have "r = Some p" using eq' by simp
          then show ?thesis using a(2) by simp
        qed
      qed
    qed
  qed
  then show ?thesis using assms(3) by simp
qed

lemma findFirstUnzipPoint_runs:
  assumes tr: "tracked g m" and l: "src \<in> linked g" and run: "findFirstUnzipPoint src msk m = Some (b, m')"
  shows "\<exists>g'. runs g m g' m'"
proof -
  obtain p q where r: "nxt m src = Some p" "firstUnzipLoop p m msk (computeHashBucketId p msk m) = Some q" "m' = storeNext src q m"
    using run by (auto simp: findFirstUnzipPoint_def Let_def split: bind_splits)
  have "q = Some y \<Longrightarrow> y \<in> exposed g" for y using firstUnzipLoop_exposed [OF r(2) tr loaded [OF tr l r(1)]] by blast
  then show ?thesis using runs_store [OF tr] r(3) by blast
qed

lemma twinsLoop_runs:
  assumes "tracked g m" and "usable g m old" and "twinsLoop old new n msk m = Some m'"
  shows "\<exists>g'. runs g m g' m'"
proof (rule loop_runs [where f = "\<lambda>m. m" and K = "{old}", OF assms(3) [unfolded twinsLoop_def] assms(1)])
  fix i g m m'
  assume tr: "tracked g m" and u: "\<And>k. k \<in> {old} \<Longrightarrow> usable g m k"
    and b: "do { pSrc \<leftarrow> bucketAt m old i; dst0 \<leftarrow> bucketAt m new i; let iSecondHalf = i + unat n; dst1 \<leftarrow> bucketAt m new iSecondHalf;
      initTwinDstBuckets pSrc dst0 dst1 (of_nat i) (of_nat iSecondHalf) msk m } = Some m'"
  then obtain src d0 d1 where "bucketAt m old i = Some src" "initTwinDstBuckets src d0 d1 (of_nat i) (of_nat (i + unat n)) msk m = Some m'"
    by (auto simp: Let_def split: bind_splits)
  then show "\<exists>g'. runs g m g' m'" using initTwin_runs [OF tr] usable_bucket [OF u] by blast
qed (use assms(2) in auto)

lemma findFirstUnzipStarts_runs:
  assumes tr: "tracked g m" and u: "usable g m old" and run: "findFirstUnzipStarts old msk m = Some (b, m')"
  shows "\<exists>g'. runs g m g' m'"
proof -
  obtain n where n: "blocks m old = Some n" using u by (auto simp: usable_def ready_def)
  have loop: "for_range 0 (unat n) (\<lambda>iHalf (allFinished, m). do {
      pSrc \<leftarrow> bucketAt m old iHalf;
      if nxt m pSrc \<noteq> None then do { (needUnzip, m) \<leftarrow> findFirstUnzipPoint pSrc msk m; Some (if needUnzip then False else allFinished, m) }
      else Some (allFinished, m) }) (True, m) = Some (b, m')"
    using run unfolding findFirstUnzipStarts_def n Option.bind.simps .
  have "\<exists>g'. runs g (snd (True, m)) g' (snd (b, m'))"
  proof (rule loop_runs [where f = snd and K = "{old}", OF loop])
    fix i g and s s' :: "bool \<times> mem"
    assume tr: "tracked g (snd s)" and u: "\<And>k. k \<in> {old} \<Longrightarrow> usable g (snd s) k"
      and b: "(case s of (allFinished, m) \<Rightarrow> do {
        pSrc \<leftarrow> bucketAt m old i;
        if nxt m pSrc \<noteq> None then do { (needUnzip, m) \<leftarrow> findFirstUnzipPoint pSrc msk m; Some (if needUnzip then False else allFinished, m) }
        else Some (allFinished, m) }) = Some s'"
    obtain src where src: "bucketAt (snd s) old i = Some src" using b by (auto split: prod.splits bind_splits)
    then consider "snd s' = snd s" | c where "findFirstUnzipPoint src msk (snd s) = Some (c, snd s')"
      using b by (auto split: prod.splits bind_splits if_splits)
    then show "\<exists>g'. runs g (snd s) g' (snd s')"
      using findFirstUnzipPoint_runs [OF tr usable_bucket [OF u src]] tr by cases auto
  qed (use tr u in auto)
  then show ?thesis by simp
qed

lemma unzipRound_runs:
  assumes tr: "tracked g m" and u: "usable g m old" and run: "unzipRound old msk m = Some (b, m')"
  shows "\<exists>g'. runs g m g' m'"
proof -
  obtain n where n: "blocks m old = Some n" using u by (auto simp: usable_def ready_def)
  have loop: "for_range 0 (unat n) (\<lambda>iHalf (allFinished, m). do {
      pSrc \<leftarrow> bucketAt m old iHalf;
      if nxt m pSrc \<noteq> None then do { m \<leftarrow> unzipOneSegment pSrc msk m; Some (False, m) }
      else Some (allFinished, m) }) (True, m) = Some (b, m')"
    using run unfolding unzipRound_def n Option.bind.simps .
  have "\<exists>g'. runs g (snd (True, m)) g' (snd (b, m'))"
  proof (rule loop_runs [where f = snd and K = "{old}", OF loop])
    fix i g and s s' :: "bool \<times> mem"
    assume tr: "tracked g (snd s)" and u: "\<And>k. k \<in> {old} \<Longrightarrow> usable g (snd s) k"
      and b: "(case s of (allFinished, m) \<Rightarrow> do {
        pSrc \<leftarrow> bucketAt m old i;
        if nxt m pSrc \<noteq> None then do { m \<leftarrow> unzipOneSegment pSrc msk m; Some (False, m) }
        else Some (allFinished, m) }) = Some s'"
    obtain src where src: "bucketAt (snd s) old i = Some src" using b by (auto split: prod.splits bind_splits)
    then consider "snd s' = snd s" | "unzipOneSegment src msk (snd s) = Some (snd s')"
      using b by (auto split: prod.splits bind_splits if_splits)
    then show "\<exists>g'. runs g (snd s) g' (snd s')"
      using unzipOne_runs [OF tr usable_bucket [OF u src]] tr by cases auto
  qed (use tr u in auto)
  then show ?thesis by simp
qed

lemma unzip_runs:
  assumes "unzip sync old msk m z = Some r" and "tracked g m" and "usable g m old"
  shows "\<exists>g'. runs g m g' (fst r)"
proof -
  let ?P = "\<lambda>sync old msk m z r. \<forall>g. tracked g m \<longrightarrow> usable g m old \<longrightarrow> (\<exists>g'. runs g m g' (fst r))"
  have "?P sync old msk m z r"
  proof (rule unzip.raw_induct [where P = ?P, OF _ assms(1)])
    fix f :: "('z \<Rightarrow> 'z option) \<Rightarrow> nat \<Rightarrow> u64 \<Rightarrow> mem \<Rightarrow> 'z \<Rightarrow> (mem \<times> 'z) option"
    fix sync old msk m z r
    assume IH: "\<And>sync old msk m z r. f sync old msk m z = Some r \<Longrightarrow> ?P sync old msk m z r"
      and eq: "do {
         (allFinished, m) \<leftarrow> unzipRound old msk m;
         if allFinished then Some (m, z) else do { z \<leftarrow> sync z; f sync old msk (emit ESync m) z }
       } = Some r"
    show "?P sync old msk m z r"
    proof (intro allI impI)
      fix g assume tr: "tracked g m" and u: "usable g m old"
      obtain b m1 where 1: "unzipRound old msk m = Some (b, m1)" using eq by (auto split: bind_splits)
      obtain g1 where g1: "runs g m g1 m1" using unzipRound_runs [OF tr u 1] by blast
      have g2: "runs g1 m1 g1 (emit ESync m1)" by (rule sync_runs [OF runs_tracked [OF g1]])
      have u2: "usable g1 (emit ESync m1) old" using g1 g2 u unfolding runs_def by blast
      consider "fst r = m1" | z1 where "f sync old msk (emit ESync m1) z1 = Some r" using eq 1 by (auto split: bind_splits if_splits)
      then show "\<exists>g'. runs g m g' (fst r)"
      proof cases
        case 1
        then show ?thesis using g1 by blast
      next
        case 2
        then obtain g3 where "runs g1 (emit ESync m1) g3 (fst r)" using IH [OF 2] runs_tracked [OF g2] u2 by blast
        then show ?thesis using runs_trans [OF runs_trans [OF g1 g2]] by blast
      qed
    qed
  qed
  then show ?thesis using assms(2,3) by blast
qed

lemma expandReturnOld_runs:
  assumes tr: "tracked g m" and u: "pBucketsInfo t = Some k" "usable g m k"
    and run: "expandBucketsByFac2ReturnOld sync t m z = Some (old, t', m', z')"
  shows "\<exists>g' k'. runs g m g' m' \<and> pBucketsInfo t' = Some k' \<and> usable g' m' k' \<and> old = k \<and> k' \<noteq> k"
proof -
  obtain n where n: "blocks m k = Some n" using u(2) by (auto simp: usable_def ready_def)
  obtain new m1 m2 z1 b m4 where 1: "allocateAndInitBuckets (n * 2) m = Some (new, m1)" and 2: "twinsLoop k new n (n * 2 - 1) m1 = Some m2"
    and 4: "findFirstUnzipStarts k (n * 2 - 1) (emit ESync (emit (EPublish (Some new)) m2)) = Some (b, m4)"
    and fin: "(if b then Some (k, t\<lparr>pBucketsInfo := Some new\<rparr>, m4, z1)
        else do { (m, z) \<leftarrow> unzip sync k (n * 2 - 1) m4 z1; Some (k, t\<lparr>pBucketsInfo := Some new\<rparr>, m, z) }) = Some (old, t', m', z')"
    using run u(1) n by (auto simp: expandBucketsByFac2ReturnOld_def Let_def simp del: if_split split: bind_splits)
  have r: "old = k" "t' = t\<lparr>pBucketsInfo := Some new\<rparr>" "m' = m4 \<or> (\<exists>z2. unzip sync k (n * 2 - 1) m4 z1 = Some (m', z2))"
    using fin by (cases b; auto split: bind_splits)+
  obtain g1 where g1: "runs g m g1 m1" "usable g1 m1 new" using allocate_runs [OF tr 1] by blast
  have u1: "usable g1 m1 k" using g1(1) u(2) unfolding runs_def by blast
  then obtain g2 where g2: "runs g1 m1 g2 m2" using twinsLoop_runs [OF runs_tracked [OF g1(1)] _ 2] by blast
  then have u2: "usable g2 m2 new" "usable g2 m2 k" using g1(2) u1 unfolding runs_def by blast+
  let ?m3 = "emit ESync (emit (EPublish (Some new)) m2)"
  have p: "runs g2 m2 g2 (emit (EPublish (Some new)) m2)" by (rule publish_runs [OF runs_tracked [OF g2] u2(1)])
  have g3: "runs g2 m2 g2 ?m3" by (rule runs_trans [OF p sync_runs [OF runs_tracked [OF p]]])
  then have u3: "usable g2 ?m3 new" "usable g2 ?m3 k" using u2 unfolding runs_def by blast+
  obtain g4 where g4: "runs g2 ?m3 g4 m4" using findFirstUnzipStarts_runs [OF runs_tracked [OF g3] u3(2) 4] by blast
  then have "usable g4 m4 k" using u3 unfolding runs_def by blast
  then obtain g5 where g5: "runs g4 m4 g5 m'"
    using r(3) unzip_runs [OF _ runs_tracked [OF g4]] runs_refl [OF runs_tracked [OF g4]] by (metis fst_conv)
  have "runs g m g5 m'" using runs_trans [OF runs_trans [OF runs_trans [OF runs_trans [OF g1(1) g2] g3] g4] g5] .
  moreover have "usable g5 m' new" using g4 g5 u3 unfolding runs_def by blast
  moreover have "new \<noteq> k"
  proof -
    have "new = freshBlock m" using 1 by (auto simp: allocateAndInitBuckets_def Let_def split: if_splits bind_splits)
    moreover have "k < freshBlock m" using tr u(2) unfolding tracked_def usable_def ready_def by (metis option.distinct(1))
    ultimately show ?thesis by simp
  qed
  ultimately show ?thesis using r(1,2) by auto
qed

subsection \<open>The operations of the table\<close>

text \<open>Between two operations the current block of the table is usable.\<close>

definition tabled :: "progress \<Rightarrow> RTableCore \<Rightarrow> mem \<Rightarrow> bool" where
  "tabled g t m \<longleftrightarrow> tracked g m \<and> (\<exists>k. pBucketsInfo t = Some k \<and> usable g m k)"

text \<open>An operation that writes a proper trace and exposes at most the nodes \<open>E\<close>.\<close>

definition operates :: "loc set \<Rightarrow> progress \<Rightarrow> mem \<Rightarrow> RTableCore \<Rightarrow> mem \<Rightarrow> bool" where
  "operates E g m t' m' \<longleftrightarrow> (\<exists>g'. published g m g' m' \<and> tabled g' t' m' \<and> exposed g' \<subseteq> exposed g \<union> E)"

lemma operates_runs: "runs g m g' m' \<Longrightarrow> pBucketsInfo t' = Some k \<Longrightarrow> usable g' m' k \<Longrightarrow> operates {} g m t' m'"
  unfolding operates_def tabled_def runs_def published_def by blast

lemma operates_refl: "tabled g t m \<Longrightarrow> operates {} g m t m"
  using operates_runs [OF runs_refl] unfolding tabled_def by blast

lemma operates_trans:
  assumes "operates E g m t1 m1" and "\<And>g1. tabled g1 t1 m1 \<Longrightarrow> operates {} g1 m1 t2 m2"
  shows "operates E g m t2 m2"
proof -
  obtain g1 where g1: "published g m g1 m1" "tabled g1 t1 m1" "exposed g1 \<subseteq> exposed g \<union> E" using assms(1) unfolding operates_def by blast
  then obtain g2 where "published g1 m1 g2 m2" "tabled g2 t2 m2" "exposed g2 \<subseteq> exposed g1"
    using assms(2) [OF g1(2)] unfolding operates_def by auto
  then show ?thesis using published_trans [OF g1(1)] g1(3) unfolding operates_def by blast
qed

lemma operates_free:
  assumes "runs g m g' m1" and "pBucketsInfo t' = Some k'" "usable g' m1 k'" "k' \<noteq> k" and "destroyAndFreeBuckets k m1 = Some m'"
  shows "operates {} g m t' m'"
proof -
  have "published g m g' m'" using free_published(1) [OF runs_tracked [OF assms(1)] assms(5)] assms(1) published_trans unfolding runs_def by blast
  moreover from this have "tabled g' t' m'" using free_published(2) [OF runs_tracked [OF assms(1)] assms(5,4,3)] assms(2)
    unfolding tabled_def published_def by blast
  ultimately show ?thesis using assms(1) unfolding operates_def runs_def by blast
qed

lemma expand2x_operates:
  assumes "tabled g t m" and "rTableCoreExpandBuckets2x sync t m z = Some (t', m', z')"
  shows "operates {} g m t' m'"
proof -
  obtain k where k: "tracked g m" "pBucketsInfo t = Some k" "usable g m k" using assms(1) by (auto simp: tabled_def)
  obtain old m1 where 1: "expandBucketsByFac2ReturnOld sync t m z = Some (old, t', m1, z')" "destroyAndFreeBuckets old m1 = Some m'"
    using assms(2) by (auto simp: rTableCoreExpandBuckets2x_def split: bind_splits)
  show ?thesis using expandReturnOld_runs [OF k 1(1)] operates_free [OF _ _ _ _ 1(2)] by blast
qed

lemma shrink2x_operates:
  assumes "tabled g t m" and "rTableCoreShrinkBuckets2x sync t m z = Some (b, t', m', z')"
  shows "operates {} g m t' m'"
proof -
  obtain k where k: "tracked g m" "pBucketsInfo t = Some k" "usable g m k" using assms(1) by (auto simp: tabled_def)
  obtain old t1 m1 z1 where 1: "shrinkBucketsByFac2ReturnOld sync t m z = Some (old, t1, m1, z1)" and
    r: "old = None \<and> t' = t1 \<and> m' = m1 \<or> (\<exists>o'. old = Some o' \<and> t' = t1 \<and> destroyAndFreeBuckets o' m1 = Some m')"
    using assms(2) by (auto simp: rTableCoreShrinkBuckets2x_def split: bind_splits option.splits)
  obtain g' k' where g': "runs g m g' m1" "pBucketsInfo t1 = Some k'" "usable g' m1 k'" "old \<noteq> None \<Longrightarrow> old = Some k \<and> k' \<noteq> k"
    using shrinkReturnOld_runs [OF k 1] by blast
  show ?thesis
  proof (cases old)
    case None
    then show ?thesis using r operates_runs [OF g'(1-3)] by simp
  next
    case (Some o')
    then show ?thesis using r g'(4) operates_free [OF g'(1-3)] by auto
  qed
qed

lemma insertNoExpand_operates:
  assumes tb: "tabled g t m" and new: "e \<notin> exposed g" "isNode e"
    and run: "rTableCoreTryInsertNoExpand t e h R m = Some (b, t', m')"
  shows "operates {e} g m t' m'"
proof -
  obtain k where k: "tracked g m" "pBucketsInfo t = Some k" "usable g m k" using tb by (auto simp: tabled_def)
  let ?g1 = "advance_by (EHash e h) g" and ?m1 = "emit (EHash e h) m"
  have g1: "runs g m ?g1 ?m1" by (rule runs_emit) (use k(1) new in auto)
  have u1: "usable ?g1 ?m1 k" using g1 k(3) unfolding runs_def by blast
  obtain l where l: "bucketFor t (hashOf ?m1 e) ?m1 = Some l" and p: "rcuSlistPrependIfNoMatch l e R ?m1 = Some (b, m')"
    and t': "pBucketsInfo t' = Some k" using run k(2) by (auto simp: rTableCoreTryInsertNoExpand_def Let_def split: bind_splits)
  obtain i where i: "bucketAt ?m1 k i = Some l" using l k(2) by (auto simp: bucketFor_def Let_def split: bind_splits)
  have ln: "l \<in> linked ?g1" by (rule usable_bucket [OF u1 i])
  show ?thesis
  proof (cases "m' = ?m1")
    case True
    then have "operates {} g m t' m'" using operates_runs [OF g1 t'] u1 by simp
    then show ?thesis unfolding operates_def by blast
  next
    case False
    then have m': "m' = storeNext l (Some e) (storeNext e (nxt ?m1 l) ?m1)"
      using p by (auto simp: rcuSlistPrependIfNoMatch_def Let_def split: bind_splits if_splits)
    let ?g2 = "advance_by (EStore e (nxt ?m1 l)) ?g1" and ?m2 = "storeNext e (nxt ?m1 l) ?m1"
    have g2: "runs ?g1 ?m1 ?g2 ?m2" by (rule runs_store [OF runs_tracked [OF g1] loaded [OF runs_tracked [OF g1] ln]])
    have u2: "usable ?g2 ?m2 k" using g2 u1 unfolding runs_def by blast
    let ?g3 = "advance_by (EStore l (Some e)) ?g2"
    have g3: "published ?g2 ?m2 ?g3 m'" unfolding m' by (rule published_emit [OF runs_tracked [OF g2]]) (use new(2) in auto)
    have "usable ?g3 m' k" using u2 by (auto simp: usable_def ready_def m')
    moreover have "exposed ?g3 = insert e (exposed g)" using g1 g2 unfolding runs_def by simp
    moreover have "published g m ?g3 m'" using runs_trans [OF g1 g2] g3 published_trans unfolding runs_def by blast
    ultimately show ?thesis using t' unfolding operates_def tabled_def published_def by blast
  qed
qed

lemma removeLoop_runs:
  assumes "removeLoop p m P l = Some (x, m')" and tr: "tracked g m" and "\<And>y. p = Some y \<Longrightarrow> y \<in> exposed g"
  shows "\<exists>g'. runs g m g' m'"
proof -
  let ?Q = "\<lambda>(((p, m'), P :: loc \<Rightarrow> bool), l :: loc) r. m' = m \<longrightarrow> (\<forall>y. p = Some y \<longrightarrow> y \<in> exposed g) \<longrightarrow> (\<exists>g'. runs g m g' (snd r))"
  have "?Q (((p, m), P), l) (x, m')"
  proof (rule removeLoop.raw_induct [where Pa = ?Q, OF _ assms(1)])
    fix f p m1 P l r
    assume IH: "\<And>p m P l r. f p m P l = Some r \<Longrightarrow> ?Q (((p, m), P), l) r"
      and eq: "(case p of None \<Rightarrow> Some (None, m1)
        | Some x \<Rightarrow> if P x then Some (Some x, storeNext l (nxt m1 x) m1) else f (nxt m1 x) m1 P x) = Some r"
    show "?Q (((p, m1), P), l) r"
    proof (simp only: prod.case, intro impI)
      assume a: "m1 = m" "\<forall>y. p = Some y \<longrightarrow> y \<in> exposed g"
      show "\<exists>g'. runs g m g' (snd r)"
      proof (cases p)
        case None
        then have "snd r = m" using eq a(1) by auto
        then show ?thesis using runs_refl [OF tr] by auto
      next
        case (Some y)
        then have nx: "\<And>z. nxt m y = Some z \<Longrightarrow> z \<in> exposed g" using a(2) loaded_next [OF tr] by blast
        show ?thesis
        proof (cases "P y")
          case True
          then have "snd r = storeNext l (nxt m y) m" using eq Some a(1) by auto
          then show ?thesis using runs_store [OF tr nx] by auto
        next
          case False
          then have "f (nxt m y) m P y = Some r" using eq Some a(1) by simp
          from IH [OF this] show ?thesis using nx by simp
        qed
      qed
    qed
  qed
  then show ?thesis using assms(3) by simp
qed

lemma detachNoShrink_operates:
  assumes tb: "tabled g t m" and run: "rTableCoreTryDetachNoShrink t h P m = Some (p, m')"
  shows "operates {} g m t m'"
proof -
  obtain k where k: "tracked g m" "pBucketsInfo t = Some k" "usable g m k" using tb by (auto simp: tabled_def)
  obtain l i where l: "bucketAt m k i = Some l" "removeLoop (nxt m l) m P l = Some (p, m')"
    using run k(2) by (auto simp: rTableCoreTryDetachNoShrink_def rcuSlistRemoveIf_def bucketFor_def Let_def split: bind_splits)
  obtain g' where "runs g m g' m'" using removeLoop_runs [OF l(2) k(1) loaded [OF k(1) usable_bucket [OF k(3) l(1)]]] by blast
  moreover from this have "usable g' m' k" using k(3) unfolding runs_def by blast
  ultimately show ?thesis using operates_runs k(2) by blast
qed

lemma tryInsert_operates:
  assumes "tabled g t m" and "e \<notin> exposed g" "isNode e" and run: "rTableCoreTryInsert sync t e h R m z = Some (b, t', m', z')"
  shows "operates {e} g m t' m'"
proof -
  obtain b1 t1 m1 where 1: "rTableCoreTryInsertNoExpand t e h R m = Some (b1, t1, m1)"
    and r: "t' = t1 \<and> m' = m1 \<or> rTableCoreExpandBuckets2x sync t1 m1 z = Some (t', m', z')"
    using run by (auto simp: rTableCoreTryInsert_def expandBucketsByFac2IfNecessary_def Let_def split: bind_splits if_splits)
  have o: "operates {e} g m t1 m1" by (rule insertNoExpand_operates [OF assms(1-3) 1])
  show ?thesis by (rule operates_trans [OF o]) (use r expand2x_operates [where sync = sync and z = z and z' = z'] operates_refl in auto)
qed

lemma tryDetach_operates:
  assumes "tabled g t m" and run: "rTableCoreTryDetachAndSynchronize sync t h P m z = Some (p, t', m', z')"
  shows "operates {} g m t' m'"
proof -
  obtain p1 t1 m1 z1 b where 1: "rTableCoreTryDetachAutoShrink sync t h P m z = Some (p1, b, t1, m1, z1)"
    and r: "t' = t1" "m' = m1 \<or> m' = emit ESync m1"
    using run by (auto simp: rTableCoreTryDetachAndSynchronize_def split: bind_splits if_splits)
  obtain m2 where 2: "rTableCoreTryDetachNoShrink t h P m = Some (p1, m2)"
    and r2: "t1 = t \<and> m1 = m2 \<or> rTableCoreShrinkBuckets2x sync t m2 z = Some (b, t1, m1, z1)"
    using 1 by (auto simp: rTableCoreTryDetachAutoShrink_def shrinkBucketsByFac2IfNecessary_def Let_def split: bind_splits if_splits)
  have "operates {} g m t1 m1"
    by (rule operates_trans [OF detachNoShrink_operates [OF assms(1) 2]]) (use r2 shrink2x_operates [where sync = sync and z = z and z' = z1 and b = b] operates_refl in auto)
  then show ?thesis
  proof (rule operates_trans)
    fix g1 assume t: "tabled g1 t1 m1"
    then obtain k where k: "tracked g1 m1" "pBucketsInfo t1 = Some k" "usable g1 m1 k" by (auto simp: tabled_def)
    have s: "runs g1 m1 g1 (emit ESync m1)" by (rule sync_runs [OF k(1)])
    then have "usable g1 (emit ESync m1) k" using k(3) unfolding runs_def by blast
    then show "operates {} g1 m1 t' m'" using operates_runs [OF s k(2)] operates_refl [OF t] r by auto
  qed
qed

subsection \<open>Histories\<close>

text \<open>The nodes a history inserts; a history is new to a set of nodes if it inserts each of them once and none of the set.\<close>

fun inserted :: "('k, loc) request list \<Rightarrow> loc list" where
  "inserted [] = []"
| "inserted (Insert e # rs) = e # inserted rs"
| "inserted (r # rs) = inserted rs"

text \<open>What has been written when the readers start: the table, and nothing else that concerns them.\<close>

definition progressOf :: "RTableCore \<Rightarrow> mem \<Rightarrow> loc set \<Rightarrow> progress" where
  "progressOf t m X =
     \<lparr>filled = X, linked = X \<union> {BucketHead k i | k i n. pBucketsInfo t = Some k \<and> blocks m k = Some n \<and> i < unat n},
      exposed = X, sizes = (\<lambda>k. if pBucketsInfo t = Some k then blocks m k else None), nextBlock = freshBlock m\<rparr>"

lemma table_closed:
  assumes "slist m l xs"
  shows "a \<in> set (l # xs) \<Longrightarrow> nxt m a = Some y \<Longrightarrow> y \<in> set xs"
proof -
  have "lst (nxt m) p ys \<Longrightarrow> a \<in> set ys \<Longrightarrow> nxt m a = Some y \<Longrightarrow> y \<in> set ys" for p ys
  proof (induction ys arbitrary: p)
    case (Cons z zs)
    then show ?case by (cases zs) auto
  qed simp
  moreover have "nxt m l = Some y \<Longrightarrow> y \<in> set xs" using assms by (cases xs) (auto simp: slist_def)
  ultimately show "a \<in> set (l # xs) \<Longrightarrow> nxt m a = Some y \<Longrightarrow> y \<in> set xs" using assms unfolding slist_def by auto
qed

lemma tabled_start:
  assumes "table m t j B"
  shows "tabled (progressOf t m (set (concat B))) t m"
proof -
  obtain k where k: "pBucketsInfo t = Some k" "buckets_at m k j B" using assms by (rule tableE)
  have j: "unat ((2 :: u64) ^ j) = 2 ^ j" "(2 :: u64) ^ j \<noteq> 0" using buckets_atD(2) [OF k(2)] by (simp_all add: unat_two_power)
  have b: "slist m (BucketHead k i) (B ! i)" "\<forall>x \<in> set (B ! i). isNode x" if "i < 2 ^ j" for i
    using buckets_atD(5) [OF k(2) that] by (simp_all add: bucket_ok_def)
  have mem: "x \<in> set (concat B) \<longleftrightarrow> (\<exists>i < 2 ^ j. x \<in> set (B ! i))" for x
    using buckets_atD(4) [OF k(2)] by (auto simp: in_set_conv_nth) (metis in_set_conv_nth)+
  let ?g = "progressOf t m (set (concat B))"
  have "y \<in> set (concat B)" if a: "a \<in> linked ?g" "nxt m a = Some y" for a y
  proof -
    have "(\<exists>i < 2 ^ j. a \<in> set (B ! i)) \<or> (\<exists>i < 2 ^ j. a = BucketHead k i)"
      using a(1) k(1) buckets_atD(1) [OF k(2)] j mem by (auto simp: progressOf_def simp del: set_concat)
    then obtain i where "i < 2 ^ j" "a \<in> set (BucketHead k i # B ! i)" by auto
    then show ?thesis using table_closed [OF b(1)] a(2) mem by blast
  qed
  moreover have "isNode y" if "y \<in> set (concat B)" for y using that mem b(2) by blast
  moreover have "ready ?g k" using k(1) buckets_atD(1) [OF k(2)] j by (auto simp: ready_def progressOf_def)
  ultimately show ?thesis using k buckets_atD(1,3) [OF k(2)]
    by (auto simp: tabled_def tracked_def usable_def progressOf_def simp del: set_concat)
qed

lemma request_operates:
  assumes "tabled g (core T) m" and "\<And>e. r = Insert e \<Longrightarrow> e \<notin> exposed g \<and> isNode e"
    and "handle (findKey key hf) (insertNode reg key hf) (detachKey reg key hf) r (T, m) = Some (a, T', m')"
  shows "operates (set (inserted [r])) g m (core T') m'"
proof (cases r)
  case (Insert e)
  then obtain b t z where "rTableCoreTryInsert (rcuSynchronize reg) (core T) e (hf (key e)) (\<lambda>x y. key x = key y) m (RTable.rcuZone T) = Some (b, t, m', z)"
    "T' = \<lparr>core = t, rcuZone = z\<rparr>" using assms(3) by (auto simp: insertNode_def rTableTryInsert_def split: bind_splits)
  moreover have "e \<notin> exposed g" "isNode e" using assms(2) Insert by simp_all
  ultimately show ?thesis using tryInsert_operates [OF assms(1), of e] Insert by auto
next
  case (Find k)
  then show ?thesis using assms(1,3) operates_refl by (auto split: bind_splits)
next
  case (Detach k)
  then obtain p t z where "rTableCoreTryDetachAndSynchronize (rcuSynchronize reg) (core T) (hf k) (\<lambda>x. key x = k) m (RTable.rcuZone T) = Some (p, t, m', z)"
    "T' = \<lparr>core = t, rcuZone = z\<rparr>" using assms(3) by (auto simp: detachKey_def rTableTryDetachAndSynchronize_def split: bind_splits)
  then show ?thesis using tryDetach_operates [OF assms(1)] Detach by simp
qed

lemma history_publishes:
  assumes "tabled g (core T) m" and "distinct (inserted rs)" and "set (inserted rs) \<inter> exposed g = {}" and "\<forall>e \<in> set (inserted rs). isNode e"
    and "table_requests reg key hf rs (T, m) = Some (as, T', m')"
  shows "\<exists>g'. published g m g' m' \<and> exposed g' \<subseteq> exposed g \<union> set (inserted rs)"
  using assms
proof (induction rs arbitrary: g T m as)
  case Nil
  then show ?case using runs_refl unfolding tabled_def runs_def by fastforce
next
  case (Cons r rs)
  obtain a T1 m1 as1 where 1: "handle (findKey key hf) (insertNode reg key hf) (detachKey reg key hf) r (T, m) = Some (a, T1, m1)"
    and 2: "table_requests reg key hf rs (T1, m1) = Some (as1, T', m')" using Cons.prems(5) by (auto split: bind_splits)
  have new: "e \<notin> exposed g \<and> isNode e" if "r = Insert e" for e using that Cons.prems(3,4) by simp
  have ins: "inserted (r # rs) = inserted [r] @ inserted rs" by (cases r) simp_all
  obtain g1 where g1: "published g m g1 m1" "tabled g1 (core T1) m1" "exposed g1 \<subseteq> exposed g \<union> set (inserted [r])"
    using request_operates [OF Cons.prems(1) new 1] unfolding operates_def by blast
  have "distinct (inserted rs)" "set (inserted rs) \<inter> exposed g1 = {}" "\<forall>e \<in> set (inserted rs). isNode e"
    using Cons.prems(2-4) g1(3) unfolding ins by auto
  from Cons.IH [OF g1(2) this 2] obtain g2 where "published g1 m1 g2 m'" "exposed g2 \<subseteq> exposed g1 \<union> set (inserted rs)" by blast
  then have "published g m g2 m' \<and> exposed g2 \<subseteq> exposed g \<union> set (inserted (r # rs))"
    using published_trans [OF g1(1)] g1(3) by (simp add: ins) blast
  then show ?case by blast
qed

end
