(* ===== verification/OrderedTable.thy ===== *)
theory OrderedTable
  imports Publication ViewMachine
begin

text \<open>
  Lookups beside the writer on the machine of \<open>ViewMachine\<close>, where a load may return an old message.  The
  pointers, \<open>pBucketsInfo\<close> and every \<open>next\<close>, are stored with \<open>memory_order_release\<close> and loaded by the
  readers with \<open>memory_order_acquire\<close>.  The fields of a node and the size of a bucket array are plain
  memory: a load that need not know of the newest store is a data race, and memory from the allocator
  holds garbage until it is written.

  The writer writes the trace of a history of table operations; its own loads read what it wrote
  last.  Here it does not wait for anybody in \<open>rcuSynchronize\<close>, and a freed block stays as it is: the
  runs with grace periods are among these.
\<close>

subsection \<open>The machine\<close>

datatype tloc = Next loc | Fields loc | Size nat | Root

datatype tval = Pointer ptr | Hash u64 | Buckets u64 | Block "nat option" | Garbage

record 'k ordtable =
  tmem :: "(tloc, tval) vmem"
  twview :: "tloc view"
  twork :: "event list"
  trviews :: "nat \<Rightarrow> tloc view"
  tsearch :: "nat \<Rightarrow> 'k search"

text \<open>Where a write goes, what it stores, and with which order; the plain stores release nothing.\<close>

fun slot :: "event \<Rightarrow> (order \<times> tloc \<times> tval) option" where
  "slot (EStore a p) = Some (Release, Next a, Pointer p)"
| "slot (EHash x h) = Some (Relaxed, Fields x, Hash h)"
| "slot (EAlloc k n) = Some (Relaxed, Size k, Buckets n)"
| "slot (EPublish q) = Some (Release, Root, Block q)"
| "slot (EFree k) = None"
| "slot ESync = None"

definition writeOrdered :: "event \<Rightarrow> (tloc, tval) vmem \<Rightarrow> tloc view \<Rightarrow> (tloc, tval) vmem \<times> tloc view" where
  "writeOrdered e M V = (case slot e of None \<Rightarrow> (M, V) | Some (ord, l, x) \<Rightarrow> atomicStore ord l x M V)"

text \<open>
  One access of \<open>rTableCoreFind\<close> by a thread with the view \<open>V\<close>, where an atomic load takes the message \<open>t\<close>; a
  race, garbage or null is a fault.
\<close>

fun readOrdered :: "(loc \<Rightarrow> 'k) \<Rightarrow> ('k \<Rightarrow> u64) \<Rightarrow> nat \<Rightarrow> (tloc, tval) vmem \<Rightarrow> tloc view \<Rightarrow> 'k search
    \<Rightarrow> ('k search \<times> tloc view) option" where
  "readOrdered key hf t M V (Loaded k b) =
     Some (case plainLoad (Size b) M V of
             Some (Buckets n) \<Rightarrow>
               (let bucketId = unat (hf k AND (n - 1))
                in if bucketId < unat n then At k (BucketHead b bucketId) else Fault k)
           | _ \<Rightarrow> Fault k, V)"
| "readOrdered key hf t M V (At k p) = do {
     (x, V') \<leftarrow> atomicLoad Acquire (Next p) t M V;
     Some (case x of Pointer None \<Rightarrow> Miss k | Pointer (Some y) \<Rightarrow> Visit k y | _ \<Rightarrow> Fault k, V')
   }"
| "readOrdered key hf t M V (Visit k y) =
     Some (case plainLoad (Fields y) M V of
             Some (Hash h) \<Rightarrow> if key y = k then Hit k y else At k y
           | _ \<Rightarrow> Fault k, V)"
| "readOrdered key hf t M V s = None"

definition openOrdered :: "'k \<Rightarrow> nat \<Rightarrow> (tloc, tval) vmem \<Rightarrow> tloc view \<Rightarrow> ('k search \<times> tloc view) option" where
  "openOrdered k t M V = do {
     (x, V') \<leftarrow> atomicLoad Acquire Root t M V;
     Some (case x of Block (Some b) \<Rightarrow> Loaded k b | _ \<Rightarrow> Fault k, V')
   }"

datatype 'k taction = Put | Open nat 'k nat | Fetch nat nat

fun tact :: "(loc \<Rightarrow> 'k) \<Rightarrow> ('k \<Rightarrow> u64) \<Rightarrow> 'k taction \<Rightarrow> 'k ordtable \<Rightarrow> 'k ordtable option" where
  "tact key hf Put s =
     (case twork s of
        [] \<Rightarrow> None
      | e # es \<Rightarrow> (let (M, V) = writeOrdered e (tmem s) (twview s) in Some (s\<lparr>tmem := M, twview := V, twork := es\<rparr>)))"
| "tact key hf (Open i k t) s =
     (if finished (tsearch s i) then do {
        (q, V) \<leftarrow> openOrdered k t (tmem s) (trviews s i);
        Some (s\<lparr>tsearch := (tsearch s)(i := q), trviews := (trviews s)(i := V)\<rparr>)
      } else None)"
| "tact key hf (Fetch i t) s = do {
     (q, V) \<leftarrow> readOrdered key hf t (tmem s) (trviews s i) (tsearch s i);
     Some (s\<lparr>tsearch := (tsearch s)(i := q), trviews := (trviews s)(i := V)\<rparr>)
   }"

definition tstep :: "(loc \<Rightarrow> 'k) \<Rightarrow> ('k \<Rightarrow> u64) \<Rightarrow> 'k ordtable \<Rightarrow> 'k ordtable \<Rightarrow> bool" where
  "tstep key hf s s' \<longleftrightarrow> (\<exists>a. tact key hf a s = Some s')"

text \<open>
  At the start everybody knows the table, whose nodes are those of the map \<open>F\<close>; all other memory is garbage.
\<close>

fun initially :: "(loc \<Rightarrow> 'k) \<Rightarrow> ('k \<rightharpoonup> loc) \<Rightarrow> RTableCore \<Rightarrow> mem \<Rightarrow> tloc \<Rightarrow> tval" where
  "initially key F t m (Next (NodeHead x)) =
     (if F (key (NodeHead x)) = Some (NodeHead x) then Pointer (nxt m (NodeHead x)) else Garbage)"
| "initially key F t m (Next (BucketHead k i)) =
     (if pBucketsInfo t = Some k \<and> (case blocks m k of None \<Rightarrow> False | Some n \<Rightarrow> i < unat n)
      then Pointer (nxt m (BucketHead k i)) else Garbage)"
| "initially key F t m (Fields x) = (if F (key x) = Some x then Hash (hashOf m x) else Garbage)"
| "initially key F t m (Size k) =
     (if pBucketsInfo t = Some k then (case blocks m k of None \<Rightarrow> Garbage | Some n \<Rightarrow> Buckets n) else Garbage)"
| "initially key F t m Root = Block (pBucketsInfo t)"

definition tstart :: "(loc \<Rightarrow> 'k) \<Rightarrow> ('k \<rightharpoonup> loc) \<Rightarrow> RTableCore \<Rightarrow> mem \<Rightarrow> event list \<Rightarrow> 'k ordtable" where
  "tstart key F t m es =
     \<lparr>tmem = (\<lambda>l. [\<lparr>mval = initially key F t m l, mview = (\<lambda>_. 0)\<rparr>]), twview = (\<lambda>_. 0), twork = es,
      trviews = (\<lambda>_ _. 0), tsearch = (\<lambda>_. Idle)\<rparr>"

subsection \<open>What a view has to know\<close>

text \<open>Every message of a \<open>next\<close> field that may be loaded is a pointer.\<close>

definition links :: "(tloc, tval) vmem \<Rightarrow> tloc view \<Rightarrow> loc \<Rightarrow> bool" where
  "links M V a \<longleftrightarrow> (\<forall>t. V (Next a) \<le> t \<longrightarrow> t < length (M (Next a)) \<longrightarrow> (\<exists>p. mval (M (Next a) ! t) = Pointer p))"

text \<open>A node, and a bucket array, that a thread with the view \<open>V\<close> may use.\<close>

definition sound :: "progress \<Rightarrow> (tloc, tval) vmem \<Rightarrow> tloc view \<Rightarrow> loc \<Rightarrow> bool" where
  "sound g M V y \<longleftrightarrow> y \<in> exposed g \<and> newest M (Fields y) \<le> V (Fields y) \<and> (\<exists>h. mval (last (M (Fields y))) = Hash h) \<and> links M V y"

definition arrayed :: "progress \<Rightarrow> (tloc, tval) vmem \<Rightarrow> tloc view \<Rightarrow> nat \<Rightarrow> bool" where
  "arrayed g M V k \<longleftrightarrow> (\<exists>n. sizes g k = Some n \<and> n \<noteq> 0 \<and> newest M (Size k) \<le> V (Size k)
     \<and> mval (last (M (Size k))) = Buckets n \<and> (\<forall>i < unat n. links M V (BucketHead k i)))"

text \<open>What a message carries, and what a reader relies on.\<close>

fun carries :: "progress \<Rightarrow> (tloc, tval) vmem \<Rightarrow> tloc view \<Rightarrow> tval \<Rightarrow> bool" where
  "carries g M V (Pointer (Some y)) = sound g M V y"
| "carries g M V (Block q) = (\<exists>k. q = Some k \<and> arrayed g M V k)"
| "carries g M V x = True"

fun relies :: "(loc \<Rightarrow> 'k) \<Rightarrow> progress \<Rightarrow> (tloc, tval) vmem \<Rightarrow> tloc view \<Rightarrow> 'k search \<Rightarrow> bool" where
  "relies key g M V (Loaded k b) = arrayed g M V b"
| "relies key g M V (At k p) = links M V p"
| "relies key g M V (Visit k y) = sound g M V y"
| "relies key g M V (Hit k y) = (y \<in> exposed g \<and> key y = k)"
| "relies key g M V (Fault k) = False"
| "relies key g M V s = True"

definition messages :: "progress \<Rightarrow> (tloc, tval) vmem \<Rightarrow> bool" where
  "messages g M \<longleftrightarrow> (\<forall>l. M l \<noteq> []) \<and> (\<forall>l. \<forall>x \<in> set (M l). carries g M (mview x) (mval x))
     \<and> (\<forall>x \<in> set (M Root). \<exists>q. mval x = Block q)"

definition written :: "progress \<Rightarrow> (tloc, tval) vmem \<Rightarrow> bool" where
  "written g M \<longleftrightarrow> (\<forall>x \<in> filled g. \<exists>h. mval (last (M (Fields x))) = Hash h)
     \<and> (\<forall>a \<in> linked g. \<exists>p. mval (last (M (Next a))) = Pointer p)
     \<and> (\<forall>k n. sizes g k = Some n \<longrightarrow> mval (last (M (Size k))) = Buckets n \<and> k < nextBlock g)"

definition tableInv :: "(loc \<Rightarrow> 'k) \<Rightarrow> loc set \<Rightarrow> 'k ordtable \<Rightarrow> bool" where
  "tableInv key X s \<longleftrightarrow> (\<exists>g. publishes (twork s) g \<and> exposed (fold advance_by (twork s) g) \<subseteq> X
     \<and> twview s = newest (tmem s) \<and> messages g (tmem s) \<and> written g (tmem s)
     \<and> (\<forall>i. relies key g (tmem s) (trviews s i) (tsearch s i)))"

text \<open>More knowledge does no harm.\<close>

lemma links_mono: "links M V a \<Longrightarrow> V \<le> V' \<Longrightarrow> links M V' a"
  unfolding links_def le_fun_def by (meson order_trans)

lemma sound_mono: "sound g M V y \<Longrightarrow> V \<le> V' \<Longrightarrow> sound g M V' y"
  unfolding sound_def using links_mono le_funD by (metis order_trans)

lemma arrayed_mono: "arrayed g M V k \<Longrightarrow> V \<le> V' \<Longrightarrow> arrayed g M V' k"
  unfolding arrayed_def using links_mono le_funD by (metis order_trans)

lemma join_ge: "V \<le> join V W" "W \<le> join V W"
  by (simp_all add: le_fun_def)

lemma links_newest:
  assumes "M (Next a) \<noteq> []" and "mval (last (M (Next a))) = Pointer p"
  shows "links M (newest M) a"
proof -
  have "t = newest M (Next a)" if "newest M (Next a) \<le> t" "t < length (M (Next a))" for t using that by (simp add: newest_def)
  then show ?thesis using assms by (auto simp: links_def newest_def last_conv_nth)
qed

subsection \<open>A write\<close>

lemma exposed_grows: "exposed g \<subseteq> exposed (advance_by e g)"
  by (cases e) auto

lemma exposed_fold: "exposed g \<subseteq> exposed (fold advance_by es g)"
proof (induction es arbitrary: g)
  case (Cons e es)
  then show ?case using exposed_grows [of g e] by (simp add: subset_trans)
qed simp

text \<open>A message is added, and the write it comes from is proper.\<close>

definition adds :: "event \<Rightarrow> progress \<Rightarrow> (tloc, tval) vmem \<Rightarrow> tloc \<Rightarrow> (tloc, tval) msg \<Rightarrow> (tloc, tval) vmem \<Rightarrow> bool" where
  "adds e g M l x M' \<longleftrightarrow> M' = M(l := M l @ [x]) \<and> (\<exists>ord. slot e = Some (ord, l, mval x)) \<and> proper e g \<and> written g M \<and> messages g M"

lemma addsE:
  assumes "adds e g M l x M'"
  obtains a p where "e = EStore a p" "l = Next a" "mval x = Pointer p" "\<And>y. p = Some y \<Longrightarrow> y \<in> filled g \<and> y \<in> linked g"
  | y h where "e = EHash y h" "l = Fields y" "mval x = Hash h" "y \<notin> exposed g"
  | k n where "e = EAlloc k n" "l = Size k" "mval x = Buckets n" "sizes g k = None" "\<And>j. sizes g j \<noteq> None \<Longrightarrow> j < k"
  | k n where "e = EPublish (Some k)" "l = Root" "mval x = Block (Some k)" "sizes g k = Some n" "n \<noteq> 0" "\<forall>i < unat n. BucketHead k i \<in> linked g"
proof (cases e)
  case (EAlloc k n)
  have "sizes g j \<noteq> None \<Longrightarrow> j < nextBlock g" for j using assms by (auto simp: adds_def written_def)
  moreover have "nextBlock g \<le> k" using assms EAlloc by (simp add: adds_def)
  ultimately have "sizes g j \<noteq> None \<Longrightarrow> j < k" for j using order_less_le_trans by blast
  moreover from this have "sizes g k = None" by blast
  ultimately show ?thesis using that(3) assms EAlloc by (auto simp: adds_def)
qed (use assms that(1,2,4) in \<open>auto simp: adds_def ready_def\<close>)

lemma adds_eq: "adds e g M l x M' \<Longrightarrow> M' = M(l := M l @ [x])"
  by (simp add: adds_def)

lemma links_add:
  assumes ad: "adds e g M l x M'" and lk: "links M V a"
  shows "links M' V a"
  unfolding links_def
proof (intro allI impI)
  fix t assume t: "V (Next a) \<le> t" "t < length (M' (Next a))"
  show "\<exists>p. mval (M' (Next a) ! t) = Pointer p"
  proof (cases "t < length (M (Next a))")
    case True
    then show ?thesis using lk t(1) by (auto simp: adds_eq [OF ad] links_def nth_append)
  next
    case False
    then have "l = Next a" "M' (Next a) ! t = x" using t(2) by (auto simp: adds_eq [OF ad] nth_append split: if_splits)
    then show ?thesis using ad by (auto elim: addsE)
  qed
qed

lemma sound_add:
  assumes ad: "adds e g M l x M'" and so: "sound g M V y"
  shows "sound (advance_by e g) M' V y"
proof -
  have y: "y \<in> exposed g" using so by (simp add: sound_def)
  have "l \<noteq> Fields y" using ad by (rule addsE) (use y in auto)
  then have "M' (Fields y) = M (Fields y)" by (simp add: adds_eq [OF ad])
  moreover have "y \<in> exposed (advance_by e g)" using y exposed_grows by blast
  ultimately show ?thesis using so links_add [OF ad] by (simp add: sound_def newest_def)
qed

lemma arrayed_add:
  assumes ad: "adds e g M l x M'" and ar: "arrayed g M V k"
  shows "arrayed (advance_by e g) M' V k"
proof -
  obtain n where n: "sizes g k = Some n" "n \<noteq> 0" "newest M (Size k) \<le> V (Size k)" "mval (last (M (Size k))) = Buckets n"
    "\<forall>i < unat n. links M V (BucketHead k i)" using ar by (auto simp: arrayed_def)
  have "l \<noteq> Size k \<and> sizes (advance_by e g) k = Some n" using ad by (rule addsE) (use n(1) in auto)
  then have "Size k \<noteq> l" "sizes (advance_by e g) k = Some n" by blast+
  then have "M' (Size k) = M (Size k)" "sizes (advance_by e g) k = Some n" by (simp_all add: adds_eq [OF ad])
  then show ?thesis using n links_add [OF ad] unfolding arrayed_def newest_def by auto
qed

lemma carries_add: "adds e g M l x M' \<Longrightarrow> carries g M V v \<Longrightarrow> carries (advance_by e g) M' V v"
  using sound_add arrayed_add by (cases "(g, M, V, v)" rule: carries.cases) fastforce+

lemma relies_add: "adds e g M l x M' \<Longrightarrow> relies key g M V q \<Longrightarrow> relies key (advance_by e g) M' V q"
  using sound_add arrayed_add links_add exposed_grows [of g e] by (cases q) (auto 0 3)

lemma written_add:
  assumes "adds e g M l x M'"
  shows "written (advance_by e g) M'"
proof -
  have w: "written g M" and M': "M' = M(l := M l @ [x])" using assms by (simp_all add: adds_def)
  show ?thesis using assms
  proof (cases rule: addsE)
    case (3 k n)
    have "j < Suc k" if "sizes g j = Some n'" for j n' using 3(5) [of j] that by simp
    then show ?thesis using w 3(1-3) unfolding M' by (auto simp: written_def)
  qed (use w in \<open>auto simp: written_def M'\<close>)
qed

text \<open>The new message releases all that the writer knows, and that is enough.\<close>

lemma links_written:
  assumes "written g M" and "M (Next a) \<noteq> []" and "a \<in> linked g"
  shows "links M (newest M) a"
proof -
  have "\<exists>p. mval (last (M (Next a))) = Pointer p" using assms(1,3) by (simp add: written_def)
  then show ?thesis using links_newest [of M a] assms(2) by blast
qed

lemma carries_new:
  assumes ad: "adds e g M l x M'"
  shows "carries (advance_by e g) M' (newest M') (mval x)"
proof -
  have ne: "M' a \<noteq> []" for a using ad by (auto simp: adds_def messages_def)
  have w: "written (advance_by e g) M'" by (rule written_add [OF ad])
  note lk = links_written [OF w ne]
  from ad show ?thesis
  proof (cases rule: addsE)
    case (1 a p)
    have "sound (advance_by e g) M' (newest M') y" if "p = Some y" for y
      using 1(1) 1(4) [OF that] that lk [of y] w unfolding sound_def written_def by simp
    then show ?thesis using 1(3) by (cases p) simp_all
  next
    case (4 k n)
    have "mval (last (M' (Size k))) = Buckets n" using w 4(1,4) by (simp add: written_def)
    then have "arrayed (advance_by e g) M' (newest M') k" using 4(1,4-6) lk unfolding arrayed_def by auto
    then show ?thesis using 4(3) by simp
  qed simp_all
qed

lemma messages_add:
  assumes ad: "adds e g M l x M'" and rel: "mview x = newest M' \<or> (\<forall>V. carries (advance_by e g) M' V (mval x))"
  shows "messages (advance_by e g) M'"
proof -
  have old: "messages g M" and M': "M' = M(l := M l @ [x])" using ad by (simp_all add: adds_def)
  have "carries (advance_by e g) M' (mview x) (mval x)" using carries_new [OF ad] rel by auto
  moreover have "carries (advance_by e g) M' (mview z) (mval z)" if "z \<in> set (M a)" for z a
    using old that carries_add [OF ad] by (auto simp: messages_def)
  moreover have "l = Root \<Longrightarrow> \<exists>q. mval x = Block q" using ad by (rule addsE) auto
  ultimately show ?thesis using old by (auto simp: messages_def M')
qed

lemma writeOrderedE:
  assumes "writeOrdered e M V = (M', V')" and "V = newest M"
  obtains "slot e = None" "M' = M" "V' = V"
  | ord l x where "slot e = Some (ord, l, mval x)" "M' = M(l := M l @ [x])" "V' = newest M'"
      "ord = Release \<Longrightarrow> mview x = newest M'"
proof (cases "slot e")
  case None
  then have "M' = M" "V' = V" using assms(1) by (simp_all add: writeOrdered_def)
  then show ?thesis using that(1) None by blast
next
  case (Some b)
  obtain ord l v where b: "b = (ord, l, v)" by (cases b)
  let ?V = "V(l := length (M l))"
  let ?x = "\<lparr>mval = v, mview = if releases ord then ?V else (\<lambda>_. 0)(l := length (M l))\<rparr>"
  have m: "M' = M(l := M l @ [?x])" "V' = ?V" using assms(1) Some b by (auto simp: writeOrdered_def atomicStore_def Let_def)
  moreover have "?V = newest (M(l := M l @ [?x]))" using assms(2) by (simp add: newest_def fun_eq_iff)
  ultimately have "V' = newest M'" by simp
  moreover have "ord = Release \<Longrightarrow> mview ?x = newest M'" using calculation m(2) by (simp add: releases_def)
  moreover have "slot e = Some (ord, l, mval ?x)" using Some b by simp
  ultimately show ?thesis using m(1) by (intro that(2))
qed

lemma write_inv:
  assumes inv: "tableInv key X s" and st: "tact key hf Put s = Some s'"
  shows "tableInv key X s'"
proof -
  obtain g where g: "publishes (twork s) g" "exposed (fold advance_by (twork s) g) \<subseteq> X" "twview s = newest (tmem s)"
    "messages g (tmem s)" "written g (tmem s)" "\<forall>i. relies key g (tmem s) (trviews s i) (tsearch s i)"
    using inv by (auto simp: tableInv_def)
  obtain e es where t: "twork s = e # es" using st by (auto split: list.splits)
  obtain M V where mv: "writeOrdered e (tmem s) (twview s) = (M, V)" by fastforce
  have s': "s' = s\<lparr>tmem := M, twview := V, twork := es\<rparr>" using st t mv by simp
  have pr: "proper e g" "publishes es (advance_by e g)" "exposed (fold advance_by es (advance_by e g)) \<subseteq> X"
    using g(1,2) t by simp_all
  from mv g(3) show ?thesis
  proof (cases rule: writeOrderedE)
    case 1
    then have "advance_by e g = g" by (cases e) simp_all
    then show ?thesis using pr g(3-6) 1 unfolding tableInv_def s' by (intro exI [of _ g]) simp
  next
    case (2 ord l x)
    have ad: "adds e g (tmem s) l x M" using 2(1,2) pr(1) g(4,5) unfolding adds_def by blast
    have "mview x = newest M \<or> (\<forall>V. carries (advance_by e g) M V (mval x))" using 2(1,4) by (cases e) (auto dest!: sym [of _ "mval x"])
    note new = messages_add [OF ad this] written_add [OF ad]
    have "\<forall>i. relies key (advance_by e g) M (trviews s i) (tsearch s i)" using g(6) relies_add [OF ad] by blast
    then show ?thesis using pr(2,3) new 2(3) unfolding tableInv_def s' by (intro exI [of _ "advance_by e g"]) simp
  qed
qed

subsection \<open>A load\<close>

lemma load_acquires:
  assumes "atomicLoad Acquire l t M V = Some (x, V')" and ms: "messages g M"
  shows "V \<le> V'" "carries g M V' x" "t < length (M l)" "V l \<le> t" "x = mval (M l ! t)"
proof -
  have t: "V l \<le> t" "t < length (M l)" "x = mval (M l ! t)" "V' = join (V(l := t)) (mview (M l ! t))"
    using assms(1) by (auto simp: atomicLoad_def acquires_def split: if_splits)
  then show "t < length (M l)" "V l \<le> t" "x = mval (M l ! t)" by simp_all
  show "V \<le> V'" using t(1,4) by (simp add: le_fun_def join_apply)
  have v: "mview (M l ! t) \<le> V'" using t(4) join_ge(2) by simp
  have "M l ! t \<in> set (M l)" using t(2) by simp
  then have "carries g M (mview (M l ! t)) x" using ms t(3) unfolding messages_def by blast
  then show "carries g M V' x"
    using v sound_mono arrayed_mono by (cases "(g, M, V', x)" rule: carries.cases) fastforce+
qed

lemma plainLoad_newest: "M l \<noteq> [] \<Longrightarrow> newest M l \<le> V l \<Longrightarrow> plainLoad l M V = Some (mval (last (M l)))"
  by (simp add: plainLoad_def)

lemma hash_and_less: "n \<noteq> 0 \<Longrightarrow> unat (h AND (n - 1)) < unat n" for n :: u64
  by (metis measure_unat not_less_iff_gr_or_eq order_le_less_trans word_and_le1 word_le_nat_alt)

lemma readOrdered_relies:
  assumes rd: "readOrdered key hf t M V q = Some (q', V')" and rl: "relies key g M V q" and ms: "messages g M"
  shows "relies key g M V' q'"
proof (cases q)
  case (Loaded k b)
  then obtain n where n: "n \<noteq> 0" "newest M (Size b) \<le> V (Size b)" "mval (last (M (Size b))) = Buckets n"
    "\<forall>i < unat n. links M V (BucketHead b i)" using rl by (auto simp: arrayed_def)
  have "plainLoad (Size b) M V = Some (Buckets n)" using plainLoad_newest [of M "Size b" V] n(2,3) ms by (simp add: messages_def)
  then have "q' = At k (BucketHead b (unat (hf k AND (n - 1))))" "V' = V"
    using rd Loaded hash_and_less [OF n(1)] by (simp_all add: Let_def)
  then show ?thesis using n(4) hash_and_less [OF n(1)] by simp
next
  case (At k a)
  then obtain x where x: "atomicLoad Acquire (Next a) t M V = Some (x, V')"
    "q' = (case x of Pointer None \<Rightarrow> Miss k | Pointer (Some y) \<Rightarrow> Visit k y | _ \<Rightarrow> Fault k)" using rd by (auto split: bind_splits)
  note l = load_acquires [OF x(1) ms]
  obtain p where "x = Pointer p" using rl At l(3-5) by (auto simp: links_def)
  then show ?thesis using x(2) l(2) by (cases p) simp_all
next
  case (Visit k y)
  then have y: "sound g M V y" using rl by simp
  then obtain h where "mval (last (M (Fields y))) = Hash h" "newest M (Fields y) \<le> V (Fields y)" by (auto simp: sound_def)
  then have "plainLoad (Fields y) M V = Some (Hash h)" using plainLoad_newest [of M "Fields y" V] ms by (simp add: messages_def)
  then have "q' = (if key y = k then Hit k y else At k y)" "V' = V" using rd Visit by simp_all
  then show ?thesis using y by (simp add: sound_def)
qed (use rd in simp_all)

lemma openOrdered_relies:
  assumes op: "openOrdered k t M V = Some (q, V')" and ms: "messages g M"
  shows "relies key g M V' q"
proof -
  obtain x where x: "atomicLoad Acquire Root t M V = Some (x, V')" "q = (case x of Block (Some b) \<Rightarrow> Loaded k b | _ \<Rightarrow> Fault k)"
    using op by (auto simp: openOrdered_def split: bind_splits)
  note l = load_acquires [OF x(1) ms]
  have "M Root ! t \<in> set (M Root)" using l(3) by simp
  then obtain p where "x = Block p" using ms l(5) unfolding messages_def by blast
  then show ?thesis using x(2) l(2) by auto
qed

lemma tstep_inv:
  assumes "tstep key hf s s'" and inv: "tableInv key X s"
  shows "tableInv key X s'"
proof -
  obtain a where a: "tact key hf a s = Some s'" using assms(1) by (auto simp: tstep_def)
  have read: "tableInv key X (s\<lparr>tsearch := (tsearch s)(i := q), trviews := (trviews s)(i := V)\<rparr>)"
    if "\<And>g. messages g (tmem s) \<Longrightarrow> relies key g (tmem s) (trviews s i) (tsearch s i) \<Longrightarrow> relies key g (tmem s) V q" for i q V
    using inv that unfolding tableInv_def by fastforce
  show ?thesis
  proof (cases a)
    case Put
    then show ?thesis using write_inv [OF inv] a by simp
  next
    case (Open i k t)
    then obtain q V where "openOrdered k t (tmem s) (trviews s i) = Some (q, V)"
      "s' = s\<lparr>tsearch := (tsearch s)(i := q), trviews := (trviews s)(i := V)\<rparr>" using a by (auto split: bind_splits if_splits)
    then show ?thesis using read [OF openOrdered_relies [of k t "tmem s" "trviews s i" q V]] by simp
  next
    case (Fetch i t)
    then obtain q V where "readOrdered key hf t (tmem s) (trviews s i) (tsearch s i) = Some (q, V)"
      "s' = s\<lparr>tsearch := (tsearch s)(i := q), trviews := (trviews s)(i := V)\<rparr>" using a by (auto split: bind_splits)
    then show ?thesis using read [OF readOrdered_relies [of key hf t "tmem s" "trviews s i" "tsearch s i" q V]] by simp
  qed
qed

lemma tsteps_inv:
  assumes "(tstep key hf)\<^sup>*\<^sup>* s s'" and "tableInv key X s"
  shows "tableInv key X s'"
  using assms by (induction rule: rtranclp_induct) (blast intro: tstep_inv)+

subsection \<open>The start\<close>

lemma start_inv:
  assumes tb: "table m t j B" and F: "\<And>x. F (key x) = Some x \<longleftrightarrow> x \<in> set (concat B)"
    and pub: "publishes es (progressOf t m (set (concat B)))"
    and ex: "exposed (fold advance_by es (progressOf t m (set (concat B)))) \<subseteq> X"
  shows "tableInv key X (tstart key F t m es)"
proof -
  let ?g = "progressOf t m (set (concat B))" and ?s = "tstart key F t m es"
  obtain k where k: "tracked ?g m" "pBucketsInfo t = Some k" "usable ?g m k" using tabled_start [OF tb] by (auto simp: tabled_def)
  obtain n where n: "blocks m k = Some n" "n \<noteq> 0" "k < nextBlock ?g" using k by (auto simp: usable_def ready_def tracked_def)
  have M: "tmem ?s l = [\<lparr>mval = initially key F t m l, mview = (\<lambda>_. 0)\<rparr>]" for l by (simp add: tstart_def)
  have node: "isNode x" if "x \<in> set (concat B)" for x using k(1) that by (auto simp: tracked_def progressOf_def)
  have nxt: "initially key F t m (Next a) = Pointer (nxt m a)" if "a \<in> linked ?g" for a
  proof (cases "a \<in> set (concat B)")
    case True
    then have "F (key a) = Some a" "isNode a" using F node by blast+
    then show ?thesis by (cases a) (simp_all add: isNode_def)
  next
    case False
    then show ?thesis using that by (auto simp: progressOf_def simp del: set_concat)
  qed
  have fields: "initially key F t m (Fields x) = Hash (hashOf m x)" if "x \<in> filled ?g" for x using that F by (simp add: progressOf_def)
  have size: "initially key F t m (Size i) = Buckets n'" if "sizes ?g i = Some n'" for i n'
    using that by (auto simp: progressOf_def split: if_splits)
  have lk: "links (tmem ?s) V a" if "a \<in> linked ?g" for a V using nxt [OF that] by (auto simp: links_def M)
  have sound: "sound ?g (tmem ?s) V y" if "y \<in> exposed ?g" for y V
  proof -
    have "y \<in> filled ?g" "y \<in> linked ?g" using that k(1) unfolding tracked_def by blast+
    then show ?thesis using that fields lk unfolding sound_def M newest_def by simp
  qed
  have "arrayed ?g (tmem ?s) V k" for V
    using k(3) n lk size [of k n] unfolding arrayed_def usable_def ready_def by (auto simp: M newest_def)
  moreover have "sound ?g (tmem ?s) V y" if "initially key F t m (Next a) = Pointer (Some y)" for a y V
  proof -
    have "a \<in> linked ?g \<and> nxt m a = Some y"
    proof (cases a)
      case (NodeHead x)
      then show ?thesis using that F by (auto simp: progressOf_def simp del: set_concat split: if_splits)
    next
      case (BucketHead b i)
      then show ?thesis using that by (auto simp: progressOf_def split: if_splits option.splits)
    qed
    then show ?thesis using sound loaded [OF k(1)] by blast
  qed
  ultimately have "carries ?g (tmem ?s) V (initially key F t m l)" for V l
  proof (cases l)
    case (Next a)
    have "initially key F t m (Next a) = Garbage \<or> initially key F t m (Next a) = Pointer (nxt m a)" by (cases a) simp_all
    moreover have "carries ?g (tmem ?s) V (Pointer p)" if "initially key F t m (Next a) = Pointer p" for p
      using that \<open>\<And>a y V. initially key F t m (Next a) = Pointer (Some y) \<Longrightarrow> sound ?g (tmem ?s) V y\<close> by (cases p) simp_all
    ultimately show ?thesis using Next by (metis carries.simps(6))
  qed (auto simp: k(2) simp del: set_concat split: option.splits)
  then have "messages ?g (tmem ?s)" by (auto simp: messages_def M)
  moreover have "written ?g (tmem ?s)" using nxt fields size k(1) by (auto simp: written_def M tracked_def)
  moreover have "twview ?s = newest (tmem ?s)" by (simp add: tstart_def newest_def fun_eq_iff)
  moreover have "tsearch ?s i = Idle" "twork ?s = es" for i by (simp_all add: tstart_def)
  ultimately show ?thesis using pub ex unfolding tableInv_def by (intro exI [of _ ?g]) simp
qed

lemma legal_inserted: "legal key isNode rs F \<Longrightarrow> e \<in> set (inserted rs) \<Longrightarrow> isNode e"
proof (induction rs arbitrary: F)
  case (Cons r rs)
  then show ?case by (cases r) auto
qed simp

lemma serving_ordered:
  assumes sv: "serving reg key hf F rs (T, m) es" and dis: "distinct (inserted rs)"
    and new: "\<forall>e \<in> set (inserted rs). F (key e) \<noteq> Some e"
  shows "tableInv key ({x. F (key x) = Some x} \<union> set (inserted rs)) (tstart key F (core T) m es)"
proof -
  obtain j B where B: "table m (core T) j B" "keyed key hf (absTable m B) F"
    using sv by (auto simp: serving_def holdsTable_def)
  have F: "F (key x) = Some x \<longleftrightarrow> x \<in> set (concat B)" for x using B(2) dom_absTable [of x m B] unfolding keyed_def by blast
  obtain as T' m' where run: "table_requests reg key hf rs (T, m) = Some (as, T', m')" "trace m' = trace m @ es"
    using sv by (auto simp: serving_def)
  let ?g = "progressOf (core T) m (set (concat B))"
  have ex: "exposed ?g = set (concat B)" by (simp add: progressOf_def)
  have "set (inserted rs) \<inter> exposed ?g = {}" using new F ex by blast
  moreover have "\<forall>e \<in> set (inserted rs). isNode e" using sv legal_inserted by (auto simp: serving_def)
  ultimately obtain g' es' where g: "exposed g' \<subseteq> exposed ?g \<union> set (inserted rs)" "wrote m es' m'" "publishes es' ?g" "g' = fold advance_by es' ?g"
    using history_publishes [OF tabled_start [OF B(1)] dis _ _ run(1)] unfolding Publication.published_def by blast
  have "es' = es" using wrote_trace [OF g(2)] run(2) by simp
  moreover have "set (concat B) = {x. F (key x) = Some x}" using F by blast
  ultimately have "exposed (fold advance_by es ?g) \<subseteq> {x. F (key x) = Some x} \<union> set (inserted rs)" "publishes es ?g" using g(1,3,4) ex by simp_all
  then show ?thesis using start_inv [of m "core T" j B F key es] B(1) F by simp
qed

subsection \<open>A concrete run\<close>

text \<open>The empty table of one bucket, and a writer that inserts the node 4 into it.\<close>

definition exEmpty :: RTable where
  "exEmpty = exServed\<lparr>core := (core exServed)\<lparr>tsize := 0\<rparr>\<rparr>"

definition exEmptyMem :: mem where
  "exEmptyMem = exMem\<lparr>nxt := (\<lambda>_. None)\<rparr>"

definition exInsertion :: "event list" where
  "exInsertion = [EHash (NodeHead 4) 0, EStore (NodeHead 4) None, EStore (BucketHead 0 0) (Some (NodeHead 4))]"

lemma exEmpty_holds: "holdsTable exReg exKey (\<lambda>_. 0) (Suc 0) (exEmpty, exEmptyMem) Map.empty"
proof -
  have a: "absTable exEmptyMem [[]] = Map.empty" by (simp add: absTable_def fun_eq_iff)
  have "table exEmptyMem (core exEmpty) 0 [[]]" using exMem_table
    by (simp add: table_def buckets_at_def bucket_ok_def slist_def exEmpty_def exServed_def exEmptyMem_def exTable_def freshTable_def exMem_def fresh_blocks_def)
  moreover have "quiet exReg (Suc 0 * 2 ^ 25) (rcuZone exEmpty)" by (simp add: exEmpty_def exServed_def exZone_quiet)
  moreover have "unat (tsize (core exEmpty)) = 0" by (simp add: exEmpty_def)
  ultimately show ?thesis unfolding holdsTable_def prod.case
    by (intro exI [of _ 0] exI [of _ "[[]]"]) (simp add: a keyed_def, simp add: exEmpty_def exServed_def)
qed

lemma exInsert_serving: "serving exReg exKey (\<lambda>_. 0) Map.empty [Insert (NodeHead 4)] (exEmpty, exEmptyMem) exInsertion"
proof -
  let ?t = "(core exEmpty)\<lparr>tsize := 1\<rparr>" and ?m = "fold emit exInsertion exEmptyMem"
  have b: "bucketFor (core exEmpty) 0 (emit (EHash (NodeHead 4) 0) exEmptyMem) = Some (BucketHead 0 0)" by code_simp
  have i: "rTableCoreTryInsertNoExpand (core exEmpty) (NodeHead 4) 0 (\<lambda>x y. exKey x = exKey y) exEmptyMem = Some (True, ?t, ?m)"
    by (simp add: rTableCoreTryInsertNoExpand_def b rcuSlistPrependIfNoMatch_def matchLoop.simps Let_def exInsertion_def)
       (simp add: exEmptyMem_def exEmpty_def)
  have f: "f32_less (f32_mul (expandFactor ?t) (f32_of_u64 1)) (f32_of_u64 1) = False"
    using expand_test [of 0 1] by (simp add: exEmpty_def exServed_def)
  have t: "pBucketsInfo ?t = Some 0" "tsize ?t = 1" "blocks ?m 0 = Some 1"
    by (simp_all add: exEmpty_def exServed_def exTable_def freshTable_def exEmptyMem_def exMem_def exInsertion_def)
  have "expandBucketsByFac2IfNecessary (rcuSynchronize exReg) 1 1 ?t ?m (rcuZone exEmpty) = Some (?t, ?m, rcuZone exEmpty)"
    unfolding expandBucketsByFac2IfNecessary_def f by simp
  then have "rTableTryInsert exReg exEmpty (NodeHead 4) 0 (\<lambda>x y. exKey x = exKey y) exEmptyMem = Some (True, exEmpty\<lparr>core := ?t\<rparr>, ?m)"
    unfolding rTableTryInsert_def rTableCoreTryInsert_def i Let_def Option.bind.bind_lunit prod.case t by simp
  moreover have "trace ?m = trace exEmptyMem @ exInsertion" by (rule wrote_trace) (simp add: wrote_def)
  ultimately show ?thesis using exEmpty_holds by (simp add: serving_def insertNode_def isNode_def)
qed

text \<open>
  All writes are made; then thread 0 loads the new pointer and finds the node, while thread 1 still loads
  the null pointer that was there before.
\<close>

definition exStale :: "nat ordtable option" where
  "exStale = for_list (tact exKey (\<lambda>_. 0))
     ([Put, Put, Put, Open 0 4 0, Fetch 0 0, Fetch 0 1, Fetch 0 0, Open 1 4 0, Fetch 1 0, Fetch 1 0])
     (tstart exKey Map.empty (core exEmpty) exEmptyMem exInsertion)"

subsection \<open>Property\<close>

text \<open>
  C11.  Lookups under the memory orders of the code, for any history of table operations in which every
  inserted node is new: whatever old messages the loads return, and with all doublings and halvings going
  on, no lookup dereferences null, reads uninitialised memory, leaves its bucket array or races with a
  plain store; what it finds has the key and was in the table at the start or has been inserted.
\<close>

theorem lookups_race_free:
  assumes "serving reg key hf F rs (T, m) es" and "distinct (inserted rs)" and "\<forall>e \<in> set (inserted rs). F (key e) \<noteq> Some e"
    and "(tstep key hf)\<^sup>*\<^sup>* (tstart key F (core T) m es) s"
  shows "tsearch s i \<noteq> Fault k \<and> (tsearch s i = Hit k y \<longrightarrow> key y = k \<and> (F k = Some y \<or> y \<in> set (inserted rs)))"
proof -
  obtain g where g: "exposed (fold advance_by (twork s) g) \<subseteq> {x. F (key x) = Some x} \<union> set (inserted rs)"
    "relies key g (tmem s) (trviews s i) (tsearch s i)"
    using tsteps_inv [OF assms(4) serving_ordered [OF assms(1-3)]] unfolding tableInv_def by blast
  have "y \<in> exposed g \<Longrightarrow> F (key y) = Some y \<or> y \<in> set (inserted rs)" using g(1) exposed_fold [of g "twork s"] by blast
  then show ?thesis using g(2) by auto
qed

theorem lookups_race_free_witness:
  "\<exists>s. exStale = Some s \<and> tsearch s 0 = Hit 4 (NodeHead 4) \<and> NodeHead 4 \<in> set (inserted [Insert (NodeHead 4) :: (nat, loc) request])
    \<and> tsearch s 1 = Miss 4"
proof -
  have "map_option (\<lambda>s. (tsearch s 0, tsearch s 1)) exStale = Some (Hit 4 (NodeHead 4), Miss 4)" by code_simp
  then obtain s where s: "exStale = Some s" "tsearch s 0 = Hit 4 (NodeHead 4)" "tsearch s 1 = Miss 4" by auto
  have "(tstep exKey (\<lambda>_. 0))\<^sup>*\<^sup>* (tstart exKey Map.empty (core exEmpty) exEmptyMem exInsertion) s"
    using s(1) unfolding exStale_def by (rule for_list_reach) (auto simp: tstep_def simp del: tact.simps)
  then have "tsearch s 0 = Hit 4 (NodeHead 4) \<longrightarrow> NodeHead 4 \<in> set (inserted [Insert (NodeHead 4) :: (nat, loc) request])"
    using lookups_race_free [OF exInsert_serving, of s 0 4 "NodeHead 4"] by simp
  then show ?thesis using s by blast
qed

end
