(* ===== verification/Spec2Isabelle.thy ===== *)
theory Spec2Isabelle
  imports MainProgram ComparisonRun FencedBenchmark StoreBuffer OrderedTable
begin

text \<open>
  A verification development of the relativistic hash table (\<open>Relativistic_Hash_Table/\<close>): a hash
  table with one writer and any number of readers, which readers traverse without locks while the
  writer inserts, removes, doubles and halves; the RCU zone whose grace periods make that safe; two
  RCU lists; and the programs that test them.

  \<^bold>\<open>The parts and how they interact.\<close>  A reader brackets a lookup with \<open>rcuReadLock\<close> and
  \<open>rcuReadUnlock\<close> (\<open>RCU.cpp\<close>), which count it in one of two rows of counters.  The writer publishes a
  change with single stores; before it lets go of a node or of a bucket array it calls
  \<open>rcuSynchronize\<close>, which moves the epoch on and waits for the old row to drain.  The table
  (\<open>RCUHashTable.cpp\<close>, \<open>RCUHashTableCoreApi.h\<close>, \<open>RCUHashTableApi.h\<close>) is an array of RCU singly linked
  lists (\<open>RcuSinglyLinkedListApi.h\<close>) behind an atomic pointer.  The doubly linked list
  (\<open>RcuDoublyLinkedListApi.h\<close>) is independent of the table.

  \<^bold>\<open>Conventions.\<close>  The result of a piece of code is an option; \<open>None\<close> is ``does not return normally'':
  a loop without end, a failed assertion or a throw, the dereference of null or of freed memory, a
  signed overflow.  Theorems about operations therefore state \<open>Some\<close>.  Machine integers are words of
  the code's width; loops that follow pointers or spin are \<open>partial_function (option)\<close>, so there is no
  fuel, and every theorem that an operation returns is a termination proof.  What the operating
  system or the standard library decides (\<open>hardware_concurrency\<close>, the hash of a thread id, \<open>std::hash\<close>,
  random draws) is an argument over which the theorems quantify.  Callbacks are arguments too.

  \<^bold>\<open>Theories.\<close>
  \<^item> \<open>Prelude\<close>: options, counted loops, lists along a \<open>next\<close> field, invariants of step relations.
  \<^item> \<open>PowerOf2\<close>: both copies of \<open>upperBoundPowerOf2\<close>; least power of two, wrap-around above \<open>2 ^ 31\<close>.
  \<^item> \<open>RcuZone\<close>: \<open>RCU.cpp\<close> and \<open>RCUTypes.h\<close> run by one thread at a time: registration, zones, lock, unlock,
    \<open>rcuSynchronize\<close>; when it returns, that registered ids are distinct, and that their counter wraps.
  \<^item> \<open>RcuProtocol\<close>: the same functions one atomic access per step, interleaved: the grace-period
    theorem, the exactness of the counts, progress of readers and writer, and the refinements that
    tie the steps to the functions of \<open>RcuZone\<close>.
  \<^item> \<open>Memory\<close>, \<open>Slist\<close>: the memory of lists and tables, with a ghost log of the writer's stores, and
    \<open>RcuSinglyLinkedListApi.h\<close> over it: what each operation stores, and that each is atomic for readers.
  \<^item> \<open>Float32\<close>: the binary32 arithmetic of the load-factor tests.
  \<^item> \<open>TableCore\<close>: the table at a fixed size (\<open>rTableCoreInitDetailed\<close>, find, insert, detach), as a
    refinement of a finite map from nodes to hash values; when initialisation fails.
  \<^item> \<open>Resize\<close>, \<open>Expand\<close>, \<open>Shrink\<close>: \<open>expandBucketsByFac2ReturnOld\<close> with its unzipping,
    \<open>shrinkBucketsByFac2ReturnOld\<close>, and their effect on a well-formed table.
  \<^item> \<open>TableApi\<close>: the operations that resize by themselves and \<open>RTable\<close>, which owns a zone: functional
    behaviour, refinement, preservation of well-formedness, the load-factor threshold.
  \<^item> \<open>Dictionary\<close>: the contract a user relies on, as a locale: a finite map from keys to nodes.
  \<^item> \<open>Readers\<close>, \<open>Concurrent\<close>, \<open>Relativistic\<close>, \<open>ConcurrentTable\<close>: lookups one shared access at a time; the
    system of readers, protocol and writer; every operation of the table seen as a sequence of
    writes that never leads a reader astray; hence exact lookups, safe reclamation and progress on
    every interleaving.
  \<^item> \<open>ManualTable\<close>: the laws of the advanced interface and what readers see of any sequence of operations.
  \<^item> \<open>Dlist\<close>: \<open>RcuDoublyLinkedListApi.h\<close>, its operations and its four kinds of iterators.
  \<^item> \<open>Ownership\<close>: which bucket arrays are live: each operation that returns leaves the table with
    exactly its current one, and the destructor frees that.
  \<^item> \<open>Client\<close>, \<open>QuickExample\<close> (\<open>main.cpp\<close>), \<open>TableTests\<close>, \<open>UsageStress\<close>, \<open>HashMapComparison\<close>, \<open>DlistTest\<close>
    (\<open>RCUTableTests.cpp\<close>): the programs that use the table and the lists, writers and readers; their
    assertions and exceptions are shown never to fire.  \<open>TestProgram\<close>: these programs in the order of
    \<open>rTableTests\<close>; they end, and no bucket array is left.
  \<^item> \<open>Locks\<close>, \<open>SetComparison\<close>: \<open>std::mutex\<close> and \<open>std::shared_mutex\<close>, and the \<open>std::unordered_set\<close> guarded
    by them that the table is compared with.  \<open>Timer\<close> (\<open>TestHelper.h\<close>), \<open>ComparisonRun\<close>: the comparison as a whole, with
    what its timers report.
  \<^item> \<open>Benchmark\<close>, \<open>RegisterBenchmark\<close>, \<open>BenchmarkRun\<close> (\<open>RCUTests.cpp\<close>): \<open>fRCU\<close>; \<open>fRCURegister\<close> with the
    registration of its readers and their latch; both phases after one another on one zone, up to its
    release.  \<open>LockBenchmark\<close>: \<open>fSharedMutex\<close>, \<open>fMutex\<close> and the leak in \<open>fReadOnly\<close>.  \<open>PtrBenchmark\<close>:
    \<open>fAtomicSharedPtr\<close> with the reference counts, and the overflow in \<open>func\<close>.  \<open>BenchmarkPhases\<close>: \<open>fReadOnly\<close>, and that each
    of these phases can be run to its end and what it leaves.  \<open>BenchmarkSuite\<close>: \<open>RCUBenchmark::run\<close> and
    \<open>rcuTests\<close>, which leak 421 values.
  \<^item> \<open>MainProgram\<close> (\<open>main.cpp\<close>): \<open>main\<close>.
  \<^item> \<open>ViewMachine\<close>, \<open>OrderedBenchmark\<close>, \<open>FencedBenchmark\<close>: atomic accesses with memory orders, as messages
    and views; the RCU functions and the threads of \<open>fRCU\<close> with the orders of the code.  Acquire and
    release alone let \<open>rcuSynchronize\<close> return too early; with increments that are full fences, as on x86,
    the protocol is safe.  \<open>StoreBuffer\<close>: the table on a machine with store buffers.
  \<^item> \<open>Publication\<close>, \<open>OrderedTable\<close>: in which order the operations of the table write what a pointer leads to and
    the pointer itself; hence lookups under acquire and release never race and never meet garbage.

  \<^bold>\<open>Interfaces.\<close>  \<open>synchronizer\<close> is what resizing needs of a grace period; \<open>TableApi\<close> interprets it on
  \<open>rcuSynchronize\<close>.  \<open>dictionary\<close> is what users need of the table; \<open>Dictionary\<close> interprets it on the
  code's operations.  \<open>exclusive_guard\<close> is what a program guarded by a lock needs of it; \<open>Locks\<close> interprets
  it on both locks; \<open>LockBenchmark\<close> and \<open>SetComparison\<close> are its clients.  \<open>invariant_system\<close> is interpreted on every step relation.

  \<^bold>\<open>Bounds.\<close>  The map contract covers fewer than \<open>2 ^ 24\<close> operations, because \<open>float(nrBuckets)\<close> and the
  comparison with \<open>size\<close> are exact there, and \<open>size\<close> is never decremented by the code.  Therefore the
  long stress test is covered for 8 of its 3000 rounds.  Tables grow to
  at most \<open>2 ^ 30\<close> buckets, beyond which the \<open>int\<close> counter of \<open>allocateAndInitBuckets\<close> overflows.  A
  zone is \<open>quiet\<close> for \<open>n\<close> grace periods when no reader is counted in it and its epoch can be moved
  on \<open>n\<close> times without overflow; the budget of \<open>2 ^ 25\<close> per operation is above the number of elements,
  hence above the number of unzip rounds.  The loops of reader threads in the step relations of
  the RCU programs are not counted: a reader may go round any number of times.

  \<^bold>\<open>Not modelled.\<close>  Memory orders, outside \<open>OrderedBenchmark\<close>, \<open>FencedBenchmark\<close>, \<open>OrderedTable\<close> and
  \<open>StoreBuffer\<close>: the steps of all other theories interleave sequentially consistently.  That lookups are exact and
  that no freed node is used is shown there and with store buffers, not for acquire and release alone;
  a node that is detached and inserted again is left out of \<open>OrderedTable\<close>.  Allocation failure.  Console output, except the hash values
  that \<open>printRCUTable\<close> prints and the reports of \<open>Timer\<close>.
  \<open>rTableTryDetachNoShrink\<close>, whose body calls a function that does not exist, and \<open>rTableCoreInit\<close> and
  \<open>rTableInsertNoExpand\<close>, which are declared and defined nowhere.  The step relations of the benchmarks
  let \<open>func\<close> throw or return; that its product overflows is stated apart, in \<open>PtrBenchmark\<close>.
\<close>

subsection \<open>Properties that span components\<close>

text \<open>
  C13.  A table initialised by \<open>rTableInit\<close> and used by one thread serves every history of fewer than
  \<open>2 ^ 24\<close> requests as a finite map from keys to nodes does, through all its doublings and
  halvings: every insertion, lookup and removal ends and returns what the map returns.
\<close>

theorem table_history:
  assumes "unat nb \<le> 2 ^ 20" and "unat hc \<le> 2 ^ 20" and "unat (nrNonOverlappingBucketCount reg) \<le> 2 ^ 29"
    and "fresh_blocks m" and "length rs < 2 ^ 24" and "legal key isNode rs Map.empty"
  shows "\<exists>s s'. rTableInit reg hc freshRTable nb m = Some s \<and>
    requests (handle (findKey key hf) (insertNode reg key hf) (detachKey reg key hf)) rs s
      = Some (serveAll key rs Map.empty, s')"
proof -
  obtain s where s: "rTableInit reg hc freshRTable nb m = Some s"
    "holdsTable reg key hf (length rs + 0) s Map.empty"
    using rTableInit_holds [OF assms(1-5), of key hf] by auto
  then show ?thesis using tableDict.history_served [OF s(2) assms(6)] by blast
qed

theorem table_history_witness:
  "\<exists>s s'. rTableInit exReg 4 freshRTable 64 exMem = Some s \<and>
    requests (handle (findKey exKey of_nat) (insertNode exReg exKey of_nat) (detachKey exReg exKey of_nat))
      [Insert (NodeHead 11), Find 1, Insert (NodeHead 21), Detach 1, Find 1, Insert (NodeHead 21), Find 1] s
      = Some ([Inserted True, Found (Some (NodeHead 11)), Inserted False, Detached (Some (NodeHead 11)),
          Found None, Inserted True, Found (Some (NodeHead 21))], s')"
  using table_history [of 64 4 exReg exMem
      "[Insert (NodeHead 11), Find 1, Insert (NodeHead 21), Detach 1, Find 1, Insert (NodeHead 21), Find 1]" exKey of_nat]
  by (simp add: exReg_def fresh_blocks_def exMem_def isNode_def exKey_def)

end
